(* ===== verification/Prelude.thy ===== *)
theory Prelude
  imports Main "HOL-Library.Word"
begin

text \<open>
  The vocabulary every component shares: byte sequences, the fault values of the model, the
  sequencing of operations that may fault, and the generic facts on lists, words and
  characters.

  The program is C++: reading or writing outside an allocated block, following a null
  pointer, or converting a floating-point value to an integer type that cannot hold it has no
  defined result. The model never hides such an operation behind a total HOL function: an
  operation that may do one returns \<open>fault + 'a\<close> and \<open>Inl\<close> names what happened. An exception that
  nothing catches is the fault \<open>Uncaught\<close>, a recursion that does not end \<open>Runaway\<close>.
\<close>

section \<open>Types\<close>

type_synonym byte = "8 word"
type_synonym bytes = "byte list"
type_synonym u8 = "8 word"
type_synonym u16 = "16 word"
type_synonym u32 = "32 word"
type_synonym u64 = "64 word"

datatype fault = OutOfBounds | NullDeref | AssertFailed | BadConversion | Uncaught | Runaway

type_synonym 'a res = "fault + 'a"

section \<open>Collections of simplification rules\<close>

named_theorems res_simps "rules of operations that may fault"
named_theorems codec_simps "lengths and round trips of the byte codecs"

section \<open>Sequencing of operations that may fault\<close>

definition bindr :: "'a res \<Rightarrow> ('a \<Rightarrow> 'b res) \<Rightarrow> 'b res" where
  "bindr m f = (case m of Inl e \<Rightarrow> Inl e | Inr x \<Rightarrow> f x)"

lemma bindr_simps [simp, res_simps]:
  "bindr (Inl e) f = Inl e"
  "bindr (Inr x) f = f x"
  by (simp_all add: bindr_def)

lemma bindr_cong [fundef_cong]:
  "m = m' \<Longrightarrow> (\<And>x. m' = Inr x \<Longrightarrow> f x = f' x) \<Longrightarrow> bindr m f = bindr m' f'"
  by (cases m') (simp_all add: bindr_def)

lemma bindr_eq_Inr [res_simps]: "bindr m f = Inr y \<longleftrightarrow> (\<exists>x. m = Inr x \<and> f x = Inr y)"
  by (cases m) simp_all

lemma bindr_eq_Inl [res_simps]:
  "bindr m f = Inl e \<longleftrightarrow> m = Inl e \<or> (\<exists>x. m = Inr x \<and> f x = Inl e)"
  by (cases m) simp_all

lemma bindr_assoc: "bindr (bindr m f) g = bindr m (\<lambda>x. bindr (f x) g)"
  by (cases m) simp_all

lemma bindr_split:
  "P (bindr m f) \<longleftrightarrow> (\<forall>e. m = Inl e \<longrightarrow> P (Inl e)) \<and> (\<forall>x. m = Inr x \<longrightarrow> P (f x))"
  by (cases m) simp_all

text \<open>A check: go on when the condition holds, fault otherwise.\<close>

definition guardr :: "fault \<Rightarrow> bool \<Rightarrow> unit res" where
  "guardr e b = (if b then Inr () else Inl e)"

lemma guardr_simps [simp, res_simps]:
  "guardr e True = Inr ()"
  "guardr e False = Inl e"
  by (simp_all add: guardr_def)

lemma guardr_eq_Inr [res_simps]: "guardr e b = Inr u \<longleftrightarrow> b"
  by (simp add: guardr_def)

text \<open>Following a pointer that may be null.\<close>

definition deref :: "'a option \<Rightarrow> 'a res" where
  "deref p = (case p of None \<Rightarrow> Inl NullDeref | Some x \<Rightarrow> Inr x)"

lemma deref_simps [simp, res_simps]:
  "deref None = Inl NullDeref"
  "deref (Some x) = Inr x"
  by (simp_all add: deref_def)

lemma deref_eq_Inr [res_simps]: "deref p = Inr x \<longleftrightarrow> p = Some x"
  by (cases p) simp_all

lemma deref_eq_Inl [res_simps]: "deref p = Inl e \<longleftrightarrow> p = None \<and> e = NullDeref"
  by (cases p) auto

section \<open>Slices of a block of memory\<close>

text \<open>\<open>slice m i n\<close> is the block of \<open>n\<close> bytes at offset \<open>i\<close> of \<open>m\<close>, a fault when it is not
  inside \<open>m\<close>.\<close>

definition slice :: "bytes \<Rightarrow> nat \<Rightarrow> nat \<Rightarrow> bytes res" where
  "slice m i n = (if i + n \<le> length m then Inr (take n (drop i m)) else Inl OutOfBounds)"

lemma slice_Inr_iff [res_simps]:
  "slice m i n = Inr xs \<longleftrightarrow> i + n \<le> length m \<and> xs = take n (drop i m)"
  by (auto simp: slice_def)

lemma slice_Inl_iff [res_simps]: "slice m i n = Inl e \<longleftrightarrow> length m < i + n \<and> e = OutOfBounds"
  by (auto simp: slice_def)

lemma slice_length: "slice m i n = Inr xs \<Longrightarrow> length xs = n"
  by (auto simp: slice_def split: if_splits)

lemma slice_append: "slice m i n = Inr xs \<Longrightarrow> slice (m @ r) i n = Inr xs"
  by (auto simp: slice_def split: if_splits)

lemma take_drop_chain:
  "i \<le> length xs \<Longrightarrow> take i xs @ take n (drop i xs) = take (i + n) xs"
  by (simp add: take_add)

section \<open>Signed machine integers\<close>

text \<open>
  Counters and sizes of the program that are signed are kept as \<open>int\<close>; \<open>i32\<close> is the
  conversion to \<open>int32_t\<close>, \<open>u32_int\<close> the value after a conversion to \<open>uint32_t\<close>.
\<close>

definition i32 :: "int \<Rightarrow> int" where
  "i32 x = (x + 2 ^ 31) mod 2 ^ 32 - 2 ^ 31"

definition u32_int :: "int \<Rightarrow> int" where
  "u32_int x = x mod 2 ^ 32"

lemma i32_id [simp]: "- (2 ^ 31) \<le> x \<Longrightarrow> x < 2 ^ 31 \<Longrightarrow> i32 x = x"
  by (simp add: i32_def)

lemma i32_wrap: "2 ^ 31 \<le> x \<Longrightarrow> x < 2 ^ 32 \<Longrightarrow> i32 x = x - 2 ^ 32"
proof -
  assume a: "2 ^ 31 \<le> x" "x < 2 ^ 32"
  have "(x + 2 ^ 31) mod 2 ^ 32 = (x + 2 ^ 31 - 2 ^ 32) mod 2 ^ 32"
    by (rule minus_mod_self2 [symmetric])
  also have "\<dots> = x - 2 ^ 31"
    using a by (subst mod_pos_pos_trivial) simp_all
  finally show ?thesis by (simp add: i32_def)
qed

lemma i32_bounds: "- (2 ^ 31) \<le> i32 x" "i32 x < 2 ^ 31"
proof -
  have "0 \<le> (x + 2 ^ 31) mod 2 ^ 32" "(x + 2 ^ 31) mod 2 ^ 32 < 2 ^ 32"
    by simp_all
  then show "- (2 ^ 31) \<le> i32 x" "i32 x < 2 ^ 31"
    by (simp_all add: i32_def)
qed

lemma i32_idem [simp]: "i32 (i32 x) = i32 x"
  using i32_bounds [of x] by simp

lemma int_less_uint: "int n < uint w \<longleftrightarrow> n < unat w"
  using of_nat_less_iff [of n "unat w", where 'a = int] by simp

lemma int_le_uint: "int n \<le> uint w \<longleftrightarrow> n \<le> unat w"
  using of_nat_le_iff [of n "unat w", where 'a = int] by simp

lemma u32_int_bounds: "0 \<le> u32_int x" "u32_int x < 2 ^ 32"
  by (simp_all add: u32_int_def)

lemma u32_int_id [simp]: "0 \<le> x \<Longrightarrow> x < 2 ^ 32 \<Longrightarrow> u32_int x = x"
  by (simp add: u32_int_def)

section \<open>Characters as bytes\<close>

definition byte_of_char :: "char \<Rightarrow> byte" where
  "byte_of_char c = word_of_nat (of_char c)"

definition char_of_byte :: "byte \<Rightarrow> char" where
  "char_of_byte b = char_of (unat b)"

lemma of_char_lt: "(of_char c :: nat) < 256"
  using nat_of_char_less_256 by simp

lemma char_of_byte_of_char [simp]: "char_of_byte (byte_of_char c) = c"
  using of_char_lt [of c] by (simp add: char_of_byte_def byte_of_char_def unat_of_nat)

lemma byte_of_char_of_byte [simp]: "byte_of_char (char_of_byte b) = b"
proof -
  have "unat b < 256"
    using unsigned_less [of b] by simp
  then show ?thesis
    by (simp add: char_of_byte_def byte_of_char_def)
qed

abbreviation bytes_of_string :: "string \<Rightarrow> bytes" where
  "bytes_of_string s \<equiv> map byte_of_char s"

abbreviation string_of_bytes :: "bytes \<Rightarrow> string" where
  "string_of_bytes b \<equiv> map char_of_byte b"

lemma string_of_bytes_of_string [simp]: "string_of_bytes (bytes_of_string s) = s"
  by (simp add: comp_def)

lemma bytes_of_string_of_bytes [simp]: "bytes_of_string (string_of_bytes b) = b"
  by (simp add: comp_def)

end
