(* ===== verification/Config.thy ===== *)
theory Config
  imports Prelude
begin

unbundle bit_operations_syntax

text \<open>
  The configuration of \<open>src/utils/lssvc_config.cpp\<close>, \<open>lssvc_domain_info.cpp\<close> and
  \<open>lssvc_appinfo.cpp\<close>. The JSON library, the files and the directories are parameters; \<open>operator[]\<close>
  and \<open>get\<close>, which are \<open>jget\<close> and \<open>jdefault\<close>, and \<open>asString\<close>, \<open>asInt\<close> and \<open>asUInt\<close> return no
  value where the library throws, which nothing in the program catches.
\<close>

section \<open>What the program gets from outside\<close>

record 'j json_api =
  jget :: "'j \<Rightarrow> string \<Rightarrow> 'j option"
  jtext :: "string \<Rightarrow> 'j"
  jdefault :: "'j \<Rightarrow> string \<Rightarrow> 'j \<Rightarrow> 'j option"
  isNull :: "'j \<Rightarrow> bool"
  isArray :: "'j \<Rightarrow> bool"
  elements :: "'j \<Rightarrow> 'j list"
  asString :: "'j \<Rightarrow> string option"
  asInt :: "'j \<Rightarrow> int option"
  asUInt :: "'j \<Rightarrow> int option"

text \<open>A directory entry has a name and whether it is a regular file.\<close>

record 'j env =
  json :: "'j json_api"
  parseFile :: "string \<Rightarrow> 'j option"
  stat_mode :: "string \<Rightarrow> u32 option"
  readDir :: "string \<Rightarrow> (string \<times> bool) list option"

definition caught :: "'a option \<Rightarrow> 'a res" where
  "caught x = (case x of None \<Rightarrow> Inl Uncaught | Some y \<Rightarrow> Inr y)"

lemma caught_simps [simp, res_simps]: "caught None = Inl Uncaught" "caught (Some y) = Inr y"
  by (simp_all add: caught_def)

text \<open>A field that is taken over when it is there: the converted value, or the old one.\<close>

definition field :: "'j json_api \<Rightarrow> 'j \<Rightarrow> string \<Rightarrow> ('j \<Rightarrow> 'a option) \<Rightarrow> 'a \<Rightarrow> 'a res" where
  "field J root name conv old =
     bindr (caught (jget J root name)) (\<lambda>v. if \<not> isNull J v then caught (conv v) else Inr old)"

section \<open>Applications\<close>

record app_info =
  ai_name :: string
  max_buffer :: int
  rtmp_support :: bool
  flv_support :: bool
  hls_support :: bool
  content_latency_time :: int
  stream_idle_time :: int
  stream_timeout_time :: int

definition newAppInfo :: app_info where
  "newAppInfo = \<lparr>ai_name = [], max_buffer = 1000, rtmp_support = False, flv_support = False,
     hls_support = False, content_latency_time = 3 * 1000, stream_idle_time = 30 * 1000,
     stream_timeout_time = 30 * 1000\<rparr>"

definition switch :: "'j json_api \<Rightarrow> 'j \<Rightarrow> bool option" where
  "switch J j = map_option (\<lambda>s. s = ''on'') (asString J j)"

definition parseAppInfo :: "'j json_api \<Rightarrow> 'j \<Rightarrow> app_info \<Rightarrow> app_info res" where
  "parseAppInfo J root a =
     bindr (field J root ''name'' (asString J) (ai_name a)) (\<lambda>name.
     bindr (field J root ''max_buffer'' (asUInt J) (max_buffer a)) (\<lambda>mb.
     bindr (field J root ''hls_support'' (switch J) (hls_support a)) (\<lambda>hls.
     bindr (field J root ''flv_support'' (switch J) (flv_support a)) (\<lambda>flv.
     bindr (field J root ''rtmp_support'' (switch J) (rtmp_support a)) (\<lambda>rtmp.
     bindr (field J root ''content_latency'' (\<lambda>j. map_option (\<lambda>n. u32_int (n * 1000)) (asUInt J j))
              (content_latency_time a)) (\<lambda>cl.
     bindr (field J root ''stream_idle_time'' (asUInt J) (stream_idle_time a)) (\<lambda>sit.
     bindr (field J root ''stream_timeout_time'' (asUInt J) (stream_timeout_time a)) (\<lambda>stt.
       Inr \<lparr>ai_name = name, max_buffer = mb, rtmp_support = rtmp, flv_support = flv,
            hls_support = hls, content_latency_time = cl, stream_idle_time = sit,
            stream_timeout_time = stt\<rparr>))))))))"

section \<open>Domains\<close>

record domain_info =
  dom_name :: string
  dom_type :: string
  appinfos :: "string \<Rightarrow> app_info option"

definition newDomainInfo :: domain_info where
  "newDomainInfo = \<lparr>dom_name = [], dom_type = [], appinfos = Map.empty\<rparr>"

text \<open>\<open>emplace\<close> into a map keeps the entry that is there.\<close>

definition emplace :: "'k \<Rightarrow> 'v \<Rightarrow> ('k \<Rightarrow> 'v option) \<Rightarrow> ('k \<Rightarrow> 'v option)" where
  "emplace k v m = (if m k = None then m(k \<mapsto> v) else m)"

fun parse_apps :: "'j json_api \<Rightarrow> 'j list \<Rightarrow> domain_info \<Rightarrow> domain_info res" where
  "parse_apps J [] d = Inr d"
| "parse_apps J (j # js) d =
     bindr (parseAppInfo J j newAppInfo) (\<lambda>a.
       parse_apps J js (d\<lparr>appinfos := emplace (ai_name a) a (appinfos d)\<rparr>))"

definition parseDomainInfo :: "'j env \<Rightarrow> string \<Rightarrow> domain_info \<Rightarrow> (bool \<times> domain_info) res" where
  "parseDomainInfo E file d0 =
     (let J = json E in
      case parseFile E file of
        None \<Rightarrow> Inr (False, d0)
      | Some root \<Rightarrow>
          bindr (caught (jget J root ''domain'')) (\<lambda>domain.
          if isNull J domain then Inr (False, d0)
          else
            bindr (field J domain ''name'' (asString J) (dom_name d0)) (\<lambda>name.
            bindr (field J domain ''type'' (asString J) (dom_type d0)) (\<lambda>ty.
              let d = d0\<lparr>dom_name := name, dom_type := ty\<rparr> in
              bindr (caught (jget J domain ''app'')) (\<lambda>apps.
              if isNull J apps then Inr (False, d)
              else bindr (parse_apps J (elements J apps) d) (\<lambda>d1. Inr (True, d1)))))))"

definition dom_getAppInfo :: "string \<Rightarrow> domain_info \<Rightarrow> app_info option" where
  "dom_getAppInfo app d = appinfos d app"

section \<open>The configuration\<close>

datatype log_level = kTrace | kDebug | kInfo | kWarn | kError
datatype rotate_type = kRotateNone | kRotateMinute | kRotateHour | kRotateDay

record log_info =
  li_level :: log_level
  li_path :: string
  li_name :: string
  li_rotate :: rotate_type

record service_info =
  si_addr :: string
  si_port :: u16
  si_protocol :: string
  si_transport :: string

record config =
  cfg_name :: string
  cpu_start :: int
  thread_nums :: int
  cpus :: int
  cfg_log :: "log_info option"
  services :: "service_info list"
  domaininfos :: "string \<Rightarrow> domain_info option"

definition newConfig :: config where
  "newConfig = \<lparr>cfg_name = [], cpu_start = 0, thread_nums = 1, cpus = 1, cfg_log = None,
     services = [], domaininfos = Map.empty\<rparr>"

definition level_of :: "string \<Rightarrow> log_level \<Rightarrow> log_level" where
  "level_of s old =
     (if s = ''TRACE'' then kTrace else if s = ''DEBUG'' then kDebug else if s = ''INFO'' then kInfo
      else if s = ''WARN'' then kWarn else if s = ''ERROR'' then kError else old)"

definition rotate_of :: "string \<Rightarrow> rotate_type \<Rightarrow> rotate_type" where
  "rotate_of s old = (if s = ''DAY'' then kRotateDay else if s = ''HOUR'' then kRotateHour else old)"

definition parseLogInfo :: "'j json_api \<Rightarrow> 'j \<Rightarrow> config \<Rightarrow> config res" where
  "parseLogInfo J root c =
     bindr (field J root ''level'' (\<lambda>j. map_option (\<lambda>s. level_of s kTrace) (asString J j)) kTrace) (\<lambda>level.
     bindr (field J root ''path'' (asString J) []) (\<lambda>path.
     bindr (field J root ''name'' (asString J) []) (\<lambda>name.
     bindr (field J root ''rotate'' (\<lambda>j. map_option (\<lambda>s. rotate_of s kRotateNone) (asString J j)) kRotateNone) (\<lambda>rot.
       Inr (c\<lparr>cfg_log := Some \<lparr>li_level = level, li_path = path, li_name = name, li_rotate = rot\<rparr>\<rparr>)))))"

text \<open>A field of a service with its default, which is a string for every field.\<close>

definition service_field :: "'j json_api \<Rightarrow> 'j \<Rightarrow> string \<Rightarrow> string \<Rightarrow> ('j \<Rightarrow> 'a option) \<Rightarrow> 'a res" where
  "service_field J s name dflt conv = bindr (caught (jdefault J s name (jtext J dflt))) (\<lambda>v. caught (conv v))"

definition parse_service :: "'j json_api \<Rightarrow> 'j \<Rightarrow> service_info res" where
  "parse_service J s =
     bindr (service_field J s ''addr'' ''127.0.0.1'' (asString J)) (\<lambda>addr.
     bindr (service_field J s ''port'' ''1935'' (asInt J)) (\<lambda>port.
     bindr (service_field J s ''protocol'' ''rtmp'' (asString J)) (\<lambda>protocol.
     bindr (service_field J s ''transport'' ''tcp'' (asString J)) (\<lambda>transport.
       Inr \<lparr>si_addr = addr, si_port = word_of_int port, si_protocol = protocol, si_transport = transport\<rparr>))))"

fun parse_services :: "'j json_api \<Rightarrow> 'j list \<Rightarrow> config \<Rightarrow> config res" where
  "parse_services J [] c = Inr c"
| "parse_services J (s # ss) c =
     bindr (parse_service J s) (\<lambda>i. parse_services J ss (c\<lparr>services := services c @ [i]\<rparr>))"

definition parseServiceInfo :: "'j json_api \<Rightarrow> 'j \<Rightarrow> config \<Rightarrow> (bool \<times> config) res" where
  "parseServiceInfo J obj c =
     (if isNull J obj then Inr (False, c)
      else if \<not> isArray J obj then Inr (False, c)
      else bindr (parse_services J (elements J obj) c) (\<lambda>c1. Inr (True, c1)))"

text \<open>A domain file replaces the domain of its name; a file that fails changes nothing.\<close>

definition parseDomainFile :: "'j env \<Rightarrow> string \<Rightarrow> config \<Rightarrow> (bool \<times> config) res" where
  "parseDomainFile E file c =
     bindr (parseDomainInfo E file newDomainInfo) (\<lambda>(ret, d).
       Inr (True, if ret then c\<lparr>domaininfos := emplace (dom_name d) d ((domaininfos c)(dom_name d := None))\<rparr>
                  else c))"

text \<open>The separator is always added: no character is both a slash and a backslash.\<close>

definition entry_path :: "string \<Rightarrow> string \<Rightarrow> string res" where
  "entry_path path name =
     (if path = [] then Inl Uncaught
      else if last path \<noteq> CHR ''/'' \<or> last path \<noteq> CHR 0x5C then Inr (path @ ''/'' @ name)
      else Inr (path @ name))"

fun parse_entries :: "'j env \<Rightarrow> string \<Rightarrow> (string \<times> bool) list \<Rightarrow> config \<Rightarrow> config res" where
  "parse_entries E path [] c = Inr c"
| "parse_entries E path ((name, regular) # es) c =
     (if take 1 name = ''.'' then parse_entries E path es c
      else if regular then
        bindr (entry_path path name) (\<lambda>f.
        bindr (parseDomainFile E f c) (\<lambda>(ret, c1). parse_entries E path es c1))
      else parse_entries E path es c)"

definition parseDomainPath :: "'j env \<Rightarrow> string \<Rightarrow> config \<Rightarrow> (bool \<times> config) res" where
  "parseDomainPath E path c =
     (case readDir E path of
        None \<Rightarrow> Inr (False, c)
      | Some es \<Rightarrow> bindr (parse_entries E path es c) (\<lambda>c1. Inr (True, c1)))"

definition S_IFMT :: u32 where "S_IFMT = 0xF000"
definition S_IFDIR :: u32 where "S_IFDIR = 0x4000"
definition S_IFREG :: u32 where "S_IFREG = 0x8000"

fun parse_directories :: "'j env \<Rightarrow> 'j list \<Rightarrow> config \<Rightarrow> config res" where
  "parse_directories E [] c = Inr c"
| "parse_directories E (d # ds) c =
     bindr (caught (asString (json E) d)) (\<lambda>path.
     bindr (case stat_mode E path of
              None \<Rightarrow> Inr (True, c)
            | Some mode \<Rightarrow>
                if mode AND S_IFMT = S_IFDIR then parseDomainPath E path c
                else if mode AND S_IFREG \<noteq> 0 then parseDomainFile E path c
                else Inr (True, c)) (\<lambda>(ret, c1). parse_directories E ds c1))"

definition parseDirectory :: "'j env \<Rightarrow> 'j \<Rightarrow> config \<Rightarrow> (bool \<times> config) res" where
  "parseDirectory E root c =
     (if isNull (json E) root \<or> \<not> isArray (json E) root then Inr (False, c)
      else bindr (parse_directories E (elements (json E) root) c) (\<lambda>c1. Inr (True, c1)))"

definition loadConfig :: "'j env \<Rightarrow> string \<Rightarrow> config \<Rightarrow> (bool \<times> config) res" where
  "loadConfig E file c0 =
     (let J = json E in
      case parseFile E file of
        None \<Rightarrow> Inr (False, c0)
      | Some root \<Rightarrow>
          bindr (field J root ''name'' (asString J) (cfg_name c0)) (\<lambda>name.
          bindr (field J root ''cpu_start'' (asInt J) (cpu_start c0)) (\<lambda>start.
          bindr (field J root ''cpus'' (asInt J) (cpus c0)) (\<lambda>n.
          bindr (field J root ''threads'' (asInt J) (thread_nums c0)) (\<lambda>threads.
            let c = c0\<lparr>cfg_name := name, cpu_start := start, cpus := n, thread_nums := threads\<rparr> in
            bindr (caught (jget J root ''log'')) (\<lambda>log.
            bindr (if \<not> isNull J log then parseLogInfo J log c else Inr c) (\<lambda>c1.
            bindr (caught (jget J root ''services'')) (\<lambda>obj.
            bindr (parseServiceInfo J obj c1) (\<lambda>(ret, c2).
              if \<not> ret then Inr (False, c2)
              else
                bindr (caught (jget J root ''directory'')) (\<lambda>dirs.
                bindr (parseDirectory E dirs c2) (\<lambda>(r, c3). Inr (True, c3))))))))))))"

definition getAppInfo :: "string \<Rightarrow> string \<Rightarrow> config \<Rightarrow> app_info option" where
  "getAppInfo domain app c =
     (case domaininfos c domain of None \<Rightarrow> None | Some d \<Rightarrow> dom_getAppInfo app d)"

definition getDomainInfo :: "string \<Rightarrow> config \<Rightarrow> domain_info option" where
  "getDomainInfo domain c = domaininfos c domain"

definition getserviceInfo :: "string \<Rightarrow> string \<Rightarrow> config \<Rightarrow> service_info option" where
  "getserviceInfo protocol transport c =
     find (\<lambda>s. si_protocol s = protocol \<and> si_transport s = transport) (services c)"

text \<open>The manager takes a configuration over when all of it was loaded.\<close>

definition mgr_loadConfig :: "'j env \<Rightarrow> string \<Rightarrow> config option \<Rightarrow> (bool \<times> config option) res" where
  "mgr_loadConfig E file cur =
     bindr (loadConfig E file newConfig) (\<lambda>(ret, c). Inr (if ret then (True, Some c) else (False, cur)))"

definition mgr_getLogInfo :: "config option \<Rightarrow> log_info option res" where
  "mgr_getLogInfo cur = bindr (deref cur) (\<lambda>c. Inr (cfg_log c))"

section \<open>Looking applications up\<close>

lemma parse_apps_lookup:
  "parse_apps J js d = Inr d1 \<Longrightarrow>
   \<exists>as. list_all2 (\<lambda>j a. parseAppInfo J j newAppInfo = Inr a) js as \<and> dom_name d1 = dom_name d
     \<and> (\<forall>n. appinfos d1 n = (case appinfos d n of Some a \<Rightarrow> Some a | None \<Rightarrow> find (\<lambda>a. ai_name a = n) as))"
proof (induction js arbitrary: d)
  case Nil
  then show ?case by (auto split: option.split)
next
  case (Cons j js)
  obtain a where a: "parseAppInfo J j newAppInfo = Inr a"
      "parse_apps J js (d\<lparr>appinfos := emplace (ai_name a) a (appinfos d)\<rparr>) = Inr d1"
    using Cons.prems by (auto simp: res_simps)
  obtain as where as: "list_all2 (\<lambda>j a. parseAppInfo J j newAppInfo = Inr a) js as"
      "dom_name d1 = dom_name d"
      "\<forall>n. appinfos d1 n = (case emplace (ai_name a) a (appinfos d) n of Some a \<Rightarrow> Some a
         | None \<Rightarrow> find (\<lambda>a. ai_name a = n) as)"
    using Cons.IH [OF a(2)] by auto
  show ?case
    using a(1) as by (intro exI [of _ "a # as"]) (auto simp: emplace_def split: option.splits)
qed

text \<open>The domains a directory's entries describe, in the order of the entries.\<close>

definition is_domain_file :: "string \<times> bool \<Rightarrow> bool" where
  "is_domain_file e \<longleftrightarrow> take 1 (fst e) \<noteq> ''.'' \<and> snd e"

definition domain_of :: "'j env \<Rightarrow> string \<Rightarrow> string \<Rightarrow> domain_info option" where
  "domain_of E path name =
     (case parseDomainInfo E (path @ ''/'' @ name) newDomainInfo of Inr (True, d) \<Rightarrow> Some d | _ \<Rightarrow> None)"

definition domains_in :: "'j env \<Rightarrow> string \<Rightarrow> (string \<times> bool) list \<Rightarrow> domain_info list" where
  "domains_in E path es = List.map_filter (domain_of E path) (map fst (filter is_domain_file es))"

lemma entry_path_joins: "path \<noteq> [] \<Longrightarrow> entry_path path name = Inr (path @ ''/'' @ name)"
  by (auto simp: entry_path_def)

lemma parseDomainFile_lookup:
  assumes "parseDomainFile E (path @ ''/'' @ name) c = Inr (r, c1)"
  shows "domaininfos c1 = (case domain_of E path name of None \<Rightarrow> domaininfos c
    | Some d \<Rightarrow> (domaininfos c)(dom_name d \<mapsto> d))"
proof -
  obtain ret d where d: "parseDomainInfo E (path @ ''/'' @ name) newDomainInfo = Inr (ret, d)"
      "c1 = (if ret then c\<lparr>domaininfos := (domaininfos c)(dom_name d \<mapsto> d)\<rparr> else c)"
    using assms by (auto simp: parseDomainFile_def emplace_def res_simps)
  show ?thesis using d(1) by (simp add: domain_of_def d(2))
qed

lemma find_append: "find P (xs @ ys) = (case find P xs of None \<Rightarrow> find P ys | Some x \<Rightarrow> Some x)"
  by (induction xs) auto

lemma parse_entries_lookup:
  "parse_entries E path es c = Inr c1 \<Longrightarrow> path \<noteq> [] \<Longrightarrow>
   domaininfos c1 n = (case find (\<lambda>d. dom_name d = n) (rev (domains_in E path es)) of
     Some d \<Rightarrow> Some d | None \<Rightarrow> domaininfos c n)"
proof (induction es arbitrary: c)
  case Nil
  then show ?case by (simp add: domains_in_def List.map_filter_simps)
next
  case (Cons e es)
  obtain name regular where e: "e = (name, regular)" by fastforce
  show ?case
  proof (cases "is_domain_file e")
    case True
    then obtain r c2 where c2: "parseDomainFile E (path @ ''/'' @ name) c = Inr (r, c2)"
        "parse_entries E path es c2 = Inr c1"
      using Cons.prems by (auto simp: e is_domain_file_def entry_path_joins res_simps)
    show ?thesis
      using parseDomainFile_lookup [OF c2(1)] Cons.IH [OF c2(2)] Cons.prems(2) True
      by (auto simp: e domains_in_def List.map_filter_simps find_append split: option.splits)
  next
    case False
    then have "parse_entries E path es c = Inr c1"
      using Cons.prems by (auto simp: e is_domain_file_def split: if_splits)
    then show ?thesis
      using Cons.IH [of c] Cons.prems(2) False by (simp add: domains_in_def)
  qed
qed

lemma service_faults:
  "parse_service J s = Inl e \<Longrightarrow> e = Uncaught"
  by (auto simp: parse_service_def service_field_def res_simps caught_def split: option.splits)

lemma services_fault:
  "s \<in> set ss \<Longrightarrow> parse_service J s = Inl Uncaught \<Longrightarrow> parse_services J ss c = Inl Uncaught"
proof (induction ss arbitrary: c)
  case (Cons x xs)
  then show ?case
    by (cases "parse_service J x") (auto dest: service_faults)
qed simp

section \<open>Properties\<close>

text \<open>
  C31: what an application name finds after a directory was read. The domain is looked up in the
  last readable file that names it: that file replaces the whole domain of any file before it,
  also where it lacks an application the earlier file had; a domain no file names keeps what the
  configuration had, and hidden and irregular entries and files that do not parse change nothing.
\<close>

theorem domain_files_lookup:
  assumes "parseDomainPath E path c = Inr (True, c1)" "readDir E path = Some es" "path \<noteq> []"
  shows "getAppInfo domain app c1 =
    (case find (\<lambda>d. dom_name d = domain) (rev (domains_in E path es)) of
       Some d \<Rightarrow> dom_getAppInfo app d | None \<Rightarrow> getAppInfo domain app c)"
proof -
  have "parse_entries E path es c = Inr c1" using assms(1,2) by (auto simp: parseDomainPath_def res_simps)
  then show ?thesis
    using parse_entries_lookup [OF _ assms(3), of E es c c1 domain]
    by (simp add: getAppInfo_def split: option.split)
qed

text \<open>Documents as the library reads them, for the examples.\<close>

datatype doc = DNull | DText string | DNum int | DList "doc list" | DObj "(string \<times> doc) list"

definition doc_api :: "doc json_api" where
  "doc_api = \<lparr>jget = (\<lambda>j k. case j of DObj fs \<Rightarrow> Some (case map_of fs k of None \<Rightarrow> DNull | Some v \<Rightarrow> v)
       | DNull \<Rightarrow> Some DNull | _ \<Rightarrow> None),
     jtext = DText,
     jdefault = (\<lambda>j k d. case j of DObj fs \<Rightarrow> Some (case map_of fs k of None \<Rightarrow> d | Some v \<Rightarrow> v)
       | DNull \<Rightarrow> Some d | _ \<Rightarrow> None),
     isNull = (\<lambda>j. j = DNull), isArray = (\<lambda>j. case j of DList _ \<Rightarrow> True | _ \<Rightarrow> False),
     elements = (\<lambda>j. case j of DList js \<Rightarrow> js | _ \<Rightarrow> []),
     asString = (\<lambda>j. case j of DText s \<Rightarrow> Some s | DNull \<Rightarrow> Some [] | _ \<Rightarrow> None),
     asInt = (\<lambda>j. case j of DNum n \<Rightarrow> Some n | DNull \<Rightarrow> Some 0 | _ \<Rightarrow> None),
     asUInt = (\<lambda>j. case j of DNum n \<Rightarrow> Some n | DNull \<Rightarrow> Some 0 | _ \<Rightarrow> None)\<rparr>"

definition demo_domain :: "string \<Rightarrow> doc" where
  "demo_domain app = DObj [(''domain'', DObj [(''name'', DText ''d''),
     (''app'', DList [DObj [(''name'', DText app)]])])]"

definition demo_env :: "doc env" where
  "demo_env = \<lparr>json = doc_api,
     parseFile = (\<lambda>f. if f = ''c/a'' then Some (demo_domain ''one'')
                      else if f = ''c/b'' then Some (demo_domain ''two'') else None),
     stat_mode = (\<lambda>_. Some 0x41ED),
     readDir = (\<lambda>_. Some [(''.'', False), (''a'', True), (''b'', True)])\<rparr>"

lemma demo_domain_parses:
  "parseFile E f = Some (demo_domain app) \<Longrightarrow> json E = doc_api \<Longrightarrow>
   parseDomainInfo E f newDomainInfo = Inr (True, \<lparr>dom_name = ''d'', dom_type = [],
     appinfos = [app \<mapsto> newAppInfo\<lparr>ai_name := app\<rparr>]\<rparr>)"
  by (simp add: parseDomainInfo_def demo_domain_def doc_api_def field_def newDomainInfo_def
      parseAppInfo_def newAppInfo_def emplace_def)

theorem domain_files_lookup_witness:
  "\<exists>c1. parseDomainPath demo_env ''c'' newConfig = Inr (True, c1) \<and> getAppInfo ''d'' ''two'' c1 \<noteq> None
     \<and> getAppInfo ''d'' ''one'' c1 = None"
proof -
  have p: "parseDomainInfo demo_env ''c/a'' newDomainInfo = Inr (True, \<lparr>dom_name = ''d'', dom_type = [],
        appinfos = [''one'' \<mapsto> newAppInfo\<lparr>ai_name := ''one''\<rparr>]\<rparr>)"
      "parseDomainInfo demo_env ''c/b'' newDomainInfo = Inr (True, \<lparr>dom_name = ''d'', dom_type = [],
        appinfos = [''two'' \<mapsto> newAppInfo\<lparr>ai_name := ''two''\<rparr>]\<rparr>)"
    by (rule demo_domain_parses; simp add: demo_env_def)+
  have r: "readDir demo_env ''c'' = Some [(''.'', False), (''a'', True), (''b'', True)]"
    by (simp add: demo_env_def)
  have "\<exists>c1. parseDomainPath demo_env ''c'' newConfig = Inr (True, c1)"
    by (simp add: parseDomainPath_def r entry_path_def parseDomainFile_def p)
  then obtain c1 where c1: "parseDomainPath demo_env ''c'' newConfig = Inr (True, c1)" by blast
  have l: "rev (domains_in demo_env ''c'' [(''.'', False), (''a'', True), (''b'', True)])
      = [\<lparr>dom_name = ''d'', dom_type = [], appinfos = [''two'' \<mapsto> newAppInfo\<lparr>ai_name := ''two''\<rparr>]\<rparr>,
         \<lparr>dom_name = ''d'', dom_type = [], appinfos = [''one'' \<mapsto> newAppInfo\<lparr>ai_name := ''one''\<rparr>]\<rparr>]"
    by (simp add: domains_in_def is_domain_file_def List.map_filter_simps domain_of_def p)
  show ?thesis
    using c1 domain_files_lookup [OF c1 r, of "''d''" "''two''"] domain_files_lookup [OF c1 r, of "''d''" "''one''"]
    by (simp add: l dom_getAppInfo_def)
qed

text \<open>
  A service without a port stops the program. The default the code gives for the port is the
  string 1935, and the JSON library does not convert a string to a number but throws: a
  \<open>services\<close> array with an entry that has no port makes \<open>parseServiceInfo\<close> end in an exception
  nothing catches, whatever the other entries are.
\<close>

theorem service_without_port:
  assumes text_no_int: "\<And>t. asInt J (jtext J t) = None"
    and no_port: "\<And>d. jdefault J s ''port'' d = Some d"
    and "isArray J obj" "\<not> isNull J obj" "s \<in> set (elements J obj)"
  shows "parseServiceInfo J obj c = Inl Uncaught"
proof -
  have "parse_service J s = Inl Uncaught"
    by (cases "service_field J s ''addr'' ''127.0.0.1'' (asString J)")
      (auto simp: parse_service_def text_no_int no_port service_field_def caught_def res_simps split: option.splits)
  then show ?thesis
    using services_fault [OF assms(5)] assms(3,4) by (simp add: parseServiceInfo_def)
qed

theorem service_without_port_witness:
  "parseServiceInfo doc_api (DList [DObj [(''addr'', DText ''0.0.0.0'')]]) newConfig = Inl Uncaught"
  by (rule service_without_port [of _ "DObj [(''addr'', DText ''0.0.0.0'')]"]) (simp_all add: doc_api_def)

end
