(* ===== verification/LssString.thy ===== *)
theory LssString
  imports Prelude "HOL-Library.Sublist"
begin

text \<open>
  \<open>src/utils/lssvc_string.cpp\<close>: prefix and suffix tests and \<open>split\<close>, with the parts of
  \<open>std::string\<close> they use (\<open>find\<close>, \<open>substr\<close>, \<open>compare\<close>). A \<open>std::string\<close> is a
  \<open>string\<close>; \<open>std::string::npos\<close> is \<open>None\<close>.
\<close>

section \<open>The operations of std::string\<close>

fun find_sub :: "string \<Rightarrow> string \<Rightarrow> nat option" where
  "find_sub [] d = (if d = [] then Some 0 else None)"
| "find_sub (x # xs) d =
     (if take (length d) (x # xs) = d then Some 0 else map_option Suc (find_sub xs d))"

definition str_find :: "string \<Rightarrow> string \<Rightarrow> nat \<Rightarrow> nat option" where
  "str_find s d pos =
     (if pos \<le> length s then map_option (\<lambda>i. pos + i) (find_sub (drop pos s) d) else None)"

definition substr :: "string \<Rightarrow> nat \<Rightarrow> nat \<Rightarrow> string" where
  "substr s pos n = take n (drop pos s)"

definition substr_from :: "string \<Rightarrow> nat \<Rightarrow> string" where
  "substr_from s pos = drop pos s"

definition find_first_of :: "string \<Rightarrow> string \<Rightarrow> nat \<Rightarrow> nat option" where
  "find_first_of s cs pos =
     (case dropWhile (\<lambda>i. s ! i \<notin> set cs) [pos..<length s] of [] \<Rightarrow> None | i # _ \<Rightarrow> Some i)"

definition find_last_of :: "string \<Rightarrow> string \<Rightarrow> nat option" where
  "find_last_of s cs =
     (case dropWhile (\<lambda>i. s ! i \<notin> set cs) (rev [0..<length s]) of [] \<Rightarrow> None | i # _ \<Rightarrow> Some i)"

section \<open>The operations of LSSString\<close>

definition startWith :: "string \<Rightarrow> string \<Rightarrow> bool" where
  "startWith s sub =
     (if s = [] then False
      else if sub = [] then True
      else if length s < length sub then False
      else substr s 0 (length sub) = sub)"

definition endsWith :: "string \<Rightarrow> string \<Rightarrow> bool" where
  "endsWith s sub =
     (if sub = [] then True
      else if s = [] then False
      else if length s < length sub then False
      else substr s (length s - length sub) (length sub) = sub)"

text \<open>
  The loop of \<open>split\<close>: \<open>last\<close> is the position after the last delimiter, \<open>v\<close> the pieces so
  far. The source pushes the same string in both branches of its inner \<open>if\<close> (the empty
  string is the piece of length zero), which the model keeps as two branches. The guard on
  \<open>delim\<close> is \<open>split\<close>'s own early return; it makes the loop terminate.
\<close>

lemma find_sub_bound: "find_sub s d = Some i \<Longrightarrow> i + length d \<le> length s"
proof (induction s arbitrary: i)
  case Nil
  then show ?case by (auto split: if_splits)
next
  case (Cons x xs)
  show ?case
  proof (cases "take (length d) (x # xs) = d")
    case True
    have "length d \<le> length (x # xs)"
      using True length_take [of "length d" "x # xs"] by simp
    with True Cons.prems show ?thesis by simp
  next
    case False
    with Cons show ?thesis by (auto split: if_splits)
  qed
qed

lemma str_find_bounds:
  "str_find s d pos = Some i \<Longrightarrow> pos \<le> i \<and> i + length d \<le> length s"
  by (auto simp: str_find_def dest: find_sub_bound split: if_splits)

function split_loop :: "string \<Rightarrow> string \<Rightarrow> bool \<Rightarrow> nat \<Rightarrow> string list \<Rightarrow> string list" where
  "split_loop s delim acceptEmpty lst v =
     (if delim = [] then v
      else case str_find s delim lst of
        Some nxt \<Rightarrow>
          split_loop s delim acceptEmpty (nxt + length delim)
            (if lst < nxt \<or> acceptEmpty then v @ [substr s lst (nxt - lst)] else v @ [''''])
      | None \<Rightarrow>
          if lst < length s \<or> acceptEmpty then v @ [substr_from s lst] else v)"
  by pat_completeness auto
termination
  by (relation "measure (\<lambda>(s, d, a, lst, v). Suc (length s) - lst)")
    (auto dest!: str_find_bounds simp: neq_Nil_conv)

declare split_loop.simps [simp del]

definition split :: "string \<Rightarrow> string \<Rightarrow> bool \<Rightarrow> string list" where
  "split s delim acceptEmpty = (if delim = [] then [] else split_loop s delim acceptEmpty 0 [])"

section \<open>Facts about the searches\<close>

lemma find_sub_None_iff: "d \<noteq> [] \<Longrightarrow> find_sub s d = None \<longleftrightarrow> \<not> sublist d s"
proof (induction s)
  case (Cons x xs)
  have "take (length d) (x # xs) = d \<longleftrightarrow> prefix d (x # xs)"
    by (metis append_eq_conv_conj prefix_def)
  with Cons show ?case by (auto simp: sublist_Cons_right)
qed simp

lemma find_sub_Some_split:
  "find_sub s d = Some i \<Longrightarrow> s = take i s @ d @ drop (i + length d) s"
proof (induction s arbitrary: i)
  case (Cons x xs)
  show ?case
  proof (cases "take (length d) (x # xs) = d")
    case True
    with Cons.prems show ?thesis
      using append_take_drop_id [of "length d" "x # xs"] by simp
  next
    case False
    with Cons.prems obtain j where "find_sub xs d = Some j" "i = Suc j" by auto
    with Cons.IH show ?thesis by fastforce
  qed
qed (auto split: if_splits)

lemma find_sub_char:
  "c \<notin> set p \<Longrightarrow> find_sub (p @ c # r) [c] = Some (length p)"
  by (induction p) auto

lemma find_sub_char_None: "c \<notin> set s \<Longrightarrow> find_sub s [c] = None"
  by (induction s) auto

lemma str_find_Some_split:
  assumes "str_find s d pos = Some i"
  shows "drop pos s = substr s pos (i - pos) @ d @ drop (i + length d) s"
proof -
  from assms obtain j where j: "find_sub (drop pos s) d = Some j" "i = pos + j" "pos \<le> length s"
    by (auto simp: str_find_def split: if_splits)
  from find_sub_Some_split [OF j(1)] j(2) show ?thesis
    by (simp add: substr_def add.commute add.left_commute)
qed

section \<open>What split returns\<close>

text \<open>Gluing pieces with the delimiter between them.\<close>

fun glue :: "string \<Rightarrow> string list \<Rightarrow> string" where
  "glue d [] = []"
| "glue d [x] = x"
| "glue d (x # y # ys) = x @ d @ glue d (y # ys)"

lemma glue_Cons: "ys \<noteq> [] \<Longrightarrow> glue d (x # ys) = x @ d @ glue d ys"
  by (cases ys) simp_all

lemma split_loop_found:
  "d \<noteq> [] \<Longrightarrow> str_find s d lst = Some n \<Longrightarrow>
   split_loop s d a lst v = split_loop s d a (n + length d) (v @ [substr s lst (n - lst)])"
  by (subst split_loop.simps) (auto simp: substr_def dest: str_find_bounds)

lemma split_loop_end:
  "d \<noteq> [] \<Longrightarrow> str_find s d lst = None \<Longrightarrow>
   split_loop s d a lst v = (if lst < length s \<or> a then v @ [substr_from s lst] else v)"
  by (subst split_loop.simps) simp

lemma split_loop_acc:
  "d \<noteq> [] \<Longrightarrow> split_loop s d a lst v = v @ split_loop s d a lst []"
proof (induction "Suc (length s) - lst" arbitrary: lst v rule: less_induct)
  case less
  show ?case
  proof (cases "str_find s d lst")
    case None
    with less.prems show ?thesis by (simp add: split_loop_end)
  next
    case (Some n)
    let ?p = "[substr s lst (n - lst)]"
    have dec: "Suc (length s) - (n + length d) < Suc (length s) - lst"
      using str_find_bounds [OF Some] less.prems by (auto simp: neq_Nil_conv)
    have "split_loop s d a lst v = (v @ ?p) @ split_loop s d a (n + length d) []"
      using less.hyps [OF dec less.prems, of "v @ ?p"] Some less.prems
      by (simp add: split_loop_found)
    also have "\<dots> = v @ (?p @ split_loop s d a (n + length d) [])"
      by simp
    also have "?p @ split_loop s d a (n + length d) [] = split_loop s d a lst []"
      using less.hyps [OF dec less.prems, of ?p] Some less.prems
      by (simp add: split_loop_found)
    finally show ?thesis .
  qed
qed

lemma split_loop_Cons:
  "d \<noteq> [] \<Longrightarrow> str_find s d lst = Some n \<Longrightarrow>
   split_loop s d a lst [] = substr s lst (n - lst) # split_loop s d a (n + length d) []"
  by (simp add: split_loop_found) (subst split_loop_acc, simp_all)

text \<open>With \<open>acceptEmpty\<close> the pieces glued together are the rest of the string.\<close>

lemma glue_split_loop:
  "d \<noteq> [] \<Longrightarrow> lst \<le> length s \<Longrightarrow>
   split_loop s d True lst [] \<noteq> [] \<and> glue d (split_loop s d True lst []) = drop lst s"
proof (induction "Suc (length s) - lst" arbitrary: lst rule: less_induct)
  case less
  show ?case
  proof (cases "str_find s d lst")
    case None
    with less.prems show ?thesis by (simp add: split_loop_end substr_from_def)
  next
    case (Some n)
    let ?r = "split_loop s d True (n + length d) []"
    have n: "lst \<le> n" "n + length d \<le> length s"
      using str_find_bounds [OF Some] by auto
    have "Suc (length s) - (n + length d) < Suc (length s) - lst"
      using n less.prems by (auto simp: neq_Nil_conv)
    from less.hyps [OF this] less.prems n
    have IH: "?r \<noteq> []" "glue d ?r = drop (n + length d) s" by simp_all
    have "split_loop s d True lst [] = substr s lst (n - lst) # ?r"
      using split_loop_Cons [OF less.prems(1) Some] .
    with IH str_find_Some_split [OF Some] show ?thesis
      by (simp add: glue_Cons)
  qed
qed

text \<open>Without it, only an empty last piece is dropped.\<close>

lemma split_loop_False:
  "d \<noteq> [] \<Longrightarrow> lst \<le> length s \<Longrightarrow>
   split_loop s d True lst [] = split_loop s d False lst [] \<or>
   split_loop s d True lst [] = split_loop s d False lst [] @ ['''']"
proof (induction "Suc (length s) - lst" arbitrary: lst rule: less_induct)
  case less
  show ?case
  proof (cases "str_find s d lst")
    case None
    with less.prems show ?thesis by (simp add: split_loop_end substr_from_def)
  next
    case (Some n)
    have n: "lst \<le> n" "n + length d \<le> length s"
      using str_find_bounds [OF Some] by auto
    have "Suc (length s) - (n + length d) < Suc (length s) - lst"
      using n less.prems by (auto simp: neq_Nil_conv)
    from less.hyps [OF this] less.prems n show ?thesis
      by (simp add: split_loop_Cons [OF less.prems(1) Some])
  qed
qed

text \<open>A one-character delimiter: \<open>split\<close> takes the parts of a string apart.\<close>

lemma str_find_char:
  "c \<notin> set p \<Longrightarrow> str_find (q @ p @ c # r) [c] (length q) = Some (length q + length p)"
  by (simp add: str_find_def find_sub_char)

lemma str_find_char_None: "c \<notin> set p \<Longrightarrow> str_find (q @ p) [c] (length q) = None"
  by (simp add: str_find_def find_sub_char_None)

lemma split_loop_piece:
  assumes "c \<notin> set p"
  shows "split_loop (q @ p @ c # r) [c] a (length q) []
       = p # split_loop ((q @ p @ [c]) @ r) [c] a (length (q @ p @ [c])) []"
  using split_loop_Cons [OF _ str_find_char [OF assms, of q r], of a]
  by (simp add: substr_def)

lemma split_loop_last:
  assumes "c \<notin> set p"
  shows "split_loop (q @ p) [c] a (length q) [] = (if p \<noteq> [] \<or> a then [p] else [])"
  using split_loop_end [OF _ str_find_char_None [OF assms, of q], of a "[]"]
  by (auto simp: substr_from_def)

lemma split_three:
  assumes "c \<notin> set x" "c \<notin> set y" "c \<notin> set z" "z \<noteq> []"
  shows "split (x @ c # y @ c # z) [c] False = [x, y, z]"
  using split_loop_piece [OF assms(1), of "[]" "y @ c # z" False]
    split_loop_piece [OF assms(2), of "x @ [c]" z False]
    split_loop_last [OF assms(3), of "(x @ [c]) @ y @ [c]" False] assms(4)
  by (simp add: split_def)

lemma split_loop_glue:
  "ps \<noteq> [] \<Longrightarrow> \<forall>p \<in> set ps. c \<notin> set p \<Longrightarrow> last ps \<noteq> [] \<or> a \<Longrightarrow>
   split_loop (q @ glue [c] ps) [c] a (length q) [] = ps"
proof (induction ps arbitrary: q)
  case (Cons p ps)
  show ?case
  proof (cases ps)
    case Nil
    then show ?thesis using Cons.prems by (simp add: split_loop_last)
  next
    case (Cons p' ps')
    have c: "c \<notin> set p" and ne: "ps \<noteq> []" using Cons.prems(2) Cons by simp_all
    have g: "q @ glue [c] (p # ps) = q @ p @ c # glue [c] ps"
      using glue_Cons [OF ne, of "[c]" p] by simp
    have "split_loop ((q @ p @ [c]) @ glue [c] ps) [c] a (length (q @ p @ [c])) [] = ps"
      by (rule Cons.IH) (use Cons.prems Cons in simp_all)
    then show ?thesis unfolding g split_loop_piece [OF c] by simp
  qed
qed simp

text \<open>\<open>find_first_of\<close> with one character finds its first occurrence.\<close>

lemma dropWhile_upt_skip:
  "(\<forall>i. a \<le> i \<and> i < k \<longrightarrow> P i) \<Longrightarrow> a \<le> k \<Longrightarrow> k \<le> n \<Longrightarrow>
   dropWhile P [a..<n] = dropWhile P [k..<n]"
proof -
  assume a: "\<forall>i. a \<le> i \<and> i < k \<longrightarrow> P i" "a \<le> k" "k \<le> n"
  have "[a..<n] = [a..<k] @ [k..<n]"
    using a(2,3) upt_add_eq_append [of a k "n - k"] by simp
  moreover have "dropWhile P ([a..<k] @ [k..<n]) = dropWhile P [k..<n]"
    by (rule dropWhile_append2) (use a(1) in simp)
  ultimately show ?thesis by simp
qed

lemma find_first_of_found:
  "c \<notin> set x \<Longrightarrow> find_first_of (x @ c # y) [c] 0 = Some (length x)"
proof -
  assume c: "c \<notin> set x"
  let ?P = "\<lambda>i. (x @ c # y) ! i \<notin> set [c]"
  have "dropWhile ?P [0..<length (x @ c # y)] = dropWhile ?P [length x..<length (x @ c # y)]"
  proof (rule dropWhile_upt_skip)
    show "\<forall>i. 0 \<le> i \<and> i < length x \<longrightarrow> ?P i"
      using c by (auto simp: nth_append in_set_conv_nth)
  qed simp_all
  also have "\<dots> = length x # [Suc (length x)..<length (x @ c # y)]"
    by (subst upt_conv_Cons) (simp_all del: upt_Suc)
  finally show ?thesis by (simp add: find_first_of_def del: upt_Suc)
qed

lemma find_first_of_none: "c \<notin> set x \<Longrightarrow> find_first_of x [c] 0 = None"
proof -
  assume c: "c \<notin> set x"
  have "dropWhile (\<lambda>i. x ! i \<notin> set [c]) [0..<length x] = []"
    unfolding dropWhile_eq_Nil_conv using c by (auto simp: in_set_conv_nth)
  then have "dropWhile (\<lambda>i. x ! i \<notin> set [c]) [0..<length x] = []" .
  then show ?thesis unfolding find_first_of_def by (simp only: list.case)
qed

section \<open>Properties\<close>

text \<open>
  \<open>split\<close> takes apart what was joined with a one-character delimiter: pieces without the
  delimiter, the last of them not empty, come back as they were, empty ones in the middle
  included.
\<close>

theorem split_takes_apart:
  assumes "ps \<noteq> []" "\<forall>p \<in> set ps. c \<notin> set p" "last ps \<noteq> []"
  shows "split (glue [c] ps) [c] False = ps"
  using split_loop_glue [OF assms(1,2), of False "[]"] assms(3) by (simp add: split_def)

theorem split_takes_apart_witness:
  "split (glue ''/'' [''rtmp:'', [], ''host'', ''live'']) ''/'' False = [''rtmp:'', [], ''host'', ''live'']"
  by (rule split_takes_apart) simp_all

text \<open>
  \<open>split\<close> loses nothing: joining the pieces with the delimiter gives the string back, for
  any delimiter; only an empty last piece is dropped when empty pieces are not accepted.
\<close>

theorem split_join:
  assumes "d \<noteq> []"
  shows "glue d (split s d True) = s \<and>
    (split s d True = split s d False \<or> split s d True = split s d False @ [''''])"
  using glue_split_loop [OF assms, of 0 s] split_loop_False [OF assms, of 0 s] assms
  by (simp add: split_def)

theorem split_join_witness:
  "glue ''::'' (split ''a::b::'' ''::'' True) = ''a::b::''"
  using split_join [of "''::''" "''a::b::''"] by simp

end
