(* ===== verification/LogFiles.thy ===== *)
theory LogFiles
  imports Config LssString
begin

text \<open>
  Log files: \<open>src/utils/lssvc_fileutils.cpp\<close>, \<open>lssvc_filelog.cpp\<close> and \<open>lssvc_filemgr.cpp\<close>. What the
  operating system answers to a call is a parameter, the calls themselves are the result: a
  rotation is judged by the paths it renames.
\<close>

section \<open>Paths\<close>

definition getFilePath :: "string \<Rightarrow> string" where
  "getFilePath path =
     (case find_last_of path [CHR ''/'', CHR 0x5C] of None \<Rightarrow> ''./'' | Some pos \<Rightarrow> substr path 0 pos)"

text \<open>
  \<open>npos + 1\<close> is 0, so the branch that cuts the directory off is the one for a path that has none,
  where it cuts nothing.
\<close>

definition getFileNameWithExt :: "string \<Rightarrow> string" where
  "getFileNameWithExt path =
     (case find_last_of path [CHR ''/'', CHR 0x5C] of
        None \<Rightarrow> if 0 < length path then substr_from path 0 else path
      | Some pos \<Rightarrow> path)"

definition getFileName :: "string \<Rightarrow> string" where
  "getFileName path =
     (let fullname = getFileNameWithExt path in
      case find_last_of fullname ''.'' of
        None \<Rightarrow> fullname
      | Some pos \<Rightarrow> if pos \<noteq> 0 then substr fullname 0 pos else fullname)"

definition getFileExtension :: "string \<Rightarrow> string" where
  "getFileExtension path =
     (let fullname = getFileNameWithExt path in
      case find_last_of fullname ''.'' of
        None \<Rightarrow> []
      | Some pos \<Rightarrow> if pos \<noteq> 0 \<and> pos + 1 < length fullname then substr_from fullname (pos + 1) else [])"

section \<open>A log file\<close>

datatype file_call =
    OpenAppend string
  | WriteFd int string
  | Rename string string
  | Dup2 int int
  | CloseFd int

text \<open>What the operating system answers.\<close>

record posix =
  px_open :: "string \<Rightarrow> int"
  px_rename :: "string \<Rightarrow> string \<Rightarrow> int"
  px_size :: "int \<Rightarrow> int"

record file_log =
  fl_fd :: int
  fl_path :: string
  fl_rotate :: rotate_type

definition newFileLog :: file_log where
  "newFileLog = \<lparr>fl_fd = -1, fl_path = [], fl_rotate = kRotateNone\<rparr>"

definition log_open :: "posix \<Rightarrow> string \<Rightarrow> file_log \<Rightarrow> bool \<times> file_log \<times> file_call list" where
  "log_open X filepath l0 =
     (let l = l0\<lparr>fl_path := filepath\<rparr>; fd = px_open X filepath in
      if fd < 0 then (False, l, [OpenAppend filepath]) else (True, l\<lparr>fl_fd := fd\<rparr>, [OpenAppend filepath]))"

definition setRotate :: "rotate_type \<Rightarrow> file_log \<Rightarrow> file_log" where
  "setRotate ty l = l\<lparr>fl_rotate := ty\<rparr>"

definition writeLog :: "string \<Rightarrow> file_log \<Rightarrow> file_call list" where
  "writeLog msg l = [WriteFd (if fl_fd l = -1 then 1 else fl_fd l) msg]"

definition rotate :: "posix \<Rightarrow> string \<Rightarrow> file_log \<Rightarrow> file_call list" where
  "rotate X file l =
     (if fl_path l = [] then []
      else if px_rename X (fl_path l) file \<noteq> 0 then [Rename (fl_path l) file]
      else
        let fd = px_open X (fl_path l); calls = [Rename (fl_path l) file, OpenAppend (fl_path l)] in
        if fd < 0 then calls else calls @ [Dup2 fd (fl_fd l), CloseFd fd])"

definition fileSize :: "posix \<Rightarrow> file_log \<Rightarrow> int" where
  "fileSize X l = px_size X (fl_fd l)"

section \<open>The file manager\<close>

record clock =
  ck_year :: int
  ck_month :: int
  ck_day :: int
  ck_hour :: int
  ck_minute :: int

record file_mgr =
  fm_logs :: "(string \<times> file_log) list"
  fm_last :: clock

definition newFileMgr :: file_mgr where
  "newFileMgr = \<lparr>fm_logs = [],
     fm_last = \<lparr>ck_year = -1, ck_month = -1, ck_day = -1, ck_hour = -1, ck_minute = -1\<rparr>\<rparr>"

text \<open>Decimal numbers with leading zeros, as \<open>%02d\<close> and \<open>%04d\<close> print them.\<close>

fun decimal :: "nat \<Rightarrow> string" where
  "decimal n = (if n < 10 then [char_of (n + 48)] else decimal (n div 10) @ [char_of (n mod 10 + 48)])"

definition padded :: "nat \<Rightarrow> int \<Rightarrow> string" where
  "padded w x =
     (if x < 0 then ''-'' @ replicate (w - 1 - length (decimal (nat (- x)))) CHR ''0'' @ decimal (nat (- x))
      else replicate (w - length (decimal (nat x))) CHR ''0'' @ decimal (nat x))"

definition day_stamp :: "clock \<Rightarrow> string" where
  "day_stamp t = ''_'' @ padded 4 (ck_year t) @ ''-'' @ padded 2 (ck_month t) @ ''-'' @ padded 2 (ck_day t)"

definition hour_stamp :: "clock \<Rightarrow> string" where
  "hour_stamp t = day_stamp t @ ''T'' @ padded 2 (ck_hour t)"

definition minute_stamp :: "clock \<Rightarrow> string" where
  "minute_stamp t = hour_stamp t @ padded 2 (ck_minute t)"

text \<open>The three rotations differ in the stamp.\<close>

definition rotate_stamped :: "posix \<Rightarrow> string \<Rightarrow> file_log \<Rightarrow> file_call list" where
  "rotate_stamped X stamp l =
     (if 0 < fileSize X l then
        rotate X (getFilePath (fl_path l) @ getFileName (fl_path l) @ stamp @ ''.'' @ getFileExtension (fl_path l)) l
      else [])"

definition rotateDays :: "posix \<Rightarrow> file_mgr \<Rightarrow> file_log \<Rightarrow> file_call list" where
  "rotateDays X m l = rotate_stamped X (day_stamp (fm_last m)) l"

definition rotateHours :: "posix \<Rightarrow> file_mgr \<Rightarrow> file_log \<Rightarrow> file_call list" where
  "rotateHours X m l = rotate_stamped X (hour_stamp (fm_last m)) l"

definition rotateMinutes :: "posix \<Rightarrow> file_mgr \<Rightarrow> file_log \<Rightarrow> file_call list" where
  "rotateMinutes X m l = rotate_stamped X (minute_stamp (fm_last m)) l"

definition rotate_log :: "posix \<Rightarrow> clock \<Rightarrow> file_mgr \<Rightarrow> file_log \<Rightarrow> file_call list" where
  "rotate_log X now m l =
     (if ck_minute (fm_last m) \<noteq> ck_minute now \<and> fl_rotate l = kRotateMinute then rotateMinutes X m l else [])
     @ (if ck_hour (fm_last m) \<noteq> ck_hour now \<and> fl_rotate l = kRotateHour then rotateHours X m l else [])
     @ (if ck_day (fm_last m) \<noteq> ck_day now \<and> fl_rotate l = kRotateDay then rotateDays X m l else [])"

definition update :: "posix \<Rightarrow> clock \<Rightarrow> file_mgr \<Rightarrow> file_mgr \<times> file_call list" where
  "update X now m0 =
     (let m = (if ck_day (fm_last m0) = -1 then m0\<lparr>fm_last := now\<rparr> else m0) in
      if ck_day (fm_last m) = ck_day now \<and> ck_hour (fm_last m) = ck_hour now \<and> ck_minute (fm_last m) = ck_minute now
      then (m, [])
      else (m\<lparr>fm_last := now\<rparr>, concat (map (rotate_log X now m \<circ> snd) (fm_logs m))))"

definition getFileLog :: "posix \<Rightarrow> string \<Rightarrow> file_mgr \<Rightarrow> file_log option \<times> file_mgr \<times> file_call list" where
  "getFileLog X filename m =
     (case map_of (fm_logs m) filename of
        Some l \<Rightarrow> (Some l, m, [])
      | None \<Rightarrow>
          (case log_open X filename newFileLog of
             (ok, l, calls) \<Rightarrow>
               if \<not> ok then (None, m, calls) else (Some l, m\<lparr>fm_logs := fm_logs m @ [(filename, l)]\<rparr>, calls)))"

definition removeFileLog :: "file_log \<Rightarrow> file_mgr \<Rightarrow> file_mgr" where
  "removeFileLog l m = m\<lparr>fm_logs := filter (\<lambda>e. fst e \<noteq> fl_path l) (fm_logs m)\<rparr>"

section \<open>Where a rotated log goes\<close>

lemma full_name: "getFileNameWithExt path = path"
  by (simp add: getFileNameWithExt_def substr_from_def split: option.split)

lemma dropWhile_stops: "\<forall>a \<in> set as. P a \<Longrightarrow> \<not> P x \<Longrightarrow> dropWhile P (as @ x # bs) = x # bs"
  by (simp add: dropWhile_append2)

lemma find_last_of_append:
  assumes "c \<in> set cs" "set ys \<inter> set cs = {}"
  shows "find_last_of (xs @ c # ys) cs = Some (length xs)"
proof -
  have "[0..<length xs + Suc (length ys)] = [0..<length xs] @ [length xs..<length xs + Suc (length ys)]"
    by (rule upt_add_eq_append) simp
  moreover have "[length xs..<length xs + Suc (length ys)] = length xs # [Suc (length xs)..<length xs + Suc (length ys)]"
    by (rule upt_conv_Cons) simp
  ultimately have "rev [0..<length (xs @ c # ys)]
      = rev [Suc (length xs)..<length (xs @ c # ys)] @ length xs # rev [0..<length xs]"
    by simp
  moreover have "\<forall>i \<in> set (rev [Suc (length xs)..<length (xs @ c # ys)]). (xs @ c # ys) ! i \<notin> set cs"
  proof
    fix i assume "i \<in> set (rev [Suc (length xs)..<length (xs @ c # ys)])"
    then have "(xs @ c # ys) ! i \<in> set ys" by (auto simp: nth_append nth_Cons')
    then show "(xs @ c # ys) ! i \<notin> set cs" using assms(2) by auto
  qed
  moreover have "\<not> (xs @ c # ys) ! length xs \<notin> set cs" using assms(1) by simp
  ultimately have "dropWhile (\<lambda>i. (xs @ c # ys) ! i \<notin> set cs) (rev [0..<length (xs @ c # ys)])
      = length xs # rev [0..<length xs]"
    using dropWhile_stops [of "rev [Suc (length xs)..<length (xs @ c # ys)]" "\<lambda>i. (xs @ c # ys) ! i \<notin> set cs"] by metis
  then show ?thesis unfolding find_last_of_def by (simp only: list.case)
qed

lemma find_last_of_none:
  assumes "set xs \<inter> set cs = {}"
  shows "find_last_of xs cs = None"
proof -
  have "xs ! i \<notin> set cs" if "i < length xs" for i using assms nth_mem [OF that] by blast
  then have "dropWhile (\<lambda>i. xs ! i \<notin> set cs) (rev [0..<length xs]) = []" by (simp add: dropWhile_eq_Nil_conv)
  then show ?thesis unfolding find_last_of_def by (simp only: list.case)
qed

text \<open>A file name: a stem and an extension without separators or dots.\<close>

definition plain_name :: "string \<Rightarrow> bool" where
  "plain_name s \<longleftrightarrow> s \<noteq> [] \<and> set s \<inter> {CHR ''/'', CHR 0x5C, CHR ''.''} = {}"

lemma dotted_parts:
  assumes "plain_name e" "n \<noteq> []"
  shows "getFileName (n @ ''.'' @ e) = n" "getFileExtension (n @ ''.'' @ e) = e"
proof -
  have "find_last_of (n @ ''.'' @ e) ''.'' = Some (length n)"
    using find_last_of_append [of "CHR ''.''" "''.''" e n] assms(1) by (auto simp: plain_name_def)
  then show "getFileName (n @ ''.'' @ e) = n" "getFileExtension (n @ ''.'' @ e) = e"
    using assms by (simp_all add: getFileName_def getFileExtension_def full_name substr_def substr_from_def plain_name_def)
qed

text \<open>
  The rotated file of a log that lies in a directory: the stem the code appends to the directory
  still holds the directory, so that \<open>log/a.txt\<close> is renamed to \<open>loglog/a_\<dots>.txt\<close>, outside
  \<open>log\<close>. A log without a directory is renamed as it should.
\<close>

lemma rotated_in_directory:
  assumes "fl_path l = d @ ''/'' @ n @ ''.'' @ e" "plain_name n" "plain_name e" "0 < fileSize X l"
  shows "hd (rotate_stamped X stamp l) = Rename (fl_path l) (d @ d @ ''/'' @ n @ stamp @ ''.'' @ e)"
proof -
  have "getFilePath (d @ ''/'' @ n @ ''.'' @ e) = d"
    using find_last_of_append [of "CHR ''/''" "[CHR ''/'', CHR 0x5C]" "n @ ''.'' @ e" d] assms(2,3)
    by (auto simp: getFilePath_def substr_def plain_name_def)
  moreover have "getFileName (d @ ''/'' @ n @ ''.'' @ e) = d @ ''/'' @ n"
      "getFileExtension (d @ ''/'' @ n @ ''.'' @ e) = e"
    using dotted_parts [OF assms(3), of "d @ ''/'' @ n"] by simp_all
  ultimately show ?thesis using assms(1,4) by (simp add: rotate_stamped_def rotate_def Let_def)
qed

lemma rotated_without_directory:
  assumes "fl_path l = n @ ''.'' @ e" "plain_name n" "plain_name e" "0 < fileSize X l"
  shows "hd (rotate_stamped X stamp l) = Rename (fl_path l) (''./'' @ n @ stamp @ ''.'' @ e)"
proof -
  have "getFilePath (n @ ''.'' @ e) = ''./''"
    using find_last_of_none [of "n @ ''.'' @ e" "[CHR ''/'', CHR 0x5C]"] assms(2,3)
    by (auto simp: getFilePath_def plain_name_def)
  moreover have "getFileName (n @ ''.'' @ e) = n" "getFileExtension (n @ ''.'' @ e) = e"
    using dotted_parts [OF assms(3), of n] assms(2) by (simp_all add: plain_name_def)
  ultimately show ?thesis using assms(1,2,4) by (simp add: rotate_stamped_def rotate_def Let_def plain_name_def)
qed

text \<open>Each log rotates at most once per update, at the border its own type names.\<close>

lemma rotate_log_once:
  "rotate_log X now m l = [] \<or>
   (\<exists>stamp. rotate_log X now m l = rotate_stamped X stamp l \<and>
      (fl_rotate l = kRotateMinute \<and> ck_minute (fm_last m) \<noteq> ck_minute now \<and> stamp = minute_stamp (fm_last m) \<or>
       fl_rotate l = kRotateHour \<and> ck_hour (fm_last m) \<noteq> ck_hour now \<and> stamp = hour_stamp (fm_last m) \<or>
       fl_rotate l = kRotateDay \<and> ck_day (fm_last m) \<noteq> ck_day now \<and> stamp = day_stamp (fm_last m)))"
  by (cases "fl_rotate l") (auto simp: rotate_log_def rotateMinutes_def rotateHours_def rotateDays_def)

end
