(* ===== verification/LogLines.thy ===== *)
theory LogLines
  imports LogFiles
begin

text \<open>
  Log lines: \<open>src/utils/lssvc_time.cpp\<close>, \<open>lssvc_logger.cpp\<close>, \<open>lssvc_logstream.cpp\<close> and the macros
  that use them. The clock's readings, the calendar's fields and the thread's number are parameters;
  what is written is the list of calls of the theory \<open>LogFiles\<close>, the terminal being descriptor 1.
\<close>

section \<open>Time\<close>

record timeval =
  tv_sec :: int
  tv_usec :: int

definition nowMs :: "timeval \<Rightarrow> int" where
  "nowMs tv = tv_sec tv * 1000 + tv_usec tv div 1000"

definition now_sec :: "timeval \<Rightarrow> int" where
  "now_sec tv = tv_sec tv"

record tm =
  tm_year :: int
  tm_mon :: int
  tm_mday :: int
  tm_hour :: int
  tm_min :: int
  tm_sec :: int

text \<open>Years count from 1900 and months from 0.\<close>

definition now_fields :: "tm \<Rightarrow> int \<times> int \<times> int \<times> int \<times> int \<times> int" where
  "now_fields t = (tm_year t + 1900, tm_mon t + 1, tm_mday t, tm_hour t, tm_min t, tm_sec t)"

text \<open>The conversion \<open>%4d\<close> fills with blanks, where \<open>%02d\<close> fills with zeros.\<close>

definition signed_decimal :: "int \<Rightarrow> string" where
  "signed_decimal x = (if x < 0 then ''-'' @ decimal (nat (- x)) else decimal (nat x))"

definition blank_padded :: "nat \<Rightarrow> int \<Rightarrow> string" where
  "blank_padded w x = replicate (w - length (signed_decimal x)) CHR '' '' @ signed_decimal x"

definition getISOTime :: "tm \<Rightarrow> string" where
  "getISOTime t = blank_padded 4 (tm_year t + 1900) @ ''-'' @ padded 2 (tm_mon t + 1) @ ''-'' @ padded 2 (tm_mday t)
     @ ''T'' @ padded 2 (tm_hour t) @ '':'' @ padded 2 (tm_min t) @ '':'' @ padded 2 (tm_sec t)"

section \<open>The logger\<close>

datatype log_level = kTrace | kDebug | kInfo | kWarn | kError | kMaxNumOfLogLevel

fun level_code :: "log_level \<Rightarrow> nat" where
  "level_code kTrace = 0"
| "level_code kDebug = 1"
| "level_code kInfo = 2"
| "level_code kWarn = 3"
| "level_code kError = 4"
| "level_code kMaxNumOfLogLevel = 5"

instantiation log_level :: linorder
begin

definition less_eq_log_level :: "log_level \<Rightarrow> log_level \<Rightarrow> bool" where
  "less_eq_log_level a b \<longleftrightarrow> level_code a \<le> level_code b"

definition less_log_level :: "log_level \<Rightarrow> log_level \<Rightarrow> bool" where
  "less_log_level a b \<longleftrightarrow> level_code a < level_code b"

instance
proof
  have "level_code a = level_code b \<Longrightarrow> a = b" for a b by (cases a; cases b) simp_all
  then show "x \<le> y \<Longrightarrow> y \<le> x \<Longrightarrow> x = y" for x y :: log_level by (simp add: less_eq_log_level_def)
qed (auto simp: less_eq_log_level_def less_log_level_def)

end

record logger =
  lg_level :: log_level
  lg_log :: "file_log option"

definition newLogger :: "file_log option \<Rightarrow> logger" where
  "newLogger log = \<lparr>lg_level = kDebug, lg_log = log\<rparr>"

definition setLogLevel :: "log_level \<Rightarrow> logger \<Rightarrow> logger" where
  "setLogLevel l g = g\<lparr>lg_level := l\<rparr>"

definition getLogLevel :: "logger \<Rightarrow> log_level" where
  "getLogLevel g = lg_level g"

definition logger_write :: "string \<Rightarrow> logger \<Rightarrow> file_call list" where
  "logger_write msg g = (case lg_log g of Some l \<Rightarrow> writeLog msg l | None \<Rightarrow> [WriteFd 1 msg])"

section \<open>A line\<close>

definition escape :: "string \<Rightarrow> string" where
  "escape code = CHR 0x1B # ''['' @ code @ ''m''"

definition RED :: string where "RED = escape ''31''"
definition GREEN :: string where "GREEN = escape ''32''"
definition YELLOW :: string where "YELLOW = escape ''33''"
definition BLUE :: string where "BLUE = escape ''34''"
definition MAGENTA :: string where "MAGENTA = escape ''35''"
definition CYAN :: string where "CYAN = escape ''36''"
definition WHITE :: string where "WHITE = escape ''37''"
definition RESET :: string where "RESET = escape ''0''"

definition level_colors :: "string list" where
  "level_colors = [CYAN, GREEN, WHITE, YELLOW, RED]"

definition log_string :: "string list" where
  "log_string = ['' TRACE '', '' DEBUG '', '' INFO '', '' WARN '', '' ERROR '']"

definition base_name :: "string \<Rightarrow> string" where
  "base_name file = (case find_last_of file ''/'' of None \<Rightarrow> file | Some pos \<Rightarrow> drop (pos + 1) file)"

text \<open>What the constructor puts into the stream, for a level that has a name.\<close>

definition line_start :: "tm \<Rightarrow> int \<Rightarrow> string \<Rightarrow> int \<Rightarrow> log_level \<Rightarrow> string option \<Rightarrow> string" where
  "line_start t tid file line level func =
     getISOTime t @ '' '' @ signed_decimal tid @ level_colors ! level_code level @ log_string ! level_code level
     @ ''['' @ base_name file @ '':'' @ signed_decimal line @ '']'' @ RESET
     @ (case func of None \<Rightarrow> [] | Some f \<Rightarrow> MAGENTA @ ''['' @ f @ '']'' @ RESET)"

text \<open>The destructor ends the line and writes it.\<close>

definition log_stream :: "tm \<Rightarrow> int \<Rightarrow> logger option \<Rightarrow> string \<Rightarrow> int \<Rightarrow> log_level \<Rightarrow> string option \<Rightarrow> string list \<Rightarrow> file_call list"
where
  "log_stream t tid g file line level func parts =
     (case g of None \<Rightarrow> []
      | Some g \<Rightarrow> logger_write (line_start t tid file line level func @ concat parts @ [CHR 0x0D, CHR 0x0A]) g)"

text \<open>
  The macros: traces and debug lines name the function, warnings and errors are written whatever the
  level.
\<close>

definition log_macro :: "log_level \<Rightarrow> tm \<Rightarrow> int \<Rightarrow> logger option \<Rightarrow> string \<Rightarrow> int \<Rightarrow> string \<Rightarrow> string list \<Rightarrow> file_call list" where
  "log_macro level t tid g file line func parts =
     (case g of None \<Rightarrow> []
      | Some lg \<Rightarrow>
          if level \<le> kInfo \<and> \<not> getLogLevel lg \<le> level then []
          else log_stream t tid g file line level (if level \<le> kDebug then Some func else None) parts)"

section \<open>What is written\<close>

lemma two_digits: "0 \<le> x \<Longrightarrow> x < 100 \<Longrightarrow> length (padded 2 x) = 2"
  by (auto simp: padded_def nat_less_iff Suc_le_eq)

lemma four_digits: "1000 \<le> x \<Longrightarrow> x < 10000 \<Longrightarrow> length (blank_padded 4 x) = 4"
  by (auto simp: blank_padded_def signed_decimal_def nat_less_iff)

text \<open>Times of the years 1000 to 9999 all have the same length, so the columns of a log line up.\<close>

lemma iso_time_length:
  assumes "-900 \<le> tm_year t" "tm_year t < 8100" "0 \<le> tm_mon t" "tm_mon t < 12" "0 \<le> tm_mday t" "tm_mday t < 32"
    "0 \<le> tm_hour t" "tm_hour t < 24" "0 \<le> tm_min t" "tm_min t < 60" "0 \<le> tm_sec t" "tm_sec t \<le> 60"
  shows "length (getISOTime t) = 19"
  using assms by (simp add: getISOTime_def two_digits four_digits)

lemma base_name_last: "CHR ''/'' \<notin> set n \<Longrightarrow> base_name (d @ ''/'' @ n) = n"
  using find_last_of_append [of "CHR ''/''" "''/''" n d] by (simp add: base_name_def)

text \<open>One line is one call, which ends with a line break; below the level of the logger there is none.\<close>

lemma macro_writes:
  "log_macro level t tid (Some g) file line func parts =
     (if level < kWarn \<and> level < lg_level g then []
      else logger_write (line_start t tid file line level (if level < kInfo then Some func else None)
        @ concat parts @ [CHR 0x0D, CHR 0x0A]) g)"
  by (cases level) (auto simp: log_macro_def log_stream_def getLogLevel_def less_eq_log_level_def less_log_level_def)

lemma one_call: "\<exists>fd. logger_write msg g = [WriteFd fd msg]"
  by (auto simp: logger_write_def writeLog_def split: option.split)

end
