(* ===== verification/TimingWheel.thy ===== *)
theory TimingWheel
  imports Prelude
begin

text \<open>
  The timing wheels of \<open>src/network/net/lssvc_timing_wheel.cpp\<close>. A timer runs when the last pointer
  to its entry is dropped: an entry sits in a slot of a wheel, directly or inside the closure that
  moves it on to a finer wheel. The order in which a set drops its entries is the order of the list.
\<close>

section \<open>Entries and wheels\<close>

text \<open>
  A callback to run once, one to run again and again, and the entry of a connection's idle time,
  which may sit in many slots.
\<close>

datatype timer = After nat | Every nat int | Idle nat

text \<open>What is in a slot: an entry, or a closure that inserts it again with a rest of the delay.\<close>

datatype item = Entry timer | Later nat timer

fun item_timer :: "item \<Rightarrow> timer" where
  "item_timer (Entry t) = t"
| "item_timer (Later d t) = t"

record wheel =
  wh_second :: "item list list"
  wh_minute :: "item list list"
  wh_hour :: "item list list"
  wh_day :: "item list list"
  wh_last :: int
  wh_tick :: nat

definition kTimingMinute :: nat where "kTimingMinute = 60"
definition kTimingHour :: nat where "kTimingHour = 60 * 60"
definition kTimingDay :: nat where "kTimingDay = 60 * 60 * 24"

definition newWheel :: wheel where
  "newWheel = \<lparr>wh_second = replicate 60 [], wh_minute = replicate 60 [], wh_hour = replicate 24 [],
     wh_day = replicate 30 [], wh_last = 0, wh_tick = 0\<rparr>"

definition wheel_items :: "wheel \<Rightarrow> item list" where
  "wheel_items w = concat (wh_second w) @ concat (wh_minute w) @ concat (wh_hour w) @ concat (wh_day w)"

definition held :: "timer \<Rightarrow> item list \<Rightarrow> bool" where
  "held t is \<longleftrightarrow> t \<in> item_timer ` set is"

section \<open>Inserting\<close>

text \<open>A set takes an entry once; the index of a slot is not checked.\<close>

definition put_slot :: "nat \<Rightarrow> item \<Rightarrow> item list list \<Rightarrow> item list list res" where
  "put_slot i x slots =
     (if i < length slots then
        Inr (slots[i := if x \<in> set (slots ! i) then slots ! i else slots ! i @ [x]])
      else Inl OutOfBounds)"

text \<open>\<open>delay - 1\<close> wraps: the slot of the delay 0 is slot \<open>2 ^ 32 - 1\<close>.\<close>

definition before :: "nat \<Rightarrow> nat" where
  "before n = (if n = 0 then 2 ^ 32 - 1 else n - 1)"

definition insertSecondEntry :: "nat \<Rightarrow> timer \<Rightarrow> wheel \<Rightarrow> wheel res" where
  "insertSecondEntry delay t w =
     bindr (put_slot (before delay) (Entry t) (wh_second w)) (\<lambda>s. Inr (w\<lparr>wh_second := s\<rparr>))"

definition insertMinuteEntry :: "nat \<Rightarrow> timer \<Rightarrow> wheel \<Rightarrow> wheel res" where
  "insertMinuteEntry delay t w =
     bindr (put_slot (before (delay div kTimingMinute)) (Later (delay mod kTimingMinute) t) (wh_minute w))
       (\<lambda>s. Inr (w\<lparr>wh_minute := s\<rparr>))"

definition insertHourEntry :: "nat \<Rightarrow> timer \<Rightarrow> wheel \<Rightarrow> wheel res" where
  "insertHourEntry delay t w =
     bindr (put_slot (before (delay div kTimingHour)) (Later (delay mod kTimingHour) t) (wh_hour w))
       (\<lambda>s. Inr (w\<lparr>wh_hour := s\<rparr>))"

definition insertDayEntry :: "nat \<Rightarrow> timer \<Rightarrow> wheel \<Rightarrow> wheel res" where
  "insertDayEntry delay t w =
     bindr (put_slot (before (delay div kTimingDay)) (Later (delay mod kTimingDay) t) (wh_day w))
       (\<lambda>s. Inr (w\<lparr>wh_day := s\<rparr>))"

text \<open>
  \<open>insertEntry\<close> also tells whether the entry is in a wheel now. With the delay 0 the code resets
  its own pointer and goes on, to write into a slot that does not exist.
\<close>

definition insertEntry :: "nat \<Rightarrow> timer \<Rightarrow> wheel \<Rightarrow> (bool \<times> wheel) res" where
  "insertEntry delay t w =
     (if delay < kTimingMinute then bindr (insertSecondEntry delay t w) (\<lambda>w1. Inr (True, w1))
      else if delay < kTimingHour then bindr (insertMinuteEntry delay t w) (\<lambda>w1. Inr (True, w1))
      else if delay < kTimingDay then bindr (insertHourEntry delay t w) (\<lambda>w1. Inr (True, w1))
      else if 30 < delay div kTimingDay then Inr (False, w)
      else bindr (insertDayEntry delay t w) (\<lambda>w1. Inr (True, w1)))"

section \<open>Ticking\<close>

text \<open>
  Dropping the entries of a slot: what runs, and the wheels afterwards. An entry that is in no
  wheel and not among those still to be dropped runs. A periodic one is inserted again by its
  callback; with an interval no wheel takes it runs again at once, without end.
\<close>

fun drop_items :: "item list \<Rightarrow> wheel \<Rightarrow> (timer list \<times> wheel) res" where
  "drop_items [] w = Inr ([], w)"
| "drop_items (Later d t # is) w =
     bindr (insertEntry d t w) (\<lambda>(stored, w1). drop_items is w1)"
| "drop_items (Entry t # is) w =
     (if held t (is @ wheel_items w) then drop_items is w
      else
        bindr (case t of
                 Every n interval \<Rightarrow>
                   bindr (insertEntry (nat (u32_int interval)) t w)
                     (\<lambda>(stored, w1). if stored then Inr w1 else Inl Runaway)
               | _ \<Rightarrow> Inr w) (\<lambda>w1.
        bindr (drop_items is w1) (\<lambda>(ts, w2). Inr (t # ts, w2))))"

text \<open>A wheel turns: its first slot becomes an empty last one.\<close>

definition turn :: "item list list \<Rightarrow> item list list" where
  "turn slots = tl slots @ [[]]"

definition pop_second :: "wheel \<Rightarrow> (timer list \<times> wheel) res" where
  "pop_second w = drop_items (hd (wh_second w)) (w\<lparr>wh_second := turn (wh_second w)\<rparr>)"

definition pop_minute :: "wheel \<Rightarrow> (timer list \<times> wheel) res" where
  "pop_minute w = drop_items (hd (wh_minute w)) (w\<lparr>wh_minute := turn (wh_minute w)\<rparr>)"

definition pop_hour :: "wheel \<Rightarrow> (timer list \<times> wheel) res" where
  "pop_hour w = drop_items (hd (wh_hour w)) (w\<lparr>wh_hour := turn (wh_hour w)\<rparr>)"

definition pop_day :: "wheel \<Rightarrow> (timer list \<times> wheel) res" where
  "pop_day w = drop_items (hd (wh_day w)) (w\<lparr>wh_day := turn (wh_day w)\<rparr>)"

definition tick :: "wheel \<Rightarrow> (timer list \<times> wheel) res" where
  "tick w0 =
     (let w = w0\<lparr>wh_tick := wh_tick w0 + 1\<rparr> in
      bindr (pop_second w) (\<lambda>(ts, w1).
      bindr (if wh_tick w1 mod kTimingMinute = 0 then pop_minute w1
             else if wh_tick w1 mod kTimingHour = 0 then pop_hour w1
             else if wh_tick w1 mod kTimingDay = 0 then pop_day w1
             else Inr ([], w1)) (\<lambda>(us, w2). Inr (ts @ us, w2))))"

definition onTimer :: "int \<Rightarrow> wheel \<Rightarrow> (timer list \<times> wheel) res" where
  "onTimer now w0 =
     (let w = (if wh_last w0 = 0 then w0\<lparr>wh_last := now\<rparr> else w0) in
      if now - wh_last w < 1000 then Inr ([], w)
      else tick (w\<lparr>wh_last := now\<rparr>))"

section \<open>Callbacks by delay\<close>

text \<open>An entry that no wheel takes is dropped when the call returns.\<close>

definition runAfter :: "int \<Rightarrow> nat \<Rightarrow> wheel \<Rightarrow> (timer list \<times> wheel) res" where
  "runAfter delay n w =
     bindr (insertEntry (nat (u32_int delay)) (After n) w)
       (\<lambda>(stored, w1). Inr (if stored then [] else [After n], w1))"

definition runEvery :: "int \<Rightarrow> nat \<Rightarrow> wheel \<Rightarrow> (timer list \<times> wheel) res" where
  "runEvery interval n w =
     bindr (insertEntry (nat (u32_int interval)) (Every n interval) w)
       (\<lambda>(stored, w1). if stored then Inr ([], w1) else Inl Runaway)"

section \<open>Following one timer\<close>

text \<open>The wheels as one timer sees them: of every slot, only the items of that timer.\<close>

definition mine :: "timer \<Rightarrow> item list list \<Rightarrow> item list list" where
  "mine t slots = map (filter (\<lambda>x. item_timer x = t)) slots"

definition view :: "timer \<Rightarrow> wheel \<Rightarrow> item list list \<times> item list list \<times> item list list \<times> item list list" where
  "view t w = (mine t (wh_second w), mine t (wh_minute w), mine t (wh_hour w), mine t (wh_day w))"

definition wheel_ok :: "wheel \<Rightarrow> bool" where
  "wheel_ok w \<longleftrightarrow> length (wh_second w) = 60 \<and> length (wh_minute w) = 60 \<and> length (wh_hour w) = 24
     \<and> length (wh_day w) = 30"

lemma new_wheel_ok: "wheel_ok newWheel"
  by (simp add: wheel_ok_def newWheel_def)

lemma put_slot_view:
  assumes "put_slot i x slots = Inr slots1"
  shows "length slots1 = length slots"
    and "item_timer x \<noteq> t \<Longrightarrow> mine t slots1 = mine t slots"
    and "item_timer x = t \<Longrightarrow> mine t slots = replicate n [] \<Longrightarrow> i < n \<and> mine t slots1 = (replicate n [])[i := [x]]"
proof -
  have i: "i < length slots" "slots1 = slots[i := if x \<in> set (slots ! i) then slots ! i else slots ! i @ [x]]"
    using assms by (auto simp: put_slot_def split: if_splits)
  show "length slots1 = length slots" using i by simp
  show "item_timer x \<noteq> t \<Longrightarrow> mine t slots1 = mine t slots"
    using i by (auto simp: mine_def map_update list_update_same_conv)
  assume x: "item_timer x = t" and n: "mine t slots = replicate n []"
  have l: "i < n" using i(1) n by (metis length_map length_replicate mine_def)
  have e: "filter (\<lambda>x. item_timer x = t) (slots ! i) = []"
    using n l i(1) by (metis mine_def nth_map nth_replicate)
  then have "x \<notin> set (slots ! i)" using x by (auto simp: filter_empty_conv)
  then show "i < n \<and> mine t slots1 = (replicate n [])[i := [x]]"
    using l i(2) n e x by (simp add: mine_def map_update)
qed

lemmas insert_defs = insertEntry_def insertSecondEntry_def insertMinuteEntry_def insertHourEntry_def
  insertDayEntry_def

text \<open>Inserting another timer changes nothing in the view.\<close>

lemma insert_other:
  assumes "insertEntry d s w = Inr (b, w1)" "s \<noteq> t"
  shows "view t w1 = view t w" "wh_tick w1 = wh_tick w" "wheel_ok w1 = wheel_ok w"
  using assms put_slot_view(1,2) by (auto simp: insert_defs view_def wheel_ok_def res_simps split: if_splits)

lemma held_append [simp]: "held t (xs @ ys) \<longleftrightarrow> held t xs \<or> held t ys"
  by (auto simp: held_def)

lemma held_Cons [simp]: "held t (x # xs) \<longleftrightarrow> item_timer x = t \<or> held t xs"
  by (auto simp: held_def)

lemma held_filter: "held t xs \<longleftrightarrow> filter (\<lambda>x. item_timer x = t) xs \<noteq> []"
  by (auto simp: held_def filter_empty_conv)

definition not_in :: "timer \<Rightarrow> wheel \<Rightarrow> bool" where
  "not_in t w \<longleftrightarrow> view t w = (replicate 60 [], replicate 60 [], replicate 24 [], replicate 30 [])"

lemma concat_mine: "filter (\<lambda>x. item_timer x = t) (concat slots) = concat (mine t slots)"
  by (induction slots) (simp_all add: mine_def)

lemma not_in_held: "not_in t w \<Longrightarrow> \<not> held t (wheel_items w)"
  by (simp add: held_filter wheel_items_def concat_mine not_in_def view_def)

lemma not_in_intro: "wheel_ok w \<Longrightarrow> \<not> held t (wheel_items w) \<Longrightarrow> not_in t w"
proof -
  have e: "mine t slots = replicate (length slots) []" if "concat (mine t slots) = []" for slots
    using that by (auto simp: mine_def intro!: replicate_eqI)
  assume "wheel_ok w" "\<not> held t (wheel_items w)"
  then show "not_in t w"
    using e [of "wh_second w"] e [of "wh_minute w"] e [of "wh_hour w"] e [of "wh_day w"]
    by (simp add: held_filter wheel_items_def concat_mine not_in_def view_def wheel_ok_def)
qed

text \<open>Dropping other items leaves the timer alone and does not run it.\<close>

lemma drop_step:
  assumes "drop_items (x # is) w = Inr (ts, w1)" "item_timer x \<noteq> t"
  obtains us w2 where "drop_items is w2 = Inr (us, w1)" "view t w2 = view t w" "wh_tick w2 = wh_tick w"
    "wheel_ok w2 = wheel_ok w" "t \<in> set ts \<longleftrightarrow> t \<in> set us"
proof (cases x)
  case (Later d s)
  then show ?thesis using assms that insert_other by (fastforce simp: res_simps)
next
  case (Entry s)
  show ?thesis
  proof (cases "held s (is @ wheel_items w)")
    case True
    then show ?thesis using assms that Entry by simp
  next
    case False
    obtain w2 where w2: "(case s of Every n i \<Rightarrow> bindr (insertEntry (nat (u32_int i)) s w)
        (\<lambda>(stored, w1). if stored then Inr w1 else Inl Runaway) | _ \<Rightarrow> Inr w) = Inr w2"
        "bindr (drop_items is w2) (\<lambda>(ts, w3). Inr (s # ts, w3)) = Inr (ts, w1)"
      using assms(1) False by (auto simp: Entry res_simps split: timer.splits)
    then obtain us where us: "drop_items is w2 = Inr (us, w1)" "ts = s # us" by (auto simp: res_simps)
    have "view t w2 = view t w \<and> wh_tick w2 = wh_tick w \<and> wheel_ok w2 = wheel_ok w"
      using w2(1) insert_other assms(2) Entry
      by (cases s) (auto simp: res_simps split: if_splits)
    then show ?thesis using that us assms(2) Entry by auto
  qed
qed

lemma drop_others:
  "drop_items is w = Inr (ts, w1) \<Longrightarrow> \<not> held t is \<Longrightarrow>
   view t w1 = view t w \<and> wh_tick w1 = wh_tick w \<and> wheel_ok w1 = wheel_ok w \<and> t \<notin> set ts"
proof (induction "is" arbitrary: w ts)
  case (Cons x xs)
  obtain us w2 where "drop_items xs w2 = Inr (us, w1)" "view t w2 = view t w" "wh_tick w2 = wh_tick w"
    "wheel_ok w2 = wheel_ok w" "t \<in> set ts \<longleftrightarrow> t \<in> set us"
    using drop_step [OF Cons.prems(1)] Cons.prems(2) by (metis held_Cons)
  then show ?case using Cons.IH Cons.prems(2) by auto
qed simp

text \<open>Dropping the only item of the timer: an entry runs, a closure inserts it.\<close>

lemma drop_entry:
  "drop_items is w = Inr (ts, w1) \<Longrightarrow> filter (\<lambda>x. item_timer x = After n) is = [Entry (After n)] \<Longrightarrow>
   not_in (After n) w \<Longrightarrow> After n \<in> set ts \<and> not_in (After n) w1 \<and> wh_tick w1 = wh_tick w \<and> wheel_ok w1 = wheel_ok w"
proof (induction "is" arbitrary: w ts)
  case (Cons x xs)
  show ?case
  proof (cases "item_timer x = After n")
    case True
    then have x: "x = Entry (After n)" "\<not> held (After n) xs"
      using Cons.prems(2) by (auto simp: held_filter)
    then obtain us where "drop_items xs w = Inr (us, w1)" "ts = After n # us"
      using Cons.prems(1) not_in_held [OF Cons.prems(3)] by (auto simp: res_simps)
    then show ?thesis using drop_others [of xs w us w1 "After n"] x(2) Cons.prems(3) by (simp add: not_in_def)
  next
    case False
    obtain us w2 where "drop_items xs w2 = Inr (us, w1)" "view (After n) w2 = view (After n) w"
      "wh_tick w2 = wh_tick w" "wheel_ok w2 = wheel_ok w" "After n \<in> set ts \<longleftrightarrow> After n \<in> set us"
      using drop_step [OF Cons.prems(1) False] by metis
    then show ?thesis using Cons.IH [of w2 us] Cons.prems(2,3) False by (simp add: not_in_def)
  qed
qed simp

definition in_second :: "timer \<Rightarrow> nat \<Rightarrow> wheel \<Rightarrow> bool" where
  "in_second t i w \<longleftrightarrow> i < 60 \<and>
     view t w = ((replicate 60 [])[i := [Entry t]], replicate 60 [], replicate 24 [], replicate 30 [])"

definition in_minute :: "timer \<Rightarrow> nat \<Rightarrow> nat \<Rightarrow> wheel \<Rightarrow> bool" where
  "in_minute t j d w \<longleftrightarrow> j < 60 \<and> d < 60 \<and>
     view t w = (replicate 60 [], (replicate 60 [])[j := [Later d t]], replicate 24 [], replicate 30 [])"

lemma insert_second:
  assumes "insertEntry d t w = Inr (b, w1)" "not_in t w" "d < 60"
  shows "b \<and> 0 < d \<and> in_second t (d - 1) w1 \<and> wh_tick w1 = wh_tick w \<and> wheel_ok w1 = wheel_ok w"
proof -
  obtain s where s: "put_slot (before d) (Entry t) (wh_second w) = Inr s" "w1 = w\<lparr>wh_second := s\<rparr>" "b"
    using assms by (auto simp: insert_defs kTimingMinute_def res_simps)
  note p = put_slot_view [OF s(1)]
  have m: "before d < 60" "mine t s = (replicate 60 [])[before d := [Entry t]]"
    using p(3) [of t 60] assms(2) by (auto simp: not_in_def view_def)
  then have "0 < d" "before d = d - 1" using assms(3) by (auto simp: before_def split: if_splits)
  then show ?thesis using s m p(1) assms(2) by (simp add: in_second_def not_in_def view_def wheel_ok_def)
qed

lemma drop_later:
  "drop_items is w = Inr (ts, w1) \<Longrightarrow> filter (\<lambda>x. item_timer x = t) is = [Later d t] \<Longrightarrow>
   not_in t w \<Longrightarrow> d < 60 \<Longrightarrow>
   t \<notin> set ts \<and> 0 < d \<and> in_second t (d - 1) w1 \<and> wh_tick w1 = wh_tick w \<and> wheel_ok w1 = wheel_ok w"
proof (induction "is" arbitrary: w ts)
  case (Cons x xs)
  show ?case
  proof (cases "item_timer x = t")
    case True
    then have x: "x = Later d t" "\<not> held t xs"
      using Cons.prems(2) by (auto simp: held_filter)
    then obtain b w2 where w2: "insertEntry d t w = Inr (b, w2)" "drop_items xs w2 = Inr (ts, w1)"
      using Cons.prems(1) by (auto simp: res_simps)
    show ?thesis
      using insert_second [OF w2(1) Cons.prems(3,4)] drop_others [OF w2(2) x(2)] by (simp add: in_second_def)
  next
    case False
    obtain us w2 where "drop_items xs w2 = Inr (us, w1)" "view t w2 = view t w"
      "wh_tick w2 = wh_tick w" "wheel_ok w2 = wheel_ok w" "t \<in> set ts \<longleftrightarrow> t \<in> set us"
      using drop_step [OF Cons.prems(1) False] by metis
    then show ?thesis using Cons.IH [of w2 us] Cons.prems(2-4) False by (simp add: not_in_def)
  qed
qed simp

section \<open>One tick\<close>

lemma mine_turn: "slots \<noteq> [] \<Longrightarrow> mine t (turn slots) = turn (mine t slots)"
  by (cases slots) (simp_all add: mine_def turn_def)

lemma mine_hd: "slots \<noteq> [] \<Longrightarrow> filter (\<lambda>x. item_timer x = t) (hd slots) = hd (mine t slots)"
  by (cases slots) (simp_all add: mine_def)

lemma turn_replicate: "0 < n \<Longrightarrow> turn (replicate n []) = replicate n []"
  by (cases n) (simp_all add: turn_def replicate_append_same)

lemma turn_update:
  assumes "i < n"
  shows "turn ((replicate n [])[i := xs]) = (if i = 0 then replicate n [] else (replicate n [])[i - 1 := xs])"
    "hd ((replicate n [])[i := xs]) = (if i = 0 then xs else [])"
proof -
  obtain m where m: "n = Suc m" using assms by (cases n) auto
  show "turn ((replicate n [])[i := xs]) = (if i = 0 then replicate n [] else (replicate n [])[i - 1 := xs])"
  proof (cases i)
    case (Suc j)
    then have "(replicate m [])[j := xs] @ [[]] = (replicate m [] @ [[]])[j := xs]"
      using assms m by (simp add: list_update_append)
    then show ?thesis using Suc m by (simp add: turn_def replicate_append_same)
  qed (simp add: turn_def m replicate_append_same)
  show "hd ((replicate n [])[i := xs]) = (if i = 0 then xs else [])"
    using m by (cases i) simp_all
qed

lemma insert_keeps:
  "insertEntry d s w = Inr (b, w1) \<Longrightarrow> wh_tick w1 = wh_tick w \<and> wheel_ok w1 = wheel_ok w"
  using put_slot_view(1) by (auto simp: insert_defs wheel_ok_def res_simps split: if_splits)

lemma drop_keeps: "drop_items is w = Inr (ts, w1) \<Longrightarrow> wh_tick w1 = wh_tick w \<and> wheel_ok w1 = wheel_ok w"
proof (induction "is" w arbitrary: ts rule: drop_items.induct)
  case (2 d t "is" w)
  then show ?case using insert_keeps by (fastforce simp: res_simps)
next
  case (3 t "is" w)
  show ?case
  proof (cases "held t (is @ wheel_items w)")
    case True
    then show ?thesis using 3 by simp
  next
    case False
    obtain w2 where w2: "(case t of Every n i \<Rightarrow> bindr (insertEntry (nat (u32_int i)) t w)
        (\<lambda>(stored, w1). if stored then Inr w1 else Inl Runaway) | _ \<Rightarrow> Inr w) = Inr w2"
        "bindr (drop_items is w2) (\<lambda>(ts, w3). Inr (t # ts, w3)) = Inr (ts, w1)"
      using 3(3) False by (auto simp: res_simps split: timer.splits)
    then obtain us where us: "drop_items is w2 = Inr (us, w1)" by (auto simp: res_simps)
    have "wh_tick w2 = wh_tick w \<and> wheel_ok w2 = wheel_ok w"
      using w2(1) insert_keeps by (cases t) (auto simp: res_simps split: if_splits)
    moreover have "wh_tick w1 = wh_tick w2 \<and> wheel_ok w1 = wheel_ok w2" using 3(2) [OF False w2(1) us] .
    ultimately show ?thesis by simp
  qed
qed simp

text \<open>The hour wheel's turn comes only when the minute wheel's does not: never.\<close>

lemma tick_split:
  assumes "tick w = Inr (ts, w1)" "wheel_ok w"
  obtains us w2 vs where
    "drop_items (hd (wh_second w)) (w\<lparr>wh_tick := wh_tick w + 1, wh_second := turn (wh_second w)\<rparr>) = Inr (us, w2)"
    "if (wh_tick w + 1) mod 60 = 0
     then drop_items (hd (wh_minute w2)) (w2\<lparr>wh_minute := turn (wh_minute w2)\<rparr>) = Inr (vs, w1)
     else vs = [] \<and> w1 = w2"
    "ts = us @ vs" "wheel_ok w2" "wheel_ok w1" "wh_tick w1 = wh_tick w + 1"
proof -
  obtain us w2 where p: "drop_items (hd (wh_second w)) (w\<lparr>wh_tick := wh_tick w + 1, wh_second := turn (wh_second w)\<rparr>)
        = Inr (us, w2)"
      and q: "bindr (if wh_tick w2 mod kTimingMinute = 0 then pop_minute w2
             else if wh_tick w2 mod kTimingHour = 0 then pop_hour w2
             else if wh_tick w2 mod kTimingDay = 0 then pop_day w2
             else Inr ([], w2)) (\<lambda>(vs, w3). Inr (us @ vs, w3)) = Inr (ts, w1)"
    using assms(1) by (auto simp: tick_def pop_second_def Let_def res_simps)
  have ok: "wheel_ok w2" "wh_tick w2 = wh_tick w + 1"
    using drop_keeps [OF p] assms(2) by (auto simp: wheel_ok_def turn_def)
  have no: "(wh_tick w + 1) mod kTimingHour \<noteq> 0" "(wh_tick w + 1) mod kTimingDay \<noteq> 0"
    if "(wh_tick w + 1) mod 60 \<noteq> 0"
  proof -
    have "60 dvd kTimingHour" "60 dvd kTimingDay" by (simp_all add: kTimingHour_def kTimingDay_def)
    then show "(wh_tick w + 1) mod kTimingHour \<noteq> 0" "(wh_tick w + 1) mod kTimingDay \<noteq> 0"
      using that by (meson dvd_trans mod_eq_0_iff_dvd)+
  qed
  show thesis
  proof (cases "(wh_tick w + 1) mod 60 = 0")
    case True
    then obtain vs where v: "drop_items (hd (wh_minute w2)) (w2\<lparr>wh_minute := turn (wh_minute w2)\<rparr>) = Inr (vs, w1)"
        "ts = us @ vs"
      using q ok(2) by (auto simp: kTimingMinute_def pop_minute_def res_simps)
    then show thesis
      using that [OF p _ v(2) ok(1)] True drop_keeps [OF v(1)] ok by (auto simp: wheel_ok_def turn_def)
  next
    case False
    then have "ts = us @ []" "w1 = w2" using q ok(2) no by (auto simp: kTimingMinute_def)
    then show thesis using that [OF p, of "[]"] False ok by simp
  qed
qed

text \<open>The view after the turn of a wheel in which the timer has no item at the front.\<close>

lemma pop_second_view:
  assumes "drop_items (hd (wh_second w)) (w\<lparr>wh_tick := k, wh_second := turn (wh_second w)\<rparr>) = Inr (us, w2)"
    and "wheel_ok w" "hd (mine t (wh_second w)) = []"
  shows "view t w2 = (turn (mine t (wh_second w)), mine t (wh_minute w), mine t (wh_hour w), mine t (wh_day w))"
    "t \<notin> set us"
proof -
  have ne: "wh_second w \<noteq> []" using assms(2) by (auto simp: wheel_ok_def)
  have "\<not> held t (hd (wh_second w))" using assms(3) mine_hd [OF ne] by (simp add: held_filter)
  from drop_others [OF assms(1) this]
  show "view t w2 = (turn (mine t (wh_second w)), mine t (wh_minute w), mine t (wh_hour w), mine t (wh_day w))"
    "t \<notin> set us" by (simp_all add: view_def mine_turn [OF ne])
qed

lemma pop_minute_view:
  assumes "drop_items (hd (wh_minute w)) (w\<lparr>wh_minute := turn (wh_minute w)\<rparr>) = Inr (us, w2)"
    and "wheel_ok w" "hd (mine t (wh_minute w)) = []"
  shows "view t w2 = (mine t (wh_second w), turn (mine t (wh_minute w)), mine t (wh_hour w), mine t (wh_day w))"
    "t \<notin> set us"
proof -
  have ne: "wh_minute w \<noteq> []" using assms(2) by (auto simp: wheel_ok_def)
  have "\<not> held t (hd (wh_minute w))" using assms(3) mine_hd [OF ne] by (simp add: held_filter)
  from drop_others [OF assms(1) this]
  show "view t w2 = (mine t (wh_second w), turn (mine t (wh_minute w)), mine t (wh_hour w), mine t (wh_day w))"
    "t \<notin> set us" by (simp_all add: view_def mine_turn [OF ne])
qed

text \<open>A timer with no item in the two fast wheels stays where it is.\<close>

lemma tick_idle:
  assumes "tick w = Inr (ts, w1)" "wheel_ok w"
    and idle: "mine t (wh_second w) = replicate 60 []" "mine t (wh_minute w) = replicate 60 []"
  shows "t \<notin> set ts \<and> view t w1 = view t w \<and> wheel_ok w1"
proof -
  obtain us w2 vs where s: "drop_items (hd (wh_second w)) (w\<lparr>wh_tick := wh_tick w + 1, wh_second := turn (wh_second w)\<rparr>) = Inr (us, w2)"
    "if (wh_tick w + 1) mod 60 = 0
     then drop_items (hd (wh_minute w2)) (w2\<lparr>wh_minute := turn (wh_minute w2)\<rparr>) = Inr (vs, w1)
     else vs = [] \<and> w1 = w2" "ts = us @ vs" "wheel_ok w2" "wheel_ok w1"
    by (rule tick_split [OF assms(1,2)])
  have a: "view t w2 = view t w" "t \<notin> set us"
    using pop_second_view [OF s(1) assms(2), of t] idle by (simp_all add: view_def turn_replicate)
  have "view t w1 = view t w2 \<and> t \<notin> set vs"
  proof (cases "(wh_tick w + 1) mod 60 = 0")
    case True
    then show ?thesis
      using s(2) pop_minute_view [of w2 vs w1 t] s(4) idle(2) a(1) by (simp add: view_def turn_replicate)
  qed (use s(2) in auto)
  then show ?thesis using a s(3,5) by simp
qed

lemma tick_not_in:
  assumes "tick w = Inr (ts, w1)" "wheel_ok w" "not_in t w"
  shows "t \<notin> set ts \<and> not_in t w1 \<and> wheel_ok w1"
  using tick_idle [OF assms(1,2), of t] assms(3) by (simp add: not_in_def view_def)

lemma tick_in_second:
  assumes "tick w = Inr (ts, w1)" "wheel_ok w" "in_second (After n) i w"
  shows "wheel_ok w1 \<and> (if i = 0 then After n \<in> set ts \<and> not_in (After n) w1
    else After n \<notin> set ts \<and> in_second (After n) (i - 1) w1)"
proof -
  let ?t = "After n"
  obtain us w2 vs where s: "drop_items (hd (wh_second w)) (w\<lparr>wh_tick := wh_tick w + 1, wh_second := turn (wh_second w)\<rparr>) = Inr (us, w2)"
    "if (wh_tick w + 1) mod 60 = 0
     then drop_items (hd (wh_minute w2)) (w2\<lparr>wh_minute := turn (wh_minute w2)\<rparr>) = Inr (vs, w1)
     else vs = [] \<and> w1 = w2" "ts = us @ vs" "wheel_ok w2" "wheel_ok w1"
    by (rule tick_split [OF assms(1,2)])
  have v: "mine ?t (wh_second w) = (replicate 60 [])[i := [Entry ?t]]" "mine ?t (wh_minute w) = replicate 60 []"
      "mine ?t (wh_hour w) = replicate 24 []" "mine ?t (wh_day w) = replicate 30 []" "i < 60"
    using assms(3) by (auto simp: in_second_def view_def)
  have minute: "view ?t w1 = view ?t w2 \<and> ?t \<notin> set vs" if "mine ?t (wh_minute w2) = replicate 60 []"
  proof (cases "(wh_tick w + 1) mod 60 = 0")
    case True
    then show ?thesis
      using s(2) pop_minute_view [of w2 vs w1 ?t] s(4) that by (simp add: view_def turn_replicate)
  qed (use s(2) in auto)
  have ne: "wh_second w \<noteq> []" using assms(2) by (auto simp: wheel_ok_def)
  show ?thesis
  proof (cases "i = 0")
    case True
    have "filter (\<lambda>x. item_timer x = ?t) (hd (wh_second w)) = [Entry ?t]"
      using mine_hd [OF ne, of ?t] v(1,5) True by (simp add: turn_update(2))
    moreover have "not_in ?t (w\<lparr>wh_tick := wh_tick w + 1, wh_second := turn (wh_second w)\<rparr>)"
      using v True by (simp add: not_in_def view_def mine_turn [OF ne] turn_update(1))
    ultimately have "?t \<in> set us \<and> not_in ?t w2" using drop_entry [OF s(1)] by blast
    then show ?thesis using minute s(3,5) True by (simp add: not_in_def view_def)
  next
    case False
    have "hd (mine ?t (wh_second w)) = []" using v(1,5) False by (simp add: turn_update(2))
    note p = pop_second_view [OF s(1) assms(2) this]
    then have "view ?t w2 = ((replicate 60 [])[i - 1 := [Entry ?t]], replicate 60 [], replicate 24 [], replicate 30 [])"
      using v False by (simp add: turn_update(1))
    then show ?thesis using p(2) minute s(3,5) False v(5) by (simp add: in_second_def view_def)
  qed
qed

lemma tick_in_minute:
  assumes "tick w = Inr (ts, w1)" "wheel_ok w" "in_minute t j d w"
  shows "wheel_ok w1 \<and> wh_tick w1 = wh_tick w + 1 \<and> t \<notin> set ts \<and>
    (if (wh_tick w + 1) mod 60 \<noteq> 0 then in_minute t j d w1
     else if j = 0 then 0 < d \<and> in_second t (d - 1) w1
     else in_minute t (j - 1) d w1)"
proof -
  obtain us w2 vs where s: "drop_items (hd (wh_second w)) (w\<lparr>wh_tick := wh_tick w + 1, wh_second := turn (wh_second w)\<rparr>) = Inr (us, w2)"
    "if (wh_tick w + 1) mod 60 = 0
     then drop_items (hd (wh_minute w2)) (w2\<lparr>wh_minute := turn (wh_minute w2)\<rparr>) = Inr (vs, w1)
     else vs = [] \<and> w1 = w2" "ts = us @ vs" "wheel_ok w2" "wheel_ok w1" "wh_tick w1 = wh_tick w + 1"
    by (rule tick_split [OF assms(1,2)])
  have v: "view t w = (replicate 60 [], (replicate 60 [])[j := [Later d t]], replicate 24 [], replicate 30 [])"
      "j < 60" "d < 60"
    using assms(3) by (auto simp: in_minute_def)
  have w2: "view t w2 = view t w" "t \<notin> set us"
    using pop_second_view [OF s(1) assms(2), of t] v by (simp_all add: view_def turn_replicate)
  have ne: "wh_minute w2 \<noteq> []" using s(4) by (auto simp: wheel_ok_def)
  have m: "mine t (wh_minute w2) = (replicate 60 [])[j := [Later d t]]" using w2(1) v(1) by (simp add: view_def)
  show ?thesis
  proof (cases "(wh_tick w + 1) mod 60 = 0")
    case True
    then have p: "drop_items (hd (wh_minute w2)) (w2\<lparr>wh_minute := turn (wh_minute w2)\<rparr>) = Inr (vs, w1)" using s(2) by simp
    show ?thesis
    proof (cases "j = 0")
      case j: True
      have "filter (\<lambda>x. item_timer x = t) (hd (wh_minute w2)) = [Later d t]"
        using mine_hd [OF ne, of t] m v(2) j by (simp add: turn_update(2))
      moreover have "not_in t (w2\<lparr>wh_minute := turn (wh_minute w2)\<rparr>)"
        using w2(1) v j by (simp add: not_in_def view_def mine_turn [OF ne] turn_update(1))
      ultimately show ?thesis using drop_later [OF p _ _ v(3)] w2(2) s(3,5,6) True j by simp
    next
      case j: False
      have "hd (mine t (wh_minute w2)) = []" using m v(2) j by (simp add: turn_update(2))
      then have "view t w1 = (replicate 60 [], (replicate 60 [])[j - 1 := [Later d t]], replicate 24 [], replicate 30 [])"
          "t \<notin> set vs"
        using pop_minute_view [OF p s(4)] w2(1) v j by (simp_all add: view_def turn_update(1))
      then show ?thesis using w2(2) s(3,5,6) True j v(2,3) by (simp add: in_minute_def)
    qed
  next
    case False
    then show ?thesis using s w2 assms(3) by (simp add: in_minute_def)
  qed
qed

section \<open>Many ticks\<close>

text \<open>The timers each of \<open>k\<close> ticks runs.\<close>

fun ticks :: "nat \<Rightarrow> wheel \<Rightarrow> (timer list list \<times> wheel) res" where
  "ticks 0 w = Inr ([], w)"
| "ticks (Suc k) w = bindr (tick w) (\<lambda>(ts, w1). bindr (ticks k w1) (\<lambda>(tss, w2). Inr (ts # tss, w2)))"

lemma ticks_SucE:
  assumes "ticks (Suc k) w = Inr (tss, w2)"
  obtains ts w1 us where "tick w = Inr (ts, w1)" "ticks k w1 = Inr (us, w2)" "tss = ts # us"
  using assms by (auto simp: res_simps)

lemma ticks_length: "ticks k w = Inr (tss, w2) \<Longrightarrow> length tss = k"
  by (induction k arbitrary: w tss) (auto simp: res_simps)

lemma idle_run:
  "ticks k w = Inr (tss, w2) \<Longrightarrow> wheel_ok w \<Longrightarrow> mine t (wh_second w) = replicate 60 [] \<Longrightarrow>
   mine t (wh_minute w) = replicate 60 [] \<Longrightarrow> view t w2 = view t w \<and> (\<forall>ts \<in> set tss. t \<notin> set ts)"
proof (induction k arbitrary: w tss)
  case (Suc k)
  obtain ts w1 us where s: "tick w = Inr (ts, w1)" "ticks k w1 = Inr (us, w2)" "tss = ts # us"
    by (rule ticks_SucE [OF Suc.prems(1)])
  have "t \<notin> set ts \<and> view t w1 = view t w \<and> wheel_ok w1" using tick_idle [OF s(1) Suc.prems(2-4)] .
  then show ?case using Suc.IH [OF s(2)] Suc.prems(3,4) s(3) by (simp add: view_def)
qed simp

lemma second_run:
  "ticks k w = Inr (tss, w2) \<Longrightarrow> wheel_ok w \<Longrightarrow> in_second (After n) i w \<Longrightarrow> m < k \<Longrightarrow>
   After n \<in> set (tss ! m) \<longleftrightarrow> m = i"
proof (induction k arbitrary: w tss i m)
  case (Suc k)
  obtain ts w1 us where s: "tick w = Inr (ts, w1)" "ticks k w1 = Inr (us, w2)" "tss = ts # us"
    by (rule ticks_SucE [OF Suc.prems(1)])
  note t = tick_in_second [OF s(1) Suc.prems(2,3)]
  show ?case
  proof (cases m)
    case 0
    then show ?thesis using t s(3) by (auto split: if_splits)
  next
    case (Suc m')
    show ?thesis
    proof (cases "i = 0")
      case True
      then have "not_in (After n) w1" "wheel_ok w1" using t by auto
      then have "\<forall>ts \<in> set us. After n \<notin> set ts"
        using idle_run [OF s(2)] by (simp add: not_in_def view_def)
      moreover have "us ! m' \<in> set us" using ticks_length [OF s(2)] Suc.prems(4) Suc by simp
      ultimately show ?thesis using Suc s(3) True by simp
    next
      case False
      then show ?thesis using Suc.IH [OF s(2), of "i - 1" m'] t Suc.prems(4) Suc s(3) by auto
    qed
  qed
qed simp

text \<open>What is left of the minute wheel's turns for a closure in slot \<open>j\<close>.\<close>

definition minutes_left :: "nat \<Rightarrow> wheel \<Rightarrow> nat" where
  "minutes_left j w = 60 - wh_tick w mod 60 + 60 * j"

lemma minutes_left_step:
  assumes "wh_tick w1 = wh_tick w + 1"
  shows "(wh_tick w + 1) mod 60 \<noteq> 0 \<Longrightarrow> minutes_left j w = Suc (minutes_left j w1)"
    and "(wh_tick w + 1) mod 60 = 0 \<Longrightarrow> minutes_left (Suc j) w = Suc (minutes_left j w1)"
    and "(wh_tick w + 1) mod 60 = 0 \<Longrightarrow> minutes_left 0 w = 1"
  using assms by (auto simp: minutes_left_def mod_Suc split: if_splits)

lemma minute_run:
  "ticks k w = Inr (tss, w2) \<Longrightarrow> wheel_ok w \<Longrightarrow> in_minute (After n) j d w \<Longrightarrow>
   (d = 0 \<longrightarrow> k < minutes_left j w) \<and>
   (0 < d \<longrightarrow> (\<forall>m < k. After n \<in> set (tss ! m) \<longleftrightarrow> m + 1 = minutes_left j w + d))"
proof (induction k arbitrary: w tss j)
  case 0
  have "wh_tick w mod 60 < 60" by simp
  then show ?case unfolding minutes_left_def by auto
next
  case (Suc k)
  obtain ts w1 us where s: "tick w = Inr (ts, w1)" "ticks k w1 = Inr (us, w2)" "tss = ts # us"
    by (rule ticks_SucE [OF Suc.prems(1)])
  note t = tick_in_minute [OF s(1) Suc.prems(2,3)]
  have w1: "wh_tick w1 = wh_tick w + 1" "wheel_ok w1" "After n \<notin> set ts" using t by auto
  note l = minutes_left_step [OF w1(1)]
  consider (stay) j' where "in_minute (After n) j' d w1" "minutes_left j w = Suc (minutes_left j' w1)"
    | (move) "0 < d" "in_second (After n) (d - 1) w1" "minutes_left j w = 1"
  proof (cases "(wh_tick w + 1) mod 60 = 0")
    case True
    then show thesis using that t l(2,3) by (cases j) auto
  next
    case False
    then show thesis using that t l(1) by auto
  qed
  then show ?case
  proof cases
    case stay
    note ih = Suc.IH [OF s(2) w1(2) stay(1)]
    have "After n \<in> set (tss ! m) \<longleftrightarrow> m + 1 = minutes_left j w + d" if "m < Suc k" "0 < d" for m
      using ih stay(2) that w1(3) s(3) by (cases m) (auto simp: minutes_left_def)
    then show ?thesis using ih stay(2) by auto
  next
    case move
    have "After n \<in> set (tss ! m) \<longleftrightarrow> m + 1 = 1 + d" if "m < Suc k" for m
      using second_run [OF s(2) w1(2) move(2)] move(1) that w1(3) s(3) by (cases m) auto
    then show ?thesis using move by auto
  qed
qed

text \<open>What an insertion leads to.\<close>

lemma put_slot_total: "i < length slots \<Longrightarrow> \<exists>s. put_slot i x slots = Inr s"
  by (simp add: put_slot_def)

lemma insert_minute:
  assumes "wheel_ok w" "not_in t w" "60 \<le> d" "d < 3600"
  shows "\<exists>w1. insertEntry d t w = Inr (True, w1) \<and> wheel_ok w1 \<and> wh_tick w1 = wh_tick w
    \<and> in_minute t (d div 60 - 1) (d mod 60) w1"
proof -
  have d: "before (d div 60) = d div 60 - 1" "d div 60 - 1 < 60" using assms(3,4) by (auto simp: before_def)
  then obtain s where s: "put_slot (d div 60 - 1) (Later (d mod 60) t) (wh_minute w) = Inr s"
    using put_slot_total assms(1) unfolding wheel_ok_def by metis
  have m: "mine t (wh_minute w) = replicate 60 []" using assms(2) by (simp add: not_in_def view_def)
  have "insertEntry d t w = Inr (True, w\<lparr>wh_minute := s\<rparr>)"
    using assms(3,4) s d by (simp add: insert_defs kTimingMinute_def kTimingHour_def)
  moreover have "in_minute t (d div 60 - 1) (d mod 60) (w\<lparr>wh_minute := s\<rparr>)"
    using put_slot_view(3) [OF s, of t 60] m d assms(2) by (simp add: in_minute_def not_in_def view_def)
  ultimately show ?thesis using put_slot_view(1) [OF s] assms(1) by (simp add: wheel_ok_def)
qed

lemma insert_short:
  assumes "wheel_ok w" "not_in t w" "0 < d" "d < 60"
  shows "\<exists>w1. insertEntry d t w = Inr (True, w1) \<and> wheel_ok w1 \<and> in_second t (d - 1) w1"
proof -
  have "before d = d - 1" "d - 1 < 60" using assms(3,4) by (auto simp: before_def)
  then obtain s where s: "put_slot (before d) (Entry t) (wh_second w) = Inr s"
    using put_slot_total assms(1) unfolding wheel_ok_def by metis
  then have "insertEntry d t w = Inr (True, w\<lparr>wh_second := s\<rparr>)"
    using assms(4) by (simp add: insert_defs kTimingMinute_def)
  then show ?thesis using insert_second [OF _ assms(2,4)] assms(1) by blast
qed

lemma insert_slow:
  assumes "wheel_ok w" "not_in t w" "3600 \<le> d" "d < 31 * 86400"
  shows "\<exists>w1. insertEntry d t w = Inr (True, w1) \<and> wheel_ok w1 \<and> held t (wheel_items w1)
    \<and> mine t (wh_second w1) = replicate 60 [] \<and> mine t (wh_minute w1) = replicate 60 []"
proof -
  have v: "mine t (wh_second w) = replicate 60 []" "mine t (wh_minute w) = replicate 60 []"
      "mine t (wh_hour w) = replicate 24 []" "mine t (wh_day w) = replicate 30 []"
    using assms(2) by (simp_all add: not_in_def view_def)
  have h: "held t (wheel_items w1)" if "mine t (wh_hour w1) = xs[i := [x]] \<or> mine t (wh_day w1) = xs[i := [x]]"
      "i < length xs" for w1 xs i x
    using that by (auto simp: held_filter wheel_items_def concat_mine dest!: set_update_memI [of i xs "[x]"] split: if_splits)
  show ?thesis
  proof (cases "d < 86400")
    case True
    have d: "before (d div 3600) = d div 3600 - 1" "d div 3600 - 1 < 24" using assms(3) True by (auto simp: before_def)
    then obtain s where s: "put_slot (d div 3600 - 1) (Later (d mod 3600) t) (wh_hour w) = Inr s"
      using put_slot_total assms(1) unfolding wheel_ok_def by metis
    have "insertEntry d t w = Inr (True, w\<lparr>wh_hour := s\<rparr>)"
      using assms(3) True s d by (simp add: insert_defs kTimingMinute_def kTimingHour_def kTimingDay_def)
    moreover have "mine t s = (replicate 24 [])[d div 3600 - 1 := [Later (d mod 3600) t]]"
      using put_slot_view(3) [OF s, of t 24] v by simp
    ultimately show ?thesis
      using put_slot_view(1) [OF s] assms(1) v d h [of "w\<lparr>wh_hour := s\<rparr>" "replicate 24 []"]
      by (auto simp: wheel_ok_def)
  next
    case False
    have d: "before (d div 86400) = d div 86400 - 1" "d div 86400 - 1 < 30" "\<not> 30 < d div 86400"
      using assms(4) False by (auto simp: before_def)
    then obtain s where s: "put_slot (d div 86400 - 1) (Later (d mod 86400) t) (wh_day w) = Inr s"
      using put_slot_total assms(1) unfolding wheel_ok_def by metis
    have "insertEntry d t w = Inr (True, w\<lparr>wh_day := s\<rparr>)"
      using False s d by (simp add: insert_defs kTimingMinute_def kTimingHour_def kTimingDay_def)
    moreover have "mine t s = (replicate 30 [])[d div 86400 - 1 := [Later (d mod 86400) t]]"
      using put_slot_view(3) [OF s, of t 30] v by simp
    ultimately show ?thesis
      using put_slot_view(1) [OF s] assms(1) v d h [of "w\<lparr>wh_day := s\<rparr>" "replicate 30 []"]
      by (auto simp: wheel_ok_def)
  qed
qed

section \<open>Properties\<close>

lemma delay_nat: "d < 2 ^ 32 \<Longrightarrow> nat (u32_int (int d)) = d"
  by simp

text \<open>
  C21: when a timer below an hour runs. A new callback with a delay of less than a minute runs at
  exactly that tick and at no other. From a minute on, unless the delay is a whole number of
  minutes, it runs once too, but early: the minute wheel turns with the clock and not with the
  timer, so the seconds that have passed of the wheel's current minute are missing from the delay.
  Whatever else is in the wheels does not matter.
\<close>

theorem timer_runs_once:
  assumes "wheel_ok w" "\<not> held (After n) (wheel_items w)"
    and "0 < d" "d < 3600" "d < 60 \<or> d mod 60 \<noteq> 0"
  shows "\<exists>w1. runAfter (int d) n w = Inr ([], w1) \<and>
    (\<forall>k tss w2. ticks k w1 = Inr (tss, w2) \<longrightarrow>
       (\<forall>m < k. After n \<in> set (tss ! m) \<longleftrightarrow> m + 1 = (if d < 60 then d else d - wh_tick w mod 60)))"
proof (cases "d < 60")
  case True
  note ni = not_in_intro [OF assms(1,2)]
  obtain w1 where w1: "insertEntry d (After n) w = Inr (True, w1)" "wheel_ok w1" "in_second (After n) (d - 1) w1"
    using insert_short [OF assms(1) ni assms(3) True] by blast
  have "runAfter (int d) n w = Inr ([], w1)" using w1(1) delay_nat [of d] assms(4) by (simp add: runAfter_def)
  then show ?thesis using second_run [OF _ w1(2,3)] True assms(3) by auto
next
  case False
  note ni = not_in_intro [OF assms(1,2)]
  obtain w1 where w1: "insertEntry d (After n) w = Inr (True, w1)" "wheel_ok w1" "wh_tick w1 = wh_tick w"
      "in_minute (After n) (d div 60 - 1) (d mod 60) w1"
    using insert_minute [OF assms(1) ni _ assms(4)] False by (meson not_less)
  have r: "runAfter (int d) n w = Inr ([], w1)" using w1(1) delay_nat [of d] assms(4) by (simp add: runAfter_def)
  have "0 < d mod 60" using assms(5) False by simp
  moreover have "minutes_left (d div 60 - 1) w1 + d mod 60 = d - wh_tick w mod 60"
  proof -
    have "1 \<le> d div 60" "d = 60 * (d div 60) + d mod 60" "wh_tick w mod 60 < 60" using False by auto
    then show ?thesis unfolding minutes_left_def w1(3) by linarith
  qed
  ultimately show ?thesis using r minute_run [OF _ w1(2,4)] False by auto
qed

theorem timer_runs_once_witness:
  "\<exists>w1. runAfter 90 7 (newWheel\<lparr>wh_tick := 45\<rparr>) = Inr ([], w1) \<and>
    (\<forall>k tss w2. ticks k w1 = Inr (tss, w2) \<longrightarrow> (\<forall>m < k. After 7 \<in> set (tss ! m) \<longleftrightarrow> m + 1 = 45))"
proof -
  have "wheel_ok (newWheel\<lparr>wh_tick := 45\<rparr>)" "\<not> held (After 7) (wheel_items (newWheel\<lparr>wh_tick := 45\<rparr>))"
    by (simp_all add: wheel_ok_def newWheel_def held_def wheel_items_def)
  then show ?thesis using timer_runs_once [of "newWheel\<lparr>wh_tick := 45\<rparr>" 7 90] by (simp add: newWheel_def)
qed

text \<open>
  C37: timers of whole minutes and timers of an hour or more do not work. A delay of one to 59 whole
  minutes is accepted, but no run of ticks gets past its end: moving the entry on with a rest of
  zero seconds writes outside the second wheel. A delay from an hour to less than 31 days is accepted
  and never runs, because the hour and the day wheel are turned only at ticks that are no whole
  minutes, and there are none of these at which an hour ends.
\<close>

theorem long_timers_lost:
  assumes "wheel_ok w" "\<not> held (After n) (wheel_items w)"
  shows "(0 < m \<and> m < 60 \<longrightarrow> (\<exists>w1. runAfter (int (60 * m)) n w = Inr ([], w1) \<and>
      (\<forall>k. 60 * m - wh_tick w mod 60 \<le> k \<longrightarrow> (\<exists>e. ticks k w1 = Inl e)))) \<and>
    (3600 \<le> d \<and> d < 31 * 86400 \<longrightarrow> (\<exists>w1. runAfter (int d) n w = Inr ([], w1) \<and>
      (\<forall>k tss w2. ticks k w1 = Inr (tss, w2) \<longrightarrow>
         held (After n) (wheel_items w2) \<and> (\<forall>ts \<in> set tss. After n \<notin> set ts))))"
proof (intro conjI impI)
  note ni = not_in_intro [OF assms]
  assume m: "0 < m \<and> m < 60"
  obtain w1 where w1: "insertEntry (60 * m) (After n) w = Inr (True, w1)" "wheel_ok w1" "wh_tick w1 = wh_tick w"
      "in_minute (After n) (m - 1) 0 w1"
    using insert_minute [OF assms(1) ni, of "60 * m"] m by auto
  have r: "runAfter (int (60 * m)) n w = Inr ([], w1)"
    using w1(1) delay_nat [of "60 * m"] m by (simp add: runAfter_def)
  have "minutes_left (m - 1) w1 = 60 * m - wh_tick w mod 60"
  proof -
    have "wh_tick w mod 60 < 60" by simp
    then show ?thesis unfolding minutes_left_def w1(3) using m by (simp add: algebra_simps)
  qed
  then have "\<exists>e. ticks k w1 = Inl e" if "60 * m - wh_tick w mod 60 \<le> k" for k
    using minute_run [OF _ w1(2,4), of k] that by (cases "ticks k w1") auto
  then show "\<exists>w1. runAfter (int (60 * m)) n w = Inr ([], w1) \<and>
      (\<forall>k. 60 * m - wh_tick w mod 60 \<le> k \<longrightarrow> (\<exists>e. ticks k w1 = Inl e))" using r by blast
next
  note ni = not_in_intro [OF assms]
  assume d: "3600 \<le> d \<and> d < 31 * 86400"
  obtain w1 where w1: "insertEntry d (After n) w = Inr (True, w1)" "wheel_ok w1" "held (After n) (wheel_items w1)"
      "mine (After n) (wh_second w1) = replicate 60 []" "mine (After n) (wh_minute w1) = replicate 60 []"
    using insert_slow [OF assms(1) ni] d by blast
  have "runAfter (int d) n w = Inr ([], w1)" using w1(1) delay_nat [of d] d by (simp add: runAfter_def)
  moreover have "held (After n) (wheel_items w2)" if "view (After n) w2 = view (After n) w1" for w2
    using w1(3) that by (auto simp: held_filter wheel_items_def concat_mine view_def)
  ultimately show "\<exists>w1. runAfter (int d) n w = Inr ([], w1) \<and> (\<forall>k tss w2. ticks k w1 = Inr (tss, w2) \<longrightarrow>
         held (After n) (wheel_items w2) \<and> (\<forall>ts \<in> set tss. After n \<notin> set ts))"
    using idle_run [OF _ w1(2,4,5)] by blast
qed

theorem long_timers_lost_witness:
  "(\<exists>w1. runAfter 60 7 newWheel = Inr ([], w1) \<and> (\<exists>e. ticks 60 w1 = Inl e)) \<and>
   (\<exists>w1. runAfter 3600 7 newWheel = Inr ([], w1) \<and> (\<forall>tss w2. ticks 4000 w1 = Inr (tss, w2) \<longrightarrow>
      (\<forall>ts \<in> set tss. After 7 \<notin> set ts)))"
proof -
  have "\<not> held (After 7) (wheel_items newWheel)" "wh_tick newWheel = 0"
    by (simp_all add: newWheel_def held_def wheel_items_def)
  then show ?thesis using long_timers_lost [OF new_wheel_ok, of 7 1 3600] by auto
qed

end
