(* ===== verification/EventLoop.thy ===== *)
theory EventLoop
  imports TimingWheel
begin

text \<open>
  \<open>LSSEvent\<close>, \<open>LSSPipeEvent\<close> and \<open>LSSEventLoop\<close> of \<open>src/network/net/\<close>: which descriptors the loop
  waits for, to which handler a readiness goes, the tasks other threads hand over, and the timers.

  The loop's record is a scheme: the state of the program around the loop extends it, and what a
  handler, a task or a timer does to that state is a parameter. Objects and tasks are names.
  The set of descriptors the kernel watches is \<open>el_epoll\<close>; what \<open>epoll_wait\<close> returns is an input.
\<close>

section \<open>Events\<close>

definition EPOLLIN :: u32 where "EPOLLIN = 0x001"
definition EPOLLPRI :: u32 where "EPOLLPRI = 0x002"
definition EPOLLOUT :: u32 where "EPOLLOUT = 0x004"
definition EPOLLERR :: u32 where "EPOLLERR = 0x008"
definition EPOLLHUP :: u32 where "EPOLLHUP = 0x010"
definition EPOLLET :: u32 where "EPOLLET = 0x80000000"

definition kEventRead :: u32 where
  "kEventRead = or (or EPOLLIN EPOLLPRI) EPOLLET"

definition kEventWrite :: u32 where
  "kEventWrite = or EPOLLOUT EPOLLET"

lemmas epoll_defs = EPOLLIN_def EPOLLPRI_def EPOLLOUT_def EPOLLERR_def EPOLLHUP_def EPOLLET_def
  kEventRead_def kEventWrite_def

text \<open>The base class: its \<open>loop_\<close> is the one loop of the model.\<close>

record event =
  ev_fd :: int
  ev_mask :: u32

definition newEvent :: "int \<Rightarrow> event" where
  "newEvent fd = \<lparr>ev_fd = fd, ev_mask = 0\<rparr>"

text \<open>
  The pipe that wakes the loop. \<open>pp_bytes\<close> is what is in it, at most \<open>PIPE_SIZE\<close>; the descriptor
  does not block, so a write that finds no room is lost.
\<close>

record pipe = event +
  pp_write_fd :: int
  pp_bytes :: nat

definition PIPE_SIZE :: nat where "PIPE_SIZE = 65536"

definition newPipe :: "int \<times> int \<Rightarrow> pipe" where
  "newPipe fds = \<lparr>ev_fd = fst fds, ev_mask = 0, pp_write_fd = snd fds, pp_bytes = 0\<rparr>"

definition pipe_write :: "nat \<Rightarrow> pipe \<Rightarrow> pipe" where
  "pipe_write len p =
     (if 0 < pp_write_fd p \<and> pp_bytes p + len \<le> PIPE_SIZE then p\<lparr>pp_bytes := pp_bytes p + len\<rparr> else p)"

text \<open>One event takes eight bytes out, however many are in the pipe.\<close>

definition pipe_onRead :: "pipe \<Rightarrow> pipe" where
  "pipe_onRead p = p\<lparr>pp_bytes := pp_bytes p - 8\<rparr>"

definition pipe_onClose :: "pipe \<Rightarrow> pipe" where
  "pipe_onClose p = (if 0 < pp_write_fd p then p\<lparr>pp_write_fd := -1\<rparr> else p)"

section \<open>The loop\<close>

record ('o, 't) event_loop =
  el_running :: bool
  el_events :: "int \<Rightarrow> 'o option"
  el_epoll :: "int \<Rightarrow> u32 option"
  el_size :: nat
  el_tasks :: "'t list"
  el_wheel :: wheel
  el_pipe :: "pipe option"

definition LSS_EPOLLEVENTS_MAXSIZE :: nat where
  "LSS_EPOLLEVENTS_MAXSIZE = 1024 * 512"

definition newEventLoop :: "('o, 't) event_loop" where
  "newEventLoop = \<lparr>el_running = False, el_events = (\<lambda>_. None), el_epoll = (\<lambda>_. None),
     el_size = LSS_EPOLLEVENTS_MAXSIZE, el_tasks = [], el_wheel = newWheel, el_pipe = None\<rparr>"

definition quit :: "('o, 't, 'x) event_loop_scheme \<Rightarrow> ('o, 't, 'x) event_loop_scheme" where
  "quit s = s\<lparr>el_running := False\<rparr>"

text \<open>
  \<open>epoll_ctl\<close>: an addition fails when the descriptor is watched already, a modification when it is
  not. Closing a descriptor takes it out of the set.
\<close>

datatype ctl = CTL_ADD | CTL_MOD | CTL_DEL

fun epoll_ctl :: "ctl \<Rightarrow> int \<Rightarrow> u32 \<Rightarrow> (int \<Rightarrow> u32 option) \<Rightarrow> (int \<Rightarrow> u32 option)" where
  "epoll_ctl CTL_ADD fd m t = (if fd < 0 \<or> t fd \<noteq> None then t else t(fd \<mapsto> m))"
| "epoll_ctl CTL_MOD fd m t = (if t fd = None then t else t(fd \<mapsto> m))"
| "epoll_ctl CTL_DEL fd m t = t(fd := None)"

definition addEvent ::
  "'o \<Rightarrow> 'e event_scheme \<Rightarrow> ('o, 't, 'x) event_loop_scheme \<Rightarrow> 'e event_scheme \<times> ('o, 't, 'x) event_loop_scheme"
where
  "addEvent ob e s =
     (if el_events s (ev_fd e) \<noteq> None then (e, s)
      else
        let e1 = e\<lparr>ev_mask := or (ev_mask e) kEventRead\<rparr> in
        (e1, s\<lparr>el_events := (el_events s)(ev_fd e \<mapsto> ob),
               el_epoll := epoll_ctl CTL_ADD (ev_fd e) (ev_mask e1) (el_epoll s)\<rparr>))"

definition delEvent :: "'e event_scheme \<Rightarrow> ('o, 't, 'x) event_loop_scheme \<Rightarrow> ('o, 't, 'x) event_loop_scheme" where
  "delEvent e s =
     (if el_events s (ev_fd e) = None then s
      else s\<lparr>el_events := (el_events s)(ev_fd e := None),
             el_epoll := epoll_ctl CTL_DEL (ev_fd e) (ev_mask e) (el_epoll s)\<rparr>)"

text \<open>Both flags share the bit for edge-triggered events: taking one flag back clears it.\<close>

definition enable ::
  "u32 \<Rightarrow> bool \<Rightarrow> 'e event_scheme \<Rightarrow> ('o, 't, 'x) event_loop_scheme
   \<Rightarrow> bool \<times> 'e event_scheme \<times> ('o, 't, 'x) event_loop_scheme" where
  "enable flag en e s =
     (if el_events s (ev_fd e) = None then (False, e, s)
      else
        let e1 = e\<lparr>ev_mask := if en then or (ev_mask e) flag else and (ev_mask e) (not flag)\<rparr> in
        (True, e1, s\<lparr>el_epoll := epoll_ctl CTL_MOD (ev_fd e) (ev_mask e1) (el_epoll s)\<rparr>))"

definition enableReading ::
  "bool \<Rightarrow> 'e event_scheme \<Rightarrow> ('o, 't, 'x) event_loop_scheme
   \<Rightarrow> bool \<times> 'e event_scheme \<times> ('o, 't, 'x) event_loop_scheme" where
  "enableReading = enable kEventRead"

definition enableWriting ::
  "bool \<Rightarrow> 'e event_scheme \<Rightarrow> ('o, 't, 'x) event_loop_scheme
   \<Rightarrow> bool \<times> 'e event_scheme \<times> ('o, 't, 'x) event_loop_scheme" where
  "enableWriting = enable kEventWrite"

text \<open>\<open>LSSEvent::close\<close>.\<close>

definition event_close ::
  "'e event_scheme \<Rightarrow> ('o, 't, 'x) event_loop_scheme \<Rightarrow> 'e event_scheme \<times> ('o, 't, 'x) event_loop_scheme"
where
  "event_close e s =
     (if 1 < ev_fd e
      then (e\<lparr>ev_fd := -1\<rparr>, s\<lparr>el_epoll := (el_epoll s)(ev_fd e := None)\<rparr>)
      else (e, s))"

section \<open>Tasks\<close>

text \<open>
  A task handed over in the thread of the loop runs at once; another thread queues it and wakes
  the loop, which may have to make its pipe first, with the descriptors \<open>fds\<close>. The pipe is the
  object \<open>po\<close>.
\<close>

definition initPipe :: "'o \<Rightarrow> int \<times> int \<Rightarrow> ('o, 't, 'x) event_loop_scheme \<Rightarrow> ('o, 't, 'x) event_loop_scheme" where
  "initPipe po fds s =
     (case el_pipe s of
        Some _ \<Rightarrow> s
      | None \<Rightarrow> let (p, s1) = addEvent po (newPipe fds) s in s1\<lparr>el_pipe := Some p\<rparr>)"

definition wakeUp :: "'o \<Rightarrow> int \<times> int \<Rightarrow> ('o, 't, 'x) event_loop_scheme \<Rightarrow> ('o, 't, 'x) event_loop_scheme" where
  "wakeUp po fds s =
     (let s1 = initPipe po fds s in s1\<lparr>el_pipe := map_option (pipe_write 8) (el_pipe s1)\<rparr>)"

definition enqueueTask ::
  "bool \<Rightarrow> ('t \<Rightarrow> ('o, 't, 'x) event_loop_scheme \<Rightarrow> ('o, 't, 'x) event_loop_scheme res) \<Rightarrow> 'o \<Rightarrow> int \<times> int \<Rightarrow> 't
   \<Rightarrow> ('o, 't, 'x) event_loop_scheme \<Rightarrow> ('o, 't, 'x) event_loop_scheme res" where
  "enqueueTask in_loop run po fds t s =
     (if in_loop then run t s else Inr (wakeUp po fds (s\<lparr>el_tasks := el_tasks s @ [t]\<rparr>)))"

fun run_list :: "('t \<Rightarrow> 's \<Rightarrow> 's res) \<Rightarrow> 't list \<Rightarrow> 's \<Rightarrow> 's res" where
  "run_list run [] s = Inr s"
| "run_list run (t # ts) s = bindr (run t s) (run_list run ts)"

text \<open>
  While the queue is not empty its first task runs and is taken out. The lock is held, and a task
  of the loop's own thread does not use the queue, so nothing is added meanwhile.
\<close>

definition runTask ::
  "('t \<Rightarrow> ('o, 't, 'x) event_loop_scheme \<Rightarrow> ('o, 't, 'x) event_loop_scheme res)
   \<Rightarrow> ('o, 't, 'x) event_loop_scheme \<Rightarrow> ('o, 't, 'x) event_loop_scheme res" where
  "runTask run s = bindr (run_list run (el_tasks s) s) (\<lambda>s1.
     Inr (s1\<lparr>el_tasks := drop (length (el_tasks s)) (el_tasks s1)\<rparr>))"

section \<open>Timers\<close>

text \<open>
  The timers of a tick run after the wheels have turned, in the order they are dropped; \<open>fire\<close> is
  what a timer does.
\<close>

definition with_wheel ::
  "(timer \<Rightarrow> ('o, 't, 'x) event_loop_scheme \<Rightarrow> ('o, 't, 'x) event_loop_scheme res)
   \<Rightarrow> (wheel \<Rightarrow> (timer list \<times> wheel) res)
   \<Rightarrow> ('o, 't, 'x) event_loop_scheme \<Rightarrow> ('o, 't, 'x) event_loop_scheme res" where
  "with_wheel fire f s = bindr (f (el_wheel s)) (\<lambda>(ts, w). run_list fire ts (s\<lparr>el_wheel := w\<rparr>))"

definition loop_onTimer ::
  "(timer \<Rightarrow> ('o, 't, 'x) event_loop_scheme \<Rightarrow> ('o, 't, 'x) event_loop_scheme res) \<Rightarrow> int
   \<Rightarrow> ('o, 't, 'x) event_loop_scheme \<Rightarrow> ('o, 't, 'x) event_loop_scheme res" where
  "loop_onTimer fire now = with_wheel fire (onTimer now)"

definition loop_runAfter ::
  "(timer \<Rightarrow> ('o, 't, 'x) event_loop_scheme \<Rightarrow> ('o, 't, 'x) event_loop_scheme res) \<Rightarrow> int \<Rightarrow> nat
   \<Rightarrow> ('o, 't, 'x) event_loop_scheme \<Rightarrow> ('o, 't, 'x) event_loop_scheme res" where
  "loop_runAfter fire delay n = with_wheel fire (runAfter delay n)"

definition loop_runEvery ::
  "(timer \<Rightarrow> ('o, 't, 'x) event_loop_scheme \<Rightarrow> ('o, 't, 'x) event_loop_scheme res) \<Rightarrow> int \<Rightarrow> nat
   \<Rightarrow> ('o, 't, 'x) event_loop_scheme \<Rightarrow> ('o, 't, 'x) event_loop_scheme res" where
  "loop_runEvery fire interval n = with_wheel fire (runEvery interval n)"

text \<open>The entry of a connection: whether it is in a wheel now.\<close>

definition loop_insertEntry ::
  "int \<Rightarrow> timer \<Rightarrow> ('o, 't, 'x) event_loop_scheme \<Rightarrow> (bool \<times> ('o, 't, 'x) event_loop_scheme) res" where
  "loop_insertEntry delay t s =
     bindr (insertEntry (nat (u32_int delay)) t (el_wheel s)) (\<lambda>(stored, w). Inr (stored, s\<lparr>el_wheel := w\<rparr>))"

section \<open>A turn of the loop\<close>

datatype handler = HError | HClose | HRead | HWrite

text \<open>The first readiness that applies picks the one handler that runs.\<close>

definition handler_of :: "u32 \<Rightarrow> handler option" where
  "handler_of ev =
     (if and ev EPOLLERR \<noteq> 0 then Some HError
      else if and ev EPOLLHUP \<noteq> 0 \<and> and ev EPOLLIN = 0 then Some HClose
      else if and ev (or EPOLLIN EPOLLPRI) \<noteq> 0 then Some HRead
      else if and ev EPOLLOUT \<noteq> 0 then Some HWrite
      else None)"

fun dispatch ::
  "('o \<Rightarrow> handler \<Rightarrow> ('o, 't, 'x) event_loop_scheme \<Rightarrow> ('o, 't, 'x) event_loop_scheme res)
   \<Rightarrow> (int \<times> u32) list \<Rightarrow> ('o, 't, 'x) event_loop_scheme \<Rightarrow> ('o, 't, 'x) event_loop_scheme res" where
  "dispatch handle [] s = Inr s"
| "dispatch handle ((fd, ev) # evs) s =
     (if fd \<le> 0 then dispatch handle evs s
      else case el_events s fd of
        None \<Rightarrow> dispatch handle evs s
      | Some ob \<Rightarrow>
          (case handler_of ev of
             None \<Rightarrow> dispatch handle evs s
           | Some h \<Rightarrow> bindr (handle ob h s) (dispatch handle evs)))"

text \<open>The array of events doubles when at least four fifths of it were used.\<close>

definition grow_events :: "nat \<Rightarrow> ('o, 't, 'x) event_loop_scheme \<Rightarrow> ('o, 't, 'x) event_loop_scheme" where
  "grow_events nready s =
     (if el_size s * 4 div 5 \<le> nready then s\<lparr>el_size := el_size s * 2\<rparr> else s)"

text \<open>What \<open>epoll_wait\<close> returns, with the time after the events were handled, or that it failed.\<close>

datatype wait = Ready "(int \<times> u32) list" int | WaitFailed

fun loop_turn ::
  "('o \<Rightarrow> handler \<Rightarrow> ('o, 't, 'x) event_loop_scheme \<Rightarrow> ('o, 't, 'x) event_loop_scheme res)
   \<Rightarrow> ('t \<Rightarrow> ('o, 't, 'x) event_loop_scheme \<Rightarrow> ('o, 't, 'x) event_loop_scheme res)
   \<Rightarrow> (timer \<Rightarrow> ('o, 't, 'x) event_loop_scheme \<Rightarrow> ('o, 't, 'x) event_loop_scheme res)
   \<Rightarrow> wait \<Rightarrow> ('o, 't, 'x) event_loop_scheme \<Rightarrow> ('o, 't, 'x) event_loop_scheme res" where
  "loop_turn handle run fire WaitFailed s = Inr s"
| "loop_turn handle run fire (Ready evs now) s =
     bindr (dispatch handle evs s) (\<lambda>s1.
     bindr (runTask run (grow_events (length evs) s1)) (\<lambda>s2.
     loop_onTimer fire now s2))"

text \<open>\<open>loop\<close> over what the waits return, until it is told to stop; at the end of the list it waits.\<close>

fun loop_turns ::
  "('o \<Rightarrow> handler \<Rightarrow> ('o, 't, 'x) event_loop_scheme \<Rightarrow> ('o, 't, 'x) event_loop_scheme res)
   \<Rightarrow> ('t \<Rightarrow> ('o, 't, 'x) event_loop_scheme \<Rightarrow> ('o, 't, 'x) event_loop_scheme res)
   \<Rightarrow> (timer \<Rightarrow> ('o, 't, 'x) event_loop_scheme \<Rightarrow> ('o, 't, 'x) event_loop_scheme res)
   \<Rightarrow> wait list \<Rightarrow> ('o, 't, 'x) event_loop_scheme \<Rightarrow> ('o, 't, 'x) event_loop_scheme res" where
  "loop_turns handle run fire [] s = Inr s"
| "loop_turns handle run fire (w # ws) s =
     (if el_running s then bindr (loop_turn handle run fire w s) (loop_turns handle run fire ws) else Inr s)"

definition loop ::
  "('o \<Rightarrow> handler \<Rightarrow> ('o, 't, 'x) event_loop_scheme \<Rightarrow> ('o, 't, 'x) event_loop_scheme res)
   \<Rightarrow> ('t \<Rightarrow> ('o, 't, 'x) event_loop_scheme \<Rightarrow> ('o, 't, 'x) event_loop_scheme res)
   \<Rightarrow> (timer \<Rightarrow> ('o, 't, 'x) event_loop_scheme \<Rightarrow> ('o, 't, 'x) event_loop_scheme res)
   \<Rightarrow> wait list \<Rightarrow> ('o, 't, 'x) event_loop_scheme \<Rightarrow> ('o, 't, 'x) event_loop_scheme res" where
  "loop handle run fire ws s = loop_turns handle run fire ws (s\<lparr>el_running := True\<rparr>)"

section \<open>Masks\<close>

lemma write_flag_off:
  "and (or kEventRead kEventWrite) (not kEventWrite) = or EPOLLIN EPOLLPRI"
  by (simp add: epoll_defs)

text \<open>Readable and writable at once is only reported to the reader.\<close>

lemma read_hides_write:
  "and ev EPOLLERR = 0 \<Longrightarrow> and ev EPOLLIN \<noteq> 0 \<Longrightarrow> handler_of ev = Some HRead"
  by (auto simp: handler_of_def bit.conj_disj_distrib or_eq_0_iff)

section \<open>Who keeps an invariant\<close>

text \<open>
  The handlers, tasks and timers of a program, and a property of its state that each of them
  keeps and that turning the wheels and the bookkeeping of the loop keep too.
\<close>

locale loop_client =
  fixes inv :: "('o, 't, 'x) event_loop_scheme \<Rightarrow> bool"
    and handle :: "'o \<Rightarrow> handler \<Rightarrow> ('o, 't, 'x) event_loop_scheme \<Rightarrow> ('o, 't, 'x) event_loop_scheme res"
    and run :: "'t \<Rightarrow> ('o, 't, 'x) event_loop_scheme \<Rightarrow> ('o, 't, 'x) event_loop_scheme res"
    and fire :: "timer \<Rightarrow> ('o, 't, 'x) event_loop_scheme \<Rightarrow> ('o, 't, 'x) event_loop_scheme res"
  assumes handle_keeps: "inv s \<Longrightarrow> el_events s fd = Some ob \<Longrightarrow> 0 < fd \<Longrightarrow> handle ob h s = Inr s' \<Longrightarrow> inv s'"
    and run_keeps: "inv s \<Longrightarrow> run t s = Inr s' \<Longrightarrow> inv s'"
    and fire_keeps: "inv s \<Longrightarrow> fire tm s = Inr s' \<Longrightarrow> inv s'"
    and wheel_keeps: "inv s \<Longrightarrow> onTimer now (el_wheel s) = Inr (tms, w) \<Longrightarrow> inv (s\<lparr>el_wheel := w\<rparr>)"
    and books_keep: "inv s \<Longrightarrow> inv (s\<lparr>el_running := b\<rparr>) \<and> inv (s\<lparr>el_size := n\<rparr>) \<and> inv (s\<lparr>el_tasks := ts\<rparr>)"
begin

lemma run_list_keeps:
  assumes "\<And>x a a'. inv a \<Longrightarrow> f x a = Inr a' \<Longrightarrow> inv a'"
  shows "run_list f xs s = Inr s' \<Longrightarrow> inv s \<Longrightarrow> inv s'"
  by (induction xs arbitrary: s) (auto simp: res_simps intro: assms)

lemma tasks_keep: "run_list run ts s = Inr s' \<Longrightarrow> inv s \<Longrightarrow> inv s'"
  by (rule run_list_keeps [OF run_keeps])

lemma timers_keep: "run_list fire ts s = Inr s' \<Longrightarrow> inv s \<Longrightarrow> inv s'"
  by (rule run_list_keeps [OF fire_keeps])

lemma dispatch_keeps: "dispatch handle evs s = Inr s' \<Longrightarrow> inv s \<Longrightarrow> inv s'"
proof (induction evs arbitrary: s)
  case (Cons x evs)
  then show ?case
    by (cases x) (auto simp: res_simps not_le split: if_splits option.splits dest: handle_keeps)
qed simp

lemma turn_keeps:
  assumes "loop_turn handle run fire w s = Inr s'" "inv s"
  shows "inv s'"
proof (cases w)
  case (Ready evs now)
  obtain s1 s2 where d: "dispatch handle evs s = Inr s1"
      "runTask run (grow_events (length evs) s1) = Inr s2" "loop_onTimer fire now s2 = Inr s'"
    using assms(1) Ready by (auto simp: res_simps)
  have "inv (grow_events (length evs) s1)"
    using dispatch_keeps [OF d(1) assms(2)] books_keep by (auto simp: grow_events_def)
  then have "inv s2"
    using d(2) books_keep tasks_keep by (auto simp: runTask_def res_simps)
  then show ?thesis
    using d(3) timers_keep wheel_keeps by (auto simp: loop_onTimer_def with_wheel_def res_simps)
qed (use assms in simp)

lemma turns_keep: "loop_turns handle run fire ws s = Inr s' \<Longrightarrow> inv s \<Longrightarrow> inv s'"
  by (induction ws arbitrary: s) (auto simp: res_simps split: if_splits dest: turn_keeps)

lemma loop_keeps: "loop handle run fire ws s = Inr s' \<Longrightarrow> inv s \<Longrightarrow> inv s'"
  using turns_keep books_keep by (simp add: loop_def)

end

end
