(* ===== verification/Bytes.thy ===== *)
theory Bytes
  imports Prelude
begin

unbundle bit_operations_syntax

text \<open>
  The big-endian byte codecs of \<open>src/mmedia/base/bytes_reader.cpp\<close> and
  \<open>src/mmedia/base/bytes_writer.cpp\<close>. A writer returns the bytes it stores; a reader takes
  the memory its pointer points into and an offset, and faults when the bytes it reads are not
  there. The host is little-endian, as the code's fixed calls of \<open>__bswap_64\<close> require, so
  \<open>htonl\<close> and \<open>ntohl\<close> reverse the bytes.
\<close>

section \<open>Writers\<close>

definition writeUint8T :: "u8 \<Rightarrow> bytes" where
  "writeUint8T v = [v]"

definition writeUint16T :: "u16 \<Rightarrow> bytes" where
  "writeUint16T v = [ucast (drop_bit 8 v), ucast v]"

definition writeUint24T :: "u32 \<Rightarrow> bytes" where
  "writeUint24T v = [ucast (drop_bit 16 v), ucast (drop_bit 8 v), ucast v]"

definition writeUint32T :: "u32 \<Rightarrow> bytes" where
  "writeUint32T v = [ucast (drop_bit 24 v), ucast (drop_bit 16 v), ucast (drop_bit 8 v), ucast v]"

section \<open>Readers\<close>

definition readUint8T :: "bytes \<Rightarrow> nat \<Rightarrow> u8 res" where
  "readUint8T m i = bindr (slice m i 1) (\<lambda>b. Inr (b ! 0))"

definition readUint16T :: "bytes \<Rightarrow> nat \<Rightarrow> u16 res" where
  "readUint16T m i = bindr (slice m i 2)
     (\<lambda>b. Inr (push_bit 8 (ucast (b ! 0)) OR ucast (b ! 1)))"

definition readUint24T :: "bytes \<Rightarrow> nat \<Rightarrow> u32 res" where
  "readUint24T m i = bindr (slice m i 3)
     (\<lambda>b. Inr (push_bit 16 (ucast (b ! 0)) OR push_bit 8 (ucast (b ! 1)) OR ucast (b ! 2)))"

definition readUint32T :: "bytes \<Rightarrow> nat \<Rightarrow> u32 res" where
  "readUint32T m i = bindr (slice m i 4)
     (\<lambda>b. Inr (push_bit 24 (ucast (b ! 0)) OR push_bit 16 (ucast (b ! 1))
               OR push_bit 8 (ucast (b ! 2)) OR ucast (b ! 3)))"

text \<open>
  The 64-bit integers on the wire are only the images of doubles; \<open>__bswap_64\<close> after a load
  is the big-endian value, and before a store it lays the value out big-endian.
\<close>

definition writeUint64BE :: "u64 \<Rightarrow> bytes" where
  "writeUint64BE v = writeUint32T (ucast (drop_bit 32 v)) @ writeUint32T (ucast v)"

definition readUint64BE :: "bytes \<Rightarrow> nat \<Rightarrow> u64 res" where
  "readUint64BE m i = bindr (readUint32T m i) (\<lambda>hi. bindr (readUint32T m (i + 4))
     (\<lambda>lo. Inr (push_bit 32 (ucast hi) OR ucast lo)))"

text \<open>A \<open>memcpy\<close> of a \<open>uint32_t\<close> or a \<open>uint16_t\<close> lays it out in the host's order, little-endian.\<close>

definition memcpyUint32 :: "u32 \<Rightarrow> bytes" where
  "memcpyUint32 v = rev (writeUint32T v)"

definition memcpyUint16 :: "u16 \<Rightarrow> bytes" where
  "memcpyUint16 v = rev (writeUint16T v)"

definition loadUint32LE :: "bytes \<Rightarrow> nat \<Rightarrow> u32 res" where
  "loadUint32LE m i = bindr (slice m i 4) (\<lambda>b. readUint32T (rev b) 0)"

section \<open>The contract of a fixed-width codec\<close>

text \<open>
  What the message builders and parsers rely on: a writer of a known width, a reader that
  looks at that many bytes and faults when they are not there, and \<open>keep\<close>, what survives a
  write and a read (the 24-bit codec drops the top byte).
\<close>

locale fixed_codec =
  fixes width :: nat
    and put :: "'a \<Rightarrow> bytes"
    and get :: "bytes \<Rightarrow> nat \<Rightarrow> 'a res"
    and keep :: "'a \<Rightarrow> 'a"
  assumes put_length: "length (put v) = width"
    and get_put: "get (put v) 0 = Inr (keep v)"
    and get_window: "i + width \<le> length m \<Longrightarrow> get m i = get (take width (drop i m)) 0"
    and get_short: "length m < i + width \<Longrightarrow> get m i = Inl OutOfBounds"
    and get_total: "i + width \<le> length m \<Longrightarrow> \<exists>v. get m i = Inr v"
begin

lemma get_at: "length pre = i \<Longrightarrow> get (pre @ put v @ post) i = Inr (keep v)"
proof -
  assume i: "length pre = i"
  have "take width (drop i (pre @ put v @ post)) = put v"
    by (simp add: i [symmetric] put_length)
  then show ?thesis
    using get_window [of i "pre @ put v @ post"] by (simp add: i [symmetric] put_length get_put)
qed

lemma get_front: "get (put v @ post) 0 = Inr (keep v)"
  using get_at [of "[]" 0 v post] by simp

lemma get_defined_iff: "(\<exists>v. get m i = Inr v) \<longleftrightarrow> i + width \<le> length m"
proof
  show "\<exists>v. get m i = Inr v \<Longrightarrow> i + width \<le> length m"
    using get_short [of m i] by (cases "i + width \<le> length m") auto
qed (rule get_total)

lemma get_append: "i + width \<le> length m \<Longrightarrow> get (m @ r) i = get m i"
  using get_window [of i m] get_window [of i "m @ r"] by simp

lemma get_drop: "i + j + width \<le> length m \<Longrightarrow> get (drop i m) j = get m (i + j)"
  using get_window [of j "drop i m"] get_window [of "i + j" m] by (simp add: add.commute)

end

text \<open>A codec that keeps everything: the bytes determine the value.\<close>

locale lossless_codec = fixed_codec +
  assumes keep_id: "keep v = v"
begin

lemma put_inj: "put v = put w \<Longrightarrow> v = w"
proof -
  assume "put v = put w"
  then have "Inr (keep v) = (Inr (keep w) :: 'a res)"
    unfolding get_put [symmetric] by (rule arg_cong)
  then show ?thesis
    unfolding keep_id by (rule Inr_inject)
qed

lemma get_at_id: "length pre = i \<Longrightarrow> get (pre @ put v @ post) i = Inr v"
  using get_at [of pre i v post] unfolding keep_id .

end


section \<open>The codecs of the program meet the contract\<close>

lemmas reader_defs = readUint8T_def readUint16T_def readUint24T_def readUint32T_def
lemmas writer_defs = writeUint8T_def writeUint16T_def writeUint24T_def writeUint32T_def

lemma read_write_8: "readUint8T (writeUint8T v) 0 = Inr v"
  by (simp add: readUint8T_def writeUint8T_def slice_def)

lemma read_write_16: "readUint16T (writeUint16T v) 0 = Inr v"
proof -
  have "push_bit 8 (ucast (ucast (drop_bit 8 v) :: u8)) OR ucast (ucast v :: u8) = v"
    by (rule bit_word_eqI) (auto simp: bit_simps not_less)
  then show ?thesis
    by (simp add: readUint16T_def writeUint16T_def slice_def)
qed

lemma read_write_24: "readUint24T (writeUint24T v) 0 = Inr (take_bit 24 v)"
proof -
  have "push_bit 16 (ucast (ucast (drop_bit 16 v) :: u8))
          OR push_bit 8 (ucast (ucast (drop_bit 8 v) :: u8)) OR ucast (ucast v :: u8)
        = take_bit 24 v" (is "?l = ?r")
  proof (rule bit_word_eqI)
    fix n
    show "bit ?l n = bit ?r n" if "n < LENGTH(32)"
      using that by (cases "16 \<le> n"; cases "8 \<le> n"; auto simp: bit_simps not_less)
  qed
  then show ?thesis
    by (simp add: readUint24T_def writeUint24T_def slice_def)
qed

lemma read_write_32: "readUint32T (writeUint32T v) 0 = Inr v"
proof -
  have "push_bit 24 (ucast (ucast (drop_bit 24 v) :: u8))
          OR push_bit 16 (ucast (ucast (drop_bit 16 v) :: u8))
          OR push_bit 8 (ucast (ucast (drop_bit 8 v) :: u8)) OR ucast (ucast v :: u8)
        = v" (is "?l = _")
  proof (rule bit_word_eqI)
    fix n
    show "bit ?l n = bit v n" if "n < LENGTH(32)"
      using that
      by (cases "24 \<le> n"; cases "16 \<le> n"; cases "8 \<le> n"; auto simp: bit_simps not_less)
  qed
  then show ?thesis
    by (simp add: readUint32T_def writeUint32T_def slice_def)
qed

lemma join_halves_64:
  "push_bit 32 (ucast (ucast (drop_bit 32 v) :: u32)) OR ucast (ucast v :: u32) = (v :: u64)"
  by (rule bit_word_eqI) (auto simp: bit_simps not_less)

interpretation c8: lossless_codec 1 writeUint8T readUint8T "\<lambda>v. v"
  by unfold_locales (use read_write_8 in \<open>auto simp: writeUint8T_def readUint8T_def slice_def\<close>)

interpretation c16: lossless_codec 2 writeUint16T readUint16T "\<lambda>v. v"
  by unfold_locales (use read_write_16 in \<open>auto simp: writeUint16T_def readUint16T_def slice_def\<close>)

interpretation c24: fixed_codec 3 writeUint24T readUint24T "take_bit 24"
  by unfold_locales (use read_write_24 in \<open>auto simp: writeUint24T_def readUint24T_def slice_def\<close>)

interpretation c32: lossless_codec 4 writeUint32T readUint32T "\<lambda>v. v"
  by unfold_locales (use read_write_32 in \<open>auto simp: writeUint32T_def readUint32T_def slice_def\<close>)

lemma read_write_64: "readUint64BE (writeUint64BE v) 0 = Inr v"
proof -
  have "readUint32T (writeUint32T a @ writeUint32T b) 4 = Inr b" for a b
    using c32.get_at_id [of "writeUint32T a" 4 b "[]"] by (simp add: c32.put_length)
  then show ?thesis
    using c32.get_front
    by (simp add: readUint64BE_def writeUint64BE_def join_halves_64)
qed

lemma readUint64BE_window:
  "i + 8 \<le> length m \<Longrightarrow> readUint64BE m i = readUint64BE (take 8 (drop i m)) 0"
proof -
  assume a: "i + 8 \<le> length m"
  have "readUint32T m i = readUint32T (take 8 (drop i m)) 0"
    using a c32.get_window [of i m] c32.get_window [of 0 "take 8 (drop i m)"] by simp
  moreover have "readUint32T m (i + 4) = readUint32T (take 8 (drop i m)) 4"
    using a c32.get_window [of "i + 4" m] c32.get_window [of 4 "take 8 (drop i m)"]
    by (simp add: drop_take add.commute)
  ultimately show ?thesis
    by (simp add: readUint64BE_def)
qed

lemma readUint64BE_short: "length m < i + 8 \<Longrightarrow> readUint64BE m i = Inl OutOfBounds"
  by (cases "length m < i + 4")
    (use c32.get_short [of m i] c32.get_short [of m "i + 4"] c32.get_total [of i m] in
      \<open>auto simp: readUint64BE_def\<close>)

lemma readUint64BE_total: "i + 8 \<le> length m \<Longrightarrow> \<exists>v. readUint64BE m i = Inr v"
  using c32.get_total [of i m] c32.get_total [of "i + 4" m] by (auto simp: readUint64BE_def)

lemma writeUint64BE_length: "length (writeUint64BE v) = 8"
  by (simp add: writeUint64BE_def c32.put_length)

interpretation c64: lossless_codec 8 writeUint64BE readUint64BE "\<lambda>v. v"
  by unfold_locales
    (simp_all add: read_write_64 writeUint64BE_length
      readUint64BE_short readUint64BE_total readUint64BE_window [symmetric])

lemmas writer_lengths [simp, codec_simps] =
  c8.put_length c16.put_length c24.put_length c32.put_length c64.put_length

lemmas reader_fronts [simp, codec_simps] =
  c8.get_front c16.get_front c24.get_front c32.get_front c64.get_front

lemma memcpyUint32_length [simp, codec_simps]: "length (memcpyUint32 v) = 4"
  by (simp add: memcpyUint32_def)

lemma memcpyUint16_length [simp, codec_simps]: "length (memcpyUint16 v) = 2"
  by (simp add: memcpyUint16_def)

lemma loadUint32LE_memcpy: "loadUint32LE (memcpyUint32 v @ r) 0 = Inr v"
  by (simp add: loadUint32LE_def memcpyUint32_def slice_def read_write_32)

end
