(* ===== verification/MsgBuffer.thy ===== *)
theory MsgBuffer
  imports Bytes
begin

text \<open>
  \<open>LSSMsgBuffer\<close> of \<open>src/network/base/lssvc_msgbuffer.cpp\<close> and
  \<open>include/network/base/lssvc_msgbuffer.h\<close>: the growing byte buffer between the socket and
  the protocol parsers. The bytes waiting to be read are those of \<open>buffer\<close> between \<open>head\<close>
  and \<open>tail\<close>; the first eight bytes are a reserve. Sizes are \<open>size_t\<close> far below their limit
  and are kept as \<open>nat\<close>; \<open>cap_\<close> is \<open>mcap\<close>.

  The interface the parsers use is the locale \<open>byte_queue\<close>, interpreted on the model below.
\<close>

section \<open>State\<close>

definition kBufferOffset :: nat where
  "kBufferOffset = 8"

definition kBufferDefaultLength :: nat where
  "kBufferDefaultLength = 2048"

record msgbuf =
  head :: nat
  tail :: nat
  buffer :: bytes
  mcap :: nat

definition newMsgBuffer :: "nat \<Rightarrow> msgbuf" where
  "newMsgBuffer len =
     \<lparr>head = kBufferOffset, tail = kBufferOffset,
      buffer = replicate (len + kBufferOffset) 0, mcap = len\<rparr>"

section \<open>Reading\<close>

definition readableBytes :: "msgbuf \<Rightarrow> nat" where
  "readableBytes b = tail b - head b"

definition writableBytes :: "msgbuf \<Rightarrow> nat" where
  "writableBytes b = length (buffer b) - tail b"

text \<open>\<open>peek\<close> is a pointer into the buffer: the model gives the memory from there on.\<close>

definition peek :: "msgbuf \<Rightarrow> bytes" where
  "peek b = drop (head b) (buffer b)"

definition peekInt8 :: "msgbuf \<Rightarrow> u8 res" where
  "peekInt8 b = bindr (guardr AssertFailed (1 \<le> readableBytes b)) (\<lambda>_. readUint8T (peek b) 0)"

definition peekInt16 :: "msgbuf \<Rightarrow> u16 res" where
  "peekInt16 b = bindr (guardr AssertFailed (2 \<le> readableBytes b)) (\<lambda>_. readUint16T (peek b) 0)"

definition peekInt32 :: "msgbuf \<Rightarrow> u32 res" where
  "peekInt32 b = bindr (guardr AssertFailed (4 \<le> readableBytes b)) (\<lambda>_. readUint32T (peek b) 0)"

text \<open>\<open>ntoh64\<close> reverses the eight bytes of its argument on a little-endian host.\<close>

definition hton64 :: "u64 \<Rightarrow> u64" where
  "hton64 n = (case readUint64BE (rev (writeUint64BE n)) 0 of Inr m \<Rightarrow> m | Inl _ \<Rightarrow> 0)"

text \<open>
  \<open>peekInt64\<close> loads through a pointer to \<open>uint32_t\<close>: four bytes in the host's order, widened
  to 64 bits, which are then reversed.
\<close>

definition peekInt64 :: "msgbuf \<Rightarrow> u64 res" where
  "peekInt64 b = bindr (guardr AssertFailed (8 \<le> readableBytes b))
     (\<lambda>_. bindr (loadUint32LE (peek b) 0) (\<lambda>rll. Inr (hton64 (ucast rll))))"

definition retrieveAll :: "msgbuf \<Rightarrow> msgbuf" where
  "retrieveAll b =
     (let b' = (if mcap b * 2 < length (buffer b)
                then b\<lparr>buffer := take (mcap b) (buffer b)\<rparr> else b)
      in b'\<lparr>head := kBufferOffset, tail := kBufferOffset\<rparr>)"

definition retrieve :: "msgbuf \<Rightarrow> nat \<Rightarrow> msgbuf" where
  "retrieve b len =
     (if readableBytes b \<le> len then retrieveAll b else b\<lparr>head := head b + len\<rparr>)"

text \<open>\<open>read\<close> copies bytes out; unlike its comment says it does not remove them.\<close>

definition read :: "msgbuf \<Rightarrow> nat \<Rightarrow> string" where
  "read b len =
     (let n = (if readableBytes b < len then readableBytes b else len)
      in string_of_bytes (take n (peek b)))"

definition readInt8 :: "msgbuf \<Rightarrow> (u8 \<times> msgbuf) res" where
  "readInt8 b = bindr (peekInt8 b) (\<lambda>v. Inr (v, retrieve b 1))"

definition readInt16 :: "msgbuf \<Rightarrow> (u16 \<times> msgbuf) res" where
  "readInt16 b = bindr (peekInt16 b) (\<lambda>v. Inr (v, retrieve b 2))"

definition readInt32 :: "msgbuf \<Rightarrow> (u32 \<times> msgbuf) res" where
  "readInt32 b = bindr (peekInt32 b) (\<lambda>v. Inr (v, retrieve b 4))"

definition readInt64 :: "msgbuf \<Rightarrow> (u64 \<times> msgbuf) res" where
  "readInt64 b = bindr (peekInt64 b) (\<lambda>v. Inr (v, retrieve b 8))"

text \<open>\<open>findCRLF\<close>: the offset, from \<open>peek\<close>, of the first carriage return and line feed.\<close>

fun search_crlf :: "bytes \<Rightarrow> nat option" where
  "search_crlf (a # b # r) =
     (if a = 13 \<and> b = 10 then Some 0 else map_option Suc (search_crlf (b # r)))"
| "search_crlf _ = None"

definition findCRLF :: "msgbuf \<Rightarrow> nat option" where
  "findCRLF b = search_crlf (take (readableBytes b) (peek b))"

section \<open>Writing\<close>

definition hasWritten :: "msgbuf \<Rightarrow> nat \<Rightarrow> msgbuf res" where
  "hasWritten b len = bindr (guardr AssertFailed (len \<le> writableBytes b))
     (\<lambda>_. Inr (b\<lparr>tail := tail b + len\<rparr>))"

definition unWrite :: "msgbuf \<Rightarrow> nat \<Rightarrow> msgbuf res" where
  "unWrite b offset = bindr (guardr AssertFailed (offset \<le> readableBytes b))
     (\<lambda>_. Inr (b\<lparr>tail := tail b - offset\<rparr>))"

text \<open>\<open>memcpy\<close> into the buffer at \<open>tail\<close>: the space is there once \<open>ensureWriteableBytes\<close> ran.\<close>

definition store_at_tail :: "msgbuf \<Rightarrow> bytes \<Rightarrow> msgbuf" where
  "store_at_tail b xs =
     b\<lparr>buffer := take (tail b) (buffer b) @ xs @ drop (tail b + length xs) (buffer b),
       tail := tail b + length xs\<rparr>"

definition compact :: "msgbuf \<Rightarrow> msgbuf" where
  "compact b =
     (let xs = take (readableBytes b) (peek b)
      in b\<lparr>buffer := take kBufferOffset (buffer b) @ xs
                     @ drop (kBufferOffset + length xs) (buffer b),
           tail := kBufferOffset + (tail b - head b),
           head := kBufferOffset\<rparr>)"

text \<open>
  The new buffer of the last branch receives the waiting bytes by \<open>append\<close>; it has room for
  them, so that \<open>append\<close> only copies. \<open>swap\<close> then exchanges the two buffers whole.
\<close>

definition ensureWriteableBytes :: "msgbuf \<Rightarrow> nat \<Rightarrow> msgbuf" where
  "ensureWriteableBytes b len =
     (if len \<le> writableBytes b then b
      else if len + kBufferOffset \<le> head b + writableBytes b then compact b
      else
        let newLen = (if kBufferOffset + readableBytes b + len < length (buffer b) * 2
                      then length (buffer b) * 2
                      else kBufferOffset + readableBytes b + len)
        in store_at_tail (newMsgBuffer newLen) (take (readableBytes b) (peek b)))"

definition append :: "msgbuf \<Rightarrow> bytes \<Rightarrow> msgbuf" where
  "append b xs = store_at_tail (ensureWriteableBytes b (length xs)) xs"

definition appendInt16 :: "msgbuf \<Rightarrow> u16 \<Rightarrow> msgbuf" where
  "appendInt16 b s = append b (writeUint16T s)"

definition appendInt32 :: "msgbuf \<Rightarrow> u32 \<Rightarrow> msgbuf" where
  "appendInt32 b i = append b (writeUint32T i)"

definition appendInt64 :: "msgbuf \<Rightarrow> u64 \<Rightarrow> msgbuf" where
  "appendInt64 b l = append b (writeUint64BE l)"

definition append_buf :: "msgbuf \<Rightarrow> msgbuf \<Rightarrow> msgbuf" where
  "append_buf b o' = append b (take (readableBytes o') (peek o'))"

text \<open>
  \<open>readFd\<close> offers the free space and an 8192-byte overflow area to \<open>readv\<close>. \<open>got\<close> is what the
  kernel delivered, or \<open>None\<close> for an error (a negative result): at most as much as offered.
  The overflow area is offered only when the free space is smaller than it.
\<close>

definition readFd_room :: "msgbuf \<Rightarrow> nat" where
  "readFd_room b = (if writableBytes b < 8192 then writableBytes b + 8192 else writableBytes b)"

definition readFd :: "msgbuf \<Rightarrow> bytes option \<Rightarrow> msgbuf" where
  "readFd b got =
     (case got of
        None \<Rightarrow> b
      | Some xs \<Rightarrow>
          if length xs \<le> writableBytes b then store_at_tail b xs
          else append (store_at_tail b (take (writableBytes b) xs)) (drop (writableBytes b) xs))"

section \<open>The abstract view and the invariant\<close>

definition contents :: "msgbuf \<Rightarrow> bytes" where
  "contents b = take (tail b - head b) (drop (head b) (buffer b))"

definition buf_ok :: "msgbuf \<Rightarrow> bool" where
  "buf_ok b \<longleftrightarrow> kBufferOffset \<le> head b \<and> head b \<le> tail b \<and> tail b \<le> length (buffer b)
     \<and> length (buffer b) = mcap b + kBufferOffset \<and> kBufferOffset \<le> mcap b"

lemma contents_length [simp]: "buf_ok b \<Longrightarrow> length (contents b) = readableBytes b"
  by (auto simp: contents_def buf_ok_def readableBytes_def)

lemma contents_peek: "contents b = take (readableBytes b) (peek b)"
  by (simp add: contents_def readableBytes_def peek_def)

lemma newMsgBuffer_ok [simp]: "8 \<le> n \<Longrightarrow> buf_ok (newMsgBuffer n)"
  by (simp add: buf_ok_def newMsgBuffer_def kBufferOffset_def)

lemma newMsgBuffer_contents [simp]: "contents (newMsgBuffer n) = []"
  by (simp add: contents_def newMsgBuffer_def)

text \<open>
  With a capacity of at least eight bytes the buffer is never more than twice the capacity,
  so the shrinking branch of \<open>retrieveAll\<close> is never taken.
\<close>

lemma retrieveAll_eq:
  "buf_ok b \<Longrightarrow> retrieveAll b = b\<lparr>head := kBufferOffset, tail := kBufferOffset\<rparr>"
  by (simp add: retrieveAll_def buf_ok_def kBufferOffset_def)

lemma retrieve_ok [intro]: "buf_ok b \<Longrightarrow> buf_ok (retrieve b n)"
  by (auto simp: retrieve_def retrieveAll_eq) (auto simp: buf_ok_def readableBytes_def)

lemma retrieve_contents: "buf_ok b \<Longrightarrow> contents (retrieve b n) = drop n (contents b)"
  by (auto simp: retrieve_def retrieveAll_eq contents_def readableBytes_def drop_take
      add.commute)

lemma store_at_tail_ok:
  "buf_ok b \<Longrightarrow> length xs \<le> writableBytes b \<Longrightarrow> buf_ok (store_at_tail b xs)"
  by (auto simp: buf_ok_def store_at_tail_def writableBytes_def)

lemma store_at_tail_contents:
  "buf_ok b \<Longrightarrow> length xs \<le> writableBytes b \<Longrightarrow>
   contents (store_at_tail b xs) = contents b @ xs"
  by (auto simp: buf_ok_def store_at_tail_def writableBytes_def contents_def drop_take
      Suc_diff_le)

lemma compact_ok: "buf_ok b \<Longrightarrow> buf_ok (compact b)"
  by (auto simp: buf_ok_def compact_def readableBytes_def peek_def Let_def)

lemma compact_contents: "buf_ok b \<Longrightarrow> contents (compact b) = contents b"
  by (auto simp: buf_ok_def compact_def readableBytes_def peek_def contents_def Let_def)

lemma compact_writable:
  "buf_ok b \<Longrightarrow> len + kBufferOffset \<le> head b + writableBytes b \<Longrightarrow>
   len \<le> writableBytes (compact b)"
  by (auto simp: buf_ok_def compact_def readableBytes_def peek_def writableBytes_def Let_def)

lemma grow_ok:
  assumes "buf_ok b" "kBufferOffset + readableBytes b + len \<le> n"
  shows "buf_ok (store_at_tail (newMsgBuffer n) (contents b))"
    and "contents (store_at_tail (newMsgBuffer n) (contents b)) = contents b"
    and "len \<le> writableBytes (store_at_tail (newMsgBuffer n) (contents b))"
proof -
  have n: "8 \<le> n" and w: "length (contents b) \<le> writableBytes (newMsgBuffer n)"
    using assms by (simp_all add: kBufferOffset_def newMsgBuffer_def writableBytes_def)
  show "buf_ok (store_at_tail (newMsgBuffer n) (contents b))"
    using n w by (simp add: store_at_tail_ok)
  show "contents (store_at_tail (newMsgBuffer n) (contents b)) = contents b"
    using store_at_tail_contents [OF newMsgBuffer_ok [OF n] w] by simp
  show "len \<le> writableBytes (store_at_tail (newMsgBuffer n) (contents b))"
    using assms
    by (simp add: kBufferOffset_def newMsgBuffer_def writableBytes_def store_at_tail_def)
qed

lemma ensure_spec:
  assumes "buf_ok b"
  shows "buf_ok (ensureWriteableBytes b len)
       \<and> contents (ensureWriteableBytes b len) = contents b
       \<and> len \<le> writableBytes (ensureWriteableBytes b len)"
proof (cases "len \<le> writableBytes b")
  case False
  show ?thesis
  proof (cases "len + kBufferOffset \<le> head b + writableBytes b")
    case True
    with False assms show ?thesis
      by (simp add: ensureWriteableBytes_def compact_ok compact_contents compact_writable)
  next
    case no_room: False
    let ?n = "if kBufferOffset + readableBytes b + len < length (buffer b) * 2
              then length (buffer b) * 2 else kBufferOffset + readableBytes b + len"
    have "kBufferOffset + readableBytes b + len \<le> ?n" by simp
    from grow_ok [OF assms this] False no_room show ?thesis
      by (simp add: ensureWriteableBytes_def Let_def contents_peek [symmetric])
  qed
qed (use assms in \<open>simp add: ensureWriteableBytes_def\<close>)

lemma append_ok [intro]: "buf_ok b \<Longrightarrow> buf_ok (append b xs)"
  using ensure_spec [of b "length xs"] by (simp add: append_def store_at_tail_ok)

lemma append_contents: "buf_ok b \<Longrightarrow> contents (append b xs) = contents b @ xs"
  using ensure_spec [of b "length xs"] by (simp add: append_def store_at_tail_contents)

lemma readFd_spec:
  assumes "buf_ok b"
  shows "buf_ok (readFd b (Some xs)) \<and> contents (readFd b (Some xs)) = contents b @ xs"
proof (cases "length xs \<le> writableBytes b")
  case True
  with assms show ?thesis by (simp add: readFd_def store_at_tail_ok store_at_tail_contents)
next
  case False
  then have w: "length (take (writableBytes b) xs) \<le> writableBytes b" by simp
  with False assms show ?thesis
    using append_contents [OF store_at_tail_ok [OF assms w]]
      append_ok [OF store_at_tail_ok [OF assms w]]
    by (simp add: readFd_def store_at_tail_contents [OF assms w])
qed

section \<open>The interface of the parsers\<close>

text \<open>
  A parser looks at the waiting bytes, takes some from the front, and the connection adds
  more at the back: a queue of bytes.
\<close>

locale byte_queue =
  fixes bytes_of :: "'q \<Rightarrow> bytes"
    and valid :: "'q \<Rightarrow> bool"
    and consume :: "'q \<Rightarrow> nat \<Rightarrow> 'q"
    and feed :: "'q \<Rightarrow> bytes \<Rightarrow> 'q"
    and avail :: "'q \<Rightarrow> nat"
  assumes valid_consume: "valid q \<Longrightarrow> valid (consume q n)"
    and valid_feed: "valid q \<Longrightarrow> valid (feed q xs)"
    and bytes_consume: "valid q \<Longrightarrow> bytes_of (consume q n) = drop n (bytes_of q)"
    and bytes_feed: "valid q \<Longrightarrow> bytes_of (feed q xs) = bytes_of q @ xs"
    and avail_bytes: "valid q \<Longrightarrow> avail q = length (bytes_of q)"
begin

lemma avail_consume: "valid q \<Longrightarrow> avail (consume q n) = avail q - n"
  by (simp add: avail_bytes valid_consume bytes_consume)

lemma consume_consume:
  "valid q \<Longrightarrow> bytes_of (consume (consume q n) m) = bytes_of (consume q (n + m))"
  by (simp add: bytes_consume valid_consume add.commute)

lemma consume_feed:
  "valid q \<Longrightarrow> n \<le> avail q \<Longrightarrow> bytes_of (consume (feed q xs) n) = bytes_of (feed (consume q n) xs)"
  by (simp add: bytes_consume bytes_feed valid_consume valid_feed avail_bytes)

lemma feed_feed: "valid q \<Longrightarrow> bytes_of (feed (feed q xs) ys) = bytes_of (feed q (xs @ ys))"
  by (simp add: bytes_feed valid_feed)

end

interpretation mb: byte_queue contents buf_ok retrieve append readableBytes
  by unfold_locales
    (simp_all add: retrieve_ok append_ok retrieve_contents append_contents)

end
