(* ===== verification/TcpConn.thy ===== *)
theory TcpConn
  imports EventLoop MsgBuffer
begin

text \<open>
  \<open>LSSConnection\<close> and \<open>LSSTcpConnection\<close> of \<open>src/network/net/\<close>: a TCP connection in an event loop.
  The connections are objects of the record \<open>net\<close>, which extends the loop. Callbacks are
  parameters that act on the whole state, as is the virtual \<open>onClose\<close>, which \<open>TcpClient\<close> overrides.

  What the kernel will answer to reads and writes on a socket is a list in the connection, used up
  one call at a time; at its end a call would block. The kernel takes the bytes written into
  \<open>so_sent\<close>. \<open>so_asked\<close> is a history: all bytes the connection ever accepted for sending.
\<close>

section \<open>State\<close>

text \<open>A read delivers bytes, the end of the stream, or fails for good; a write takes some bytes or fails.\<close>

datatype rx = Data bytes | Eof | RxFail
datatype tx = Took nat | TxFail

record tcp_conn = event +
  tc_active :: bool
  tc_closed :: bool
  tc_buf :: msgbuf
  tc_iov :: "bytes list"
  tc_idle :: int
  tc_entry :: "nat option"
  so_rx :: "rx list"
  so_tx :: "tx list"
  so_sent :: bytes
  so_asked :: bytes

definition newTcpConnection :: "int \<Rightarrow> rx list \<Rightarrow> tx list \<Rightarrow> tcp_conn" where
  "newTcpConnection fd rs ts = \<lparr>ev_fd = fd, ev_mask = 0, tc_active = False, tc_closed = False,
     tc_buf = newMsgBuffer kBufferDefaultLength, tc_iov = [], tc_idle = 30, tc_entry = None,
     so_rx = rs, so_tx = ts, so_sent = [], so_asked = []\<rparr>"

text \<open>The objects the loop knows, and the closures that are queued.\<close>

datatype obj = PipeObj | AcceptObj | Tcp nat

datatype task =
    TaskClose nat
  | TaskSendList nat "bytes list"
  | TaskSend nat bytes
  | TaskActive nat
  | TaskInsert int timer
  | TaskAfter int nat
  | TaskEvery int nat
  | TaskOpen
  | TaskConnect nat

text \<open>
  \<open>nt_entries ! e\<close> is the connection the idle entry \<open>e\<close> points to. \<open>nt_dangling\<close> are the timers whose
  closure holds references to locals of \<open>setTimeoutCallback\<close>, which has returned.
\<close>

record 'a net = "(obj, task) event_loop" +
  nt_conns :: "nat \<Rightarrow> tcp_conn"
  nt_entries :: "nat list"
  nt_dangling :: "nat list"
  nt_app :: 'a

type_synonym 'a step = "'a net \<Rightarrow> 'a net res"

record 'a callbacks =
  cb_message :: "(nat \<Rightarrow> 'a step) option"
  cb_close :: "(nat \<Rightarrow> 'a step) option"
  cb_complete :: "(nat \<Rightarrow> 'a step) option"
  cb_active :: "(nat \<Rightarrow> 'a step) option"

definition call_cb :: "(nat \<Rightarrow> 'a step) option \<Rightarrow> nat \<Rightarrow> 'a step" where
  "call_cb cb c s = (case cb of None \<Rightarrow> Inr s | Some f \<Rightarrow> f c s)"

definition on_tcp :: "nat \<Rightarrow> (tcp_conn \<Rightarrow> tcp_conn) \<Rightarrow> 'a net \<Rightarrow> 'a net" where
  "on_tcp c f s = s\<lparr>nt_conns := (nt_conns s)(c := f (nt_conns s c))\<rparr>"

text \<open>An operation of the loop on the event that a connection is.\<close>

definition set_tcp :: "nat \<Rightarrow> tcp_conn \<times> 'a net \<Rightarrow> 'a net" where
  "set_tcp c r = on_tcp c (\<lambda>_. fst r) (snd r)"

definition conn_enableWriting :: "nat \<Rightarrow> bool \<Rightarrow> 'a net \<Rightarrow> 'a net" where
  "conn_enableWriting c en s = set_tcp c (snd (enableWriting en (nt_conns s c) s))"

definition pipe_fds :: "pipe option \<Rightarrow> int list" where
  "pipe_fds p = (case p of None \<Rightarrow> [] | Some q \<Rightarrow> [ev_fd q, pp_write_fd q])"

section \<open>Closing\<close>

text \<open>\<open>LSSTcpConnection::onClose\<close>: the flag first, then the callback, then the descriptor.\<close>

definition onClose :: "(nat \<Rightarrow> 'a callbacks) \<Rightarrow> nat \<Rightarrow> 'a step" where
  "onClose K c s =
     (if tc_closed (nt_conns s c) then Inr s
      else bindr (call_cb (cb_close (K c)) c (on_tcp c (\<lambda>t. t\<lparr>tc_closed := True\<rparr>) s)) (\<lambda>s1.
        Inr (set_tcp c (event_close (nt_conns s1 c) s1))))"

definition onError :: "(nat \<Rightarrow> 'a step) \<Rightarrow> nat \<Rightarrow> 'a step" where
  "onError close c s = close c s"

definition onTimeout :: "(nat \<Rightarrow> 'a step) \<Rightarrow> nat \<Rightarrow> 'a step" where
  "onTimeout close c s = close c s"

section \<open>Idle time\<close>

text \<open>
  An entry no slot takes is destroyed when the function returns, and closes the connection.
\<close>

definition enableCheckIdleTimeout :: "(nat \<Rightarrow> 'a step) \<Rightarrow> int \<Rightarrow> nat \<Rightarrow> 'a step" where
  "enableCheckIdleTimeout close max_time c s =
     (let e = length (nt_entries s);
          s1 = on_tcp c (\<lambda>t. t\<lparr>tc_idle := max_time, tc_entry := Some e\<rparr>) (s\<lparr>nt_entries := nt_entries s @ [c]\<rparr>)
      in bindr (loop_insertEntry max_time (Idle e) s1) (\<lambda>(stored, s2).
           if stored then Inr s2 else onTimeout close c s2))"

definition extendLife :: "nat \<Rightarrow> 'a step" where
  "extendLife c s =
     (case tc_entry (nt_conns s c) of
        None \<Rightarrow> Inr s
      | Some e \<Rightarrow>
          if held (Idle e) (wheel_items (el_wheel s))
          then bindr (loop_insertEntry (tc_idle (nt_conns s c)) (Idle e) s) (\<lambda>(stored, s1). Inr s1)
          else Inr s)"

section \<open>Reading\<close>

text \<open>
  The loop of \<open>onRead\<close>. A read takes at most the room the buffer offers, the rest of what the
  network delivered is the next answer. After a callback closed the connection a read fails.
\<close>

fun rx_size :: "rx \<Rightarrow> nat" where
  "rx_size (Data xs) = Suc (length xs)"
| "rx_size r = 1"

lemma readFd_room_pos: "0 < readFd_room b"
  by (simp add: readFd_room_def)

function read_loop :: "(nat \<Rightarrow> 'a step) \<Rightarrow> (nat \<Rightarrow> 'a callbacks) \<Rightarrow> nat \<Rightarrow> rx list \<Rightarrow> 'a step" where
  "read_loop close K c [] s = (if ev_fd (nt_conns s c) < 0 then close c s else Inr s)"
| "read_loop close K c (r # rs) s =
     (if ev_fd (nt_conns s c) < 0 then close c s
      else case r of
        Eof \<Rightarrow> close c s
      | RxFail \<Rightarrow> close c s
      | Data xs \<Rightarrow>
          if xs = [] then close c s
          else
            let n = readFd_room (tc_buf (nt_conns s c));
                s1 = on_tcp c (\<lambda>t. t\<lparr>tc_buf := readFd (tc_buf t) (Some (take n xs))\<rparr>) s
            in bindr (call_cb (cb_message (K c)) c s1)
                 (read_loop close K c (if n < length xs then Data (drop n xs) # rs else rs)))"
  by pat_completeness auto

termination
  by (relation "measure (\<lambda>(close, K, c, rs, s). sum_list (map rx_size rs))")
    (use readFd_room_pos in \<open>auto intro!: diff_less\<close>)

declare read_loop.simps [simp del]

definition onRead :: "(nat \<Rightarrow> 'a step) \<Rightarrow> (nat \<Rightarrow> 'a callbacks) \<Rightarrow> nat \<Rightarrow> 'a step" where
  "onRead close K c s =
     (if tc_closed (nt_conns s c) then Inr s
      else bindr (extendLife c s) (\<lambda>s1.
        read_loop close K c (so_rx (nt_conns s1 c)) (on_tcp c (\<lambda>t. t\<lparr>so_rx := []\<rparr>) s1)))"

section \<open>Writing\<close>

text \<open>Taking the written bytes off the front of the buffers.\<close>

fun advance :: "nat \<Rightarrow> bytes list \<Rightarrow> bytes list res" where
  "advance 0 v = Inr v"
| "advance (Suc n) [] = Inl OutOfBounds"
| "advance (Suc n) (b # v) =
     (if Suc n < length b then Inr (drop (Suc n) b # v) else advance (Suc n - length b) v)"

text \<open>\<open>writev\<close> refuses more than \<open>IOV_MAX\<close> buffers.\<close>

definition IOV_MAX :: nat where "IOV_MAX = 1024"

definition write_done :: "(nat \<Rightarrow> 'a callbacks) \<Rightarrow> nat \<Rightarrow> 'a step" where
  "write_done K c s = call_cb (cb_complete (K c)) c (conn_enableWriting c False s)"

text \<open>
  The loop of \<open>onWrite\<close>. When there are buffers but no bytes in them, \<open>writev\<close> answers 0 for ever.
\<close>

fun write_loop :: "(nat \<Rightarrow> 'a step) \<Rightarrow> (nat \<Rightarrow> 'a callbacks) \<Rightarrow> nat \<Rightarrow> tx list \<Rightarrow> 'a step" where
  "write_loop close K c [] s =
     (if IOV_MAX < length (tc_iov (nt_conns s c)) then close c s
      else if concat (tc_iov (nt_conns s c)) = [] then Inl Runaway
      else Inr s)"
| "write_loop close K c (a # as) s =
     (if IOV_MAX < length (tc_iov (nt_conns s c)) then close c s
      else if concat (tc_iov (nt_conns s c)) = [] then Inl Runaway
      else case a of
        TxFail \<Rightarrow> close c s
      | Took n \<Rightarrow>
          bindr (advance n (tc_iov (nt_conns s c))) (\<lambda>v.
            let s1 = on_tcp c (\<lambda>t. t\<lparr>so_sent := so_sent t @ take n (concat (tc_iov t)), tc_iov := v,
                                    so_tx := as\<rparr>) s
            in if v = [] then write_done K c s1 else write_loop close K c as s1))"

definition onWrite :: "(nat \<Rightarrow> 'a step) \<Rightarrow> (nat \<Rightarrow> 'a callbacks) \<Rightarrow> nat \<Rightarrow> 'a step" where
  "onWrite close K c s =
     (if tc_closed (nt_conns s c) then Inr s
      else bindr (extendLife c s) (\<lambda>s1.
        if tc_iov (nt_conns s1 c) \<noteq> []
        then write_loop close K c (so_tx (nt_conns s1 c)) (on_tcp c (\<lambda>t. t\<lparr>so_tx := []\<rparr>) s1)
        else write_done K c s1))"

section \<open>Sending\<close>

definition sendInLoop :: "bytes list \<Rightarrow> nat \<Rightarrow> 'a net \<Rightarrow> 'a net" where
  "sendInLoop bufs c s =
     (if tc_closed (nt_conns s c) then s
      else
        let s1 = on_tcp c (\<lambda>t. t\<lparr>tc_iov := tc_iov t @ bufs, so_asked := so_asked t @ concat bufs\<rparr>) s
        in if tc_iov (nt_conns s1 c) \<noteq> [] then conn_enableWriting c True s1 else s1)"

text \<open>
  The other overload writes at once when nothing waits. Its \<open>size_t\<close> result is never negative:
  after an error it is the largest number, the size becomes one more than it was, and the buffer
  that is queued begins one byte before the caller's: a fault.
\<close>

definition queue_rest :: "bytes \<Rightarrow> nat \<Rightarrow> 'a net \<Rightarrow> 'a net" where
  "queue_rest xs c s =
     (if xs \<noteq> [] then conn_enableWriting c True (on_tcp c (\<lambda>t. t\<lparr>tc_iov := tc_iov t @ [xs]\<rparr>) s) else s)"

definition sendInLoop_buf :: "(nat \<Rightarrow> 'a callbacks) \<Rightarrow> bytes \<Rightarrow> nat \<Rightarrow> 'a step" where
  "sendInLoop_buf K xs c s0 =
     (if tc_closed (nt_conns s0 c) then Inr s0
      else
        let s = on_tcp c (\<lambda>t. t\<lparr>so_asked := so_asked t @ xs\<rparr>) s0 in
        if tc_iov (nt_conns s c) = [] then
          if xs = [] then call_cb (cb_complete (K c)) c s
          else case so_tx (nt_conns s c) of
            Took n # as \<Rightarrow>
              let s1 = on_tcp c (\<lambda>t. t\<lparr>so_sent := so_sent t @ take n xs, so_tx := as\<rparr>) s in
              if drop n xs = [] then call_cb (cb_complete (K c)) c s1 else Inr (queue_rest (drop n xs) c s1)
          | _ \<Rightarrow> Inl OutOfBounds
        else Inr (queue_rest xs c s))"

section \<open>Becoming active\<close>

definition activate :: "(nat \<Rightarrow> 'a callbacks) \<Rightarrow> nat \<Rightarrow> 'a step" where
  "activate K c s = call_cb (cb_active (K c)) c (on_tcp c (\<lambda>t. t\<lparr>tc_active := True\<rparr>) s)"

definition deactive :: "nat \<Rightarrow> 'a net \<Rightarrow> 'a net" where
  "deactive c s = on_tcp c (\<lambda>t. t\<lparr>tc_active := False\<rparr>) s"

section \<open>Tasks and timers of connections\<close>

text \<open>\<open>after\<close> is what the timers of the application do, \<open>other\<close> the tasks of acceptors and clients.\<close>

fun fire_timer :: "(nat \<Rightarrow> 'a step) \<Rightarrow> (nat \<Rightarrow> 'a step) \<Rightarrow> timer \<Rightarrow> 'a step" where
  "fire_timer close after (After n) s = (if n \<in> set (nt_dangling s) then Inl NullDeref else after n s)"
| "fire_timer close after (Every n i) s = after n s"
| "fire_timer close after (Idle e) s = (if e < length (nt_entries s) then onTimeout close (nt_entries s ! e) s else Inr s)"

fun run_task ::
  "(nat \<Rightarrow> 'a step) \<Rightarrow> (nat \<Rightarrow> 'a callbacks) \<Rightarrow> (nat \<Rightarrow> 'a step) \<Rightarrow> (task \<Rightarrow> 'a step) \<Rightarrow> task \<Rightarrow> 'a step" where
  "run_task close K after other (TaskClose c) s = close c s"
| "run_task close K after other (TaskSendList c bufs) s = Inr (sendInLoop bufs c s)"
| "run_task close K after other (TaskSend c xs) s = sendInLoop_buf K xs c s"
| "run_task close K after other (TaskActive c) s = activate K c s"
| "run_task close K after other (TaskInsert d t) s = bindr (loop_insertEntry d t s) (\<lambda>(stored, s1). Inr s1)"
| "run_task close K after other (TaskAfter d n) s = loop_runAfter (fire_timer close after) d n s"
| "run_task close K after other (TaskEvery d n) s = loop_runEvery (fire_timer close after) d n s"
| "run_task close K after other TaskOpen s = other TaskOpen s"
| "run_task close K after other (TaskConnect c) s = other (TaskConnect c) s"

text \<open>
  The public operations hand a task to the loop: \<open>q\<close> is \<open>enqueueTask\<close> for the calling thread.
\<close>

definition forceClose :: "(task \<Rightarrow> 'a step) \<Rightarrow> nat \<Rightarrow> 'a step" where
  "forceClose q c s = q (TaskClose c) s"

definition send_list :: "(task \<Rightarrow> 'a step) \<Rightarrow> bytes list \<Rightarrow> nat \<Rightarrow> 'a step" where
  "send_list q bufs c s = q (TaskSendList c bufs) s"

definition send_buf :: "(task \<Rightarrow> 'a step) \<Rightarrow> bytes \<Rightarrow> nat \<Rightarrow> 'a step" where
  "send_buf q xs c s = q (TaskSend c xs) s"

definition active :: "(task \<Rightarrow> 'a step) \<Rightarrow> nat \<Rightarrow> 'a step" where
  "active q c s = (if tc_active (nt_conns s c) then Inr s else q (TaskActive c) s)"

definition setTimeoutCallback :: "(nat \<Rightarrow> 'a step) \<Rightarrow> int \<Rightarrow> nat \<Rightarrow> nat \<Rightarrow> 'a step" where
  "setTimeoutCallback cb timeout n c s =
     bindr (with_wheel (\<lambda>_. cb c) (runAfter timeout n) s) (\<lambda>s1. Inr (s1\<lparr>nt_dangling := n # nt_dangling s1\<rparr>))"

fun tcp_handle :: "(nat \<Rightarrow> 'a step) \<Rightarrow> (nat \<Rightarrow> 'a callbacks) \<Rightarrow> nat \<Rightarrow> handler \<Rightarrow> 'a step" where
  "tcp_handle close K c HError s = onError close c s"
| "tcp_handle close K c HClose s = close c s"
| "tcp_handle close K c HRead s = onRead close K c s"
| "tcp_handle close K c HWrite s = onWrite close K c s"

section \<open>Selectors\<close>

named_theorems net_simps "what the operations on a connection leave alone"

lemma conns_on_tcp [simp]: "nt_conns (on_tcp c f s) d = (if d = c then f (nt_conns s c) else nt_conns s d)"
  by (simp add: on_tcp_def)

lemma on_tcp_value: "f (nt_conns s c) = t \<Longrightarrow> on_tcp c f s = on_tcp c (\<lambda>_. t) s"
  by (simp add: on_tcp_def)

lemma on_tcp_twice [simp]: "on_tcp c g (on_tcp c f s) = on_tcp c (\<lambda>t. g (f t)) s"
  by (simp add: on_tcp_def)

lemma on_tcp_sel [simp]:
  "el_events (on_tcp c f s) = el_events s" "el_epoll (on_tcp c f s) = el_epoll s"
  "el_wheel (on_tcp c f s) = el_wheel s" "el_running (on_tcp c f s) = el_running s"
  "el_tasks (on_tcp c f s) = el_tasks s" "nt_entries (on_tcp c f s) = nt_entries s"
  "nt_app (on_tcp c f s) = nt_app s" "el_pipe (on_tcp c f s) = el_pipe s"
  "nt_dangling (on_tcp c f s) = nt_dangling s"
  by (simp_all add: on_tcp_def)

lemma conn_enableWriting_sel [simp]:
  "el_events (conn_enableWriting c en s) = el_events s"
  "el_wheel (conn_enableWriting c en s) = el_wheel s"
  "nt_entries (conn_enableWriting c en s) = nt_entries s"
  "nt_app (conn_enableWriting c en s) = nt_app s"
  "el_running (conn_enableWriting c en s) = el_running s"
  by (simp_all add: conn_enableWriting_def set_tcp_def enableWriting_def enable_def Let_def)

lemma conn_enableWriting_conns [simp]:
  "d \<noteq> c \<Longrightarrow> nt_conns (conn_enableWriting c en s) d = nt_conns s d"
  "\<exists>m. nt_conns (conn_enableWriting c en s) c = nt_conns s c\<lparr>ev_mask := m\<rparr>"
  by (auto simp: conn_enableWriting_def set_tcp_def enableWriting_def enable_def Let_def
      intro: exI [of _ "ev_mask (nt_conns s c)"])

section \<open>The invariant\<close>

text \<open>
  A connection has sent, or still holds, exactly what it accepted, in order; its receive buffer is
  well formed.
\<close>

definition conn_ok :: "tcp_conn \<Rightarrow> bool" where
  "conn_ok t \<longleftrightarrow> buf_ok (tc_buf t) \<and> so_asked t = so_sent t @ concat (tc_iov t)"

text \<open>
  The table of the loop and the kernel's set agree: a registered connection is open, under its own
  descriptor, and watched with its own mask. The descriptor of an open connection is registered
  for no other object.
\<close>

definition registered :: "'a net \<Rightarrow> bool" where
  "registered s \<longleftrightarrow>
     (\<forall>fd c. el_events s fd = Some (Tcp c) \<longrightarrow>
        1 < fd \<and> ev_fd (nt_conns s c) = fd \<and> el_epoll s fd = Some (ev_mask (nt_conns s c))) \<and>
     (\<forall>c. 1 < ev_fd (nt_conns s c) \<longrightarrow>
        el_events s (ev_fd (nt_conns s c)) = None \<or> el_events s (ev_fd (nt_conns s c)) = Some (Tcp c))"

definition net_ok :: "'a net \<Rightarrow> bool" where
  "net_ok s \<longleftrightarrow> (\<forall>c. conn_ok (nt_conns s c)) \<and> registered s"

lemma conn_ok_enable [simp]: "conn_ok (nt_conns (conn_enableWriting c en s) d) \<longleftrightarrow> conn_ok (nt_conns s d)"
proof (cases "d = c")
  case True
  obtain m where "nt_conns (conn_enableWriting c en s) c = nt_conns s c\<lparr>ev_mask := m\<rparr>"
    using conn_enableWriting_conns(2) by blast
  with True show ?thesis by (simp add: conn_ok_def)
qed simp

lemma registeredD:
  assumes "registered s"
  shows "el_events s fd = Some (Tcp c) \<Longrightarrow>
      1 < fd \<and> ev_fd (nt_conns s c) = fd \<and> el_epoll s fd = Some (ev_mask (nt_conns s c))"
    and "1 < ev_fd (nt_conns s c) \<Longrightarrow> el_events s (ev_fd (nt_conns s c)) = Some ob \<Longrightarrow> ob = Tcp c"
  using assms unfolding registered_def by fastforce+

lemma conn_enableWriting_eq:
  "conn_enableWriting c en s =
     (if el_events s (ev_fd (nt_conns s c)) = None then s
      else let m = (if en then or (ev_mask (nt_conns s c)) kEventWrite
                    else and (ev_mask (nt_conns s c)) (not kEventWrite)) in
        on_tcp c (\<lambda>t. t\<lparr>ev_mask := m\<rparr>)
          (s\<lparr>el_epoll := epoll_ctl CTL_MOD (ev_fd (nt_conns s c)) m (el_epoll s)\<rparr>))"
  by (simp add: conn_enableWriting_def set_tcp_def enableWriting_def enable_def on_tcp_def Let_def
      fun_upd_triv)

lemma registered_mask:
  assumes "registered s"
  shows "registered (on_tcp c (\<lambda>t. t\<lparr>ev_mask := m\<rparr>)
    (s\<lparr>el_epoll := epoll_ctl CTL_MOD (ev_fd (nt_conns s c)) m (el_epoll s)\<rparr>))" (is "registered ?s")
proof -
  have "1 < fd \<and> ev_fd (nt_conns ?s d) = fd \<and> el_epoll ?s fd = Some (ev_mask (nt_conns ?s d))"
    if e: "el_events s fd = Some (Tcp d)" for fd d
  proof -
    note r = registeredD(1) [OF assms e]
    have "d = c" if "fd = ev_fd (nt_conns s c)"
      using registeredD(2) [OF assms, of c "Tcp d"] r e that by simp
    then show ?thesis using r by auto
  qed
  then show ?thesis
    using assms unfolding registered_def by auto
qed

lemma registered_enable [intro]: "registered s \<Longrightarrow> registered (conn_enableWriting c en s)"
  unfolding conn_enableWriting_eq Let_def by (simp add: registered_mask del: epoll_ctl.simps)

lemma net_ok_enable [intro]: "net_ok s \<Longrightarrow> net_ok (conn_enableWriting c en s)"
  by (auto simp: net_ok_def)

text \<open>A change of a connection's data.\<close>

definition data_step :: "(tcp_conn \<Rightarrow> tcp_conn) \<Rightarrow> tcp_conn \<Rightarrow> bool" where
  "data_step f t \<longleftrightarrow> ev_fd (f t) = ev_fd t \<and> ev_mask (f t) = ev_mask t \<and> (conn_ok t \<longrightarrow> conn_ok (f t))"

text \<open>A step that leaves the descriptors and masks of all connections alone.\<close>

lemma registered_on_tcp:
  "registered s \<Longrightarrow> ev_fd (f (nt_conns s c)) = ev_fd (nt_conns s c) \<Longrightarrow>
   ev_mask (f (nt_conns s c)) = ev_mask (nt_conns s c) \<Longrightarrow> registered (on_tcp c f s)"
  unfolding registered_def by auto

lemma net_ok_on_tcp: "net_ok s \<Longrightarrow> data_step f (nt_conns s c) \<Longrightarrow> net_ok (on_tcp c f s)"
  by (auto simp: net_ok_def data_step_def registered_on_tcp)

lemma net_ok_cong:
  "net_ok s \<Longrightarrow> nt_conns s' = nt_conns s \<Longrightarrow> el_events s' = el_events s \<Longrightarrow> el_epoll s' = el_epoll s \<Longrightarrow>
   net_ok s'"
  by (simp add: net_ok_def registered_def)

lemma advance_concat: "advance n v = Inr v' \<Longrightarrow> concat v' = drop n (concat v)"
  by (induction n v rule: advance.induct) (auto split: if_splits)

lemma advance_total: "n \<le> length (concat v) \<Longrightarrow> \<exists>v'. advance n v = Inr v'"
  by (induction n v rule: advance.induct) auto

lemma advance_sent:
  "advance n (tc_iov t) = Inr v \<Longrightarrow>
   data_step (\<lambda>t. t\<lparr>so_sent := so_sent t @ take n (concat (tc_iov t)), tc_iov := v, so_tx := as\<rparr>) t"
  by (simp add: data_step_def conn_ok_def advance_concat)

lemma readFd_step: "data_step (\<lambda>t. t\<lparr>tc_buf := readFd (tc_buf t) (Some xs)\<rparr>) t"
  by (simp add: data_step_def conn_ok_def readFd_spec)

lemma so_tx_step [simp]: "data_step (\<lambda>t. t\<lparr>so_tx := x\<rparr>) t" "data_step (\<lambda>t. t\<lparr>so_rx := y\<rparr>) t"
  by (simp_all add: data_step_def conn_ok_def)

lemma flag_step [simp]: "data_step (\<lambda>t. t\<lparr>tc_active := b\<rparr>) t" "data_step (\<lambda>t. t\<lparr>tc_closed := b'\<rparr>) t"
    "data_step (\<lambda>t. t\<lparr>tc_idle := i, tc_entry := e\<rparr>) t"
  by (simp_all add: data_step_def conn_ok_def)

lemma queue_step: "data_step (\<lambda>t. t\<lparr>tc_iov := tc_iov t @ bufs, so_asked := so_asked t @ concat bufs\<rparr>) t"
  by (simp add: data_step_def conn_ok_def)

text \<open>An event that is taken out of the loop.\<close>

lemma delEvent_tcp:
  "nt_conns (delEvent e s) = nt_conns s" "nt_app (delEvent e s) = nt_app s" "el_pipe (delEvent e s) = el_pipe s"
  "el_events (delEvent e s) = (el_events s)(ev_fd e := None)"
  "el_events s (ev_fd e) \<noteq> None \<Longrightarrow> el_epoll (delEvent e s) = (el_epoll s)(ev_fd e := None)"
  "el_events s (ev_fd e) = None \<Longrightarrow> delEvent e s = s"
  by (auto simp: delEvent_def fun_upd_idem)

lemma net_ok_delEvent: "net_ok s \<Longrightarrow> net_ok (delEvent e s)"
  by (cases "el_events s (ev_fd e) = None") (auto simp: net_ok_def registered_def delEvent_tcp)

text \<open>Closing the descriptor of a connection the loop no longer knows.\<close>

lemma net_ok_close:
  assumes "net_ok s" "el_events s (ev_fd (nt_conns s c)) \<noteq> Some (Tcp c)"
  shows "net_ok (set_tcp c (event_close (nt_conns s c) s))"
proof (cases "1 < ev_fd (nt_conns s c)")
  case True
  let ?fd = "ev_fd (nt_conns s c)"
  have none: "el_events s ?fd = None"
    using assms True by (auto simp: net_ok_def registered_def)
  have "conn_ok (nt_conns s c\<lparr>ev_fd := -1\<rparr>)" using assms(1) by (simp add: net_ok_def conn_ok_def)
  moreover have "el_events s fd = Some (Tcp d) \<Longrightarrow> d \<noteq> c \<and> fd \<noteq> ?fd" for fd d
    using assms none by (auto simp: net_ok_def registered_def)
  ultimately show ?thesis
    using True assms(1) unfolding net_ok_def registered_def
    by (auto simp: set_tcp_def event_close_def on_tcp_def)
next
  case False
  then show ?thesis
    using assms(1) by (simp add: set_tcp_def event_close_def on_tcp_def fun_upd_triv)
qed

text \<open>A short idle time is always taken by the wheel of seconds.\<close>

lemma enableCheckIdleTimeout_short:
  assumes "enableCheckIdleTimeout close d c s = Inr s'" "0 \<le> d" "d < 60"
  shows "\<exists>w. s' = (on_tcp c (\<lambda>t. t\<lparr>tc_idle := d, tc_entry := Some (length (nt_entries s))\<rparr>)
      (s\<lparr>nt_entries := nt_entries s @ [c]\<rparr>))\<lparr>el_wheel := w\<rparr>"
  using assms
  by (auto simp: enableCheckIdleTimeout_def loop_insertEntry_def insertEntry_def kTimingMinute_def u32_int_def Let_def
      bindr_eq_Inr split: if_splits)

section \<open>The users of a connection\<close>

text \<open>What an invariant of the program around the connections may speak of.\<close>

definition same_shape :: "'a net \<Rightarrow> 'a net \<Rightarrow> bool" where
  "same_shape s s' \<longleftrightarrow> el_events s' = el_events s \<and> nt_app s' = nt_app s \<and>
     map_option ev_fd (el_pipe s') = map_option ev_fd (el_pipe s) \<and>
     dom (el_epoll s') = dom (el_epoll s) \<and>
     (\<forall>c. ev_fd (nt_conns s' c) = ev_fd (nt_conns s c) \<and> tc_closed (nt_conns s' c) = tc_closed (nt_conns s c))"

lemma same_shape_refl [simp]: "same_shape s s"
  by (simp add: same_shape_def)

lemma same_shape_trans: "same_shape s s1 \<Longrightarrow> same_shape s1 s2 \<Longrightarrow> same_shape s s2"
  by (simp add: same_shape_def)

lemma same_shape_on_tcp:
  "ev_fd (f (nt_conns s c)) = ev_fd (nt_conns s c) \<Longrightarrow>
   tc_closed (f (nt_conns s c)) = tc_closed (nt_conns s c) \<Longrightarrow> same_shape s (on_tcp c f s)"
  by (simp add: same_shape_def)

lemma same_shape_enable: "same_shape s (conn_enableWriting c en s)"
  by (auto simp: conn_enableWriting_eq same_shape_def Let_def)

lemma extendLife_wheel:
  "extendLife c s = Inr s' \<Longrightarrow> \<exists>w. s' = s\<lparr>el_wheel := w\<rparr>"
  by (auto simp: extendLife_def loop_insertEntry_def res_simps split: option.splits if_splits
      intro: exI [of _ "el_wheel s"])

lemma read_loopE:
  assumes "read_loop close K c rs s = Inr s'"
  obtains (close) "close c s = Inr s'" | (block) "s' = s"
    | (data) xs rs' s2 where "rs = Data xs # rs'" "xs \<noteq> []"
        "call_cb (cb_message (K c)) c
           (on_tcp c (\<lambda>t. t\<lparr>tc_buf := readFd (tc_buf t) (Some (take (readFd_room (tc_buf (nt_conns s c))) xs))\<rparr>) s) = Inr s2"
        "read_loop close K c (if readFd_room (tc_buf (nt_conns s c)) < length xs
           then Data (drop (readFd_room (tc_buf (nt_conns s c))) xs) # rs' else rs') s2 = Inr s'"
proof (cases rs)
  case Nil
  have "(if ev_fd (nt_conns s c) < 0 then close c s else Inr s) = Inr s'"
    using assms unfolding Nil read_loop.simps(1) .
  then show thesis using that(1,2) by (cases "ev_fd (nt_conns s c) < 0") simp_all
next
  case (Cons r rs')
  show thesis
  proof (cases "\<exists>xs. r = Data xs \<and> xs \<noteq> [] \<and> \<not> ev_fd (nt_conns s c) < 0")
    case True
    then obtain xs where xs: "r = Data xs" "xs \<noteq> []" "\<not> ev_fd (nt_conns s c) < 0" by auto
    let ?n = "readFd_room (tc_buf (nt_conns s c))"
    let ?m = "call_cb (cb_message (K c)) c (on_tcp c (\<lambda>t. t\<lparr>tc_buf := readFd (tc_buf t) (Some (take ?n xs))\<rparr>) s)"
    let ?k = "read_loop close K c (if ?n < length xs then Data (drop ?n xs) # rs' else rs')"
    have b: "bindr ?m ?k = Inr s'"
      using assms xs unfolding Cons read_loop.simps(2) Let_def by simp
    then obtain s2 where "?m = Inr s2" "?k s2 = Inr s'" by (cases ?m) simp_all
    then show thesis using that(3) [of xs rs' s2] Cons xs by blast
  next
    case False
    then have "close c s = Inr s'"
      using assms unfolding Cons read_loop.simps(2) Let_def by (auto split: if_splits rx.splits)
    then show thesis by (rule that(1))
  qed
qed

text \<open>
  A program that uses connections: its callbacks, its \<open>onClose\<close>, and an invariant that implies that
  of the network, does not look into the data of a connection, and is kept by the callbacks.
\<close>

locale tcp_user =
  fixes inv :: "'a net \<Rightarrow> bool"
    and close :: "nat \<Rightarrow> 'a step"
    and K :: "nat \<Rightarrow> 'a callbacks"
  assumes inv_net: "inv s \<Longrightarrow> net_ok s"
    and inv_data: "inv s \<Longrightarrow> net_ok s' \<Longrightarrow> same_shape s s' \<Longrightarrow> inv s'"
    and close_keeps: "inv s \<Longrightarrow> close c s = Inr s' \<Longrightarrow> inv s'"
    and message_keeps: "inv s \<Longrightarrow> call_cb (cb_message (K c)) c s = Inr s' \<Longrightarrow> inv s'"
    and complete_keeps: "inv s \<Longrightarrow> call_cb (cb_complete (K c)) c s = Inr s' \<Longrightarrow> inv s'"
    and active_keeps: "inv s \<Longrightarrow> call_cb (cb_active (K c)) c s = Inr s' \<Longrightarrow> inv s'"
begin

lemma on_tcp_id [simp]: "inv s \<Longrightarrow> inv (on_tcp c (\<lambda>t. t) s)"
  by (simp add: on_tcp_def)

lemma on_tcp_keeps:
  assumes "inv s" "data_step f (nt_conns s c)" "tc_closed (f (nt_conns s c)) = tc_closed (nt_conns s c)"
  shows "inv (on_tcp c f s)"
proof -
  have "ev_fd (f (nt_conns s c)) = ev_fd (nt_conns s c)" using assms(2) by (simp add: data_step_def)
  then show ?thesis
    using inv_data [OF assms(1) net_ok_on_tcp [OF inv_net [OF assms(1)] assms(2)]] assms(3)
    by (simp add: same_shape_on_tcp)
qed

lemma enable_keeps: "inv s \<Longrightarrow> inv (conn_enableWriting c en s)"
  by (meson inv_data inv_net net_ok_enable same_shape_enable)

lemma wheel_change: "inv s \<Longrightarrow> inv (s\<lparr>el_wheel := w\<rparr>)"
  by (rule inv_data) (auto simp: same_shape_def intro: net_ok_cong dest: inv_net)

lemma books_change:
  "inv s \<Longrightarrow> inv (s\<lparr>el_running := b\<rparr>) \<and> inv (s\<lparr>el_size := n\<rparr>) \<and> inv (s\<lparr>el_tasks := ts\<rparr>)"
  by (intro conjI; rule inv_data) (auto simp: same_shape_def intro: net_ok_cong dest: inv_net)

lemma extendLife_keeps: "extendLife c s = Inr s' \<Longrightarrow> inv s \<Longrightarrow> inv s'"
  using extendLife_wheel wheel_change by blast

lemma idle_keeps:
  assumes "enableCheckIdleTimeout close d c s = Inr s'" "inv s"
  shows "inv s'"
proof -
  let ?s1 = "on_tcp c (\<lambda>t. t\<lparr>tc_idle := d, tc_entry := Some (length (nt_entries s))\<rparr>)
      (s\<lparr>nt_entries := nt_entries s @ [c]\<rparr>)"
  have "inv (s\<lparr>nt_entries := nt_entries s @ [c]\<rparr>)"
    by (rule inv_data [OF assms(2)]) (auto simp: same_shape_def intro: net_ok_cong [OF inv_net [OF assms(2)]])
  then have "inv ?s1" by (intro on_tcp_keeps) simp_all
  then have "inv (?s1\<lparr>el_wheel := w\<rparr>)" for w by (rule wheel_change)
  moreover obtain w where "s' = ?s1\<lparr>el_wheel := w\<rparr> \<or> close c (?s1\<lparr>el_wheel := w\<rparr>) = Inr s'"
    using assms(1)
    by (auto simp: enableCheckIdleTimeout_def loop_insertEntry_def onTimeout_def Let_def bindr_eq_Inr split: if_splits)
  ultimately show ?thesis using close_keeps by blast
qed

lemma read_loop_keeps: "read_loop close K c rs s = Inr s' \<Longrightarrow> inv s \<Longrightarrow> inv s'"
proof (induction "sum_list (map rx_size rs)" arbitrary: rs s rule: less_induct)
  case less
  from less.prems(1) show ?case
  proof (cases rule: read_loopE)
    case (data xs rs' s2)
    let ?n = "readFd_room (tc_buf (nt_conns s c))"
    have "inv (on_tcp c (\<lambda>t. t\<lparr>tc_buf := readFd (tc_buf t) (Some (take ?n xs))\<rparr>) s)"
      using less.prems(2) by (intro on_tcp_keeps readFd_step) simp_all
    moreover have "sum_list (map rx_size (if ?n < length xs then Data (drop ?n xs) # rs' else rs'))
        < sum_list (map rx_size rs)"
      using data(1) readFd_room_pos [of "tc_buf (nt_conns s c)"] by auto
    ultimately show ?thesis using less.hyps data(3,4) message_keeps by blast
  qed (use less.prems close_keeps in auto)
qed

lemma onRead_keeps:
  assumes "onRead close K c s = Inr s'" "inv s"
  shows "inv s'"
proof (cases "tc_closed (nt_conns s c)")
  case False
  then obtain s1 where s1: "extendLife c s = Inr s1"
      "read_loop close K c (so_rx (nt_conns s1 c)) (on_tcp c (\<lambda>t. t\<lparr>so_rx := []\<rparr>) s1) = Inr s'"
    using assms(1) by (auto simp: onRead_def res_simps)
  have "inv (on_tcp c (\<lambda>t. t\<lparr>so_rx := []\<rparr>) s1)"
    using extendLife_keeps [OF s1(1) assms(2)] by (intro on_tcp_keeps) simp_all
  then show ?thesis using read_loop_keeps s1(2) by blast
qed (use assms in \<open>simp add: onRead_def\<close>)

lemma write_done_keeps: "write_done K c s = Inr s' \<Longrightarrow> inv s \<Longrightarrow> inv s'"
  unfolding write_done_def by (erule complete_keeps [rotated]) (rule enable_keeps)

lemma write_loop_keeps: "write_loop close K c as s = Inr s' \<Longrightarrow> inv s \<Longrightarrow> inv s'"
proof (induction as arbitrary: s)
  case (Cons a as)
  let ?f = "\<lambda>n v t. t\<lparr>so_sent := so_sent t @ take n (concat (tc_iov t)), tc_iov := v, so_tx := as\<rparr>"
  consider (close) "close c s = Inr s'"
    | (go) n v where "advance n (tc_iov (nt_conns s c)) = Inr v"
        "(if v = [] then write_done K c (on_tcp c (?f n v) s) else write_loop close K c as (on_tcp c (?f n v) s)) = Inr s'"
    using Cons.prems(1) by (auto simp: res_simps Let_def split: if_splits tx.splits)
  then show ?case
  proof cases
    case go
    have "inv (on_tcp c (?f n v) s)"
      using Cons.prems(2) advance_sent [OF go(1)] by (intro on_tcp_keeps) simp_all
    then show ?thesis using go(2) Cons.IH write_done_keeps by (auto split: if_splits)
  qed (use Cons.prems close_keeps in blast)
qed (use close_keeps in \<open>auto split: if_splits\<close>)

lemma onWrite_keeps:
  assumes "onWrite close K c s = Inr s'" "inv s"
  shows "inv s'"
proof (cases "tc_closed (nt_conns s c)")
  case False
  then obtain s1 where s1: "extendLife c s = Inr s1"
      "(if tc_iov (nt_conns s1 c) \<noteq> []
        then write_loop close K c (so_tx (nt_conns s1 c)) (on_tcp c (\<lambda>t. t\<lparr>so_tx := []\<rparr>) s1)
        else write_done K c s1) = Inr s'"
    using assms(1) by (auto simp: onWrite_def res_simps)
  have i: "inv s1" "inv (on_tcp c (\<lambda>t. t\<lparr>so_tx := []\<rparr>) s1)"
    using extendLife_keeps [OF s1(1) assms(2)] on_tcp_keeps [of s1 _ c] by simp_all
  then show ?thesis using s1(2) write_loop_keeps write_done_keeps by (auto split: if_splits)
qed (use assms in \<open>simp add: onWrite_def\<close>)

lemma handle_keeps: "tcp_handle close K c h s = Inr s' \<Longrightarrow> inv s \<Longrightarrow> inv s'"
  by (cases h) (auto simp: onError_def dest: close_keeps onRead_keeps onWrite_keeps)

lemma sendInLoop_keeps: "inv s \<Longrightarrow> inv (sendInLoop bufs c s)"
  using on_tcp_keeps [OF _ queue_step, of s c bufs] enable_keeps by (simp add: sendInLoop_def Let_def)

text \<open>A connection replaced by one with the same event and flag.\<close>

lemma set_keeps:
  assumes "inv s" "conn_ok t" "ev_fd t = ev_fd (nt_conns s c)" "ev_mask t = ev_mask (nt_conns s c)"
    "tc_closed t = tc_closed (nt_conns s c)"
  shows "inv (s\<lparr>nt_conns := (nt_conns s)(c := t)\<rparr>)"
  using on_tcp_keeps [OF assms(1), of "\<lambda>_. t" c] assms(2-) by (simp add: data_step_def on_tcp_def)

lemma sendInLoop_buf_keeps:
  assumes "sendInLoop_buf K xs c s = Inr s'" "inv s"
  shows "inv s'"
proof (cases "tc_closed (nt_conns s c)")
  case open_conn: False
  let ?t = "nt_conns s c"
  have ok: "buf_ok (tc_buf ?t)" "so_asked ?t = so_sent ?t @ concat (tc_iov ?t)"
    using inv_net [OF assms(2)] by (simp_all add: net_ok_def conn_ok_def)
  note defs = sendInLoop_buf_def queue_rest_def on_tcp_def Let_def
  show ?thesis
  proof (cases "tc_iov ?t = []")
    case False
    then show ?thesis using assms open_conn ok
      by (auto simp: defs conn_ok_def intro!: enable_keeps set_keeps split: if_splits)
  next
    case True
    show ?thesis
    proof (cases "xs = []")
      case True
      then show ?thesis using assms open_conn \<open>tc_iov ?t = []\<close> by (auto simp: defs dest: complete_keeps)
    next
      case False
      then obtain n as where n: "so_tx ?t = Took n # as"
        using assms(1) open_conn True by (auto simp: defs split: list.splits tx.splits)
      let ?u = "?t\<lparr>so_asked := so_asked ?t @ xs, so_sent := so_sent ?t @ take n xs, so_tx := as\<rparr>"
      show ?thesis
      proof (cases "drop n xs = []")
        case all: True
        then have "inv (s\<lparr>nt_conns := (nt_conns s)(c := ?u)\<rparr>)"
          using assms(2) ok True by (intro set_keeps) (simp_all add: conn_ok_def)
        then show ?thesis using assms(1) open_conn True False n all
          by (auto simp: defs dest: complete_keeps)
      next
        case rest: False
        have "inv (s\<lparr>nt_conns := (nt_conns s)(c := ?u\<lparr>tc_iov := [drop n xs]\<rparr>)\<rparr>)"
          using assms(2) ok True by (intro set_keeps) (simp_all add: conn_ok_def)
        then show ?thesis using assms(1) open_conn True False n rest
          by (auto simp: defs intro!: enable_keeps)
      qed
    qed
  qed
qed (use assms in \<open>simp add: sendInLoop_buf_def\<close>)

end
section \<open>A program around the connections\<close>

text \<open>Who handles an event: the pipe, the acceptor (\<open>others\<close>) or a connection.\<close>

fun net_handle ::
  "(handler \<Rightarrow> 'a step) \<Rightarrow> (nat \<Rightarrow> 'a step) \<Rightarrow> (nat \<Rightarrow> 'a callbacks) \<Rightarrow> obj \<Rightarrow> handler \<Rightarrow> 'a step" where
  "net_handle others close K PipeObj HRead s = Inr (s\<lparr>el_pipe := map_option pipe_onRead (el_pipe s)\<rparr>)"
| "net_handle others close K PipeObj HClose s = Inr (s\<lparr>el_pipe := map_option pipe_onClose (el_pipe s)\<rparr>)"
| "net_handle others close K PipeObj h s = Inr s"
| "net_handle others close K AcceptObj h s = others h s"
| "net_handle others close K (Tcp c) h s = tcp_handle close K c h s"

locale tcp_program = tcp_user +
  fixes others :: "handler \<Rightarrow> 'a step"
    and after :: "nat \<Rightarrow> 'a step"
    and other :: "task \<Rightarrow> 'a step"
  assumes others_keep: "inv s \<Longrightarrow> others h s = Inr s' \<Longrightarrow> inv s'"
    and after_keeps: "inv s \<Longrightarrow> after n s = Inr s' \<Longrightarrow> inv s'"
    and other_keeps: "inv s \<Longrightarrow> other t s = Inr s' \<Longrightarrow> inv s'"
begin

lemma pipe_change:
  assumes "\<And>p. ev_fd (f p) = ev_fd p"
  shows "inv s \<Longrightarrow> inv (s\<lparr>el_pipe := map_option f (el_pipe s)\<rparr>)"
  by (rule inv_data)
    (auto simp: same_shape_def assms option.map_comp comp_def intro: net_ok_cong dest: inv_net)

lemma pipe_fd: "ev_fd (pipe_onRead p) = ev_fd p" "ev_fd (pipe_onClose p) = ev_fd p"
  by (simp_all add: pipe_onRead_def pipe_onClose_def)

lemma net_handle_keeps: "inv s \<Longrightarrow> net_handle others close K ob h s = Inr s' \<Longrightarrow> inv s'"
  by (cases "(others, close, K, ob, h, s)" rule: net_handle.cases)
    (auto intro: pipe_change pipe_fd others_keep handle_keeps)

lemma fire_timer_keeps: "inv s \<Longrightarrow> fire_timer close after t s = Inr s' \<Longrightarrow> inv s'"
  by (cases t) (auto simp: onTimeout_def intro: after_keeps close_keeps split: if_splits)

lemma fired_keep: "run_list (fire_timer close after) ts s = Inr s' \<Longrightarrow> inv s \<Longrightarrow> inv s'"
  by (induction ts arbitrary: s) (auto simp: res_simps intro: fire_timer_keeps)

lemma run_task_keeps:
  assumes "inv s" "run_task close K after other t s = Inr s'"
  shows "inv s'"
proof (cases t)
  case (TaskActive c)
  have "inv (on_tcp c (\<lambda>t. t\<lparr>tc_active := True\<rparr>) s)" using assms(1) by (intro on_tcp_keeps) simp_all
  then show ?thesis using assms(2) TaskActive active_keeps by (auto simp: activate_def)
qed (use assms in \<open>auto simp: res_simps loop_insertEntry_def loop_runAfter_def loop_runEvery_def with_wheel_def
  intro: close_keeps sendInLoop_keeps sendInLoop_buf_keeps other_keeps wheel_change dest!: fired_keep [OF _ wheel_change]\<close>)

end

sublocale tcp_program \<subseteq> in_loop: loop_client inv "net_handle others close K" "run_task close K after other"
    "fire_timer close after"
  by unfold_locales (use net_handle_keeps run_task_keeps fire_timer_keeps wheel_change books_change in blast)+
section \<open>What writing does\<close>

text \<open>A change of the connection \<open>c\<close> by what the kernel took.\<close>

definition wrote :: "nat \<Rightarrow> bytes list \<Rightarrow> tx list \<Rightarrow> tcp_conn \<Rightarrow> tcp_conn" where
  "wrote n v as t = t\<lparr>so_sent := so_sent t @ take n (concat (tc_iov t)), tc_iov := v, so_tx := as\<rparr>"

lemma wrote_wrote:
  "advance n (tc_iov t) = Inr v \<Longrightarrow> wrote m w bs (wrote n v as t) = wrote (n + m) w bs t"
  by (simp add: wrote_def advance_concat take_add)

lemma advance_parts:
  "advance n v = Inr v' \<Longrightarrow> \<forall>b \<in> set v. b \<noteq> [] \<Longrightarrow> (\<forall>b \<in> set v'. b \<noteq> []) \<and> length v' \<le> length v"
  by (induction n v rule: advance.induct) (auto split: if_splits)

lemma advance_add: "advance n v = Inr v' \<Longrightarrow> advance m v' = Inr w \<Longrightarrow> advance (n + m) v = Inr w"
proof (induction n v arbitrary: m rule: advance.induct)
  case (3 n b v)
  show ?case
  proof (cases "Suc n < length b")
    case True
    then have v': "v' = drop (Suc n) b # v" using 3(2) by simp
    then show ?thesis using 3(3) True
      by (cases m) (auto simp: less_diff_conv add.commute Suc_diff_le diff_diff_add split: if_splits)
  next
    case False
    then have "advance (Suc n - length b + m) v = Inr w" using 3 by simp
    then show ?thesis using False by (simp add: Suc_diff_le)
  qed
qed auto

lemma write_loop_Took:
  assumes "length (tc_iov (nt_conns s c)) \<le> IOV_MAX" "concat (tc_iov (nt_conns s c)) \<noteq> []"
    "advance n (tc_iov (nt_conns s c)) = Inr v"
  shows "write_loop close K c (Took n # as) s =
    (let s1 = on_tcp c (wrote n v as) s in if v = [] then write_done K c s1 else write_loop close K c as s1)"
  using assms by (auto simp: wrote_def on_tcp_def Let_def)

text \<open>As long as the kernel takes bytes, they leave in order; the rest waits.\<close>

lemma write_loop_takes:
  assumes "length (tc_iov (nt_conns s c)) \<le> IOV_MAX" "\<forall>b \<in> set (tc_iov (nt_conns s c)). b \<noteq> []"
    "tc_iov (nt_conns s c) \<noteq> []" "\<forall>n \<in> set ns. 0 < n" "sum_list ns \<le> length (concat (tc_iov (nt_conns s c)))"
  shows "\<exists>v s1. advance (sum_list ns) (tc_iov (nt_conns s c)) = Inr v \<and>
      s1 = on_tcp c (wrote (sum_list ns) v (if ns = [] then so_tx (nt_conns s c) else [])) s \<and>
      write_loop close K c (map Took ns) s = (if v = [] then write_done K c s1 else Inr s1)"
  using assms
proof (induction ns arbitrary: s)
  case Nil
  have "concat (tc_iov (nt_conns s c)) \<noteq> []" using Nil.prems(2,3) by (cases "tc_iov (nt_conns s c)") auto
  moreover have "on_tcp c (wrote 0 (tc_iov (nt_conns s c)) (so_tx (nt_conns s c))) s = s"
    by (simp add: on_tcp_def wrote_def)
  ultimately show ?case using Nil.prems by simp
next
  case (Cons n ns)
  let ?t = "nt_conns s c"
  have ne: "concat (tc_iov ?t) \<noteq> []" using Cons.prems(2,3) by (cases "tc_iov ?t") auto
  obtain v where v: "advance n (tc_iov ?t) = Inr v" using advance_total [of n "tc_iov ?t"] Cons.prems(5) by auto
  note p = advance_parts [OF v Cons.prems(2)]
  let ?s1 = "on_tcp c (wrote n v (map Took ns)) s"
  have step: "write_loop close K c (map Took (n # ns)) s =
      (if v = [] then write_done K c ?s1 else write_loop close K c (map Took ns) ?s1)"
    using write_loop_Took [OF Cons.prems(1) ne v, of close K "map Took ns"] by (simp add: Let_def)
  have iov: "tc_iov (nt_conns ?s1 c) = v" by (simp add: wrote_def)
  have cat: "concat v = drop n (concat (tc_iov ?t))" using advance_concat [OF v] .
  show ?case
  proof (cases "v = []")
    case True
    then have "length (concat (tc_iov ?t)) \<le> n" using cat by simp
    moreover have "n + sum_list ns \<le> length (concat (tc_iov ?t))" using Cons.prems(5) by simp
    ultimately have "sum_list ns = 0" by linarith
    then have "ns = []" using Cons.prems(4) by (cases ns) auto
    then show ?thesis using step v True by simp
  next
    case False
    have le: "sum_list ns \<le> length (concat v)" using cat Cons.prems(5) by simp
    obtain v2 s2 where r: "advance (sum_list ns) v = Inr v2"
        "s2 = on_tcp c (wrote (sum_list ns) v2 (if ns = [] then map Took ns else [])) ?s1"
        "write_loop close K c (map Took ns) ?s1 = (if v2 = [] then write_done K c s2 else Inr s2)"
      using Cons.IH [of ?s1] p False le Cons.prems(1,4) iov by (auto simp: wrote_def)
    have add: "advance (sum_list (n # ns)) (tc_iov ?t) = Inr v2"
      using advance_add [OF v r(1)] by simp
    have "s2 = on_tcp c (wrote (sum_list (n # ns)) v2 []) s"
      using wrote_wrote [OF v] r(2) by (simp add: on_tcp_def)
    then show ?thesis using add step False r(3) by auto
  qed
qed

lemma write_done_enable: "write_done K c s = call_cb (cb_complete (K c)) c (conn_enableWriting c False s)"
  by (simp add: write_done_def)

lemma no_write_interest: "and (and m (not kEventWrite)) EPOLLOUT = 0"
  by (simp add: epoll_defs and.assoc)

text \<open>
  C19: a writable event always comes to an end when no buffer is empty, there are at most \<open>IOV_MAX\<close> of
  them, which is what one write may have, and no write fails: the bytes the kernel takes are
  sent in order and the rest waits, in order; when it takes them all, interest in writing is
  withdrawn and then the write-complete callback runs, in a state where nothing waits.
\<close>

theorem writable_event_ends:
  assumes "net_ok s" "el_events s fd = Some (Tcp c)" "\<not> tc_closed (nt_conns s c)" "extendLife c s = Inr s0"
    and "tc_iov (nt_conns s c) \<noteq> []" "\<forall>b \<in> set (tc_iov (nt_conns s c)). b \<noteq> []"
      "length (tc_iov (nt_conns s c)) \<le> IOV_MAX"
    and "so_tx (nt_conns s c) = map Took ns" "\<forall>n \<in> set ns. 0 < n"
      "sum_list ns \<le> length (concat (tc_iov (nt_conns s c)))"
  shows "\<exists>s1. onWrite close K c s =
        (if sum_list ns = length (concat (tc_iov (nt_conns s c))) then call_cb (cb_complete (K c)) c s1 else Inr s1) \<and>
      so_sent (nt_conns s1 c) = so_sent (nt_conns s c) @ take (sum_list ns) (concat (tc_iov (nt_conns s c))) \<and>
      concat (tc_iov (nt_conns s1 c)) = drop (sum_list ns) (concat (tc_iov (nt_conns s c))) \<and>
      (\<forall>b \<in> set (tc_iov (nt_conns s1 c)). b \<noteq> []) \<and>
      el_epoll s1 fd = Some (if sum_list ns = length (concat (tc_iov (nt_conns s c)))
        then and (ev_mask (nt_conns s c)) (not kEventWrite) else ev_mask (nt_conns s c)) \<and>
      (\<forall>d. d \<noteq> c \<longrightarrow> nt_conns s1 d = nt_conns s d)"
proof -
  let ?t = "nt_conns s c" and ?k = "sum_list ns"
  let ?s = "on_tcp c (\<lambda>t. t\<lparr>so_tx := []\<rparr>) s0"
  obtain w where s0: "s0 = s\<lparr>el_wheel := w\<rparr>" using extendLife_wheel [OF assms(4)] by blast
  have fd: "ev_fd ?t = fd" "el_epoll s fd = Some (ev_mask ?t)"
    using registeredD(1) [OF _ assms(2)] assms(1) by (simp_all add: net_ok_def)
  obtain v where v: "advance ?k (tc_iov ?t) = Inr v"
      "write_loop close K c (map Took ns) ?s =
        (if v = [] then write_done K c (on_tcp c (wrote ?k v []) s0) else Inr (on_tcp c (wrote ?k v []) s0))"
    using write_loop_takes [of ?s c ns close K] assms(5-7,9,10) s0 by (auto simp: wrote_def on_tcp_def)
  note p = advance_parts [OF v(1) assms(6)] and cat = advance_concat [OF v(1)]
  have all: "v = [] \<longleftrightarrow> ?k = length (concat (tc_iov ?t))"
    using cat p assms(10) by (cases v) auto
  let ?s1 = "on_tcp c (wrote ?k v []) s0"
  have run: "onWrite close K c s = (if v = [] then write_done K c ?s1 else Inr ?s1)"
    using assms(3-5,8) v(2) s0 by (simp add: onWrite_def)
  show ?thesis
  proof (cases "v = []")
    case True
    let ?s2 = "conn_enableWriting c False ?s1"
    have c: "nt_conns ?s2 c = (nt_conns ?s1 c)\<lparr>ev_mask := and (ev_mask ?t) (not kEventWrite)\<rparr>"
        "el_epoll ?s2 fd = Some (and (ev_mask ?t) (not kEventWrite))"
      using fd assms(2) s0 by (simp_all add: conn_enableWriting_eq wrote_def Let_def)
    show ?thesis
      using run True all c cat p s0 by (intro exI [of _ ?s2]) (simp add: write_done_enable wrote_def)
  next
    case False
    then show ?thesis using run all cat p fd s0 by (intro exI [of _ ?s1]) (simp add: wrote_def)
  qed
qed

definition demo_writer :: "unit net" where
  "demo_writer = \<lparr>el_running = True, el_events = [5 \<mapsto> Tcp 0], el_epoll = [5 \<mapsto> or kEventRead kEventWrite],
     el_size = 1, el_tasks = [], el_wheel = newWheel, el_pipe = None,
     nt_conns = (\<lambda>_. newTcpConnection (-1) [] [])
       (0 := (newTcpConnection 5 [] [Took 2, Took 1])\<lparr>ev_mask := or kEventRead kEventWrite, tc_iov := [[1, 2], [3]],
          so_asked := [1, 2, 3]\<rparr>),
     nt_entries = [], nt_dangling = [], nt_app = ()\<rparr>"

definition no_callbacks :: "nat \<Rightarrow> unit callbacks" where
  "no_callbacks c = \<lparr>cb_message = None, cb_close = None, cb_complete = None, cb_active = None\<rparr>"

theorem writable_event_ends_witness:
  "\<exists>s1. onWrite (\<lambda>_. Inr) no_callbacks 0 demo_writer = call_cb (cb_complete (no_callbacks 0)) 0 s1 \<and>
    so_sent (nt_conns s1 0) = [1, 2, 3] \<and> concat (tc_iov (nt_conns s1 0)) = []"
proof -
  have ok: "net_ok demo_writer"
    by (auto simp: net_ok_def registered_def conn_ok_def demo_writer_def newTcpConnection_def kBufferDefaultLength_def
        split: if_splits)
  have e: "extendLife 0 demo_writer = Inr demo_writer"
    by (simp add: extendLife_def demo_writer_def newTcpConnection_def)
  show ?thesis
    using writable_event_ends [OF ok, of 5 0 demo_writer "[2, 1]" "\<lambda>_. Inr" no_callbacks] e
    by (auto simp: demo_writer_def newTcpConnection_def IOV_MAX_def)
qed

end
