(* ===== verification/IdleTime.thy ===== *)
theory IdleTime
  imports TcpConn "HOL-Library.Sublist"
begin

text \<open>
  The idle time of a connection: its entry sits in every slot an activity put it in, and runs when
  the last of them is reached.
\<close>

section \<open>An entry in several slots\<close>

text \<open>The entry \<open>t\<close> is in the slots \<open>I\<close> of the fast wheel and nowhere else.\<close>

definition in_slots :: "timer \<Rightarrow> nat set \<Rightarrow> wheel \<Rightarrow> bool" where
  "in_slots t I w \<longleftrightarrow> I \<subseteq> {..<60} \<and>
     view t w = (map (\<lambda>i. if i \<in> I then [Entry t] else []) [0..<60],
       replicate 60 [], replicate 24 [], replicate 30 [])"

definition plain :: "timer \<Rightarrow> bool" where
  "plain t \<longleftrightarrow> (\<forall>n i. t \<noteq> Every n i)"

lemma in_slots_empty: "in_slots t {} w \<longleftrightarrow> not_in t w"
  by (simp add: in_slots_def not_in_def map_replicate_const)

lemma concat_map_Nil: "concat (map f xs) = [] \<longleftrightarrow> (\<forall>x \<in> set xs. f x = [])"
  by (induction xs) auto

lemma in_slots_held:
  assumes "in_slots t I w"
  shows "held t (wheel_items w) \<longleftrightarrow> I \<noteq> {}"
proof -
  have "held t (wheel_items w) \<longleftrightarrow> concat (map (\<lambda>i. if i \<in> I then [Entry t] else []) [0..<60]) \<noteq> []"
    using assms by (simp add: held_filter wheel_items_def concat_mine in_slots_def view_def)
  also have "\<dots> \<longleftrightarrow> (\<exists>i. i \<in> I \<and> i < 60)" unfolding concat_map_Nil by auto
  also have "\<dots> \<longleftrightarrow> I \<noteq> {}" using assms by (auto simp: in_slots_def)
  finally show ?thesis .
qed

lemma filter_slot:
  assumes "wheel_ok w" "in_slots t I w" "i < 60"
  shows "filter (\<lambda>x. item_timer x = t) (wh_second w ! i) = (if i \<in> I then [Entry t] else [])"
proof -
  have "mine t (wh_second w) ! i = (if i \<in> I then [Entry t] else [])"
    using assms(2,3) by (simp add: in_slots_def view_def)
  then show ?thesis using assms(1,3) by (simp add: mine_def wheel_ok_def)
qed

text \<open>Inserting it again.\<close>

lemma in_slots_insert:
  assumes "insertEntry d t w = Inr (b, w1)" "wheel_ok w" "in_slots t I w" "0 < d" "d < 60"
  shows "b \<and> wheel_ok w1 \<and> in_slots t (insert (d - 1) I) w1"
proof -
  obtain s where s: "put_slot (before d) (Entry t) (wh_second w) = Inr s" "w1 = w\<lparr>wh_second := s\<rparr>" "b"
    using assms(1,5) by (auto simp: insert_defs kTimingMinute_def res_simps)
  have d: "before d = d - 1" "d - 1 < 60" using assms(4,5) by (auto simp: before_def)
  have len: "length (wh_second w) = 60" using assms(2) by (simp add: wheel_ok_def)
  have mem: "Entry t \<in> set (wh_second w ! (d - 1)) \<longleftrightarrow> d - 1 \<in> I"
    using filter_slot [OF assms(2,3) d(2)] by (auto simp: filter_eq_Cons_iff filter_empty_conv split: if_splits)
  have "mine t s ! i = (if i \<in> insert (d - 1) I then [Entry t] else [])" if i: "i < 60" for i
  proof -
    have f: "filter (\<lambda>x. item_timer x = t) (wh_second w ! i) = (if i \<in> I then [Entry t] else [])"
      by (rule filter_slot [OF assms(2,3) i])
    show ?thesis using s(1) d len i f mem
      by (cases "i = d - 1") (auto simp: put_slot_def mine_def split: if_splits)
  qed
  moreover have "length (mine t s) = 60"
    using s(1) len by (auto simp: put_slot_def mine_def split: if_splits)
  ultimately have "mine t s = map (\<lambda>i. if i \<in> insert (d - 1) I then [Entry t] else []) [0..<60]"
    by (intro nth_equalityI) auto
  moreover have "length s = 60" using s(1) len by (auto simp: put_slot_def split: if_splits)
  ultimately show ?thesis
    using s(2,3) assms(2,3) d(2) by (simp add: in_slots_def view_def wheel_ok_def)
qed

text \<open>Dropping it from a slot: it runs when it is in no other.\<close>

lemma drop_plain:
  "drop_items is w = Inr (ts, w1) \<Longrightarrow> filter (\<lambda>x. item_timer x = t) is = [Entry t] \<Longrightarrow> plain t \<Longrightarrow>
   (t \<in> set ts \<longleftrightarrow> \<not> held t (wheel_items w)) \<and> view t w1 = view t w"
proof (induction "is" arbitrary: w ts)
  case (Cons x xs)
  show ?case
  proof (cases "item_timer x = t")
    case True
    then have x: "x = Entry t" "filter (\<lambda>x. item_timer x = t) xs = []" using Cons.prems(2) by simp_all
    then have n: "\<not> held t xs" by (simp add: held_filter)
    show ?thesis
    proof (cases "held t (wheel_items w)")
      case True
      then show ?thesis using Cons.prems(1) x n drop_others [of xs w ts w1 t] by simp
    next
      case False
      then obtain us where "drop_items xs w = Inr (us, w1)" "ts = t # us"
        using Cons.prems(1,3) x n by (auto simp: plain_def res_simps split: timer.splits)
      then show ?thesis using False drop_others [OF _ n] by simp
    qed
  next
    case False
    obtain us w2 where w2: "drop_items xs w2 = Inr (us, w1)" "view t w2 = view t w"
        "t \<in> set ts \<longleftrightarrow> t \<in> set us"
      by (rule drop_step [OF Cons.prems(1) False])
    have "held t (wheel_items w2) \<longleftrightarrow> held t (wheel_items w)"
      using w2(2) by (simp add: held_filter wheel_items_def concat_mine view_def)
    then show ?thesis using Cons.IH [OF w2(1)] Cons.prems(2,3) False w2(2,3) by simp
  qed
qed simp

definition shifted :: "nat set \<Rightarrow> nat set" where
  "shifted I = {i. Suc i \<in> I}"

lemma turn_slots:
  assumes "I \<subseteq> {..<60}"
  shows "turn (map (\<lambda>i. if i \<in> I then [x] else []) [0..<60]) = map (\<lambda>i. if i \<in> shifted I then [x] else []) [0..<60]"
proof (rule nth_equalityI)
  fix i assume "i < length (turn (map (\<lambda>i. if i \<in> I then [x] else []) [0..<60]))"
  then have i: "i < 60" by (simp add: turn_def)
  have "Suc i \<in> I \<Longrightarrow> Suc i < 60" using assms by auto
  then show "turn (map (\<lambda>i. if i \<in> I then [x] else []) [0..<60]) ! i =
      map (\<lambda>i. if i \<in> shifted I then [x] else []) [0..<60] ! i"
    using i by (auto simp: turn_def shifted_def nth_append nth_tl less_Suc_eq)
qed (simp add: turn_def)

lemma slots_tick:
  assumes "tick w = Inr (ts, w1)" "wheel_ok w" "in_slots t I w" "plain t"
  shows "(t \<in> set ts \<longleftrightarrow> I = {0}) \<and> wheel_ok w1 \<and> in_slots t (shifted I) w1"
proof -
  let ?w = "w\<lparr>wh_tick := wh_tick w + 1, wh_second := turn (wh_second w)\<rparr>"
  obtain us w2 vs where s: "drop_items (hd (wh_second w)) ?w = Inr (us, w2)"
    "if (wh_tick w + 1) mod 60 = 0
     then drop_items (hd (wh_minute w2)) (w2\<lparr>wh_minute := turn (wh_minute w2)\<rparr>) = Inr (vs, w1)
     else vs = [] \<and> w1 = w2" "ts = us @ vs" "wheel_ok w2" "wheel_ok w1"
    by (rule tick_split [OF assms(1,2)])
  have ne: "wh_second w \<noteq> []" "wh_minute w2 \<noteq> []" using assms(2) s(4) by (auto simp: wheel_ok_def)
  have v: "view t ?w = (map (\<lambda>i. if i \<in> shifted I then [Entry t] else []) [0..<60],
      replicate 60 [], replicate 24 [], replicate 30 [])"
    using assms(3) by (simp add: in_slots_def view_def mine_turn [OF ne(1)] turn_slots)
  have sub: "shifted I \<subseteq> {..<60}" using assms(3) by (auto simp: in_slots_def shifted_def)
  then have sl: "in_slots t (shifted I) ?w" using v by (simp add: in_slots_def)
  have zero: "I = {0} \<longleftrightarrow> 0 \<in> I \<and> shifted I = {}"
    by (auto simp: shifted_def) (metis not0_implies_Suc)
  have hd: "filter (\<lambda>x. item_timer x = t) (hd (wh_second w)) = (if 0 \<in> I then [Entry t] else [])"
    using filter_slot [OF assms(2,3), of 0] ne(1) by (simp add: hd_conv_nth)
  have w2: "view t w2 = view t ?w" "t \<in> set us \<longleftrightarrow> I = {0}"
  proof -
    have "view t w2 = view t ?w \<and> (t \<in> set us \<longleftrightarrow> I = {0})"
    proof (cases "0 \<in> I")
      case True
      then show ?thesis using drop_plain [OF s(1) _ assms(4)] hd in_slots_held [OF sl] zero by simp
    next
      case False
      then show ?thesis using drop_others [OF s(1), of t] hd zero by (simp add: held_filter)
    qed
    then show "view t w2 = view t ?w" "t \<in> set us \<longleftrightarrow> I = {0}" by simp_all
  qed
  have "view t w1 = view t w2 \<and> t \<notin> set vs"
  proof (cases "(wh_tick w + 1) mod 60 = 0")
    case True
    have m: "mine t (wh_minute w2) = replicate 60 []" using w2(1) v by (simp add: view_def)
    have "\<not> held t (hd (wh_minute w2))"
      using mine_hd [OF ne(2), of t] m by (simp add: held_filter)
    then have "view t w1 = view t (w2\<lparr>wh_minute := turn (wh_minute w2)\<rparr>) \<and> t \<notin> set vs"
      using drop_others [of _ _ vs w1 t] s(2) True by simp
    then show ?thesis using m by (simp add: view_def mine_turn [OF ne(2)] turn_replicate)
  qed (use s(2) in auto)
  then show ?thesis using w2 s(3,5) v sub by (simp add: in_slots_def)
qed

section \<open>Activity and seconds\<close>

datatype idle_event = Activity | Second

text \<open>The timers that run while the connection \<open>c\<close> is active from time to time.\<close>

fun idle_run :: "nat \<Rightarrow> idle_event list \<Rightarrow> 'a net \<Rightarrow> (timer list \<times> 'a net) res" where
  "idle_run c [] s = Inr ([], s)"
| "idle_run c (Activity # es) s = bindr (extendLife c s) (idle_run c es)"
| "idle_run c (Second # es) s =
     bindr (tick (el_wheel s)) (\<lambda>(ts, w).
     bindr (idle_run c es (s\<lparr>el_wheel := w\<rparr>)) (\<lambda>(us, s1). Inr (ts @ us, s1)))"

lemma sublist_barrier:
  assumes "a \<notin> set ys" "ys \<noteq> []"
  shows "sublist ys (xs @ a # zs) \<longleftrightarrow> sublist ys xs \<or> sublist ys zs"
proof -
  have p: "\<not> prefix us (a # zs)" if "us \<noteq> []" "set us \<subseteq> set ys" for us
    using that assms(1) by (cases us) auto
  have "sublist ys (a # zs) \<longleftrightarrow> sublist ys zs"
    using p [of ys] assms(2) by (simp add: sublist_Cons_right)
  moreover have "sublist ys xs" if "ys = us @ vs" "suffix us xs" "prefix vs (a # zs)" for us vs
    using that p [of vs] by (cases "vs = []") (auto intro: suffix_imp_sublist)
  ultimately show ?thesis by (auto simp: sublist_append)
qed

lemma too_short: "q < d \<Longrightarrow> \<not> sublist (replicate d x) (replicate q x)"
  using sublist_length_le by fastforce

lemma gone_run:
  assumes "not_in (Idle e) (el_wheel s)" "wheel_ok (el_wheel s)" "tc_entry (nt_conns s c) = Some e"
  shows "idle_run c es s = Inr (ts, s') \<Longrightarrow> Idle e \<notin> set ts"
  using assms
proof (induction c es s arbitrary: ts rule: idle_run.induct)
  case (2 c es s)
  have "extendLife c s = Inr s"
    using 2(3,5) not_in_held by (simp add: extendLife_def)
  then show ?case using 2 by simp
next
  case (3 c es s)
  obtain ts1 w us where r: "tick (el_wheel s) = Inr (ts1, w)"
      "idle_run c es (s\<lparr>el_wheel := w\<rparr>) = Inr (us, s')" "ts = ts1 @ us"
    using 3(2) by (auto simp: res_simps)
  have "in_slots (Idle e) {} (el_wheel s)" using 3(3) by (simp add: in_slots_empty)
  note t = slots_tick [OF r(1) 3(4) this]
  have "shifted {} = {}" by (simp add: shifted_def)
  then have "Idle e \<notin> set ts1 \<and> wheel_ok w \<and> not_in (Idle e) w"
    using t by (simp add: plain_def in_slots_empty)
  then show ?case using 3(1) [OF r(1) refl] r 3(5) by simp
qed simp

lemma shifted_Max:
  assumes "finite I" "I \<noteq> {}" "I \<noteq> {0}"
  shows "shifted I \<noteq> {} \<and> Max (shifted I) = Max I - 1 \<and> 0 < Max I"
proof -
  have m: "Max I \<in> I" "\<forall>i \<in> I. i \<le> Max I" using assms by simp_all
  have pos: "0 < Max I"
  proof (rule ccontr)
    assume "\<not> 0 < Max I"
    then have "I \<subseteq> {0}" using m(2) by auto
    then show False using assms by auto
  qed
  have fin: "finite (shifted I)"
    unfolding shifted_def using assms(1) by (rule finite_vimageI [of I Suc, unfolded vimage_def]) simp
  have mem: "Max I - 1 \<in> shifted I" using m(1) pos by (simp add: shifted_def)
  have "Max (shifted I) = Max I - 1"
    using mem fin m(2) by (intro Max_eqI) (auto simp: shifted_def)
  then show ?thesis using mem pos by auto
qed

lemma active_run:
  assumes "0 < d" "d < 60"
  shows "idle_run c es s = Inr (ts, s') \<Longrightarrow> wheel_ok (el_wheel s) \<Longrightarrow> tc_entry (nt_conns s c) = Some e \<Longrightarrow>
    tc_idle (nt_conns s c) = int d \<Longrightarrow> in_slots (Idle e) I (el_wheel s) \<Longrightarrow> I \<noteq> {} \<Longrightarrow>
    q < d \<Longrightarrow> Max I = d - 1 - q \<Longrightarrow>
    Idle e \<in> set ts \<longleftrightarrow> sublist (replicate d Second) (replicate q Second @ es)"
proof (induction c es s arbitrary: ts I q rule: idle_run.induct)
  case (1 c s)
  then show ?case using too_short by simp
next
  case (2 c es s)
  have fin: "finite I" using 2(6) finite_subset [of I "{..<60}"] by (simp add: in_slots_def)
  have "held (Idle e) (wheel_items (el_wheel s))" using 2(6,7) in_slots_held by blast
  moreover have "nat (u32_int (int d)) = d" using assms by simp
  ultimately obtain b w where w: "insertEntry d (Idle e) (el_wheel s) = Inr (b, w)"
      "idle_run c es (s\<lparr>el_wheel := w\<rparr>) = Inr (ts, s')" "extendLife c s = Inr (s\<lparr>el_wheel := w\<rparr>)"
    using 2(2,4,5) by (auto simp: extendLife_def loop_insertEntry_def res_simps)
  note i = in_slots_insert [OF w(1) 2(3,6) assms]
  have "Max (insert (d - 1) I) = d - 1 - 0" using fin 2(7,9) by simp
  then have "Idle e \<in> set ts \<longleftrightarrow> sublist (replicate d Second) (replicate 0 Second @ es)"
    using 2(1) [OF w(3) w(2), of "insert (d - 1) I" 0] 2(4,5) i assms(1) by simp
  moreover have "sublist (replicate d Second) (replicate q Second @ Activity # es) \<longleftrightarrow> sublist (replicate d Second) es"
    using sublist_barrier [of Activity "replicate d Second"] assms(1) too_short [OF 2(8), of Second] by simp
  ultimately show ?case by simp
next
  case (3 c es s)
  obtain ts1 w us where r: "tick (el_wheel s) = Inr (ts1, w)"
      "idle_run c es (s\<lparr>el_wheel := w\<rparr>) = Inr (us, s')" "ts = ts1 @ us"
    using 3(2) by (auto simp: res_simps)
  have fin: "finite I" using 3(6) finite_subset [of I "{..<60}"] by (simp add: in_slots_def)
  have t: "(Idle e \<in> set ts1 \<longleftrightarrow> I = {0}) \<and> wheel_ok w \<and> in_slots (Idle e) (shifted I) w"
    by (rule slots_tick [OF r(1) 3(3,6)]) (simp add: plain_def)
  have shape: "replicate q Second @ Second # es = replicate (Suc q) Second @ es"
    by (simp add: replicate_app_Cons_same)
  show ?case
  proof (cases "I = {0}")
    case True
    then have "Suc q = d" using 3(8,9) by simp
    then have "sublist (replicate d Second) (replicate q Second @ Second # es)"
      unfolding shape by (auto intro: prefix_imp_sublist)
    then show ?thesis using True t r(3) by simp
  next
    case False
    note m = shifted_Max [OF fin 3(7) False]
    have "Suc q < d" "Max (shifted I) = d - 1 - Suc q" using m 3(8,9) by auto
    then have "Idle e \<in> set us \<longleftrightarrow> sublist (replicate d Second) (replicate (Suc q) Second @ es)"
      using 3(1) [OF r(1) refl r(2), of "shifted I" "Suc q"] 3(4,5) t m by simp
    then show ?thesis unfolding shape using t r(3) False by simp
  qed
qed

text \<open>A wheel that holds only entries of connections never faults.\<close>

definition idle_only :: "item list list \<Rightarrow> bool" where
  "idle_only slots \<longleftrightarrow> (\<forall>is \<in> set slots. \<forall>x \<in> set is. \<exists>e. x = Entry (Idle e))"

definition idle_wheel :: "wheel \<Rightarrow> bool" where
  "idle_wheel w \<longleftrightarrow> wheel_ok w \<and> idle_only (wh_second w) \<and> idle_only (wh_minute w) \<and> idle_only (wh_hour w)
     \<and> idle_only (wh_day w)"

lemma drop_idle: "\<forall>x \<in> set is. \<exists>e. x = Entry (Idle e) \<Longrightarrow> \<exists>ts. drop_items is w = Inr (ts, w)"
proof (induction "is")
  case (Cons x xs)
  then obtain e ts where "x = Entry (Idle e)" "drop_items xs w = Inr (ts, w)" by auto
  then show ?case by simp
qed simp

lemma idle_only_turn: "idle_only slots \<Longrightarrow> slots \<noteq> [] \<Longrightarrow> idle_only (turn slots) \<and> (\<forall>x \<in> set (hd slots). \<exists>e. x = Entry (Idle e))"
  by (cases slots) (auto simp: idle_only_def turn_def)

lemma pop_idle:
  assumes "idle_wheel w"
  shows "\<exists>ts w1. pop_second w = Inr (ts, w1) \<and> idle_wheel w1"
    and "\<exists>ts w1. pop_minute w = Inr (ts, w1) \<and> idle_wheel w1"
    and "\<exists>ts w1. pop_hour w = Inr (ts, w1) \<and> idle_wheel w1"
    and "\<exists>ts w1. pop_day w = Inr (ts, w1) \<and> idle_wheel w1"
proof -
  have len: "slots \<noteq> [] \<Longrightarrow> length (turn slots) = length slots" for slots
    by (cases slots) (simp_all add: turn_def)
  have ne: "wh_second w \<noteq> []" "wh_minute w \<noteq> []" "wh_hour w \<noteq> []" "wh_day w \<noteq> []"
    using assms by (auto simp: idle_wheel_def wheel_ok_def)
  have i: "idle_only (wh_second w)" "idle_only (wh_minute w)" "idle_only (wh_hour w)" "idle_only (wh_day w)"
      "wheel_ok w"
    using assms by (simp_all add: idle_wheel_def)
  note t = idle_only_turn [OF i(1) ne(1)] idle_only_turn [OF i(2) ne(2)] idle_only_turn [OF i(3) ne(3)]
    idle_only_turn [OF i(4) ne(4)]
  have "idle_wheel (w\<lparr>wh_second := turn (wh_second w)\<rparr>)" "idle_wheel (w\<lparr>wh_minute := turn (wh_minute w)\<rparr>)"
      "idle_wheel (w\<lparr>wh_hour := turn (wh_hour w)\<rparr>)" "idle_wheel (w\<lparr>wh_day := turn (wh_day w)\<rparr>)"
    using t i len ne by (simp_all add: idle_wheel_def wheel_ok_def)
  then show "\<exists>ts w1. pop_second w = Inr (ts, w1) \<and> idle_wheel w1"
      "\<exists>ts w1. pop_minute w = Inr (ts, w1) \<and> idle_wheel w1"
      "\<exists>ts w1. pop_hour w = Inr (ts, w1) \<and> idle_wheel w1"
      "\<exists>ts w1. pop_day w = Inr (ts, w1) \<and> idle_wheel w1"
    using drop_idle t unfolding pop_second_def pop_minute_def pop_hour_def pop_day_def by metis+
qed

lemma tick_total:
  assumes "idle_wheel w"
  shows "\<exists>ts w1. tick w = Inr (ts, w1) \<and> idle_wheel w1"
proof -
  have "idle_wheel (w\<lparr>wh_tick := wh_tick w + 1\<rparr>)" using assms by (simp add: idle_wheel_def wheel_ok_def)
  then obtain us w1 where s: "pop_second (w\<lparr>wh_tick := wh_tick w + 1\<rparr>) = Inr (us, w1)" "idle_wheel w1"
    using pop_idle(1) by blast
  obtain vs w2 where "(if wh_tick w1 mod kTimingMinute = 0 then pop_minute w1
             else if wh_tick w1 mod kTimingHour = 0 then pop_hour w1
             else if wh_tick w1 mod kTimingDay = 0 then pop_day w1
             else Inr ([], w1)) = Inr (vs, w2)" "idle_wheel w2"
    using pop_idle(2-4) [OF s(2)] s(2) by metis
  then show ?thesis using s by (simp add: tick_def Let_def)
qed

lemma insert_idle_total:
  assumes "idle_wheel w" "0 < d" "d < 60"
  shows "\<exists>w1. insertEntry d (Idle e) w = Inr (True, w1) \<and> idle_wheel w1"
proof -
  have i: "before d < length (wh_second w)" using assms by (simp add: before_def idle_wheel_def wheel_ok_def)
  then obtain s where s: "put_slot (before d) (Entry (Idle e)) (wh_second w) = Inr s" using put_slot_total by blast
  have u: "idle_only (wh_second w)" using assms(1) by (simp add: idle_wheel_def)
  have "idle_only s"
    unfolding idle_only_def
  proof (intro ballI)
    fix xs x assume m: "xs \<in> set s" "x \<in> set xs"
    have "xs \<in> set (wh_second w) \<or> xs = wh_second w ! before d @ [Entry (Idle e)]"
      using s i m(1) nth_mem [OF i]
      by (auto simp: put_slot_def dest: set_update_subset_insert [THEN subsetD] split: if_splits)
    then show "\<exists>e. x = Entry (Idle e)"
      using u m(2) nth_mem [OF i] unfolding idle_only_def by auto
  qed
  moreover have "length s = length (wh_second w)" using s by (auto simp: put_slot_def split: if_splits)
  ultimately show ?thesis
    using assms s by (simp add: insert_defs kTimingMinute_def idle_wheel_def wheel_ok_def)
qed

lemma idle_run_total:
  assumes "0 < d" "d < 60"
  shows "idle_wheel (el_wheel s) \<Longrightarrow> tc_idle (nt_conns s c) = int d \<Longrightarrow> \<exists>ts s2. idle_run c es s = Inr (ts, s2)"
proof (induction c es s rule: idle_run.induct)
  case (2 c es s)
  have "\<exists>w. extendLife c s = Inr (s\<lparr>el_wheel := w\<rparr>) \<and> idle_wheel w"
  proof (cases "\<exists>e. tc_entry (nt_conns s c) = Some e \<and> held (Idle e) (wheel_items (el_wheel s))")
    case True
    then obtain e where e: "tc_entry (nt_conns s c) = Some e" "held (Idle e) (wheel_items (el_wheel s))" by blast
    obtain w where "insertEntry d (Idle e) (el_wheel s) = Inr (True, w)" "idle_wheel w"
      using insert_idle_total [OF 2(2) assms] by blast
    then show ?thesis using e 2(3) assms by (auto simp: extendLife_def loop_insertEntry_def)
  next
    case False
    then have "extendLife c s = Inr (s\<lparr>el_wheel := el_wheel s\<rparr>)"
      by (auto simp: extendLife_def split: option.splits)
    then show ?thesis using 2(2) by blast
  qed
  then show ?case using 2(1,3) by auto
next
  case (3 c es s)
  obtain ts w where "tick (el_wheel s) = Inr (ts, w)" "idle_wheel w" using tick_total [OF 3(2)] by auto
  then show ?case using 3(1,3) by fastforce
qed simp

text \<open>
  C20: a connection whose idle time is less than a minute is timed out exactly when that many seconds
  went by in a row without activity, whatever activity there was before: every read and write
  starts the time again, and the entry runs at no other moment. Nothing faults as long as the
  wheels hold only entries of connections.
\<close>

theorem idle_time_from_last_activity:
  assumes "0 < d" "d < 60" "wheel_ok (el_wheel s)"
    and "not_in (Idle (length (nt_entries s))) (el_wheel s)"
  shows "\<exists>s1. enableCheckIdleTimeout close (int d) c s = Inr s1 \<and> (\<forall>es.
      (idle_wheel (el_wheel s) \<longrightarrow> (\<exists>ts s2. idle_run c es s1 = Inr (ts, s2))) \<and>
      (\<forall>ts s2. idle_run c es s1 = Inr (ts, s2) \<longrightarrow>
        (Idle (length (nt_entries s)) \<in> set ts \<longleftrightarrow> sublist (replicate d Second) es)))"
proof -
  let ?e = "length (nt_entries s)"
  obtain w where w: "insertEntry d (Idle ?e) (el_wheel s) = Inr (True, w)"
    using insert_short [OF assms(3,4,1,2)] by auto
  have "in_slots (Idle ?e) {} (el_wheel s)" using assms(4) by (simp add: in_slots_empty)
  note i = in_slots_insert [OF w assms(3) this assms(1,2)]
  let ?s1 = "on_tcp c (\<lambda>t. t\<lparr>tc_idle := int d, tc_entry := Some ?e\<rparr>)
      (s\<lparr>nt_entries := nt_entries s @ [c]\<rparr>)\<lparr>el_wheel := w\<rparr>"
  have s1: "enableCheckIdleTimeout close (int d) c s = Inr ?s1"
    using assms(1,2) w i by (simp add: enableCheckIdleTimeout_def loop_insertEntry_def Let_def)
  have "\<exists>ts s2. idle_run c es ?s1 = Inr (ts, s2)" if "idle_wheel (el_wheel s)" for es
  proof -
    have "idle_wheel w" using insert_idle_total [OF that assms(1,2), of ?e] w by simp
    then show ?thesis using idle_run_total [OF assms(1,2), of ?s1 c es] by simp
  qed
  moreover have "Idle ?e \<in> set ts \<longleftrightarrow> sublist (replicate d Second) es" if "idle_run c es ?s1 = Inr (ts, s2)" for es ts s2
    using active_run [OF assms(1,2) that, of ?e "{d - 1}" 0] i assms(1) by simp
  ultimately show ?thesis using s1 by blast
qed

definition demo_net :: "unit net" where
  "demo_net = \<lparr>el_running = True, el_events = (\<lambda>_. None), el_epoll = (\<lambda>_. None), el_size = 1, el_tasks = [],
     el_wheel = newWheel, el_pipe = None, nt_conns = (\<lambda>_. newTcpConnection 5 [] []), nt_entries = [],
     nt_dangling = [], nt_app = ()\<rparr>"

theorem idle_time_from_last_activity_witness:
  "\<exists>s1 ts s2. enableCheckIdleTimeout (\<lambda>_. Inr) (int 2) 0 demo_net = Inr s1 \<and>
    idle_run 0 [Second, Activity, Second, Second] s1 = Inr (ts, s2) \<and> Idle 0 \<in> set ts"
proof -
  have n: "not_in (Idle 0) (el_wheel demo_net)" "idle_wheel (el_wheel demo_net)" "wheel_ok (el_wheel demo_net)"
      "length (nt_entries demo_net) = 0"
    by (simp_all add: demo_net_def not_in_intro new_wheel_ok newWheel_def wheel_items_def held_def wheel_ok_def
        idle_wheel_def idle_only_def)
  let ?es = "[Second, Activity] @ replicate 2 Second @ []"
  obtain s1 where s1: "enableCheckIdleTimeout (\<lambda>_. Inr) (int 2) 0 demo_net = Inr s1"
      "\<forall>es. (\<exists>ts s2. idle_run 0 es s1 = Inr (ts, s2)) \<and> (\<forall>ts s2. idle_run 0 es s1 = Inr (ts, s2) \<longrightarrow>
        (Idle 0 \<in> set ts \<longleftrightarrow> sublist (replicate 2 Second) es))"
    using idle_time_from_last_activity [of 2 demo_net "\<lambda>_. Inr" 0, unfolded n(4)] n(1-3) by auto
  obtain ts s2 where "idle_run 0 ?es s1 = Inr (ts, s2)" using s1(2) by blast
  moreover have "sublist (replicate 2 Second) ?es" by (rule sublist_appendI)
  ultimately have "Idle 0 \<in> set ts" using s1(2) by blast
  moreover have "?es = [Second, Activity, Second, Second]" by (simp add: numeral_2_eq_2)
  ultimately show ?thesis using s1(1) \<open>idle_run 0 ?es s1 = Inr (ts, s2)\<close> by metis
qed

end
