(* ===== verification/TcpServer.thy ===== *)
theory TcpServer
  imports TcpConn
begin

text \<open>
  \<open>LSSAcceptor\<close> (\<open>src/network/net/lssvc_acceptor.cpp\<close>) and \<open>TcpServer\<close> (\<open>src/network/tcp_server.cpp\<close>)
  on top of the connections: accepting, the set of connections, and what happens when one closes.
  What a derived server does in its callbacks is a parameter.

  The kernel's answers to \<open>accept\<close> and \<open>socket\<close> are lists in the state. Descriptors the kernel gives
  out are not in use; an answer of the list that says otherwise is not one it gives, and the call
  would block instead.
\<close>

section \<open>State\<close>

datatype accepted = Accepted int "rx list" "tx list" | AcceptFail

text \<open>\<open>ac_open\<close> tells whether \<open>socket_opt_\<close> is there; \<open>ac_sockets\<close> are the answers of \<open>socket\<close>.\<close>

record acceptor = event +
  ac_open :: bool
  ac_accepts :: "accepted list"
  ac_sockets :: "int list"

record 'b server =
  sv_acceptor :: acceptor
  sv_conns :: "nat set"
  sv_next :: nat
  sv_app :: 'b

type_synonym 'b sstep = "'b server step"

record 'b server_callbacks =
  sc_message :: "(nat \<Rightarrow> 'b sstep) option"
  sc_active :: "(nat \<Rightarrow> 'b sstep) option"
  sc_complete :: "(nat \<Rightarrow> 'b sstep) option"
  sc_new :: "(nat \<Rightarrow> 'b sstep) option"
  sc_destroy :: "(nat \<Rightarrow> 'b sstep) option"

definition newTcpServer :: "'b \<Rightarrow> 'b server" where
  "newTcpServer a = \<lparr>sv_acceptor = \<lparr>ev_fd = -1, ev_mask = 0, ac_open = False, ac_accepts = [], ac_sockets = []\<rparr>,
     sv_conns = {}, sv_next = 0, sv_app = a\<rparr>"

definition newNet :: "'b \<Rightarrow> 'b server net" where
  "newNet a = event_loop.extend newEventLoop \<lparr>nt_conns = (\<lambda>_. newTcpConnection (-1) [] []), nt_entries = [],
     nt_dangling = [], nt_app = newTcpServer a\<rparr>"

definition on_server :: "('b server \<Rightarrow> 'b server) \<Rightarrow> 'b server net \<Rightarrow> 'b server net" where
  "on_server f s = s\<lparr>nt_app := f (nt_app s)\<rparr>"

definition on_acceptor :: "(acceptor \<Rightarrow> acceptor) \<Rightarrow> 'b server net \<Rightarrow> 'b server net" where
  "on_acceptor f = on_server (\<lambda>v. v\<lparr>sv_acceptor := f (sv_acceptor v)\<rparr>)"

text \<open>The descriptors in use; the first three are the standard streams.\<close>

definition fd_free :: "int \<Rightarrow> 'b server net \<Rightarrow> bool" where
  "fd_free fd s \<longleftrightarrow> 2 < fd \<and> fd \<noteq> ev_fd (sv_acceptor (nt_app s)) \<and> fd \<notin> set (pipe_fds (el_pipe s)) \<and>
     list_all (\<lambda>c. ev_fd (nt_conns s c) \<noteq> fd) [0..<sv_next (nt_app s)]"

section \<open>Closing a connection\<close>

definition onConnectionClose :: "'b server_callbacks \<Rightarrow> nat \<Rightarrow> 'b sstep" where
  "onConnectionClose C c s =
     (let s1 = on_server (\<lambda>v. v\<lparr>sv_conns := sv_conns v - {c}\<rparr>) s;
          s2 = delEvent (nt_conns s1 c) s1
      in call_cb (sc_destroy C) c s2)"

text \<open>The callbacks \<open>onAccept\<close> sets in every connection.\<close>

definition conn_callbacks :: "'b server_callbacks \<Rightarrow> nat \<Rightarrow> 'b server callbacks" where
  "conn_callbacks C c = \<lparr>cb_message = sc_message C, cb_close = Some (onConnectionClose C),
     cb_complete = sc_complete C, cb_active = sc_active C\<rparr>"

text \<open>The \<open>onClose\<close> of the connections, which must exist.\<close>

definition server_close :: "'b server_callbacks \<Rightarrow> nat \<Rightarrow> 'b sstep" where
  "server_close C c s =
     (if c < sv_next (nt_app s) then onClose (conn_callbacks C) c s else Inl NullDeref)"

section \<open>Accepting\<close>

definition onAccept :: "'b server_callbacks \<Rightarrow> int \<Rightarrow> rx list \<Rightarrow> tx list \<Rightarrow> 'b sstep" where
  "onAccept C fd rs ts s =
     (let c = sv_next (nt_app s);
          s1 = on_tcp c (\<lambda>_. newTcpConnection fd rs ts)
                 (on_server (\<lambda>v. v\<lparr>sv_next := Suc c, sv_conns := insert c (sv_conns v)\<rparr>) s);
          s2 = set_tcp c (addEvent (Tcp c) (nt_conns s1 c) s1)
      in bindr (enableCheckIdleTimeout (server_close C) 30 c s2) (call_cb (sc_new C) c))"

definition stop :: "'b server net \<Rightarrow> 'b server net" where
  "stop s = delEvent (sv_acceptor (nt_app s)) s"

text \<open>
  \<open>open\<close>: without a socket the process ends. Binding and listening are not looked at by the code.
\<close>

definition drop_socket :: "'b server net \<Rightarrow> 'b server net" where
  "drop_socket s =
     (let fd = ev_fd (sv_acceptor (nt_app s)) in
      if 0 < fd then on_acceptor (\<lambda>a. a\<lparr>ev_fd := -1\<rparr>) (s\<lparr>el_epoll := (el_epoll s)(fd := None)\<rparr>) else s)"

definition new_socket :: "'b sstep" where
  "new_socket s =
     (case ac_sockets (sv_acceptor (nt_app s)) of
        fd # fds \<Rightarrow>
          if fd_free fd s then
            let s2 = on_acceptor (\<lambda>a. a\<lparr>ev_fd := fd, ac_sockets := fds\<rparr>) s;
                (a3, s3) = addEvent AcceptObj (sv_acceptor (nt_app s2)) s2
            in Inr (on_acceptor (\<lambda>_. a3\<lparr>ac_open := True\<rparr>) s3)
          else Inl Uncaught
      | [] \<Rightarrow> Inl Uncaught)"

definition open_acceptor :: "'b sstep" where
  "open_acceptor s = new_socket (drop_socket s)"

definition acceptor_onClose :: "'b sstep" where
  "acceptor_onClose s = open_acceptor (stop s)"

fun accept_loop :: "'b server_callbacks \<Rightarrow> accepted list \<Rightarrow> 'b sstep" where
  "accept_loop C [] s = Inr s"
| "accept_loop C (AcceptFail # as) s = acceptor_onClose s"
| "accept_loop C (Accepted fd rs ts # as) s =
     (if fd_free fd s then bindr (onAccept C fd rs ts s) (accept_loop C as) else Inr s)"

definition acceptor_onRead :: "'b server_callbacks \<Rightarrow> 'b sstep" where
  "acceptor_onRead C s =
     (if ac_open (sv_acceptor (nt_app s))
      then accept_loop C (ac_accepts (sv_acceptor (nt_app s))) (on_acceptor (\<lambda>a. a\<lparr>ac_accepts := []\<rparr>) s)
      else Inr s)"

fun acceptor_handle :: "'b server_callbacks \<Rightarrow> handler \<Rightarrow> 'b sstep" where
  "acceptor_handle C HError s = acceptor_onClose s"
| "acceptor_handle C HClose s = acceptor_onClose s"
| "acceptor_handle C HRead s = acceptor_onRead C s"
| "acceptor_handle C HWrite s = Inr s"

text \<open>\<open>TcpServer::start\<close> hands \<open>open\<close> to the loop.\<close>

definition server_start :: "(task \<Rightarrow> 'b sstep) \<Rightarrow> 'b sstep" where
  "server_start q s = q TaskOpen s"

fun server_task :: "task \<Rightarrow> 'b sstep" where
  "server_task TaskOpen s = open_acceptor s"
| "server_task t s = Inr s"

section \<open>A run of the server\<close>

definition server_run_task :: "'b server_callbacks \<Rightarrow> (nat \<Rightarrow> 'b sstep) \<Rightarrow> task \<Rightarrow> 'b sstep" where
  "server_run_task C after = run_task (server_close C) (conn_callbacks C) after (\<lambda>_. Inr)"

text \<open>
  What happens to a server: it is started, once; data arrives or there is room for more; peers connect;
  sockets become available; another thread hands over a task of a connection; the loop turns.
\<close>

datatype net_event =
    Start
  | Deliver nat "rx list" "tx list"
  | Peers "accepted list"
  | Sockets "int list"
  | HandOver task "int \<times> int"
  | Turn wait

fun net_step :: "'b server_callbacks \<Rightarrow> (nat \<Rightarrow> 'b sstep) \<Rightarrow> net_event \<Rightarrow> 'b sstep" where
  "net_step C after Start s =
     (if ev_fd (sv_acceptor (nt_app s)) < 0 then server_start server_task s else Inr s)"
| "net_step C after (Deliver c rs ts) s = Inr (on_tcp c (\<lambda>t. t\<lparr>so_rx := so_rx t @ rs, so_tx := so_tx t @ ts\<rparr>) s)"
| "net_step C after (Peers as) s = Inr (on_acceptor (\<lambda>a. a\<lparr>ac_accepts := ac_accepts a @ as\<rparr>) s)"
| "net_step C after (Sockets fds) s = Inr (on_acceptor (\<lambda>a. a\<lparr>ac_sockets := ac_sockets a @ fds\<rparr>) s)"
| "net_step C after (HandOver t fds) s =
     (if el_pipe s = None \<and> \<not> (fd_free (fst fds) s \<and> fd_free (snd fds) s \<and> fst fds \<noteq> snd fds) then Inr s
      else enqueueTask False (server_run_task C after) PipeObj fds t s)"
| "net_step C after (Turn w) s =
     loop_turn (net_handle (acceptor_handle C) (server_close C) (conn_callbacks C))
       (server_run_task C after) (fire_timer (server_close C) after) w s"

fun net_run :: "'b server_callbacks \<Rightarrow> (nat \<Rightarrow> 'b sstep) \<Rightarrow> net_event list \<Rightarrow> 'b sstep" where
  "net_run C after [] s = Inr s"
| "net_run C after (e # es) s = bindr (net_step C after e s) (net_run C after es)"

section \<open>The invariant\<close>

lemma on_server_sel [simp]:
  "nt_conns (on_server f s) = nt_conns s" "el_events (on_server f s) = el_events s"
  "el_epoll (on_server f s) = el_epoll s" "el_wheel (on_server f s) = el_wheel s"
  "el_pipe (on_server f s) = el_pipe s" "nt_entries (on_server f s) = nt_entries s"
  "nt_app (on_server f s) = f (nt_app s)" "el_tasks (on_server f s) = el_tasks s"
  by (simp_all add: on_server_def)

text \<open>
  The tables of the server agree: a connection is in \<open>connections_\<close> exactly when the loop has it
  registered, and exactly when it is open; the descriptor of a closed one is closed too, so none
  leaks. \<open>D\<close> are the connections whose \<open>onClose\<close> is in its callback.
\<close>

definition tables_ok :: "nat set \<Rightarrow> 'b server net \<Rightarrow> bool" where
  "tables_ok D s \<longleftrightarrow> net_ok s \<and> dom (el_epoll s) = dom (el_events s) \<and>
     (\<forall>fd ob. el_events s fd = Some ob \<longrightarrow> 2 < fd) \<and>
     (\<forall>fd. el_events s fd = Some AcceptObj \<longrightarrow> fd = ev_fd (sv_acceptor (nt_app s))) \<and>
     (\<forall>fd. el_events s fd = Some PipeObj \<longrightarrow> map_option ev_fd (el_pipe s) = Some fd) \<and>
     (\<forall>c. 1 < ev_fd (nt_conns s c) \<longrightarrow> ev_fd (nt_conns s c) \<noteq> ev_fd (sv_acceptor (nt_app s))) \<and>
     (\<forall>c. c \<in> sv_conns (nt_app s) \<longleftrightarrow> el_events s (ev_fd (nt_conns s c)) = Some (Tcp c)) \<and>
     (\<forall>c. c \<in> sv_conns (nt_app s) \<longleftrightarrow> c < sv_next (nt_app s) \<and> \<not> tc_closed (nt_conns s c)) \<and>
     (\<forall>c \<in> D. c < sv_next (nt_app s) \<and> tc_closed (nt_conns s c)) \<and>
     (\<forall>c. tc_closed (nt_conns s c) \<and> c \<notin> D \<or> sv_next (nt_app s) \<le> c \<longrightarrow> ev_fd (nt_conns s c) \<le> 1)"

lemma tables_okD:
  assumes "tables_ok D s"
  shows "net_ok s" "dom (el_epoll s) = dom (el_events s)" "el_events s fd = Some ob \<Longrightarrow> 2 < fd"
    "el_events s fd = Some AcceptObj \<Longrightarrow> fd = ev_fd (sv_acceptor (nt_app s))"
    "el_events s fd = Some PipeObj \<Longrightarrow> map_option ev_fd (el_pipe s) = Some fd"
    "1 < ev_fd (nt_conns s c) \<Longrightarrow> ev_fd (nt_conns s c) \<noteq> ev_fd (sv_acceptor (nt_app s))"
    "c \<in> sv_conns (nt_app s) \<longleftrightarrow> el_events s (ev_fd (nt_conns s c)) = Some (Tcp c)"
    "c \<in> sv_conns (nt_app s) \<longleftrightarrow> c < sv_next (nt_app s) \<and> \<not> tc_closed (nt_conns s c)"
    "c \<in> D \<Longrightarrow> c < sv_next (nt_app s) \<and> tc_closed (nt_conns s c)"
    "tc_closed (nt_conns s c) \<and> c \<notin> D \<or> sv_next (nt_app s) \<le> c \<Longrightarrow> ev_fd (nt_conns s c) \<le> 1"
  using assms unfolding tables_ok_def by blast+

lemma tables_okI:
  assumes "net_ok s" "dom (el_epoll s) = dom (el_events s)" "\<And>fd ob. el_events s fd = Some ob \<Longrightarrow> 2 < fd"
    "\<And>fd. el_events s fd = Some AcceptObj \<Longrightarrow> fd = ev_fd (sv_acceptor (nt_app s))"
    "\<And>fd. el_events s fd = Some PipeObj \<Longrightarrow> map_option ev_fd (el_pipe s) = Some fd"
    "\<And>c. 1 < ev_fd (nt_conns s c) \<Longrightarrow> ev_fd (nt_conns s c) \<noteq> ev_fd (sv_acceptor (nt_app s))"
    "\<And>c. c \<in> sv_conns (nt_app s) \<longleftrightarrow> el_events s (ev_fd (nt_conns s c)) = Some (Tcp c)"
    "\<And>c. c \<in> sv_conns (nt_app s) \<longleftrightarrow> c < sv_next (nt_app s) \<and> \<not> tc_closed (nt_conns s c)"
    "\<And>c. c \<in> D \<Longrightarrow> c < sv_next (nt_app s) \<and> tc_closed (nt_conns s c)"
    "\<And>c. tc_closed (nt_conns s c) \<and> c \<notin> D \<or> sv_next (nt_app s) \<le> c \<Longrightarrow> ev_fd (nt_conns s c) \<le> 1"
  shows "tables_ok D s"
  using assms unfolding tables_ok_def by blast

lemma new_net_inv: "tables_ok {} (newNet a)"
  by (rule tables_okI)
    (auto simp: newNet_def newEventLoop_def event_loop.defs newTcpServer_def newTcpConnection_def
      net_ok_def conn_ok_def registered_def kBufferDefaultLength_def)

lemma same_shape_inv: "tables_ok D s \<Longrightarrow> net_ok s' \<Longrightarrow> same_shape s s' \<Longrightarrow> tables_ok D s'"
proof -
  assume a: "tables_ok D s" "net_ok s'" "same_shape s s'"
  note i = tables_okD [OF a(1)]
  have e: "el_events s' = el_events s" "nt_app s' = nt_app s" "map_option ev_fd (el_pipe s') = map_option ev_fd (el_pipe s)"
      "dom (el_epoll s') = dom (el_epoll s)" "\<And>c. ev_fd (nt_conns s' c) = ev_fd (nt_conns s c)"
      "\<And>c. tc_closed (nt_conns s' c) = tc_closed (nt_conns s c)"
    using a(3) by (simp_all add: same_shape_def)
  show ?thesis
    by (rule tables_okI; (unfold e)?; (rule a(2) | fact i(2) | erule i | rule i | blast dest: i(9)))
qed

text \<open>The invariant looks at the application's part of the server only through the tables.\<close>

lemma tables_ok_app:
  assumes "tables_ok D s" "ev_fd (sv_acceptor (f (nt_app s))) = ev_fd (sv_acceptor (nt_app s))"
    "sv_conns (f (nt_app s)) = sv_conns (nt_app s)" "sv_next (f (nt_app s)) = sv_next (nt_app s)"
  shows "tables_ok D (on_server f s)"
proof -
  have "net_ok (on_server f s)" using tables_okD(1) [OF assms(1)] by (rule net_ok_cong) simp_all
  then show ?thesis using assms(2-) tables_okD [OF assms(1)] by (intro tables_okI) auto
qed

section \<open>Closing keeps it\<close>

lemma deregister:
  assumes "tables_ok D s" "\<not> tc_closed (nt_conns s c)" "c < sv_next (nt_app s)"
  shows "tables_ok (insert c D)
    (let s1 = on_server (\<lambda>v. v\<lparr>sv_conns := sv_conns v - {c}\<rparr>) (on_tcp c (\<lambda>t. t\<lparr>tc_closed := True\<rparr>) s)
     in delEvent (nt_conns s1 c) s1)" (is "tables_ok ?D ?s")
proof -
  note i = tables_okD [OF assms(1)]
  let ?fd = "ev_fd (nt_conns s c)"
  have ev: "el_events ?s = (el_events s)(?fd := None)"
    by (simp add: Let_def delEvent_tcp)
  have ep: "dom (el_epoll ?s) = dom (el_events ?s)"
  proof (cases "el_events s ?fd = None")
    case True
    then have "el_epoll ?s = el_epoll s" "el_events ?s = el_events s"
      by (simp_all add: Let_def delEvent_tcp)
    then show ?thesis using i(2) by simp
  next
    case False
    then have "el_epoll ?s = (el_epoll s)(?fd := None)" by (simp add: Let_def delEvent_tcp)
    then show ?thesis using i(2) unfolding ev by simp
  qed
  have cs: "nt_conns ?s = (nt_conns s)(c := nt_conns s c\<lparr>tc_closed := True\<rparr>)"
    by (auto simp: Let_def delEvent_tcp)
  have app: "sv_acceptor (nt_app ?s) = sv_acceptor (nt_app s)" "sv_conns (nt_app ?s) = sv_conns (nt_app s) - {c}"
      "sv_next (nt_app ?s) = sv_next (nt_app s)" "el_pipe ?s = el_pipe s"
    by (simp_all add: Let_def delEvent_tcp)
  have mine: "el_events s ?fd = None \<or> el_events s ?fd = Some (Tcp c)"
  proof (cases "1 < ?fd")
    case True
    have "registered s" using i(1) by (simp add: net_ok_def)
    then show ?thesis using True unfolding registered_def by blast
  next
    case False
    have "el_events s ?fd = None"
    proof (rule ccontr)
      assume "el_events s ?fd \<noteq> None"
      then have "2 < ?fd" using i(3) by blast
      then show False using False by simp
    qed
    then show ?thesis ..
  qed
  have "net_ok (on_tcp c (\<lambda>t. t\<lparr>tc_closed := True\<rparr>) s)" by (rule net_ok_on_tcp [OF i(1)]) simp
  then have "net_ok (on_server (\<lambda>v. v\<lparr>sv_conns := sv_conns v - {c}\<rparr>) (on_tcp c (\<lambda>t. t\<lparr>tc_closed := True\<rparr>) s))"
    by (rule net_ok_cong) simp_all
  then have ok: "net_ok ?s" unfolding Let_def by (rule net_ok_delEvent)
  have other: "el_events s (ev_fd (nt_conns s d)) = Some (Tcp d) \<Longrightarrow> d \<noteq> c \<Longrightarrow> ev_fd (nt_conns s d) \<noteq> ?fd" for d
    using mine by auto
  show ?thesis
  proof (rule tables_okI)
    show "net_ok ?s" by (rule ok)
    show "dom (el_epoll ?s) = dom (el_events ?s)" by (rule ep)
    show "d \<in> sv_conns (nt_app ?s) \<longleftrightarrow> el_events ?s (ev_fd (nt_conns ?s d)) = Some (Tcp d)" for d
    proof (cases "d = c")
      case True
      then show ?thesis unfolding ev cs app by simp
    next
      case False
      then show ?thesis unfolding ev cs app using i(7) [of d] other [of d] by auto
    qed
    show "d \<in> sv_conns (nt_app ?s) \<longleftrightarrow> d < sv_next (nt_app ?s) \<and> \<not> tc_closed (nt_conns ?s d)" for d
      unfolding cs app using i(8) [of d] by auto
    show "d \<in> ?D \<Longrightarrow> d < sv_next (nt_app ?s) \<and> tc_closed (nt_conns ?s d)" for d
      unfolding cs app using i(9) [of d] assms(3) by (auto split: if_splits)
    show "tc_closed (nt_conns ?s d) \<and> d \<notin> ?D \<or> sv_next (nt_app ?s) \<le> d \<Longrightarrow> ev_fd (nt_conns ?s d) \<le> 1" for d
      unfolding cs app using i(10) [of d] by (auto split: if_splits)
  qed (unfold ev cs app, insert i(3-6), auto split: if_splits)
qed

lemma release:
  assumes "tables_ok (insert c D) s" "c \<notin> D"
  shows "tables_ok D (set_tcp c (event_close (nt_conns s c) s))" (is "tables_ok D ?s")
proof -
  note i = tables_okD [OF assms(1)]
  have n: "el_events s (ev_fd (nt_conns s c)) \<noteq> Some (Tcp c)"
    using i(7) [of c] i(8) [of c] i(9) [of c] by simp
  have ev: "el_events ?s = el_events s" "el_pipe ?s = el_pipe s" "nt_app ?s = nt_app s"
    by (simp_all add: set_tcp_def event_close_def)
  have cs: "nt_conns ?s d = (if d = c then nt_conns s c\<lparr>ev_fd := if 1 < ev_fd (nt_conns s c) then -1 else ev_fd (nt_conns s c)\<rparr>
      else nt_conns s d)" for d
    by (simp add: set_tcp_def event_close_def)
  have small: "el_events s fd \<noteq> Some (Tcp c)" if "fd \<le> 1" for fd using i(3) [of fd "Tcp c"] that by auto
  show ?thesis
  proof (rule tables_okI)
    show "net_ok ?s" by (rule net_ok_close [OF i(1) n])
    show "dom (el_epoll ?s) = dom (el_events ?s)"
    proof (cases "1 < ev_fd (nt_conns s c)")
      case True
      then have "el_events s (ev_fd (nt_conns s c)) = None"
        using n i(1) by (auto simp: net_ok_def registered_def)
      moreover from this have "el_epoll s (ev_fd (nt_conns s c)) = None" using i(2) domIff by metis
      ultimately show ?thesis using i(2) by (simp add: set_tcp_def event_close_def fun_upd_idem)
    qed (use i(2) in \<open>auto simp: set_tcp_def event_close_def\<close>)
    show "d \<in> sv_conns (nt_app ?s) \<longleftrightarrow> el_events ?s (ev_fd (nt_conns ?s d)) = Some (Tcp d)" for d
      using i(7) [of d] n small [of "-1"] unfolding ev cs by (cases "d = c") simp_all
    show "d \<in> D \<Longrightarrow> d < sv_next (nt_app ?s) \<and> tc_closed (nt_conns ?s d)" for d
      unfolding ev cs using i(9) [of d] by (auto split: if_splits)
    show "tc_closed (nt_conns ?s d) \<and> d \<notin> D \<or> sv_next (nt_app ?s) \<le> d \<Longrightarrow> ev_fd (nt_conns ?s d) \<le> 1" for d
      unfolding ev cs using i(10) [of d] by (auto split: if_splits)
  qed (unfold ev cs, insert i(3-6,8), auto split: if_splits)
qed

section \<open>Accepting keeps it\<close>

lemma fd_freeD:
  assumes "fd_free fd s" "tables_ok D s"
  shows "2 < fd" "el_events s fd = None" "ev_fd (nt_conns s c) \<noteq> fd" "fd \<noteq> ev_fd (sv_acceptor (nt_app s))"
proof -
  note i = tables_okD [OF assms(2)]
  show fd: "2 < fd" "fd \<noteq> ev_fd (sv_acceptor (nt_app s))" using assms(1) by (simp_all add: fd_free_def)
  have used: "c < sv_next (nt_app s) \<Longrightarrow> ev_fd (nt_conns s c) \<noteq> fd" for c
    using assms(1) by (simp add: fd_free_def list_all_iff)
  show c: "ev_fd (nt_conns s c) \<noteq> fd" for c
    using used [of c] i(10) [of c] fd(1) by (cases "c < sv_next (nt_app s)") auto
  have "el_events s fd \<noteq> Some ob" for ob
  proof (cases ob)
    case PipeObj
    then show ?thesis using i(5) [of fd] assms(1) by (auto simp: fd_free_def pipe_fds_def split: option.splits)
  next
    case AcceptObj
    then show ?thesis using i(4) [of fd] fd(2) by auto
  next
    case (Tcp d)
    then show ?thesis using registeredD(1) [of s fd d] i(1) c by (auto simp: net_ok_def)
  qed
  then show "el_events s fd = None" by (cases "el_events s fd") auto
qed

text \<open>Registering the new connection under its fresh descriptor.\<close>

lemma accept_inv:
  fixes s :: "'b server net"
  assumes "tables_ok D s" "fd_free fd s" "c = sv_next (nt_app s)"
    "s1 = on_tcp c (\<lambda>_. newTcpConnection fd rs ts)
      (on_server (\<lambda>v. v\<lparr>sv_next := Suc c, sv_conns := insert c (sv_conns v)\<rparr>) s)"
  shows "tables_ok D (set_tcp c (addEvent (Tcp c) (nt_conns s1 c) s1))" (is "tables_ok D ?s")
proof -
  note i = tables_okD [OF assms(1)] and f = fd_freeD [OF assms(2,1)]
  have c: "c \<notin> sv_conns (nt_app s)" "c \<notin> D" using i(8,9) [of c] by (auto simp: assms(3))
  have none: "el_epoll s fd = None" using i(2) f(2) domIff by metis
  have ev: "el_events ?s = (el_events s)(fd \<mapsto> Tcp c)" "el_pipe ?s = el_pipe s"
      "sv_acceptor (nt_app ?s) = sv_acceptor (nt_app s)" "sv_conns (nt_app ?s) = insert c (sv_conns (nt_app s))"
      "sv_next (nt_app ?s) = Suc c" "el_epoll ?s = (el_epoll s)(fd \<mapsto> kEventRead)"
    using f(1,2) none by (simp_all add: set_tcp_def addEvent_def assms(4) newTcpConnection_def Let_def)
  have cs: "nt_conns ?s d = (if d = c then (newTcpConnection fd rs ts)\<lparr>ev_mask := kEventRead\<rparr> else nt_conns s d)" for d
    using f(2) by (simp add: set_tcp_def addEvent_def assms(4) newTcpConnection_def Let_def)
  have n: "ev_fd (newTcpConnection fd rs ts) = fd" "\<not> tc_closed (newTcpConnection fd rs ts)"
      "conn_ok ((newTcpConnection fd rs ts)\<lparr>ev_mask := kEventRead\<rparr>)"
    by (simp_all add: newTcpConnection_def conn_ok_def kBufferDefaultLength_def)
  have "registered ?s"
  proof -
    have "1 < fd' \<and> ev_fd (nt_conns ?s d) = fd' \<and> el_epoll ?s fd' = Some (ev_mask (nt_conns ?s d))"
      if e: "el_events ?s fd' = Some (Tcp d)" for fd' d
    proof (cases "fd' = fd")
      case True
      then show ?thesis using e f(1) n unfolding ev cs by simp
    next
      case False
      then have "el_events s fd' = Some (Tcp d)" using e unfolding ev by simp
      moreover from this have "d \<noteq> c" using registeredD(1) [of s fd' d] i(1) i(7) [of d] c by (auto simp: net_ok_def)
      ultimately show ?thesis
        using registeredD(1) [of s fd' d] i(1) False unfolding ev cs by (simp add: net_ok_def)
    qed
    moreover have "el_events ?s (ev_fd (nt_conns ?s d)) = None \<or> el_events ?s (ev_fd (nt_conns ?s d)) = Some (Tcp d)"
      if "1 < ev_fd (nt_conns ?s d)" for d
      using that f(3) [of d] n i(1) unfolding ev cs by (auto simp: net_ok_def registered_def)
    ultimately show ?thesis unfolding registered_def by blast
  qed
  then have ok: "net_ok ?s" using i(1) n unfolding net_ok_def cs by simp
  show ?thesis
  proof (rule tables_okI)
    show "net_ok ?s" by (rule ok)
    show "d \<in> sv_conns (nt_app ?s) \<longleftrightarrow> el_events ?s (ev_fd (nt_conns ?s d)) = Some (Tcp d)" for d
      using i(7) [of d] f(3) [of d] n(1) unfolding ev cs by auto
    show "d \<in> sv_conns (nt_app ?s) \<longleftrightarrow> d < sv_next (nt_app ?s) \<and> \<not> tc_closed (nt_conns ?s d)" for d
      using i(8) [of d] n(2) assms(3) unfolding ev cs by auto
    show "d \<in> D \<Longrightarrow> d < sv_next (nt_app ?s) \<and> tc_closed (nt_conns ?s d)" for d
      using i(9) [of d] c(2) assms(3) unfolding ev cs by auto
    show "tc_closed (nt_conns ?s d) \<and> d \<notin> D \<or> sv_next (nt_app ?s) \<le> d \<Longrightarrow> ev_fd (nt_conns ?s d) \<le> 1" for d
      using i(10) [of d] n(2) assms(3) unfolding ev cs by (auto split: if_splits)
    show "dom (el_epoll ?s) = dom (el_events ?s)" using i(2) unfolding ev by simp
    show "1 < ev_fd (nt_conns ?s d) \<Longrightarrow> ev_fd (nt_conns ?s d) \<noteq> ev_fd (sv_acceptor (nt_app ?s))" for d
      using i(6) [of d] f(4) n(1) unfolding ev cs by auto
    show "el_events ?s fd' = Some AcceptObj \<Longrightarrow> fd' = ev_fd (sv_acceptor (nt_app ?s))" for fd'
      using i(4) [of fd'] unfolding ev by (auto split: if_splits)
    show "el_events ?s fd' = Some PipeObj \<Longrightarrow> map_option ev_fd (el_pipe ?s) = Some fd'" for fd'
      using i(5) [of fd'] unfolding ev by (auto split: if_splits)
    show "el_events ?s fd' = Some ob \<Longrightarrow> 2 < fd'" for fd' ob
      using i(3) [of fd' ob] f(1) unfolding ev by (auto split: if_splits)
  qed
qed

text \<open>The acceptor: taking it out of the loop, and opening it under a fresh descriptor.\<close>

lemma acceptor_inv:
  assumes "tables_ok D s" "\<And>fd. el_events s fd = Some AcceptObj \<Longrightarrow> fd = ev_fd (f (sv_acceptor (nt_app s)))"
    "\<And>c. 1 < ev_fd (nt_conns s c) \<Longrightarrow> ev_fd (nt_conns s c) \<noteq> ev_fd (f (sv_acceptor (nt_app s)))"
  shows "tables_ok D (on_acceptor f s)"
proof -
  note i = tables_okD [OF assms(1)]
  have sel: "el_events (on_acceptor f s) = el_events s" "el_epoll (on_acceptor f s) = el_epoll s"
      "nt_conns (on_acceptor f s) = nt_conns s" "el_pipe (on_acceptor f s) = el_pipe s"
      "sv_acceptor (nt_app (on_acceptor f s)) = f (sv_acceptor (nt_app s))"
      "sv_conns (nt_app (on_acceptor f s)) = sv_conns (nt_app s)"
      "sv_next (nt_app (on_acceptor f s)) = sv_next (nt_app s)"
    by (simp_all add: on_acceptor_def)
  have "net_ok (on_acceptor f s)" by (rule net_ok_cong [OF i(1)]) (simp_all add: sel)
  then show ?thesis unfolding tables_ok_def sel using i assms(2,3) by blast
qed

lemma on_acceptor_sel [simp]:
  "el_events (on_acceptor f s) = el_events s" "el_epoll (on_acceptor f s) = el_epoll s"
  "nt_conns (on_acceptor f s) = nt_conns s" "el_pipe (on_acceptor f s) = el_pipe s"
  "sv_acceptor (nt_app (on_acceptor f s)) = f (sv_acceptor (nt_app s))"
  "sv_conns (nt_app (on_acceptor f s)) = sv_conns (nt_app s)"
  "sv_next (nt_app (on_acceptor f s)) = sv_next (nt_app s)"
  by (simp_all add: on_acceptor_def)

lemma stop_inv:
  assumes "tables_ok D s"
  shows "tables_ok D (stop s) \<and> el_events (stop s) (ev_fd (sv_acceptor (nt_app s))) = None \<and>
    nt_app (stop s) = nt_app s"
proof -
  note i = tables_okD [OF assms]
  let ?fd = "ev_fd (sv_acceptor (nt_app s))"
  have ev: "el_events (stop s) = (el_events s)(?fd := None)" "nt_conns (stop s) = nt_conns s"
      "nt_app (stop s) = nt_app s" "el_pipe (stop s) = el_pipe s"
    by (simp_all add: stop_def delEvent_tcp)
  have ep: "dom (el_epoll (stop s)) = dom (el_events (stop s))"
    using i(2) by (cases "el_events s ?fd = None") (simp_all add: stop_def delEvent_tcp)
  have ok: "net_ok (stop s)" unfolding stop_def by (rule net_ok_delEvent [OF i(1)])
  have tcp: "ev_fd (nt_conns s c) \<noteq> ?fd" if "el_events s (ev_fd (nt_conns s c)) = Some (Tcp c)" for c
    using i(3) [OF that] i(6) [of c] by simp
  have "tables_ok D (stop s)"
  proof (rule tables_okI)
    show "c \<in> sv_conns (nt_app (stop s)) \<longleftrightarrow> el_events (stop s) (ev_fd (nt_conns (stop s) c)) = Some (Tcp c)" for c
      unfolding ev using i(7) [of c] tcp [of c] by (cases "ev_fd (nt_conns s c) = ?fd") auto
  qed (unfold ev, fact ok, fact ep [unfolded ev], insert i(3-6,8-10), auto split: if_splits)
  then show ?thesis using ev by simp
qed

lemma open_inv:
  assumes "tables_ok D s" "el_events s (ev_fd (sv_acceptor (nt_app s))) = None" "open_acceptor s = Inr s'"
  shows "tables_ok D s'"
proof -
  note i = tables_okD [OF assms(1)]
  let ?a = "sv_acceptor (nt_app s)"
  have none: "el_events s fd \<noteq> Some AcceptObj" for fd using i(4) [of fd] assms(2) by auto
  have ep: "el_epoll s (ev_fd ?a) = None" using i(2) assms(2) domIff by metis
  let ?s1 = "drop_socket s"
  have s1: "?s1 = s \<or> ?s1 = on_acceptor (\<lambda>a. a\<lparr>ev_fd := -1\<rparr>) s"
    using ep by (simp add: drop_socket_def fun_upd_idem Let_def)
  have "tables_ok D (on_acceptor (\<lambda>a. a\<lparr>ev_fd := -1\<rparr>) s)"
    using none by (intro acceptor_inv [OF assms(1)]) auto
  then have inv1: "tables_ok D ?s1" "el_events ?s1 = el_events s"
    using assms(1) s1 by auto
  obtain fd fds where fd: "ac_sockets (sv_acceptor (nt_app ?s1)) = fd # fds" "fd_free fd ?s1"
    using assms(3) by (auto simp: open_acceptor_def new_socket_def split: list.splits if_splits)
  note f = fd_freeD [OF fd(2) inv1(1)]
  let ?s2 = "on_acceptor (\<lambda>a. a\<lparr>ev_fd := fd, ac_sockets := fds\<rparr>) ?s1"
  have inv2: "tables_ok D ?s2"
    using inv1 f(3) none by (intro acceptor_inv) auto
  note j = tables_okD [OF inv2]
  have free: "el_events ?s2 fd = None" "el_epoll ?s2 fd = None"
  proof -
    show "el_events ?s2 fd = None" using f(2) by simp
    then show "el_epoll ?s2 fd = None" using j(2) domIff by metis
  qed
  obtain m where m: "s' = on_acceptor (\<lambda>_. (sv_acceptor (nt_app ?s2))\<lparr>ev_mask := m, ac_open := True\<rparr>)
      (?s2\<lparr>el_events := (el_events ?s2)(fd \<mapsto> AcceptObj), el_epoll := (el_epoll ?s2)(fd \<mapsto> m)\<rparr>)"
    using assms(3) fd free f(1) by (auto simp: open_acceptor_def new_socket_def addEvent_def Let_def)
  have sel: "el_events s' = (el_events ?s2)(fd \<mapsto> AcceptObj)" "el_epoll s' = (el_epoll ?s2)(fd \<mapsto> m)"
      "nt_conns s' = nt_conns ?s2" "el_pipe s' = el_pipe ?s2" "ev_fd (sv_acceptor (nt_app s')) = fd"
      "sv_conns (nt_app s') = sv_conns (nt_app ?s2)" "sv_next (nt_app s') = sv_next (nt_app ?s2)"
      "ev_fd (sv_acceptor (nt_app ?s2)) = fd"
    by (simp_all add: m on_acceptor_def)
  have tcp: "ev_fd (nt_conns ?s2 c) \<noteq> fd" for c using f(3) [of c] by simp
  have ok: "net_ok s'"
    using j(1) free tcp unfolding net_ok_def registered_def sel by (auto split: if_splits)
  show ?thesis
  proof (rule tables_okI)
    show "net_ok s'" by (rule ok)
    show "c \<in> sv_conns (nt_app s') \<longleftrightarrow> el_events s' (ev_fd (nt_conns s' c)) = Some (Tcp c)" for c
      unfolding sel using j(7) [of c] tcp [of c] by simp
    show "el_events s' fd' = Some ob \<Longrightarrow> 2 < fd'" for fd' ob
      unfolding sel using j(3) [of fd' ob] f(1) by (auto split: if_splits)
    show "el_events s' fd' = Some AcceptObj \<Longrightarrow> fd' = ev_fd (sv_acceptor (nt_app s'))" for fd'
      unfolding sel using j(4) [of fd'] sel(8) by (auto split: if_splits)
    show "1 < ev_fd (nt_conns s' c) \<Longrightarrow> ev_fd (nt_conns s' c) \<noteq> ev_fd (sv_acceptor (nt_app s'))" for c
      unfolding sel using tcp by simp
    show "el_events s' fd' = Some PipeObj \<Longrightarrow> map_option ev_fd (el_pipe s') = Some fd'" for fd'
      unfolding sel using j(5) [of fd'] by (auto split: if_splits)
    show "dom (el_epoll s') = dom (el_events s')" unfolding sel using j(2) by simp
  qed (unfold sel, insert j(8-10), auto)
qed

lemma acceptor_onClose_inv:
  assumes "tables_ok D s" "acceptor_onClose s = Inr s'"
  shows "tables_ok D s'"
  using open_inv stop_inv [OF assms(1)] assms(2) unfolding acceptor_onClose_def by metis

section \<open>Servers\<close>

text \<open>
  A server is its callbacks and its timers, each of which keeps the tables; \<open>D\<close> is fixed for the
  operations below, the callbacks keep them for any.
\<close>

definition server_hooks :: "'b server_callbacks \<Rightarrow> (nat \<Rightarrow> 'b sstep) set" where
  "server_hooks C = \<Union> (set_option ` {sc_message C, sc_active C, sc_complete C, sc_new C, sc_destroy C})"

locale tcp_server =
  fixes C :: "'b server_callbacks"
    and after :: "nat \<Rightarrow> 'b sstep"
    and D :: "nat set"
  assumes hooks_keep: "f \<in> server_hooks C \<Longrightarrow> tables_ok E s \<Longrightarrow> f c s = Inr s' \<Longrightarrow> tables_ok E s'"
    and timers_keep: "tables_ok E s \<Longrightarrow> after n s = Inr s' \<Longrightarrow> tables_ok E s'"
begin

lemma call_keeps:
  "call_cb cb c s = Inr s' \<Longrightarrow> cb \<in> {sc_message C, sc_active C, sc_complete C, sc_new C, sc_destroy C} \<Longrightarrow>
   tables_ok E s \<Longrightarrow> tables_ok E s'"
proof (cases cb)
  case (Some f)
  assume a: "call_cb cb c s = Inr s'" "cb \<in> {sc_message C, sc_active C, sc_complete C, sc_new C, sc_destroy C}"
    "tables_ok E s"
  have "f \<in> set_option cb" using Some by simp
  then have "f \<in> server_hooks C" using a(2) unfolding server_hooks_def by blast
  then show ?thesis using hooks_keep a Some by (simp add: call_cb_def)
qed (simp add: call_cb_def)

lemma close_keeps:
  assumes "tables_ok E s" "server_close C c s = Inr s'"
  shows "tables_ok E s'"
proof (cases "tc_closed (nt_conns s c)")
  case True
  then show ?thesis using assms by (simp add: server_close_def onClose_def split: if_splits)
next
  case False
  then have c: "c < sv_next (nt_app s)" "c \<notin> E"
    using assms tables_okD(9) [OF assms(1), of c] by (auto simp: server_close_def split: if_splits)
  let ?s1 = "on_server (\<lambda>v. v\<lparr>sv_conns := sv_conns v - {c}\<rparr>) (on_tcp c (\<lambda>t. t\<lparr>tc_closed := True\<rparr>) s)"
  obtain s2 where s2: "call_cb (sc_destroy C) c (delEvent (nt_conns ?s1 c) ?s1) = Inr s2"
      "s' = set_tcp c (event_close (nt_conns s2 c) s2)"
    using assms(2) False c
    by (auto simp: server_close_def onClose_def conn_callbacks_def call_cb_def [of "Some _"] onConnectionClose_def
        Let_def bindr_eq_Inr)
  have "tables_ok (insert c E) (delEvent (nt_conns ?s1 c) ?s1)"
    using deregister [OF assms(1) False c(1)] by (simp only: Let_def)
  then have "tables_ok (insert c E) s2" using call_keeps [OF s2(1)] by simp
  then show ?thesis using release c(2) s2(2) by simp
qed

end

sublocale tcp_server \<subseteq> conns: tcp_user "tables_ok D" "server_close C" "conn_callbacks C"
proof
  show "tables_ok D s \<Longrightarrow> net_ok s" for s by (rule tables_okD)
  show "tables_ok D s \<Longrightarrow> net_ok s' \<Longrightarrow> same_shape s s' \<Longrightarrow> tables_ok D s'" for s s' by (rule same_shape_inv)
  show "tables_ok D s \<Longrightarrow> server_close C c s = Inr s' \<Longrightarrow> tables_ok D s'" for s c s' by (rule close_keeps)
qed (auto simp: conn_callbacks_def dest: call_keeps)

context tcp_server begin

lemma accept_keeps:
  assumes "tables_ok D s" "fd_free fd s" "onAccept C fd rs ts s = Inr s'"
  shows "tables_ok D s'"
proof -
  define c where "c = sv_next (nt_app s)"
  define s1 where "s1 = on_tcp c (\<lambda>_. newTcpConnection fd rs ts)
      (on_server (\<lambda>v. v\<lparr>sv_next := Suc c, sv_conns := insert c (sv_conns v)\<rparr>) s)"
  define s2 where "s2 = set_tcp c (addEvent (Tcp c) (nt_conns s1 c) s1)"
  have i2: "tables_ok D s2" unfolding s2_def using accept_inv [OF assms(1,2) c_def s1_def] .
  obtain s3 where s3: "enableCheckIdleTimeout (server_close C) 30 c s2 = Inr s3" "call_cb (sc_new C) c s3 = Inr s'"
    using assms(3) by (auto simp: onAccept_def c_def s1_def s2_def Let_def bindr_eq_Inr)
  have "tables_ok D s3" using conns.idle_keeps [OF s3(1) i2] .
  then show ?thesis using call_keeps [OF s3(2)] by simp
qed

lemma accept_loop_keeps: "accept_loop C as s = Inr s' \<Longrightarrow> tables_ok D s \<Longrightarrow> tables_ok D s'"
proof (induction as arbitrary: s)
  case (Cons a as)
  then show ?case
    by (cases a) (auto simp: res_simps dest: acceptor_onClose_inv accept_keeps split: if_splits)
qed simp

lemma acceptor_data: "(\<And>a. ev_fd (f a) = ev_fd a) \<Longrightarrow> tables_ok D s \<Longrightarrow> tables_ok D (on_acceptor f s)"
  by (intro acceptor_inv) (auto dest: tables_okD)

lemma acceptor_keeps: "tables_ok D s \<Longrightarrow> acceptor_handle C h s = Inr s' \<Longrightarrow> tables_ok D s'"
proof (cases h)
  case HRead
  assume a: "tables_ok D s" "acceptor_handle C h s = Inr s'"
  have "tables_ok D (on_acceptor (\<lambda>a. a\<lparr>ac_accepts := []\<rparr>) s)" by (rule acceptor_data [OF _ a(1)]) simp
  then show ?thesis using a HRead accept_loop_keeps by (auto simp: acceptor_onRead_def split: if_splits)
qed (auto intro: acceptor_onClose_inv)

end

sublocale tcp_server \<subseteq> prog: tcp_program "tables_ok D" "server_close C" "conn_callbacks C" "acceptor_handle C"
    after "\<lambda>_. Inr"
  by unfold_locales (auto intro: acceptor_keeps timers_keep)

text \<open>The pipe gets two fresh descriptors.\<close>

lemma pipe_inv:
  assumes "tables_ok D s" "el_pipe s = None" "fd_free (fst fds) s"
  shows "tables_ok D (initPipe PipeObj fds s)" (is "tables_ok D ?s")
proof -
  note i = tables_okD [OF assms(1)] and f = fd_freeD [OF assms(3,1)]
  let ?fd = "fst fds"
  have none: "el_epoll s ?fd = None" using i(2) f(2) domIff by metis
  obtain m where ev: "el_events ?s = (el_events s)(?fd \<mapsto> PipeObj)" "el_epoll ?s = (el_epoll s)(?fd \<mapsto> m)"
      "nt_conns ?s = nt_conns s" "nt_app ?s = nt_app s" "map_option ev_fd (el_pipe ?s) = Some ?fd"
    using assms(2) f(1,2) none by (simp add: initPipe_def addEvent_def newPipe_def Let_def)
  have ok: "net_ok ?s"
    using i(1) f(2,3) unfolding net_ok_def registered_def ev by (auto split: if_splits)
  have nopipe: "el_events s fd \<noteq> Some PipeObj" for fd using i(5) [of fd] assms(2) by auto
  show ?thesis
  proof (rule tables_okI)
    show "net_ok ?s" by (rule ok)
    show "c \<in> sv_conns (nt_app ?s) \<longleftrightarrow> el_events ?s (ev_fd (nt_conns ?s c)) = Some (Tcp c)" for c
      unfolding ev using i(7) [of c] f(3) [of c] by simp
    show "el_events ?s fd = Some PipeObj \<Longrightarrow> map_option ev_fd (el_pipe ?s) = Some fd" for fd
      unfolding ev using nopipe [of fd] by (auto split: if_splits)
    show "el_events ?s fd = Some ob \<Longrightarrow> 2 < fd" for fd ob
      unfolding ev using i(3) [of fd ob] f(1) by (auto split: if_splits)
    show "dom (el_epoll ?s) = dom (el_events ?s)" unfolding ev using i(2) by simp
  qed (unfold ev, insert i(4,6,8-10), auto split: if_splits)
qed

context tcp_server begin

lemma hand_over_keeps:
  fixes s :: "'b server net"
  assumes "tables_ok D s" "el_pipe s = None \<Longrightarrow> fd_free (fst fds) s"
    "enqueueTask False run PipeObj fds t s = Inr s'"
  shows "tables_ok D s'"
proof -
  let ?s0 = "s\<lparr>el_tasks := el_tasks s @ [t]\<rparr>"
  have i0: "tables_ok D ?s0" using conns.books_change [OF assms(1)] by blast
  have free: "fd_free fd ?s0 = fd_free fd s" for fd by (simp add: fd_free_def)
  have "tables_ok D (initPipe PipeObj fds ?s0)"
  proof (cases "el_pipe s")
    case None
    then show ?thesis using pipe_inv [OF i0] assms(2) free by simp
  next
    case (Some p)
    then have "initPipe PipeObj fds ?s0 = ?s0" by (simp add: initPipe_def)
    then show ?thesis using i0 by simp
  qed
  then show ?thesis using assms(3) prog.pipe_change [of "pipe_write 8"]
    by (auto simp: enqueueTask_def wakeUp_def Let_def pipe_write_def)
qed

lemma net_step_keeps:
  assumes "tables_ok D s" "net_step C after e s = Inr s'"
  shows "tables_ok D s'"
proof (cases e)
  case Start
  then have "ev_fd (sv_acceptor (nt_app s)) < 0 \<and> open_acceptor s = Inr s' \<or> s' = s"
    using assms(2) by (auto simp: server_start_def split: if_splits)
  moreover have "el_events s fd = None" if "fd < 0" for fd
    using tables_okD(3) [OF assms(1), of fd] that by (cases "el_events s fd") auto
  ultimately show ?thesis using open_inv [OF assms(1)] assms(1) by blast
next
  case (Deliver c rs ts)
  have "tables_ok D (on_tcp c (\<lambda>t. t\<lparr>so_rx := so_rx t @ rs, so_tx := so_tx t @ ts\<rparr>) s)"
    using assms(1) by (rule conns.on_tcp_keeps) (simp_all add: data_step_def conn_ok_def)
  then show ?thesis using assms(2) Deliver by simp
next
  case (Peers as)
  then show ?thesis using assms(2) acceptor_data [OF _ assms(1)] by auto
next
  case (Sockets fds)
  then show ?thesis using assms(2) acceptor_data [OF _ assms(1)] by auto
next
  case (HandOver t fds)
  then have "s' = s \<or> (el_pipe s = None \<longrightarrow> fd_free (fst fds) s) \<and>
      enqueueTask False (server_run_task C after) PipeObj fds t s = Inr s'"
    using assms(2) by (auto split: if_splits)
  then show ?thesis using assms(1) hand_over_keeps [OF assms(1), of fds "server_run_task C after" t s'] by (elim disjE conjE) simp_all
next
  case (Turn w)
  then have "loop_turn (net_handle (acceptor_handle C) (server_close C) (conn_callbacks C))
       (run_task (server_close C) (conn_callbacks C) after (\<lambda>_. Inr)) (fire_timer (server_close C) after) w s = Inr s'"
    using assms(2) by (simp add: server_run_task_def [abs_def])
  then show ?thesis by (rule prog.in_loop.turn_keeps) (rule assms(1))
qed

lemma run_keeps: "net_run C after es s = Inr s' \<Longrightarrow> tables_ok D s \<Longrightarrow> tables_ok D s'"
  by (induction es arbitrary: s) (auto simp: res_simps dest: net_step_keeps)

end

end
