(* ===== verification/Float64.thy ===== *)
theory Float64
  imports Prelude
begin

text \<open>
  What the program does with \<open>double\<close>: it stores one by its bit pattern, converts one to
  \<open>uint64_t\<close> and back, and compares one with a small constant. A \<open>double\<close> is its IEEE-754
  binary64 image, a \<open>u64\<close>: one sign bit, eleven exponent bits, fifty-two fraction bits.

  \<open>BytesReader::readUint64T\<close> (\<open>src/mmedia/base/bytes_reader.cpp\<close>) puts a \<open>double\<close> together
  and returns it as \<open>uint64_t\<close>, a conversion that truncates and has no defined result for
  values outside the range of the type; \<open>AMFNumber::decode\<close> stores the integer in a \<open>double\<close>
  again. The two conversions are \<open>f64_to_u64\<close> and \<open>f64_of_u64\<close>.
\<close>

unbundle bit_operations_syntax

section \<open>Fields of a double\<close>

definition f64_negative :: "u64 \<Rightarrow> bool" where
  "f64_negative b \<longleftrightarrow> 2 ^ 63 \<le> uint b"

definition f64_exp :: "u64 \<Rightarrow> int" where
  "f64_exp b = (uint b div 2 ^ 52) mod 2 ^ 11"

definition f64_frac :: "u64 \<Rightarrow> int" where
  "f64_frac b = uint b mod 2 ^ 52"

definition f64_pack :: "int \<Rightarrow> int \<Rightarrow> u64" where
  "f64_pack e f = word_of_int (e * 2 ^ 52 + f)"

section \<open>Conversions\<close>

text \<open>
  \<open>double\<close> to \<open>uint64_t\<close>: truncation towards zero. Below one in magnitude the result is 0;
  negative values from minus one on, values from two to the 64 on, infinities and NaNs have no
  defined result.
\<close>

definition f64_to_u64 :: "u64 \<Rightarrow> u64 res" where
  "f64_to_u64 b =
     (let e = f64_exp b; m = 2 ^ 52 + f64_frac b
      in if e < 1023 then Inr 0
         else if f64_negative b \<or> 1023 + 64 \<le> e then Inl BadConversion
         else if e \<le> 1075 then Inr (word_of_int (m div 2 ^ nat (1075 - e)))
         else Inr (word_of_int (m * 2 ^ nat (e - 1075))))"

text \<open>The position of the leading bit.\<close>

function msb_pos :: "int \<Rightarrow> nat" where
  "msb_pos n = (if n < 2 then 0 else Suc (msb_pos (n div 2)))"
  by pat_completeness auto
termination
  by (relation "measure nat") auto

declare msb_pos.simps [simp del]

text \<open>
  \<open>uint64_t\<close> to \<open>double\<close>: exact up to 53 significant bits, rounded to nearest with ties to even
  above. A mantissa that rounds up to the next power of two carries into the exponent.
\<close>

definition f64_of_int :: "int \<Rightarrow> u64" where
  "f64_of_int n =
     (if n = 0 then 0
      else
        let k = msb_pos n in
        if k \<le> 52 then f64_pack (int k + 1023) (n * 2 ^ (52 - k) - 2 ^ 52)
        else
          let s = k - 52; q = n div 2 ^ s; r = n mod 2 ^ s; half = 2 ^ (s - 1);
              q' = (if half < r \<or> (r = half \<and> odd q) then q + 1 else q)
          in f64_pack (int k + 1023) (q' - 2 ^ 52))"

definition f64_of_u64 :: "u64 \<Rightarrow> u64" where
  "f64_of_u64 w = f64_of_int (uint w)"

definition f64_neg :: "u64 \<Rightarrow> u64" where
  "f64_neg b = b XOR 0x8000000000000000"

text \<open>\<open>==\<close> on doubles: a NaN equals nothing, the two zeros are equal.\<close>

definition f64_nan :: "u64 \<Rightarrow> bool" where
  "f64_nan b \<longleftrightarrow> f64_exp b = 2047 \<and> f64_frac b \<noteq> 0"

definition f64_zero :: "u64 \<Rightarrow> bool" where
  "f64_zero b \<longleftrightarrow> f64_exp b = 0 \<and> f64_frac b = 0"

definition f64_eq :: "u64 \<Rightarrow> u64 \<Rightarrow> bool" where
  "f64_eq a b \<longleftrightarrow> \<not> f64_nan a \<and> \<not> f64_nan b \<and> (a = b \<or> (f64_zero a \<and> f64_zero b))"

section \<open>Integers below two to the 53 survive\<close>

lemma msb_pos_bounds: "0 < n \<Longrightarrow> 2 ^ msb_pos n \<le> n \<and> n < 2 * 2 ^ msb_pos n"
proof (induction n rule: msb_pos.induct)
  case (1 n)
  show ?case
  proof (cases "n < 2")
    case True
    with "1.prems" show ?thesis by (simp add: msb_pos.simps)
  next
    case False
    then have "0 < n div 2" by simp
    with "1.IH" False have "2 ^ msb_pos (n div 2) \<le> n div 2" "n div 2 < 2 * 2 ^ msb_pos (n div 2)"
      by simp_all
    moreover have "msb_pos n = Suc (msb_pos (n div 2))"
      using False by (subst msb_pos.simps) simp
    ultimately show ?thesis by simp linarith
  qed
qed

lemma msb_pos_le: "0 < n \<Longrightarrow> n < 2 ^ Suc k \<Longrightarrow> msb_pos n \<le> k"
proof -
  assume a: "0 < n" "n < 2 ^ Suc k"
  then have "(2::int) ^ msb_pos n < 2 ^ Suc k"
    using msb_pos_bounds [of n] by (meson le_less_trans)
  then have "msb_pos n < Suc k"
    by (rule power_less_imp_less_exp [rotated]) simp
  then show ?thesis by simp
qed

text \<open>The mantissa of a number with leading bit \<open>k\<close> lies between two to the 52 and 53.\<close>

lemma mantissa_bounds:
  assumes "0 < n" "msb_pos n \<le> 52"
  shows "2 ^ 52 \<le> n * 2 ^ (52 - msb_pos n)" "n * 2 ^ (52 - msb_pos n) < 2 ^ 53"
proof -
  let ?k = "msb_pos n"
  have p: "(2::int) ^ ?k * 2 ^ (52 - ?k) = 2 ^ 52"
    using assms(2) by (simp flip: power_add)
  have "2 ^ ?k * 2 ^ (52 - ?k) \<le> n * 2 ^ (52 - ?k)"
    using msb_pos_bounds [OF assms(1)] by (simp add: mult_right_mono)
  then show "2 ^ 52 \<le> n * 2 ^ (52 - ?k)" using p by simp
  have "n * 2 ^ (52 - ?k) < 2 * 2 ^ ?k * 2 ^ (52 - ?k)"
    using msb_pos_bounds [OF assms(1)] by simp
  then show "n * 2 ^ (52 - ?k) < 2 ^ 53" using p by (simp add: mult.assoc)
qed

lemma uint_word_of_int_64: "0 \<le> n \<Longrightarrow> n < 2 ^ 64 \<Longrightarrow> uint (word_of_int n :: u64) = n"
  by (simp add: unsigned_of_int take_bit_int_eq_self)

lemma uint_pack:
  assumes "0 \<le> e" "e < 2 ^ 11" "0 \<le> f" "f < 2 ^ 52"
  shows "uint (f64_pack e f) = e * 2 ^ 52 + f"
  unfolding f64_pack_def using assms by (intro uint_word_of_int_64) simp_all

lemma f64_fields_pack:
  assumes "0 \<le> e" "e < 2 ^ 11" "0 \<le> f" "f < 2 ^ 52"
  shows "f64_exp (f64_pack e f) = e" "f64_frac (f64_pack e f) = f" "\<not> f64_negative (f64_pack e f)"
  using assms by (simp_all add: f64_exp_def f64_frac_def f64_negative_def uint_pack)

lemma f64_to_u64_of_u64:
  assumes "uint w < 2 ^ 53"
  shows "f64_to_u64 (f64_of_u64 w) = Inr w"
proof (cases "w = 0")
  case True
  then show ?thesis
    by (simp add: f64_of_u64_def f64_of_int_def f64_to_u64_def f64_exp_def)
next
  case False
  let ?n = "uint w" and ?k = "msb_pos (uint w)"
  let ?m = "?n * 2 ^ (52 - ?k)"
  have pos: "0 < ?n" using False by (simp add: less_le uint_0_iff)
  have k: "?k \<le> 52" using pos assms by (intro msb_pos_le) simp_all
  have m: "2 ^ 52 \<le> ?m" "?m < 2 ^ 53" using mantissa_bounds [OF pos k] by simp_all
  then have f: "0 \<le> ?m - 2 ^ 52" "?m - 2 ^ 52 < 2 ^ 52"
    and e: "0 \<le> int ?k + 1023" "int ?k + 1023 < 2 ^ 11" using k by simp_all
  have "f64_of_u64 w = f64_pack (int ?k + 1023) (?m - 2 ^ 52)"
    unfolding f64_of_u64_def f64_of_int_def Let_def using pos k by simp
  moreover have "int ?k + 1023 \<le> 1075" "nat (1075 - (int ?k + 1023)) = 52 - ?k" using k by simp_all
  moreover have "(2 ^ 52 + (?m - 2 ^ 52)) div 2 ^ (52 - ?k) = ?n" by simp
  ultimately show ?thesis
    unfolding f64_to_u64_def by (simp only: f64_fields_pack [OF e f] Let_def) simp
qed

text \<open>A number at or below minus one has no image.\<close>

lemma f64_to_u64_negative:
  "f64_negative b \<Longrightarrow> 1023 \<le> f64_exp b \<Longrightarrow> f64_to_u64 b = Inl BadConversion"
  by (simp add: f64_to_u64_def Let_def)

end
