(* ===== verification/Amf.thy ===== *)
theory Amf
  imports Bytes Float64
begin

text \<open>
  The AMF0 values of \<open>src/mmedia/rtmp/amf/\<close>: the encoders of \<open>amf_any.cpp\<close>, the element
  decoders (\<open>amf_number.cpp\<close>, \<open>amf_boolean.cpp\<close>, \<open>amf_string.cpp\<close>, \<open>amf_longstring.cpp\<close>,
  \<open>amf_date.cpp\<close>), and the object decoder and property lookups of \<open>amf_object.cpp\<close>.

  A decoder gets a pointer and the number of bytes the message has left. The pointer is
  modelled by the memory from there to the end of the allocated block, which is longer than
  the message when the block is; reading past the end of the block is a fault. A decoder's
  result \<open>-1\<close> is \<open>None\<close>, a result \<open>len\<close> is \<open>Some (value, len)\<close>.
\<close>

section \<open>Values\<close>

datatype amf_any =
    AMFNumber string u64
  | AMFBoolean string bool
  | AMFString string string
  | AMFLongString string string
  | AMFDate string u64 u16
  | AMFNull string
  | AMFObject string "amf_any list"

text \<open>The type tags, \<open>AMFDataType\<close>.\<close>

definition kAMFNumber :: byte where "kAMFNumber = 0"
definition kAMFBoolean :: byte where "kAMFBoolean = 1"
definition kAMFString :: byte where "kAMFString = 2"
definition kAMFObject :: byte where "kAMFObject = 3"
definition kAMFNull :: byte where "kAMFNull = 5"
definition kAMFEcmaArray :: byte where "kAMFEcmaArray = 8"
definition kAMFObjectEnd :: byte where "kAMFObjectEnd = 9"
definition kAMStrictArray :: byte where "kAMStrictArray = 10"
definition kAMFDate :: byte where "kAMFDate = 11"
definition kAMFLongString :: byte where "kAMFLongString = 12"

lemmas amf_tags = kAMFNumber_def kAMFBoolean_def kAMFString_def kAMFObject_def kAMFNull_def
  kAMFEcmaArray_def kAMFObjectEnd_def kAMStrictArray_def kAMFDate_def kAMFLongString_def

fun amf_name :: "amf_any \<Rightarrow> string" where
  "amf_name (AMFNumber n _) = n"
| "amf_name (AMFBoolean n _) = n"
| "amf_name (AMFString n _) = n"
| "amf_name (AMFLongString n _) = n"
| "amf_name (AMFDate n _ _) = n"
| "amf_name (AMFNull n) = n"
| "amf_name (AMFObject n _) = n"

text \<open>The accessors: the default of \<open>AMFAny\<close> when the value is of another kind.\<close>

fun amf_str :: "amf_any \<Rightarrow> string" where
  "amf_str (AMFString _ s) = s"
| "amf_str (AMFLongString _ s) = s"
| "amf_str _ = []"

fun amf_number :: "amf_any \<Rightarrow> u64" where
  "amf_number (AMFNumber _ v) = v"
| "amf_number _ = 0"

fun amf_boolean :: "amf_any \<Rightarrow> bool" where
  "amf_boolean (AMFBoolean _ b) = b"
| "amf_boolean _ = False"

fun amf_object :: "amf_any \<Rightarrow> amf_any list option" where
  "amf_object (AMFObject _ ps) = Some ps"
| "amf_object _ = None"

section \<open>Encoders\<close>

definition writeNumber :: "u64 \<Rightarrow> bytes" where
  "writeNumber val = writeUint64BE val"

definition encodeNumber :: "u64 \<Rightarrow> bytes" where
  "encodeNumber val = kAMFNumber # writeNumber val"

definition encodeString :: "string \<Rightarrow> bytes" where
  "encodeString str = kAMFString # writeUint16T (word_of_nat (length str)) @ bytes_of_string str"

definition encodeBoolean :: "bool \<Rightarrow> bytes" where
  "encodeBoolean b = [kAMFBoolean, if b then 1 else 0]"

definition encodeName :: "string \<Rightarrow> bytes" where
  "encodeName name = writeUint16T (word_of_nat (length name)) @ bytes_of_string name"

definition encodeNamedNumber :: "string \<Rightarrow> u64 \<Rightarrow> bytes" where
  "encodeNamedNumber name val = encodeName name @ encodeNumber val"

definition encodeNamedString :: "string \<Rightarrow> string \<Rightarrow> bytes" where
  "encodeNamedString name val = encodeName name @ encodeString val"

definition encodeNamedBoolean :: "string \<Rightarrow> bool \<Rightarrow> bytes" where
  "encodeNamedBoolean name val = encodeName name @ encodeBoolean val"

section \<open>Element decoders\<close>

definition readUint64T :: "bytes \<Rightarrow> nat \<Rightarrow> u64 res" where
  "readUint64T m i = bindr (readUint64BE m i) f64_to_u64"

definition decodeString :: "bytes \<Rightarrow> string res" where
  "decodeString m = bindr (readUint16T m 0)
     (\<lambda>len. if 0 < len then bindr (slice m 2 (unat len)) (\<lambda>b. Inr (string_of_bytes b))
            else Inr [])"

definition number_decode :: "bytes \<Rightarrow> int \<Rightarrow> (u64 \<times> nat) option res" where
  "number_decode m sz =
     (if 8 \<le> sz then bindr (readUint64T m 0) (\<lambda>v. Inr (Some (f64_of_u64 v, 8)))
      else Inr None)"

definition boolean_decode :: "bytes \<Rightarrow> int \<Rightarrow> (bool \<times> nat) option res" where
  "boolean_decode m sz =
     (if 1 \<le> sz then bindr (readUint8T m 0) (\<lambda>v. Inr (Some (v \<noteq> 0, 1))) else Inr None)"

definition string_decode :: "bytes \<Rightarrow> int \<Rightarrow> (string \<times> nat) option res" where
  "string_decode m sz =
     (if sz < 2 then Inr None
      else bindr (readUint16T m 0)
        (\<lambda>len. if sz < int (unat len) + 2 then Inr None
               else bindr (decodeString m) (\<lambda>s. Inr (Some (s, unat len + 2)))))"

definition longstring_decode :: "bytes \<Rightarrow> int \<Rightarrow> (string \<times> nat) option res" where
  "longstring_decode m sz =
     (if sz < 2 then Inr None
      else bindr (readUint16T m 0)
        (\<lambda>len. if sz < int (unat len) + 2 then Inr None
               else bindr (slice m 2 (unat len))
                      (\<lambda>b. Inr (Some (string_of_bytes b, unat len + 2)))))"

definition date_decode :: "bytes \<Rightarrow> int \<Rightarrow> ((u64 \<times> u16) \<times> nat) option res" where
  "date_decode m sz =
     (if sz < 10 then Inr None
      else bindr (readUint64T m 0) (\<lambda>utc. bindr (readUint16T m 8)
        (\<lambda>off. Inr (Some ((f64_of_u64 utc, off), 10)))))"

section \<open>The object decoder\<close>

text \<open>
  The name in front of a value, when there is one: the name and how far the pointer moves.
  Over an empty name the pointer does not move.
\<close>

definition decode_name :: "bytes \<Rightarrow> bool \<Rightarrow> (string \<times> nat) res" where
  "decode_name m has =
     (if has then bindr (decodeString m)
        (\<lambda>s. Inr (s, if s = [] then 0 else length s + 2))
      else Inr ([], 0))"

text \<open>What the \<open>switch\<close> on the type tag does: fail, end the object, or store a value (or none,
  for a tag that is not supported) and move the pointer on.\<close>

datatype amf_step = StepFail | StepEnd | StepVal "amf_any option" nat

definition step_of :: "('a \<Rightarrow> amf_any) \<Rightarrow> nat \<Rightarrow> ('a \<times> nat) option \<Rightarrow> amf_step" where
  "step_of mk k r = (case r of None \<Rightarrow> StepFail | Some (v, len) \<Rightarrow> StepVal (Some (mk v)) (k + len))"

definition add_prop :: "amf_any list \<Rightarrow> amf_any option \<Rightarrow> amf_any list" where
  "add_prop ps p = (case p of None \<Rightarrow> ps | Some v \<Rightarrow> ps @ [v])"

lemma readUint8T_some: "readUint8T m i = Inr v \<Longrightarrow> i < length m"
  using c8.get_short [of m i] by (cases "i < length m") auto

lemma readUint32T_some: "readUint32T m i = Inr v \<Longrightarrow> i + 4 \<le> length m"
  using c32.get_short [of m i] by (cases "i + 4 \<le> length m") auto

text \<open>
  \<open>decode\<close> and \<open>decodeOnce\<close> share the body of their \<open>switch\<close>, here \<open>amf_value\<close>: it gets the
  tag, the name, the memory after the tag and what the message has left there. The loop over
  the elements of a strict array is \<open>amf_strict\<close>; its count is a signed integer.
\<close>

function amf_decode :: "bytes \<Rightarrow> int \<Rightarrow> bool \<Rightarrow> nat \<Rightarrow> amf_any list
    \<Rightarrow> (amf_any list \<times> nat) option res"
  and amf_value :: "byte \<Rightarrow> string \<Rightarrow> bytes \<Rightarrow> int \<Rightarrow> amf_step res"
  and amf_strict :: "int \<Rightarrow> bytes \<Rightarrow> int \<Rightarrow> nat \<Rightarrow> amf_any list
    \<Rightarrow> (amf_any list \<times> nat) option res"
  and amf_once :: "bytes \<Rightarrow> int \<Rightarrow> bool \<Rightarrow> (amf_any option \<times> nat) option res"
where
  "amf_decode m sz has parsed props =
     (if int parsed + 3 \<le> sz then
        bindr (readUint24T m 0) (\<lambda>e.
          if e = 9 then Inr (Some (props, parsed + 3))
          else bindr (decode_name m has) (\<lambda>(nname, k).
            bindr (readUint8T m k) (\<lambda>ty.
              bindr (amf_value ty nname (drop (k + 1) m) (sz - int (parsed + k + 1))) (\<lambda>s.
                case s of
                  StepFail \<Rightarrow> Inr None
                | StepEnd \<Rightarrow> Inr (Some (props, parsed + k + 1))
                | StepVal p len \<Rightarrow>
                    amf_decode (drop len (drop (k + 1) m)) sz has (parsed + k + 1 + len)
                      (add_prop props p)))))
      else Inr (Some (props, parsed)))"
| "amf_value ty nname m avail =
     (if ty = kAMFNumber then
        bindr (number_decode m avail) (\<lambda>r. Inr (step_of (AMFNumber nname) 0 r))
      else if ty = kAMFBoolean then
        bindr (boolean_decode m avail) (\<lambda>r. Inr (step_of (AMFBoolean nname) 0 r))
      else if ty = kAMFString then
        bindr (string_decode m avail) (\<lambda>r. Inr (step_of (AMFString nname) 0 r))
      else if ty = kAMFObject then
        bindr (amf_decode m avail True 0 []) (\<lambda>r. Inr (step_of (AMFObject nname) 0 r))
      else if ty = kAMFNull then Inr (StepVal (Some (AMFNull [])) 0)
      else if ty = kAMFEcmaArray then
        bindr (readUint32T m 0) (\<lambda>count.
          bindr (amf_decode (drop 4 m) (avail - 4) True 0 [])
            (\<lambda>r. Inr (step_of (AMFObject nname) 4 r)))
      else if ty = kAMFObjectEnd then Inr StepEnd
      else if ty = kAMStrictArray then
        bindr (readUint32T m 0) (\<lambda>count.
          bindr (amf_strict (sint count) (drop 4 m) (avail - 4) 0 [])
            (\<lambda>r. Inr (step_of (AMFObject nname) 4 r)))
      else if ty = kAMFDate then
        bindr (date_decode m avail) (\<lambda>r. Inr (step_of (\<lambda>(u, off). AMFDate nname u off) 0 r))
      else if ty = kAMFLongString then
        bindr (longstring_decode m avail) (\<lambda>r. Inr (step_of (AMFLongString nname) 0 r))
      else Inr (StepVal None 0))"
| "amf_strict count m avail used props =
     (if 0 < count then
        bindr (amf_once m avail True) (\<lambda>r. case r of
            None \<Rightarrow> Inr None
          | Some (p, len) \<Rightarrow>
              amf_strict (count - 1) (drop len m) (avail - int len) (used + len) (add_prop props p))
      else Inr (Some (props, used)))"
| "amf_once m sz has =
     bindr (decode_name m has) (\<lambda>(nname, k).
       bindr (readUint8T m k) (\<lambda>ty.
         bindr (amf_value ty nname (drop (k + 1) m) (sz - int (k + 1))) (\<lambda>s.
           case s of
             StepFail \<Rightarrow> Inr None
           | StepEnd \<Rightarrow> Inr (Some (None, k + 1))
           | StepVal p len \<Rightarrow> Inr (Some (p, k + 1 + len)))))"
  by pat_completeness auto

text \<open>
  Every call of \<open>amf_value\<close> has read a tag, so its memory is shorter than its caller's; the
  strict-array loop counts down. So the decoder stops on every input, however deep its objects.
\<close>

termination
  by (relation "measures
      [case_sum
         (case_sum (\<lambda>(m, sz, has, parsed, props). length m) (\<lambda>(ty, nname, m, avail). length m))
         (case_sum (\<lambda>(count, m, avail, used, props). length m) (\<lambda>(m, sz, has). length m)),
       case_sum (case_sum (\<lambda>_. 0) (\<lambda>_. 1)) (case_sum (\<lambda>_. 2) (\<lambda>_. 0)),
       case_sum (case_sum (\<lambda>_. 0) (\<lambda>_. 0))
         (case_sum (\<lambda>(count, m, avail, used, props). nat count) (\<lambda>_. 0))]")
    (auto dest!: readUint8T_some readUint32T_some)

declare amf_decode.simps [simp del] amf_value.simps [simp del] amf_strict.simps [simp del]
  amf_once.simps [simp del]

text \<open>\<open>AMFObject::decode\<close> and \<open>decodeOnce\<close> as the program calls them on a fresh object.\<close>

definition object_decode :: "bytes \<Rightarrow> int \<Rightarrow> bool \<Rightarrow> (amf_any list \<times> nat) option res" where
  "object_decode m sz has = amf_decode m sz has 0 []"

section \<open>Lookups\<close>

fun property_named :: "amf_any list \<Rightarrow> string \<Rightarrow> amf_any option" where
  "property_named [] name = None"
| "property_named (p # ps) name =
     (if amf_name p = name then Some p
      else case p of
        AMFObject _ qs \<Rightarrow>
          (case property_named qs name of Some p2 \<Rightarrow> Some p2 | None \<Rightarrow> property_named ps name)
      | _ \<Rightarrow> property_named ps name)"

definition property_at :: "amf_any list \<Rightarrow> int \<Rightarrow> amf_any option" where
  "property_at ps index =
     (if index < 0 \<or> int (length ps) \<le> index then None else Some (ps ! nat index))"

section \<open>A reference encoder\<close>

text \<open>
  The format the decoder is for: each property is its name, a tag and a payload; an object
  ends with an empty name and the end tag. \<open>well_named\<close> is what a property needs to be
  written: a name that is not empty and fits a 16-bit length, strings that fit one, numbers
  that are whole and below two to the 53.
\<close>

fun amf_tag :: "amf_any \<Rightarrow> byte" where
  "amf_tag (AMFNumber _ _) = kAMFNumber"
| "amf_tag (AMFBoolean _ _) = kAMFBoolean"
| "amf_tag (AMFString _ _) = kAMFString"
| "amf_tag (AMFLongString _ _) = kAMFLongString"
| "amf_tag (AMFDate _ _ _) = kAMFDate"
| "amf_tag (AMFNull _) = kAMFNull"
| "amf_tag (AMFObject _ _) = kAMFObject"

definition object_end :: bytes where
  "object_end = [0, 0, 9]"

fun amf_payload :: "amf_any \<Rightarrow> bytes" where
  "amf_payload (AMFNumber _ v) = writeNumber v"
| "amf_payload (AMFBoolean _ b) = [if b then 1 else 0]"
| "amf_payload (AMFString _ s) = encodeName s"
| "amf_payload (AMFLongString _ s) = encodeName s"
| "amf_payload (AMFDate _ u off) = writeNumber u @ writeUint16T off"
| "amf_payload (AMFNull _) = []"
| "amf_payload (AMFObject _ ps) =
     concat (map (\<lambda>p. encodeName (amf_name p) @ amf_tag p # amf_payload p) ps) @ object_end"

definition amf_encode_prop :: "amf_any \<Rightarrow> bytes" where
  "amf_encode_prop p = encodeName (amf_name p) @ amf_tag p # amf_payload p"

definition amf_encode :: "amf_any list \<Rightarrow> bytes" where
  "amf_encode ps = concat (map amf_encode_prop ps) @ object_end"

definition whole_number :: "u64 \<Rightarrow> bool" where
  "whole_number v \<longleftrightarrow> (case f64_to_u64 v of Inl _ \<Rightarrow> False | Inr w \<Rightarrow> f64_of_u64 w = v)"

definition fits16 :: "string \<Rightarrow> bool" where
  "fits16 s \<longleftrightarrow> length s < 2 ^ 16"

fun well_named :: "amf_any \<Rightarrow> bool" where
  "well_named (AMFNumber n v) \<longleftrightarrow> n \<noteq> [] \<and> fits16 n \<and> whole_number v"
| "well_named (AMFBoolean n b) \<longleftrightarrow> n \<noteq> [] \<and> fits16 n"
| "well_named (AMFString n s) \<longleftrightarrow> n \<noteq> [] \<and> fits16 n \<and> fits16 s"
| "well_named (AMFLongString n s) \<longleftrightarrow> n \<noteq> [] \<and> fits16 n \<and> fits16 s"
| "well_named (AMFDate n u off) \<longleftrightarrow> n \<noteq> [] \<and> fits16 n \<and> whole_number u"
| "well_named (AMFNull n) \<longleftrightarrow> n \<noteq> [] \<and> fits16 n"
| "well_named (AMFObject n ps) \<longleftrightarrow> n \<noteq> [] \<and> fits16 n \<and> (\<forall>p \<in> set ps. well_named p)"

text \<open>The decoder makes a null value without its name.\<close>

fun forget_null :: "amf_any \<Rightarrow> amf_any" where
  "forget_null (AMFNull n) = AMFNull []"
| "forget_null (AMFObject n ps) = AMFObject n (map forget_null ps)"
| "forget_null p = p"

section \<open>Decoding what the reference encoder writes\<close>

lemma well_named_name: "well_named p \<Longrightarrow> amf_name p \<noteq> [] \<and> fits16 (amf_name p)"
  by (cases p) simp_all

lemma unat_length16: "fits16 s \<Longrightarrow> unat (word_of_nat (length s) :: u16) = length s"
  by (simp add: fits16_def unat_of_nat)

lemma uint_length16: "fits16 s \<Longrightarrow> uint (word_of_nat (length s) :: u16) = int (length s)"
  using unat_length16 [of s] by (metis uint_nat)

lemma length_encodeName [simp]: "length (encodeName s) = length s + 2"
  by (simp add: encodeName_def)

lemma slice_after_length16:
  "slice (writeUint16T l @ b @ r) 2 (length b) = Inr b"
  by (simp add: slice_def)

lemma readUint16T_encodeName [simp]:
  "readUint16T (encodeName s @ r) 0 = Inr (word_of_nat (length s))"
  by (simp add: encodeName_def)

lemma word_of_length_pos: "fits16 s \<Longrightarrow> 0 < (word_of_nat (length s) :: u16) \<longleftrightarrow> s \<noteq> []"
  using unat_length16 [of s] by (simp add: word_less_nat_alt)

lemma slice_encodeName: "slice (encodeName s @ r) 2 (length s) = Inr (bytes_of_string s)"
  using slice_after_length16 [of _ "bytes_of_string s" r] by (simp add: encodeName_def)

lemma decodeString_encodeName: "fits16 s \<Longrightarrow> decodeString (encodeName s @ r) = Inr s"
  by (auto simp: decodeString_def word_of_length_pos unat_length16 slice_encodeName
      string_of_bytes_of_string simp del: map_map)

lemma readUint64T_whole:
  "whole_number v \<Longrightarrow> \<exists>w. readUint64T (writeNumber v @ r) 0 = Inr w \<and> f64_of_u64 w = v"
  by (auto simp: readUint64T_def writeNumber_def whole_number_def split: sum.splits)

lemma whole_number_of_u64: "uint w < 2 ^ 53 \<Longrightarrow> whole_number (f64_of_u64 w)"
  by (simp add: whole_number_def f64_to_u64_of_u64)

lemma length_writeNumber [simp]: "length (writeNumber v) = 8"
  by (simp add: writeNumber_def)

lemma join24_high:
  "drop_bit 8 (push_bit 16 (ucast (ucast (drop_bit 8 l) :: u8))
      OR push_bit 8 (ucast (ucast l :: u8)) OR ucast c :: u32) = ucast l"
  for l :: u16 and c :: u8
  by (rule bit_word_eqI) (auto simp: bit_simps not_less dest: bit_imp_le_length)

lemma ucast_16_32_zero: "(ucast l :: u32) = 0 \<Longrightarrow> l = 0" for l :: u16
  by transfer simp

lemma readUint24T_encodeName:
  assumes "s \<noteq> []" "fits16 s"
  shows "\<exists>e. readUint24T (encodeName s @ r) 0 = Inr e \<and> e \<noteq> 9"
proof -
  let ?l = "word_of_nat (length s) :: u16"
  obtain c t where s: "s = c # t" using assms(1) by (cases s) auto
  have l: "0 < ?l" using assms by (simp add: word_of_length_pos)
  let ?e = "push_bit 16 (ucast (ucast (drop_bit 8 ?l) :: u8))
      OR push_bit 8 (ucast (ucast ?l :: u8)) OR ucast (byte_of_char c) :: u32"
  have get: "readUint24T (encodeName s @ r) 0 = Inr ?e"
    by (simp add: readUint24T_def encodeName_def writeUint16T_def slice_def s)
  have "?e \<noteq> 9"
  proof
    assume "?e = 9"
    then have "(ucast ?l :: u32) = drop_bit 8 9"
      by (metis join24_high)
    then have "(ucast ?l :: u32) = 0" by simp
    then have "?l = 0" by (rule ucast_16_32_zero)
    then show False using l by simp
  qed
  with get show ?thesis by blast
qed
text \<open>One round of the loop over a property whose value decodes.\<close>

lemma decode_name_encoded:
  "fits16 s \<Longrightarrow> s \<noteq> [] \<Longrightarrow> decode_name (encodeName s @ r) True = Inr (s, length s + 2)"
  by (simp add: decode_name_def decodeString_encodeName)

lemma amf_decode_prop:
  assumes p: "well_named p"
    and val: "amf_value (amf_tag p) (amf_name p) (amf_payload p @ r)
                (sz - int (parsed + length (amf_name p) + 3))
              = Inr (StepVal (Some v) (length (amf_payload p)))"
    and room: "int (parsed + length (amf_encode_prop p)) \<le> sz"
  shows "amf_decode (amf_encode_prop p @ r) sz True parsed props
       = amf_decode r sz True (parsed + length (amf_encode_prop p)) (props @ [v])"
proof -
  let ?n = "amf_name p"
  let ?m = "encodeName ?n @ (amf_tag p # amf_payload p @ r)"
  from well_named_name [OF p] have n: "?n \<noteq> []" "fits16 ?n" by simp_all
  obtain e where e: "readUint24T ?m 0 = Inr e" "e \<noteq> 9"
    using readUint24T_encodeName [OF n] by blast
  have ty: "readUint8T ?m (length ?n + 2) = Inr (amf_tag p)"
    using c8.get_at_id [of "encodeName ?n" "length ?n + 2" "amf_tag p" "amf_payload p @ r"]
    by (simp add: writeUint8T_def)
  have rest: "drop (length ?n + 2 + 1) ?m = amf_payload p @ r" by simp
  have three: "int parsed + 3 \<le> sz"
    using room by (simp add: amf_encode_prop_def)
  have "amf_decode ?m sz True parsed props
      = amf_decode r sz True (parsed + length (amf_encode_prop p)) (props @ [v])"
    by (subst amf_decode.simps)
      (simp only: three if_True e bindr_simps if_False decode_name_encoded [OF n(2,1)]
        ty rest case_prod_conv,
       use val in \<open>simp add: add_prop_def amf_encode_prop_def algebra_simps\<close>)
  then show ?thesis by (simp add: amf_encode_prop_def)
qed

lemma length_object_end [simp]: "length object_end = 3"
  by (simp add: object_end_def)

lemma amf_decode_end:
  "int parsed + 3 \<le> sz \<Longrightarrow>
   amf_decode (object_end @ r) sz True parsed props = Inr (Some (props, parsed + 3))"
  by (subst amf_decode.simps) (simp add: object_end_def readUint24T_def slice_def)

lemma amf_decode_props:
  assumes "\<forall>p \<in> set ps. well_named p"
    and "\<forall>p \<in> set ps. \<forall>r avail. int (length (amf_payload p)) \<le> avail \<longrightarrow>
           amf_value (amf_tag p) (amf_name p) (amf_payload p @ r) avail
           = Inr (StepVal (Some (forget_null p)) (length (amf_payload p)))"
    and "int (parsed + length (amf_encode ps)) \<le> sz"
  shows "amf_decode (amf_encode ps @ r) sz True parsed props
       = Inr (Some (props @ map forget_null ps, parsed + length (amf_encode ps)))"
  using assms
proof (induction ps arbitrary: parsed props)
  case Nil
  then show ?case by (simp add: amf_encode_def amf_decode_end)
next
  case (Cons p ps)
  have e: "amf_encode (p # ps) = amf_encode_prop p @ amf_encode ps"
    by (simp add: amf_encode_def)
  from Cons.prems(3) have room: "int (parsed + length (amf_encode_prop p)) \<le> sz"
    and room': "int (parsed + length (amf_encode_prop p) + length (amf_encode ps)) \<le> sz"
    by (simp_all add: e)
  from room have "int (length (amf_payload p)) \<le> sz - int (parsed + length (amf_name p) + 3)"
    by (simp add: amf_encode_prop_def)
  with Cons.prems(1,2)
  have "amf_decode (amf_encode_prop p @ amf_encode ps @ r) sz True parsed props
      = amf_decode (amf_encode ps @ r) sz True (parsed + length (amf_encode_prop p))
          (props @ [forget_null p])"
    by (intro amf_decode_prop room) simp_all
  with Cons.IH [OF _ _ room'] Cons.prems show ?case by (simp add: e)
qed

lemma amf_value_payload:
  "well_named p \<Longrightarrow> int (length (amf_payload p)) \<le> avail \<Longrightarrow>
   amf_value (amf_tag p) (amf_name p) (amf_payload p @ r) avail
   = Inr (StepVal (Some (forget_null p)) (length (amf_payload p)))"
proof (induction p arbitrary: r avail)
  case (AMFNumber n v)
  then show ?case
    using readUint64T_whole [of v r]
    by (subst amf_value.simps) (auto simp: amf_tags number_decode_def step_of_def)
next
  case (AMFBoolean n b)
  then show ?case
    by (subst amf_value.simps)
      (simp add: amf_tags boolean_decode_def step_of_def readUint8T_def slice_def)
next
  case (AMFString n s)
  then show ?case
    by (subst amf_value.simps)
      (simp add: amf_tags string_decode_def step_of_def unat_length16 uint_length16
         decodeString_encodeName)
next
  case (AMFLongString n s)
  then show ?case
    by (subst amf_value.simps)
      (simp add: amf_tags longstring_decode_def step_of_def unat_length16 uint_length16 slice_encodeName
         string_of_bytes_of_string del: map_map)
next
  case (AMFDate n u off)
  have "readUint16T (writeNumber u @ writeUint16T off @ r) 8 = Inr off"
    by (rule c16.get_at_id) simp
  with AMFDate show ?case
    using readUint64T_whole [of u "writeUint16T off @ r"]
    by (subst amf_value.simps) (auto simp: amf_tags date_decode_def step_of_def)
next
  case (AMFNull n)
  then show ?case by (subst amf_value.simps) (simp add: amf_tags)
next
  case (AMFObject n ps)
  have pay: "amf_payload (AMFObject n ps) = amf_encode ps"
    by (simp add: amf_encode_def amf_encode_prop_def [abs_def])
  have len: "int (length (amf_encode ps)) \<le> avail"
    using AMFObject.prems(2) by (simp only: pay)
  have "amf_decode (amf_encode ps @ r) avail True 0 []
      = Inr (Some ([] @ map forget_null ps, 0 + length (amf_encode ps)))"
    using AMFObject.prems(1) AMFObject.IH len by (intro amf_decode_props) auto
  then show ?case
    unfolding pay by (subst amf_value.simps) (simp add: amf_tags step_of_def)
qed

lemma object_decode_encoded:
  "\<forall>p \<in> set ps. well_named p \<Longrightarrow> int (length (amf_encode ps)) \<le> sz \<Longrightarrow>
   object_decode (amf_encode ps @ r) sz True
   = Inr (Some (map forget_null ps, length (amf_encode ps)))"
  using amf_decode_props [of ps 0 sz r "[]"] amf_value_payload by (simp add: object_decode_def)

section \<open>Values without names\<close>

text \<open>A command is a sequence of values without names; its decoder runs to the end of the message.\<close>

lemma whole_number_of_int: "0 \<le> n \<Longrightarrow> n < 2 ^ 53 \<Longrightarrow> whole_number (f64_of_int n)"
proof -
  assume n: "0 \<le> n" "n < 2 ^ 53"
  then have "uint (word_of_int n :: u64) = n" by (simp add: uint_word_of_int)
  then show ?thesis using whole_number_of_u64 [of "word_of_int n"] n(2) by (simp add: f64_of_u64_def)
qed

lemma amf_value_string:
  "fits16 s \<Longrightarrow> int (length s + 2) \<le> avail \<Longrightarrow>
   amf_value kAMFString n (encodeName s @ r) avail = Inr (StepVal (Some (AMFString n s)) (length s + 2))"
  by (subst amf_value.simps)
    (simp add: amf_tags string_decode_def step_of_def unat_length16 uint_length16 decodeString_encodeName)

lemma amf_value_number:
  "whole_number v \<Longrightarrow> 8 \<le> avail \<Longrightarrow>
   amf_value kAMFNumber n (writeNumber v @ r) avail = Inr (StepVal (Some (AMFNumber n v)) 8)"
  using readUint64T_whole [of v r]
  by (subst amf_value.simps) (auto simp: amf_tags number_decode_def step_of_def)

lemma amf_value_object:
  assumes "\<forall>p \<in> set ps. well_named p" "int (length (amf_encode ps)) \<le> avail"
  shows "amf_value kAMFObject n (amf_encode ps @ r) avail
       = Inr (StepVal (Some (AMFObject n (map forget_null ps))) (length (amf_encode ps)))"
  using object_decode_encoded [OF assms, of r]
  by (subst amf_value.simps) (simp add: amf_tags step_of_def object_decode_def)

text \<open>One round of the decoder over such a value.\<close>

lemma amf_decode_item:
  assumes "amf_value ty [] (pay @ r) (sz - int (parsed + 1)) = Inr (StepVal (Some v) (length pay))"
    and "readUint24T (ty # pay @ r) 0 = Inr e" "e \<noteq> 9" "int parsed + 3 \<le> sz"
  shows "amf_decode (ty # pay @ r) sz False parsed props
       = amf_decode r sz False (parsed + 1 + length pay) (props @ [v])"
proof -
  have ty: "readUint8T (ty # pay @ r) 0 = Inr ty" by (simp add: readUint8T_def slice_def)
  show ?thesis
    by (subst amf_decode.simps)
      (use assms(1,4) in \<open>simp add: assms(2,3) decode_name_def ty add_prop_def add.commute\<close>)
qed

lemma tag_not_end:
  assumes "ty \<noteq> 0" "2 \<le> length m"
  shows "\<exists>e. readUint24T (ty # m) 0 = Inr e \<and> e \<noteq> 9"
proof -
  obtain a b r where m: "m = a # b # r" using assms(2) by (cases m rule: list.exhaust; cases "tl m") auto
  let ?e = "push_bit 16 (ucast ty) OR push_bit 8 (ucast a) OR ucast b :: u32"
  have "?e \<noteq> 9"
  proof
    assume e: "?e = 9"
    have "(ucast (drop_bit 16 ?e) :: u8) = ty"
      by (rule bit_word_eqI) (auto simp: bit_simps dest: bit_imp_le_length)
    then show False using assms(1) by (simp add: e)
  qed
  moreover have "readUint24T (ty # m) 0 = Inr ?e"
    by (simp add: readUint24T_def slice_def m)
  ultimately show ?thesis by blast
qed

section \<open>Properties\<close>

text \<open>
  C25: the decoder reads objects back. What the AMF0 encoding of a list of named properties is -
  nested objects to any depth, strings, booleans, dates and whole numbers below two to the 53 -
  \<open>AMFObject::decode\<close> turns into the same properties in the same order, takes exactly the bytes
  of the encoding, ending with the object's end mark, and never looks at what follows them. No name
  is empty; and a null value loses its name.
\<close>

theorem amf_object_round_trip:
  assumes "\<forall>p \<in> set ps. well_named p" "int (length (amf_encode ps)) \<le> sz"
  shows "object_decode (amf_encode ps @ r) sz True
       = Inr (Some (map forget_null ps, length (amf_encode ps)))"
  using assms by (rule object_decode_encoded)

theorem amf_object_round_trip_witness:
  "object_decode (amf_encode [AMFObject ''o'' [AMFString ''s'' ''x'', AMFNull ''n''], AMFBoolean ''b'' True] @ [7]) 100 True
   = Inr (Some ([AMFObject ''o'' [AMFString ''s'' ''x'', AMFNull []], AMFBoolean ''b'' True], 26))"
proof -
  let ?ps = "[AMFObject ''o'' [AMFString ''s'' ''x'', AMFNull ''n''], AMFBoolean ''b'' True]"
  have "\<forall>p \<in> set ?ps. well_named p" by (simp add: fits16_def)
  moreover have len: "length (amf_encode ?ps) = 26"
    by (simp add: amf_encode_def amf_encode_prop_def)
  ultimately show ?thesis using amf_object_round_trip [of ?ps 100 "[7]"] by simp
qed

text \<open>
  A property name is not checked against the message. An object whose first name claims more
  bytes than there are is read behind its end.
\<close>

theorem amf_name_overread:
  assumes "length m < unat l" "1 \<le> length m" "readUint24T (writeUint16T l @ m) 0 \<noteq> Inr 9" "3 \<le> sz"
  shows "object_decode (writeUint16T l @ m) sz True = Inl OutOfBounds"
proof -
  have "3 \<le> length (writeUint16T l @ m)" using assms(2) by (simp add: writeUint16T_def)
  then obtain e where e: "readUint24T (writeUint16T l @ m) 0 = Inr e" "e \<noteq> 9"
    using c24.get_total [of 0 "writeUint16T l @ m"] assms(3) by auto
  have l: "0 < l" using assms(1) by (simp add: word_less_nat_alt)
  have "slice (writeUint16T l @ m) 2 (unat l) = Inl OutOfBounds"
    using assms(1) by (simp add: slice_def writeUint16T_def)
  then have "decode_name (writeUint16T l @ m) True = Inl OutOfBounds"
    by (simp add: decode_name_def decodeString_def l)
  then show ?thesis
    unfolding object_decode_def by (subst amf_decode.simps) (simp add: e assms(4))
qed

theorem amf_name_overread_witness:
  "object_decode [0xFF, 0xFF, 1] 3 True = Inl OutOfBounds"
proof -
  have "writeUint16T 0xFFFF = [0xFF, 0xFF]" by code_simp
  then show ?thesis
    using amf_name_overread [of "[1]" "0xFFFF" 3] by (simp add: readUint24T_def slice_def)
qed

text \<open>
  A negative number has no decoded value. The eight bytes of a \<open>double\<close> at or below minus one
  are converted to an unsigned integer, which is undefined; the body of the program's own \<open>play\<close>
  command ends with such a number, minus one thousand.
\<close>

theorem amf_negative_number:
  assumes "f64_negative v" "1023 \<le> f64_exp v" "8 \<le> sz"
  shows "number_decode (writeNumber v @ r) sz = Inl BadConversion"
  using assms by (simp add: number_decode_def readUint64T_def writeNumber_def f64_to_u64_def Let_def)

theorem amf_negative_number_witness:
  "number_decode (writeNumber (f64_neg (f64_of_int 1000))) 8 = Inl BadConversion"
proof -
  have "f64_neg (f64_of_int 1000) = 0xC08F400000000000" by code_simp
  then show ?thesis
    using amf_negative_number [of "f64_neg (f64_of_int 1000)" 8 "[]"]
    by (simp add: f64_negative_def f64_exp_def)
qed

end
