(* ===== verification/Handshake.thy ===== *)
theory Handshake
  imports MsgBuffer
begin

text \<open>
  The RTMP handshake of \<open>src/mmedia/rtmp/rtmp_handshake.cpp\<close>, for the server and the client.

  HMAC-SHA256 belongs to OpenSSL, random bytes to the standard library's device and the time to
  the clock: they are the parameters of the record \<open>hs_env\<close>. A raw \<open>send\<close> of the connection
  may write everything at once and then calls \<open>writeComplete\<close> before it returns; \<open>at_once\<close>
  says for each send, numbered from zero, whether it does.
\<close>

section \<open>Parameters and state\<close>

record hs_env =
  hmac :: "bytes \<Rightarrow> bytes \<Rightarrow> bytes"
  rndC1 :: "nat \<Rightarrow> byte"
  rndC2 :: "nat \<Rightarrow> byte"
  hs_now :: u64
  at_once :: "nat \<Rightarrow> bool"

datatype hs_state =
    kHandShakeInit
  | kHandShakePostC0C1 | kHandShakeWaitS0S1 | kHandShakePostC2 | kHandShakeWaitS2
  | kHandShakeDoning
  | kHandShakeWaitC0C1 | kHandShakePostS0S1 | kHandShakePostS2 | kHandShakeWaitC2
  | kHandShakeDone

record handshake =
  hs_client :: bool
  hs_complex :: bool
  hs_digest :: bytes
  hs_C1S1 :: bytes
  hs_C2S2 :: bytes
  hs_state :: hs_state
  hs_out :: "bytes list"

definition kRtmpHandShakePacketSize :: nat where
  "kRtmpHandShakePacketSize = 1536"

definition newHandShake :: "bool \<Rightarrow> handshake" where
  "newHandShake client =
     \<lparr>hs_client = client, hs_complex = True, hs_digest = replicate 32 0,
      hs_C1S1 = replicate (kRtmpHandShakePacketSize + 1) 0,
      hs_C2S2 = replicate kRtmpHandShakePacketSize 0, hs_state = kHandShakeInit, hs_out = []\<rparr>"

section \<open>Keys and versions\<close>

definition rtmp_server_ver :: bytes where
  "rtmp_server_ver = [0x0d, 0x0e, 0x0a, 0x0d]"

definition rtmp_client_ver :: bytes where
  "rtmp_client_ver = [0x0c, 0x00, 0x0d, 0x0e]"

definition key_tail :: bytes where
  "key_tail =
     [0xF0, 0xEE, 0xC2, 0x4A, 0x80, 0x68, 0xBE, 0xE8, 0x2E, 0x00, 0xD0,
      0xD1, 0x02, 0x9E, 0x7E, 0x57, 0x6E, 0xEC, 0x5D, 0x2D, 0x29, 0x80,
      0x6F, 0xAB, 0x93, 0xB8, 0xE6, 0x36, 0xCF, 0xEB, 0x31, 0xAE]"

definition rtmp_player_key :: bytes where
  "rtmp_player_key = bytes_of_string ''Genuine Adobe Flash Player 001'' @ key_tail"

definition rtmp_server_key :: bytes where
  "rtmp_server_key = bytes_of_string ''Genuine Adobe Flash Media Server 001'' @ key_tail"

definition PLAYER_KEY_OPEN_PART_LEN :: nat where
  "PLAYER_KEY_OPEN_PART_LEN = 30"

definition SERVER_KEY_OPEN_PART_LEN :: nat where
  "SERVER_KEY_OPEN_PART_LEN = 36"

section \<open>Digests\<close>

text \<open>
  \<open>calculateDigest\<close> feeds the key and the bytes around the gap of 32 to the HMAC. Its source
  argument is the memory its pointer points to.
\<close>

definition calculateDigest ::
  "(bytes \<Rightarrow> bytes \<Rightarrow> bytes) \<Rightarrow> bytes \<Rightarrow> nat \<Rightarrow> nat \<Rightarrow> bytes \<Rightarrow> nat \<Rightarrow> bytes res" where
  "calculateDigest mac src len gap key keylen =
     bindr (slice key 0 keylen) (\<lambda>k.
       if gap = 0 then bindr (slice src 0 len) (\<lambda>b. Inr (mac k b))
       else bindr (slice src 0 gap) (\<lambda>b1.
         bindr (slice src (gap + 32) (len - gap - 32)) (\<lambda>b2. Inr (mac k (b1 @ b2)))))"

definition verifyDigest ::
  "(bytes \<Rightarrow> bytes \<Rightarrow> bytes) \<Rightarrow> bytes \<Rightarrow> nat \<Rightarrow> bytes \<Rightarrow> nat \<Rightarrow> bool res" where
  "verifyDigest mac buf digest_pos key keyLen =
     bindr (calculateDigest mac buf 1536 digest_pos key keyLen) (\<lambda>digest.
       bindr (slice buf digest_pos 32) (\<lambda>b. Inr (b = digest)))"

definition getDigestOffset :: "bytes \<Rightarrow> nat \<Rightarrow> nat \<Rightarrow> nat res" where
  "getDigestOffset buf off mod_val =
     bindr (slice buf off 4) (\<lambda>p.
       let offset = unat (p ! 0) + unat (p ! 1) + unat (p ! 2) + unat (p ! 3)
       in Inr (offset mod mod_val + (off + 4)))"

text \<open>\<open>memcpy\<close> into an array at an offset.\<close>

definition put_at :: "nat \<Rightarrow> bytes \<Rightarrow> bytes \<Rightarrow> bytes res" where
  "put_at i xs m =
     (if i + length xs \<le> length m then Inr (take i m @ xs @ drop (i + length xs) m)
      else Inl OutOfBounds)"

section \<open>Creating the packets\<close>

definition createC1S1 :: "hs_env \<Rightarrow> handshake \<Rightarrow> handshake res" where
  "createC1S1 env h =
     (let c0 = map (rndC1 env) [0..<kRtmpHandShakePacketSize + 1] in
      bindr (put_at 0 [3] c0) (\<lambda>c1.
      bindr (put_at 1 (replicate 4 0) c1) (\<lambda>c2.
      if \<not> hs_complex h then
        bindr (put_at 5 (replicate 4 0) c2) (\<lambda>c3. Inr (h\<lparr>hs_C1S1 := c3\<rparr>))
      else
        bindr (getDigestOffset (drop 1 c2) 8 728) (\<lambda>offset.
        bindr (put_at 5 (if hs_client h then rtmp_client_ver else rtmp_server_ver) c2) (\<lambda>c3.
        bindr (if hs_client h
               then calculateDigest (hmac env) (drop 1 c3) kRtmpHandShakePacketSize offset
                      rtmp_player_key PLAYER_KEY_OPEN_PART_LEN
               else calculateDigest (hmac env) (drop 1 c3) kRtmpHandShakePacketSize offset
                      rtmp_server_key SERVER_KEY_OPEN_PART_LEN) (\<lambda>d.
        bindr (put_at (1 + offset) d c3) (\<lambda>c4.
        bindr (slice c4 (1 + offset) 32) (\<lambda>dg.
          Inr (h\<lparr>hs_C1S1 := c4, hs_digest := dg\<rparr>)))))))))"

definition createC2S2 :: "hs_env \<Rightarrow> handshake \<Rightarrow> bytes \<Rightarrow> nat \<Rightarrow> handshake res" where
  "createC2S2 env h data offset =
     (let c0 = map (rndC2 env) [0..<kRtmpHandShakePacketSize] in
      bindr (slice data 0 8) (\<lambda>d8.
      bindr (put_at 0 d8 c0) (\<lambda>c1.
      bindr (put_at 0 (writeUint32T (ucast (hs_now env))) c1) (\<lambda>c2.
      if hs_complex h then
        bindr (if hs_client h
               then calculateDigest (hmac env) (drop offset data) 32 0
                      rtmp_player_key (length rtmp_player_key)
               else calculateDigest (hmac env) (drop offset data) 32 0
                      rtmp_server_key (length rtmp_server_key)) (\<lambda>digest.
        bindr (calculateDigest (hmac env) c2 (kRtmpHandShakePacketSize - 32) 0 digest 32) (\<lambda>d.
        bindr (put_at (kRtmpHandShakePacketSize - 32) d c2) (\<lambda>c3.
          Inr (h\<lparr>hs_C2S2 := c3\<rparr>))))
      else Inr (h\<lparr>hs_C2S2 := c2\<rparr>)))))"

section \<open>Checking the packets\<close>

text \<open>
  \<open>checkC1S1\<close> returns the offset of the digest, 0 for a simple handshake, \<open>-1\<close> for an error;
  it may switch the handshake to the simple one. \<open>data\<close> is the received packet with its
  version byte.
\<close>

definition checkC1S1 :: "hs_env \<Rightarrow> handshake \<Rightarrow> bytes \<Rightarrow> nat \<Rightarrow> (int \<times> handshake) res" where
  "checkC1S1 env h data sz =
     (if sz \<noteq> kRtmpHandShakePacketSize + 1 then Inr (-1, h)
      else bindr (readUint8T data 0) (\<lambda>v.
        if v \<noteq> 3 then Inr (-1, h)
        else bindr (slice data 5 4) (\<lambda>version.
          if version = replicate 4 0 then Inr (0, h\<lparr>hs_complex := False\<rparr>)
          else if hs_complex h then
            (let hshake = drop 1 data;
                 key = (if hs_client h then rtmp_server_key else rtmp_player_key);
                 keylen = (if hs_client h then SERVER_KEY_OPEN_PART_LEN
                           else PLAYER_KEY_OPEN_PART_LEN)
             in bindr (getDigestOffset hshake 8 728) (\<lambda>offset.
                bindr (verifyDigest (hmac env) hshake offset key keylen) (\<lambda>ok.
                if ok then Inr (int offset, h)
                else bindr (getDigestOffset hshake 772 728) (\<lambda>offset2.
                     bindr (verifyDigest (hmac env) hshake offset2 key keylen) (\<lambda>ok2.
                     if ok2 then Inr (int offset2, h) else Inr (-1, h))))))
          else Inr (-1, h))))"

definition checkC2S2 :: "bytes \<Rightarrow> nat \<Rightarrow> bool" where
  "checkC2S2 data sz = True"

section \<open>The state machine\<close>

definition post :: "bytes \<Rightarrow> handshake \<Rightarrow> handshake" where
  "post b h = h\<lparr>hs_out := hs_out h @ [b]\<rparr>"

text \<open>
  \<open>writeComplete\<close>, and with it a send that completes at once. Only \<open>kHandShakePostS0S1\<close> sends
  again, and it leaves that state first, so the recursion is at most one deep.
\<close>

function writeComplete :: "(nat \<Rightarrow> bool) \<Rightarrow> handshake \<Rightarrow> handshake" where
  "writeComplete once h =
     (case hs_state h of
        kHandShakePostS0S1 \<Rightarrow>
          (let h1 = h\<lparr>hs_state := kHandShakePostS2\<rparr>; h2 = post (hs_C2S2 h1) h1
           in if once (length (hs_out h1)) then writeComplete once h2 else h2)
      | kHandShakePostS2 \<Rightarrow> h\<lparr>hs_state := kHandShakeWaitC2\<rparr>
      | kHandShakePostC0C1 \<Rightarrow> h\<lparr>hs_state := kHandShakeWaitS0S1\<rparr>
      | kHandShakePostC2 \<Rightarrow> h\<lparr>hs_state := kHandShakeDone\<rparr>
      | kHandShakeDoning \<Rightarrow> h\<lparr>hs_state := kHandShakeDone\<rparr>
      | _ \<Rightarrow> h)"
  by pat_completeness auto
termination
  by (relation "measure (\<lambda>(once, h). if hs_state h = kHandShakePostS0S1 then 1 else 0)")
    (auto simp: post_def)

declare writeComplete.simps [simp del]

definition hs_send :: "hs_env \<Rightarrow> bytes \<Rightarrow> handshake \<Rightarrow> handshake" where
  "hs_send env b h =
     (if at_once env (length (hs_out h)) then writeComplete (at_once env) (post b h)
      else post b h)"

definition sendC1S1 :: "hs_env \<Rightarrow> handshake \<Rightarrow> handshake" where
  "sendC1S1 env h = hs_send env (hs_C1S1 h) h"

definition sendC2S2 :: "hs_env \<Rightarrow> handshake \<Rightarrow> handshake" where
  "sendC2S2 env h = hs_send env (hs_C2S2 h) h"

definition start :: "hs_env \<Rightarrow> handshake \<Rightarrow> handshake res" where
  "start env h =
     bindr (createC1S1 env h) (\<lambda>h1.
       if hs_client h1 then Inr (sendC1S1 env (h1\<lparr>hs_state := kHandShakePostC0C1\<rparr>))
       else Inr (h1\<lparr>hs_state := kHandShakeWaitC0C1\<rparr>))"

text \<open>The result of \<open>handShake\<close>: 1 to wait for more, 0 when done, -1 on an error.\<close>

definition handShake :: "hs_env \<Rightarrow> handshake \<Rightarrow> msgbuf \<Rightarrow> (int \<times> handshake \<times> msgbuf) res" where
  "handShake env h b =
     (let N = kRtmpHandShakePacketSize in
      case hs_state h of
        kHandShakeWaitC0C1 \<Rightarrow>
          if readableBytes b < N + 1 then Inr (1, h, b)
          else bindr (slice (peek b) 0 (N + 1)) (\<lambda>data.
            bindr (checkC1S1 env h data (N + 1)) (\<lambda>(offset, h1).
              if 0 \<le> offset then
                bindr (createC2S2 env (h1\<lparr>hs_state := kHandShakePostS0S1\<rparr>)
                         (drop 1 data) (nat offset)) (\<lambda>h2.
                  Inr (1, sendC1S1 env h2, retrieve b (N + 1)))
              else Inr (-1, h1, b)))
      | kHandShakeWaitC2 \<Rightarrow>
          if readableBytes b < N then Inr (1, h, b)
          else if checkC2S2 (peek b) N then
            Inr (0, h\<lparr>hs_state := kHandShakeDone\<rparr>, retrieve b N)
          else Inr (-1, h, b)
      | kHandShakeWaitS0S1 \<Rightarrow>
          if readableBytes b < N + 1 then Inr (1, h, b)
          else bindr (slice (peek b) 0 (N + 1)) (\<lambda>data.
            bindr (checkC1S1 env h data (N + 1)) (\<lambda>(offset, h1).
              if 0 \<le> offset then
                bindr (createC2S2 env h1 (drop 1 data) (nat offset)) (\<lambda>h2.
                  let b1 = retrieve b (N + 1) in
                  if readableBytes b1 = N then
                    Inr (0, sendC2S2 env (h2\<lparr>hs_state := kHandShakeDoning\<rparr>), retrieve b1 N)
                  else Inr (1, sendC2S2 env (h2\<lparr>hs_state := kHandShakePostC2\<rparr>), b1))
              else Inr (-1, h1, b)))
      | _ \<Rightarrow> Inr (1, h, b))"

section \<open>Blocks and offsets\<close>

lemma slice_drop: "a \<le> length m \<Longrightarrow> slice (drop a m) i n = slice m (a + i) n"
  by (auto simp: slice_def add.commute)

lemma put_at_total: "i + length xs \<le> length m \<Longrightarrow> \<exists>m'. put_at i xs m = Inr m' \<and> length m' = length m"
  by (simp add: put_at_def)

lemma put_at_length: "put_at i xs m = Inr m' \<Longrightarrow> length m' = length m"
  by (auto simp: put_at_def split: if_splits)

lemma slice_put_same: "put_at i xs m = Inr m' \<Longrightarrow> slice m' i (length xs) = Inr xs"
  by (auto simp: put_at_def slice_def split: if_splits)

lemma slice_put_before: "put_at i xs m = Inr m' \<Longrightarrow> j + n \<le> i \<Longrightarrow> slice m' j n = slice m j n"
  by (auto simp: put_at_def slice_def drop_take min_def split: if_splits)

lemma slice_put_after:
  "put_at i xs m = Inr m' \<Longrightarrow> i + length xs \<le> j \<Longrightarrow> slice m' j n = slice m j n"
  by (auto simp: put_at_def slice_def split: if_splits)

text \<open>The digest's offset and the digest lie inside the half of the packet they belong to.\<close>

lemma getDigestOffset_bounds:
  assumes "off + 4 \<le> length buf"
  shows "\<exists>n. getDigestOffset buf off 728 = Inr n \<and> off + 4 \<le> n \<and> n < off + 732"
  using assms by (simp add: getDigestOffset_def slice_def Let_def)

lemma getDigestOffset_cong:
  "slice a off 4 = slice b off 4 \<Longrightarrow> getDigestOffset a off md = getDigestOffset b off md"
  by (simp add: getDigestOffset_def)

lemma calculateDigest_total:
  assumes "keylen \<le> length key" "len \<le> length src" "gap = 0 \<or> gap + 32 \<le> len"
  shows "\<exists>k b. calculateDigest mac src len gap key keylen = Inr (mac k b)"
  using assms by (auto simp: calculateDigest_def slice_def)

lemma calculateDigest_cong:
  assumes "slice a 0 gap = slice b 0 gap"
    and "slice a (gap + 32) (len - gap - 32) = slice b (gap + 32) (len - gap - 32)"
    and "0 < gap"
  shows "calculateDigest mac a len gap key keylen = calculateDigest mac b len gap key keylen"
  using assms by (simp add: calculateDigest_def)

lemma verifyDigest_total:
  assumes "keylen \<le> length key" "length buf = 1536" "pos + 32 \<le> 1536"
  shows "\<exists>ok. verifyDigest mac buf pos key keylen = Inr ok"
proof -
  obtain k b where "calculateDigest mac buf 1536 pos key keylen = Inr (mac k b)"
    using calculateDigest_total [of keylen key 1536 buf pos mac] assms by auto
  with assms show ?thesis by (simp add: verifyDigest_def slice_def)
qed

lemma key_lengths [simp]:
  "PLAYER_KEY_OPEN_PART_LEN \<le> 62" "SERVER_KEY_OPEN_PART_LEN \<le> 68"
  "length rtmp_player_key = 62" "length rtmp_server_key = 68"
  by (simp_all add: rtmp_player_key_def rtmp_server_key_def key_tail_def
      PLAYER_KEY_OPEN_PART_LEN_def SERVER_KEY_OPEN_PART_LEN_def)

section \<open>No fault\<close>

definition env_ok :: "hs_env \<Rightarrow> bool" where
  "env_ok env \<longleftrightarrow> (\<forall>k b. length (hmac env k b) = 32)"

definition hs_ok :: "handshake \<Rightarrow> bool" where
  "hs_ok h \<longleftrightarrow> length (hs_C1S1 h) = 1537 \<and> length (hs_C2S2 h) = 1536"

lemma newHandShake_ok [simp]: "hs_ok (newHandShake c)"
  by (simp add: hs_ok_def newHandShake_def kRtmpHandShakePacketSize_def)

text \<open>What \<open>createC1S1\<close> leaves: version byte, zero time, version, and the digest in its place.\<close>

definition c1_signed :: "hs_env \<Rightarrow> bytes \<Rightarrow> nat \<Rightarrow> bytes \<Rightarrow> bytes \<Rightarrow> nat \<Rightarrow> bool" where
  "c1_signed env c offset ver key keylen \<longleftrightarrow>
     length c = 1537 \<and> slice c 0 1 = Inr [3] \<and> slice c 5 4 = Inr ver
     \<and> getDigestOffset (drop 1 c) 8 728 = Inr offset
     \<and> verifyDigest (hmac env) (drop 1 c) offset key keylen = Inr True"

lemma verifyDigest_put:
  assumes c: "length c = 1537" and off: "12 \<le> offset" "offset + 32 \<le> 1536"
    and d: "calculateDigest mac (drop 1 c) 1536 offset key keylen = Inr d"
    and len: "length d = 32" and put: "put_at (1 + offset) d c = Inr c'"
  shows "verifyDigest mac (drop 1 c') offset key keylen = Inr True"
proof -
  have c': "length c' = 1537" using put_at_length [OF put] c by simp
  have "slice (drop 1 c') 0 offset = slice (drop 1 c) 0 offset"
    using slice_put_before [OF put, of 1 offset] c c' by (simp add: slice_drop)
  moreover have "slice (drop 1 c') (offset + 32) (1536 - offset - 32)
      = slice (drop 1 c) (offset + 32) (1536 - offset - 32)"
    using slice_put_after [OF put, of "1 + (offset + 32)"] c c' len by (simp add: slice_drop)
  ultimately have "calculateDigest mac (drop 1 c') 1536 offset key keylen = Inr d"
    using calculateDigest_cong [of "drop 1 c'" offset "drop 1 c" 1536 mac key keylen] d off by simp
  moreover have "slice (drop 1 c') offset 32 = Inr d"
    using slice_put_same [OF put] len c' by (simp add: slice_drop)
  ultimately show ?thesis by (simp add: verifyDigest_def)
qed

lemma createC1S1_complex:
  assumes env: "env_ok env" and cx: "hs_complex h"
    and ver: "ver = (if hs_client h then rtmp_client_ver else rtmp_server_ver)"
    and key: "key = (if hs_client h then rtmp_player_key else rtmp_server_key)"
    and kl: "keylen = (if hs_client h then PLAYER_KEY_OPEN_PART_LEN else SERVER_KEY_OPEN_PART_LEN)"
  shows "\<exists>c offset dg. createC1S1 env h = Inr (h\<lparr>hs_C1S1 := c, hs_digest := dg\<rparr>)
           \<and> c1_signed env c offset ver key keylen"
proof -
  define c0 where "c0 = map (rndC1 env) [0..<kRtmpHandShakePacketSize + 1]"
  have l0: "length c0 = 1537" by (simp add: c0_def kRtmpHandShakePacketSize_def)
  obtain c1 where c1: "put_at 0 [3] c0 = Inr c1" "length c1 = 1537"
    using put_at_total [of 0 "[3]" c0] l0 by auto
  obtain c2 where c2: "put_at 1 (replicate 4 0) c1 = Inr c2" "length c2 = 1537"
    using put_at_total [of 1 "replicate 4 0" c1] c1 by auto
  obtain offset where off: "getDigestOffset (drop 1 c2) 8 728 = Inr offset"
      "12 \<le> offset" "offset < 740"
    using getDigestOffset_bounds [of 8 "drop 1 c2"] c2 by auto
  have lv: "length ver = 4" by (simp add: ver rtmp_client_ver_def rtmp_server_ver_def)
  obtain c3 where c3: "put_at 5 ver c2 = Inr c3" "length c3 = 1537"
    using put_at_total [of 5 ver c2] c2 lv by auto
  have kok: "keylen \<le> length key" by (simp add: key kl)
  obtain k b where d: "calculateDigest (hmac env) (drop 1 c3) 1536 offset key keylen
      = Inr (hmac env k b)"
    using calculateDigest_total [OF kok, of 1536 "drop 1 c3" offset "hmac env"] c3 off by auto
  let ?d = "hmac env k b"
  have ld: "length ?d = 32" using env by (simp add: env_ok_def)
  obtain c4 where c4: "put_at (1 + offset) ?d c3 = Inr c4" "length c4 = 1537"
    using put_at_total [of "1 + offset" ?d c3] c3 ld off by auto
  have dg: "slice c4 (1 + offset) 32 = Inr ?d"
    using slice_put_same [OF c4(1)] ld by simp
  have "slice c4 0 1 = slice c1 0 1"
    using slice_put_before [OF c4(1), of 0 1] slice_put_before [OF c3(1), of 0 1]
      slice_put_before [OF c2(1), of 0 1] off by simp
  then have s0: "slice c4 0 1 = Inr [3]" using slice_put_same [OF c1(1)] by simp
  have s5: "slice c4 5 4 = Inr ver"
    using slice_put_before [OF c4(1), of 5 4] slice_put_same [OF c3(1)] off lv by simp
  have "slice c4 9 4 = slice c2 9 4"
    using slice_put_before [OF c4(1), of 9 4] slice_put_after [OF c3(1), of 9 4] off lv by simp
  then have "getDigestOffset (drop 1 c4) 8 728 = Inr offset"
    using off(1) getDigestOffset_cong [of "drop 1 c4" 8 "drop 1 c2"] c4 c2
    by (simp add: slice_drop)
  moreover have "verifyDigest (hmac env) (drop 1 c4) offset key keylen = Inr True"
    by (rule verifyDigest_put [OF c3(2) off(2) _ d ld c4(1)]) (use off in simp)
  moreover have "createC1S1 env h = Inr (h\<lparr>hs_C1S1 := c4, hs_digest := ?d\<rparr>)"
    unfolding createC1S1_def Let_def c0_def [symmetric]
    using c1 c2 off(1) c3 d c4 dg cx
    by (auto simp: kRtmpHandShakePacketSize_def ver key kl split: if_splits)
  ultimately show ?thesis
    using s0 s5 c4(2) by (auto simp: c1_signed_def)
qed
text \<open>The other side accepts a packet signed with the key it checks with.\<close>

lemma ver_nonzero: "rtmp_client_ver \<noteq> replicate 4 0" "rtmp_server_ver \<noteq> replicate 4 0"
  by code_simp+

lemma checkC1S1_signed:
  assumes "c1_signed env c offset ver key keylen" "hs_complex h" "ver \<noteq> replicate 4 0"
    and "key = (if hs_client h then rtmp_server_key else rtmp_player_key)"
    and "keylen = (if hs_client h then SERVER_KEY_OPEN_PART_LEN else PLAYER_KEY_OPEN_PART_LEN)"
  shows "checkC1S1 env h c (kRtmpHandShakePacketSize + 1) = Inr (int offset, h)"
proof -
  have "readUint8T c 0 = Inr 3"
    using assms(1) by (auto simp: c1_signed_def readUint8T_def)
  with assms show ?thesis
    by (auto simp: checkC1S1_def c1_signed_def Let_def)
qed

lemma checkC1S1_total:
  assumes "length data = 1537"
  shows "\<exists>offset h1. checkC1S1 env h data (kRtmpHandShakePacketSize + 1) = Inr (offset, h1)
           \<and> (h1 = h \<or> h1 = h\<lparr>hs_complex := False\<rparr>) \<and> -1 \<le> offset \<and> offset + 32 \<le> 1536"
proof -
  let ?hs = "drop 1 data"
  let ?key = "if hs_client h then rtmp_server_key else rtmp_player_key"
  let ?kl = "if hs_client h then SERVER_KEY_OPEN_PART_LEN else PLAYER_KEY_OPEN_PART_LEN"
  obtain v where v: "readUint8T data 0 = Inr v" using c8.get_total [of 0 data] assms by auto
  obtain n where n: "getDigestOffset ?hs 8 728 = Inr n" "n < 740"
    using getDigestOffset_bounds [of 8 ?hs] assms by auto
  obtain n2 where n2: "getDigestOffset ?hs 772 728 = Inr n2" "n2 < 1504"
    using getDigestOffset_bounds [of 772 ?hs] assms by auto
  have k: "?kl \<le> length ?key" by simp
  obtain ok where ok: "verifyDigest (hmac env) ?hs n ?key ?kl = Inr ok"
    using verifyDigest_total [OF k, of ?hs n "hmac env"] assms n by auto
  obtain ok2 where ok2: "verifyDigest (hmac env) ?hs n2 ?key ?kl = Inr ok2"
    using verifyDigest_total [OF k, of ?hs n2 "hmac env"] assms n2 by auto
  obtain ver where ver: "slice data 5 4 = Inr ver" using assms by (simp add: slice_def)
  show ?thesis
    using v n n2 ok ok2 ver by (auto simp: checkC1S1_def Let_def split: if_splits)
qed

lemma createC2S2_total:
  assumes "env_ok env" "length data = 1536" "offset + 32 \<le> 1536"
  shows "\<exists>c. createC2S2 env h data offset = Inr (h\<lparr>hs_C2S2 := c\<rparr>) \<and> length c = 1536"
proof -
  let ?c0 = "map (rndC2 env) [0..<kRtmpHandShakePacketSize]"
  have l0: "length ?c0 = 1536" by (simp add: kRtmpHandShakePacketSize_def)
  have d8: "slice data 0 8 = Inr (take 8 data)" "length (take 8 data) = 8"
    using assms by (simp_all add: slice_def)
  obtain c1 where c1: "put_at 0 (take 8 data) ?c0 = Inr c1" "length c1 = 1536"
    using put_at_total [of 0 "take 8 data" ?c0] l0 d8 by auto
  obtain c2 where c2: "put_at 0 (writeUint32T (ucast (hs_now env))) c1 = Inr c2" "length c2 = 1536"
    using put_at_total [of 0 "writeUint32T (ucast (hs_now env))" c1] c1 by auto
  let ?key = "if hs_client h then rtmp_player_key else rtmp_server_key"
  have "\<exists>k b. calculateDigest (hmac env) (drop offset data) 32 0 ?key (length ?key)
      = Inr (hmac env k b)"
    by (rule calculateDigest_total) (use assms in simp_all)
  then obtain k b where dg: "calculateDigest (hmac env) (drop offset data) 32 0 ?key (length ?key)
      = Inr (hmac env k b)"
    by blast
  let ?dg = "hmac env k b"
  have ldg: "length ?dg = 32" using assms(1) by (simp add: env_ok_def)
  obtain k2 b2 where d: "calculateDigest (hmac env) c2 (kRtmpHandShakePacketSize - 32) 0 ?dg 32
      = Inr (hmac env k2 b2)"
    using calculateDigest_total [of 32 ?dg "kRtmpHandShakePacketSize - 32" c2 0 "hmac env"] c2 ldg
    by (auto simp: kRtmpHandShakePacketSize_def)
  have ld: "length (hmac env k2 b2) = 32" using assms(1) by (simp add: env_ok_def)
  obtain c3 where c3: "put_at (kRtmpHandShakePacketSize - 32) (hmac env k2 b2) c2 = Inr c3"
      "length c3 = 1536"
    using put_at_total [of "kRtmpHandShakePacketSize - 32" "hmac env k2 b2" c2] c2 ld
    by (auto simp: kRtmpHandShakePacketSize_def)
  show ?thesis
    using d8(1) c1(1) c2 dg d c3 by (auto simp: createC2S2_def Let_def split: if_splits)
qed
section \<open>The steps of a handshake\<close>

lemma writeComplete_keeps:
  "hs_C1S1 (writeComplete once h) = hs_C1S1 h"
  "hs_C2S2 (writeComplete once h) = hs_C2S2 h"
  "hs_client (writeComplete once h) = hs_client h"
  by (induction once h rule: writeComplete.induct;
      subst writeComplete.simps; simp add: post_def Let_def split: hs_state.split)+

lemma hs_send_keeps [simp]:
  "hs_C1S1 (hs_send env b h) = hs_C1S1 h"
  "hs_C2S2 (hs_send env b h) = hs_C2S2 h"
  "hs_client (hs_send env b h) = hs_client h"
  by (simp_all add: hs_send_def post_def writeComplete_keeps)

lemma hs_ok_send [simp]: "hs_ok (sendC1S1 env h) = hs_ok h" "hs_ok (sendC2S2 env h) = hs_ok h"
  by (simp_all add: hs_ok_def sendC1S1_def sendC2S2_def)

lemma hs_ok_writeComplete [simp]: "hs_ok (writeComplete once h) = hs_ok h"
  by (simp add: hs_ok_def writeComplete_keeps)

text \<open>
  What \<open>handShake\<close> does, without the packets' bytes: in each waiting state the result, the
  state it goes on from and what it takes from the buffer.
\<close>

inductive handShake_does :: "hs_env \<Rightarrow> handshake \<Rightarrow> msgbuf \<Rightarrow> int \<Rightarrow> handshake \<Rightarrow> msgbuf \<Rightarrow> bool"
  for env where
  does_wait: "handShake_does env h b 1 h b"
    if "hs_state h = kHandShakeWaitC0C1 \<or> hs_state h = kHandShakeWaitS0S1
          \<longrightarrow> readableBytes b < 1537"
      "hs_state h = kHandShakeWaitC2 \<longrightarrow> readableBytes b < 1536"
| does_fail: "handShake_does env h b (-1) (h\<lparr>hs_complex := cx\<rparr>) b"
    if "hs_state h = kHandShakeWaitC0C1 \<or> hs_state h = kHandShakeWaitS0S1"
| does_S0S1: "handShake_does env h b 1
      (sendC1S1 env (h\<lparr>hs_complex := cx, hs_C2S2 := c, hs_state := kHandShakePostS0S1\<rparr>))
      (retrieve b 1537)"
    if "hs_state h = kHandShakeWaitC0C1" "1537 \<le> readableBytes b" "length c = 1536"
| does_C2: "handShake_does env h b 0 (h\<lparr>hs_state := kHandShakeDone\<rparr>) (retrieve b 1536)"
    if "hs_state h = kHandShakeWaitC2" "1536 \<le> readableBytes b"
| does_S2: "handShake_does env h b 0
      (sendC2S2 env (h\<lparr>hs_complex := cx, hs_C2S2 := c, hs_state := kHandShakeDoning\<rparr>))
      (retrieve (retrieve b 1537) 1536)"
    if "hs_state h = kHandShakeWaitS0S1" "readableBytes b = 1537 + 1536" "length c = 1536"
| does_noS2: "handShake_does env h b 1
      (sendC2S2 env (h\<lparr>hs_complex := cx, hs_C2S2 := c, hs_state := kHandShakePostC2\<rparr>))
      (retrieve b 1537)"
    if "hs_state h = kHandShakeWaitS0S1" "1537 \<le> readableBytes b"
      "readableBytes b \<noteq> 1537 + 1536" "length c = 1536"

inductive_cases handShake_doesE: "handShake_does env h b ret h' b'"

lemma N_1536: "kRtmpHandShakePacketSize = 1536"
  by (simp add: kRtmpHandShakePacketSize_def)

text \<open>With the first packet in the buffer, it is read, checked and answered without a fault.\<close>

lemma check_packet:
  assumes b: "buf_ok b" and room: "1537 \<le> readableBytes b"
  obtains data offset cx where "slice (peek b) 0 1537 = Inr data" "length data = 1537"
    "checkC1S1 env h data 1537 = Inr (offset, h\<lparr>hs_complex := cx\<rparr>)" "nat offset + 32 \<le> 1536"
proof -
  have "1537 \<le> length (peek b)"
    using room b by (auto simp: peek_def readableBytes_def buf_ok_def)
  then obtain data where data: "slice (peek b) 0 1537 = Inr data" "length data = 1537"
    by (simp add: slice_def)
  obtain offset h1 where 1: "checkC1S1 env h data 1537 = Inr (offset, h1)"
      "h1 = h \<or> h1 = h\<lparr>hs_complex := False\<rparr>" "offset + 32 \<le> 1536"
    using checkC1S1_total [OF data(2), of env h] by (auto simp: N_1536)
  have "h = h\<lparr>hs_complex := hs_complex h\<rparr>" by simp
  with 1(2) have "h1 = h\<lparr>hs_complex := hs_complex h\<rparr> \<or> h1 = h\<lparr>hs_complex := False\<rparr>" by simp
  moreover have "nat offset + 32 \<le> 1536" using 1(3) by simp
  ultimately show thesis using that [OF data] 1(1) by blast
qed

lemma answer_packet:
  assumes "env_ok env" "length data = 1537" "nat offset + 32 \<le> 1536"
  obtains c where "createC2S2 env h (drop 1 data) (nat offset) = Inr (h\<lparr>hs_C2S2 := c\<rparr>)"
    "length c = 1536"
  using createC2S2_total [OF assms(1), of "drop 1 data" "nat offset" h] assms(2,3) by auto

lemma handShake_WaitC0C1:
  assumes env: "env_ok env" and b: "buf_ok b" and st: "hs_state h = kHandShakeWaitC0C1"
  shows "\<exists>ret h' b'. handShake env h b = Inr (ret, h', b') \<and> handShake_does env h b ret h' b'"
proof (cases "readableBytes b < 1537")
  case True
  then show ?thesis
    using does_wait [of h b env] by (auto simp: handShake_def N_1536 st)
next
  case False
  then have room: "1537 \<le> readableBytes b" by simp
  obtain data offset cx where 1: "slice (peek b) 0 1537 = Inr data" "length data = 1537"
    "checkC1S1 env h data 1537 = Inr (offset, h\<lparr>hs_complex := cx\<rparr>)" "nat offset + 32 \<le> 1536"
    by (rule check_packet [OF b room])
  let ?h = "h\<lparr>hs_complex := cx, hs_state := kHandShakePostS0S1\<rparr>"
  obtain c where c: "createC2S2 env ?h (drop 1 data) (nat offset) = Inr (?h\<lparr>hs_C2S2 := c\<rparr>)"
    "length c = 1536"
    by (rule answer_packet [OF env 1(2,4)])
  have eq: "?h\<lparr>hs_C2S2 := c\<rparr> = h\<lparr>hs_complex := cx, hs_C2S2 := c, hs_state := kHandShakePostS0S1\<rparr>"
    by simp
  show ?thesis
  proof (cases "0 \<le> offset")
    case True
    then have "handShake env h b = Inr (1, sendC1S1 env (?h\<lparr>hs_C2S2 := c\<rparr>), retrieve b 1537)"
      using False 1 c(1) by (simp add: handShake_def N_1536 st)
    then show ?thesis using does_S0S1 [OF st room c(2), of env cx] unfolding eq by blast
  next
    case neg: False
    then have "handShake env h b = Inr (-1, h\<lparr>hs_complex := cx\<rparr>, b)"
      using False 1 by (simp add: handShake_def N_1536 st)
    then show ?thesis using does_fail [of h env b cx] st by blast
  qed
qed

lemma handShake_WaitS0S1:
  assumes env: "env_ok env" and b: "buf_ok b" and st: "hs_state h = kHandShakeWaitS0S1"
  shows "\<exists>ret h' b'. handShake env h b = Inr (ret, h', b') \<and> handShake_does env h b ret h' b'"
proof (cases "readableBytes b < 1537")
  case True
  then show ?thesis
    using does_wait [of h b env] by (auto simp: handShake_def N_1536 st)
next
  case False
  then have room: "1537 \<le> readableBytes b" by simp
  obtain data offset cx where 1: "slice (peek b) 0 1537 = Inr data" "length data = 1537"
    "checkC1S1 env h data 1537 = Inr (offset, h\<lparr>hs_complex := cx\<rparr>)" "nat offset + 32 \<le> 1536"
    by (rule check_packet [OF b room])
  let ?h = "h\<lparr>hs_complex := cx\<rparr>"
  obtain c where c: "createC2S2 env ?h (drop 1 data) (nat offset) = Inr (?h\<lparr>hs_C2S2 := c\<rparr>)"
    "length c = 1536"
    by (rule answer_packet [OF env 1(2,4)])
  have r: "readableBytes (retrieve b 1537) = 1536 \<longleftrightarrow> readableBytes b = 1537 + 1536"
    using mb.avail_consume [OF b, of 1537] room by auto
  consider (fail) "offset < 0"
    | (s2) "0 \<le> offset" "readableBytes b = 1537 + 1536"
    | (no) "0 \<le> offset" "readableBytes b \<noteq> 1537 + 1536" by linarith
  then show ?thesis
  proof cases
    case fail
    then have "handShake env h b = Inr (-1, ?h, b)"
      using False 1 by (simp add: handShake_def N_1536 st)
    then show ?thesis using does_fail [of h env b cx] st by blast
  next
    case s2
    then have "handShake env h b = Inr (0,
        sendC2S2 env (?h\<lparr>hs_C2S2 := c, hs_state := kHandShakeDoning\<rparr>),
        retrieve (retrieve b 1537) 1536)"
      using False 1 c(1) r by (simp add: handShake_def N_1536 st)
    then show ?thesis using does_S2 [OF st s2(2) c(2), of env cx] by auto
  next
    case no
    then have "handShake env h b = Inr (1,
        sendC2S2 env (?h\<lparr>hs_C2S2 := c, hs_state := kHandShakePostC2\<rparr>), retrieve b 1537)"
      using False 1 c(1) r by (simp add: handShake_def N_1536 st)
    then show ?thesis using does_noS2 [OF st room no(2) c(2), of env cx] by auto
  qed
qed

lemma handShake_does:
  assumes env: "env_ok env" and b: "buf_ok b"
  shows "\<exists>ret h' b'. handShake env h b = Inr (ret, h', b') \<and> handShake_does env h b ret h' b'"
proof -
  consider (w1) "hs_state h = kHandShakeWaitC0C1" | (w2) "hs_state h = kHandShakeWaitC2"
    | (w3) "hs_state h = kHandShakeWaitS0S1"
    | (other) "hs_state h \<noteq> kHandShakeWaitC0C1" "hs_state h \<noteq> kHandShakeWaitC2"
        "hs_state h \<noteq> kHandShakeWaitS0S1" by blast
  then show ?thesis
  proof cases
    case w2
    then show ?thesis
      using does_C2 [OF w2, of b env] does_wait [of h b env]
      by (cases "readableBytes b < 1536") (auto simp: handShake_def N_1536 checkC2S2_def)
  next
    case other
    then have "handShake env h b = Inr (1, h, b)"
      by (simp add: handShake_def split: hs_state.split)
    with other show ?thesis using does_wait [of h b env] by blast
  qed (use handShake_WaitC0C1 [OF env b] handShake_WaitS0S1 [OF env b] in blast)+
qed
section \<open>Runs\<close>

text \<open>
  A connection delivers bytes, after each of which \<open>handShake\<close> is called, and reports completed
  writes, in any order. A configuration is the handshake, its buffer, the number of bytes
  received so far and the last result.
\<close>

type_synonym hs_conf = "handshake \<times> msgbuf \<times> nat \<times> int"

inductive hs_run :: "hs_env \<Rightarrow> handshake \<Rightarrow> hs_conf \<Rightarrow> bool" for env h0 where
  run_init: "hs_run env h0 (h0, newMsgBuffer kBufferDefaultLength, 0, 1)"
| run_recv: "hs_run env h0 (h', b', n + length xs, r')"
    if "hs_run env h0 (h, b, n, r)" "handShake env h (readFd b (Some xs)) = Inr (r', h', b')"
| run_written: "hs_run env h0 (writeComplete (at_once env) h, b, n, r)"
    if "hs_run env h0 (h, b, n, r)"

lemma handShake_doesD:
  "env_ok env \<Longrightarrow> buf_ok b \<Longrightarrow> handShake env h b = Inr (ret, h', b') \<Longrightarrow>
   handShake_does env h b ret h' b'"
  using handShake_does [of env b h] by auto

text \<open>What a server's run keeps: what it has sent and what it has taken, state by state.\<close>

definition server_inv :: "hs_conf \<Rightarrow> bool" where
  "server_inv c \<longleftrightarrow> (case c of (h, b, n, r) \<Rightarrow>
     buf_ok b \<and> r \<in> {-1, 0, 1} \<and>
     ((hs_state h = kHandShakeWaitC0C1 \<and> hs_out h = [] \<and> n = readableBytes b \<and> r \<noteq> 0)
    \<or> (hs_state h = kHandShakePostS0S1 \<and> hs_out h = [hs_C1S1 h]
         \<and> n = 1537 + readableBytes b \<and> r \<noteq> 0)
    \<or> (hs_state h \<in> {kHandShakePostS2, kHandShakeWaitC2} \<and> hs_out h = [hs_C1S1 h, hs_C2S2 h]
         \<and> n = 1537 + readableBytes b \<and> r \<noteq> 0)
    \<or> (hs_state h = kHandShakeDone \<and> hs_out h = [hs_C1S1 h, hs_C2S2 h]
         \<and> n = 1537 + 1536 + readableBytes b)))"

lemmas wc_unfold = writeComplete.simps [unfolded post_def Let_def]

lemma writeComplete_PostS0S1:
  "hs_state h = kHandShakePostS0S1 \<Longrightarrow> hs_out h = [hs_C1S1 h] \<Longrightarrow>
   hs_state (writeComplete once h) \<in> {kHandShakePostS2, kHandShakeWaitC2}
   \<and> hs_out (writeComplete once h) = [hs_C1S1 h, hs_C2S2 h]"
  by (subst (1 2) wc_unfold, cases "once (Suc 0)") (auto simp: wc_unfold)

lemma wc_state:
  "hs_state h = kHandShakePostS2 \<Longrightarrow> writeComplete once h = h\<lparr>hs_state := kHandShakeWaitC2\<rparr>"
  "hs_state h = kHandShakePostC2 \<Longrightarrow> writeComplete once h = h\<lparr>hs_state := kHandShakeDone\<rparr>"
  "hs_state h = kHandShakeDoning \<Longrightarrow> writeComplete once h = h\<lparr>hs_state := kHandShakeDone\<rparr>"
  "hs_state h = kHandShakePostC0C1 \<Longrightarrow> writeComplete once h = h\<lparr>hs_state := kHandShakeWaitS0S1\<rparr>"
  "hs_state h \<in> {kHandShakeWaitC0C1, kHandShakeWaitC2, kHandShakeWaitS0S1, kHandShakeDone} \<Longrightarrow>
   writeComplete once h = h"
  by (auto simp: wc_unfold)

lemma server_inv_written:
  assumes "server_inv (h, b, n, r)"
  shows "server_inv (writeComplete once h, b, n, r)"
proof (cases "hs_state h = kHandShakePostS0S1")
  case True
  with assms writeComplete_PostS0S1 [of h once] show ?thesis
    by (simp add: server_inv_def writeComplete_keeps) blast
next
  case False
  then show ?thesis
    using assms wc_state [of h once]
    by (cases "hs_state h") (simp_all add: server_inv_def, blast+)
qed

lemma readFd_feed:
  assumes "buf_ok b"
  shows "buf_ok (readFd b (Some xs))"
    and "readableBytes (readFd b (Some xs)) = readableBytes b + length xs"
  using readFd_spec [OF assms, of xs] contents_length [of b] assms
  by (metis, metis contents_length length_append)

lemma sendC1S1_PostS0S1:
  assumes "hs_state h = kHandShakePostS0S1" "hs_out h = []"
  shows "hs_state (sendC1S1 env h) = kHandShakePostS0S1 \<and> hs_out (sendC1S1 env h) = [hs_C1S1 h]
       \<or> hs_state (sendC1S1 env h) \<in> {kHandShakePostS2, kHandShakeWaitC2}
         \<and> hs_out (sendC1S1 env h) = [hs_C1S1 h, hs_C2S2 h]"
  using writeComplete_PostS0S1 [of "post (hs_C1S1 h) h" "at_once env"] assms
  by (auto simp: sendC1S1_def hs_send_def post_def)

lemma server_inv_recv:
  assumes "server_inv (h, b, n, r)" "env_ok env"
    and "handShake env h (readFd b (Some xs)) = Inr (r', h', b')"
  shows "server_inv (h', b', n + length xs, r')"
proof -
  let ?b = "readFd b (Some xs)"
  have b: "buf_ok b" using assms(1) by (simp add: server_inv_def)
  note rb = readFd_feed [OF b, of xs]
  have "handShake_does env h ?b r' h' b'"
    by (rule handShake_doesD [OF assms(2) rb(1) assms(3)])
  then show ?thesis
  proof (cases rule: handShake_does.cases)
    case does_wait
    then show ?thesis using assms(1) rb by (auto simp: server_inv_def)
  next
    case (does_fail cx)
    then show ?thesis using assms(1) rb by (auto simp: server_inv_def)
  next
    case (does_S0S1 c cx)
    let ?h = "h\<lparr>hs_complex := cx, hs_C2S2 := c, hs_state := kHandShakePostS0S1\<rparr>"
    have "hs_out ?h = []" using assms(1) does_S0S1 by (auto simp: server_inv_def)
    then show ?thesis
      using sendC1S1_PostS0S1 [of ?h env] does_S0S1 assms(1) rb mb.avail_consume [OF rb(1), of 1537]
      by (auto simp: server_inv_def retrieve_ok sendC1S1_def)
  next
    case does_C2
    then show ?thesis
      using assms(1) rb mb.avail_consume [OF rb(1), of 1536]
      by (auto simp: server_inv_def retrieve_ok)
  next
    case (does_S2 c cx)
    then show ?thesis using assms(1) by (auto simp: server_inv_def)
  next
    case (does_noS2 c cx)
    then show ?thesis using assms(1) by (auto simp: server_inv_def)
  qed
qed

lemma hs_run_server_inv:
  assumes run: "hs_run env h0 c" and env: "env_ok env"
    and h0: "hs_state h0 = kHandShakeWaitC0C1" "hs_out h0 = []"
  shows "server_inv c"
  using run
proof induction
  case run_init
  then show ?case
    using h0 mb.avail_bytes [of "newMsgBuffer kBufferDefaultLength"]
    by (simp add: server_inv_def kBufferDefaultLength_def)
next
  case (run_recv h b n r xs r' h' b')
  then show ?case using server_inv_recv env by blast
next
  case (run_written h b n r)
  from run_written.IH show ?case by (rule server_inv_written)
qed

text \<open>A client that did not get the third packet with the first two never reports success.\<close>

definition client_waits_forever :: "handshake \<Rightarrow> bool" where
  "client_waits_forever h \<longleftrightarrow> hs_state h = kHandShakePostC2 \<or> hs_state h = kHandShakeDone"

lemma client_waits_step:
  "client_waits_forever h \<Longrightarrow> handShake env h b = Inr (1, h, b)"
  by (auto simp: client_waits_forever_def handShake_def)

lemma client_waits_written: "client_waits_forever h \<Longrightarrow> client_waits_forever (writeComplete once h)"
  by (auto simp: client_waits_forever_def wc_state)

lemma hs_run_client_stuck:
  "hs_run env h0 c \<Longrightarrow> client_waits_forever h0 \<Longrightarrow>
   client_waits_forever (fst c) \<and> snd (snd (snd c)) = 1"
  by (induction rule: hs_run.induct) (auto simp: client_waits_step client_waits_written)

section \<open>The two sides of the program understand each other\<close>

lemma peek_front: "buf_ok b \<Longrightarrow> contents b = xs @ ys \<Longrightarrow> slice (peek b) 0 (length xs) = Inr xs"
proof -
  assume b: "buf_ok b" and c: "contents b = xs @ ys"
  have "length (xs @ ys) = readableBytes b" using b c contents_length by metis
  moreover have "readableBytes b \<le> length (peek b)"
    using b by (auto simp: peek_def readableBytes_def buf_ok_def)
  moreover have "take (readableBytes b) (peek b) = xs @ ys" using c by (simp add: contents_peek)
  ultimately show ?thesis
    unfolding slice_def
    by (simp add: min_def) (metis append_eq_conv_conj le_add1 length_append min.absorb1 take_take)
qed

lemma newHandShake_sel [simp]:
  "hs_client (newHandShake c) = c" "hs_complex (newHandShake c) = True"
  "hs_out (newHandShake c) = []"
  by (simp_all add: newHandShake_def)

lemma start_client:
  assumes "env_ok env"
  shows "\<exists>h c offset. start env (newHandShake True) = Inr h \<and> hs_C1S1 h = c \<and> hs_client h
    \<and> hs_complex h \<and> c1_signed env c offset rtmp_client_ver rtmp_player_key PLAYER_KEY_OPEN_PART_LEN
    \<and> hs_state h \<in> {kHandShakePostC0C1, kHandShakeWaitS0S1} \<and> hs_out h = [c]"
proof -
  obtain c offset dg where 1: "createC1S1 env (newHandShake True)
      = Inr ((newHandShake True)\<lparr>hs_C1S1 := c, hs_digest := dg\<rparr>)"
    "c1_signed env c offset rtmp_client_ver rtmp_player_key PLAYER_KEY_OPEN_PART_LEN"
    using createC1S1_complex [OF assms _ refl refl refl, of "newHandShake True"]
    by (simp only: newHandShake_sel if_True simp_thms) blast
  let ?h = "(newHandShake True)\<lparr>hs_C1S1 := c, hs_digest := dg, hs_state := kHandShakePostC0C1\<rparr>"
  have "start env (newHandShake True) = Inr (sendC1S1 env ?h)"
    using 1(1) by (simp add: start_def)
  moreover have "hs_C1S1 (sendC1S1 env ?h) = c \<and> hs_client (sendC1S1 env ?h)
      \<and> hs_complex (sendC1S1 env ?h) \<and> hs_out (sendC1S1 env ?h) = [c]
      \<and> hs_state (sendC1S1 env ?h) \<in> {kHandShakePostC0C1, kHandShakeWaitS0S1}"
    by (simp add: sendC1S1_def hs_send_def post_def wc_state)
  ultimately show ?thesis using 1(2) by blast
qed

lemma start_server:
  assumes "env_ok env"
  shows "\<exists>h c offset. start env (newHandShake False) = Inr h \<and> hs_C1S1 h = c \<and> \<not> hs_client h
    \<and> hs_complex h \<and> c1_signed env c offset rtmp_server_ver rtmp_server_key SERVER_KEY_OPEN_PART_LEN
    \<and> hs_state h = kHandShakeWaitC0C1 \<and> hs_out h = []"
proof -
  obtain c offset dg where 1: "createC1S1 env (newHandShake False)
      = Inr ((newHandShake False)\<lparr>hs_C1S1 := c, hs_digest := dg\<rparr>)"
    "c1_signed env c offset rtmp_server_ver rtmp_server_key SERVER_KEY_OPEN_PART_LEN"
    using createC1S1_complex [OF assms _ refl refl refl, of "newHandShake False"]
    by (simp only: newHandShake_sel if_False simp_thms) blast
  then show ?thesis by (auto simp: start_def)
qed

lemma c1_signed_hmac: "hmac e1 = hmac e2 \<Longrightarrow> c1_signed e1 = c1_signed e2"
  by (intro ext) (simp add: c1_signed_def)

text \<open>
  The connection reports every write that is still under way as complete: at most two, the server's
  first packet and its second. In a state in which nothing is under way \<open>writeComplete\<close> does nothing.
\<close>

definition settle :: "hs_env \<Rightarrow> handshake \<Rightarrow> handshake" where
  "settle env h = writeComplete (at_once env) (writeComplete (at_once env) h)"

lemma settle_PostS0S1:
  assumes "hs_state h = kHandShakePostS0S1" "hs_out h = []"
  shows "hs_state (settle env (sendC1S1 env h)) = kHandShakeWaitC2"
    "hs_out (settle env (sendC1S1 env h)) = [hs_C1S1 h, hs_C2S2 h]"
  using assms
  by (cases "at_once env 0"; cases "at_once env (Suc 0)";
      simp add: settle_def sendC1S1_def hs_send_def post_def wc_unfold)+

lemma server_answers:
  assumes env: "env_ok env" and b: "buf_ok b" and cont: "contents b = c"
    and c: "c1_signed env c offset rtmp_client_ver rtmp_player_key PLAYER_KEY_OPEN_PART_LEN"
    and h: "hs_state h = kHandShakeWaitC0C1" "hs_complex h" "\<not> hs_client h" "hs_out h = []"
  shows "\<exists>h' b' s2. handShake env h b = Inr (1, h', b') \<and> buf_ok b' \<and> contents b' = [] \<and> length s2 = 1536
    \<and> hs_state (settle env h') = kHandShakeWaitC2 \<and> hs_out (settle env h') = [hs_C1S1 h, s2]"
proof -
  have lc: "length c = 1537" using c by (simp add: c1_signed_def)
  have room: "readableBytes b = 1537" using contents_length [OF b] cont lc by simp
  have sl: "slice (peek b) 0 1537 = Inr c" using peek_front [OF b, of c "[]"] cont lc by simp
  have chk: "checkC1S1 env h c 1537 = Inr (int offset, h)"
    using checkC1S1_signed [OF c h(2) ver_nonzero(1)] h by (simp add: N_1536)
  have "nat (int offset) + 32 \<le> 1536"
    using checkC1S1_total [OF lc, of env h] chk by (auto simp: N_1536)
  then obtain c2 where c2: "createC2S2 env (h\<lparr>hs_state := kHandShakePostS0S1\<rparr>) (drop 1 c) (nat (int offset))
      = Inr (h\<lparr>hs_state := kHandShakePostS0S1, hs_C2S2 := c2\<rparr>)" "length c2 = 1536"
    using answer_packet [OF env lc, of "int offset"] by auto
  let ?h = "h\<lparr>hs_state := kHandShakePostS0S1, hs_C2S2 := c2\<rparr>"
  have "handShake env h b = Inr (1, sendC1S1 env ?h, retrieve b 1537)"
    using h room sl chk c2 by (simp add: handShake_def N_1536)
  moreover have "contents (retrieve b 1537) = []"
    using mb.bytes_consume [OF b, of 1537] cont lc by simp
  moreover have "buf_ok (retrieve b 1537)" by (rule retrieve_ok [OF b])
  ultimately show ?thesis using settle_PostS0S1 [of ?h env] h c2(2) by auto
qed

lemma client_accepts:
  assumes env: "env_ok env" and b: "buf_ok b" and cont: "contents b = c @ s2" "length s2 = 1536"
    and c: "c1_signed env c offset rtmp_server_ver rtmp_server_key SERVER_KEY_OPEN_PART_LEN"
    and h: "hs_state h = kHandShakeWaitS0S1" "hs_complex h" "hs_client h"
  shows "\<exists>h' b' c2. handShake env h b = Inr (0, h', b') \<and> contents b' = [] \<and> length c2 = 1536
    \<and> hs_state (settle env h') = kHandShakeDone \<and> hs_out h' = hs_out h @ [c2]"
proof -
  have lc: "length c = 1537" using c by (simp add: c1_signed_def)
  have room: "readableBytes b = 1537 + 1536" using contents_length [OF b] cont lc by simp
  have sl: "slice (peek b) 0 1537 = Inr c" using peek_front [OF b, of c s2] cont lc by simp
  have chk: "checkC1S1 env h c 1537 = Inr (int offset, h)"
    using checkC1S1_signed [OF c h(2) ver_nonzero(2)] h by (simp add: N_1536)
  have "nat (int offset) + 32 \<le> 1536"
    using checkC1S1_total [OF lc, of env h] chk by (auto simp: N_1536)
  then obtain c2 where c2: "createC2S2 env h (drop 1 c) (nat (int offset)) = Inr (h\<lparr>hs_C2S2 := c2\<rparr>)" "length c2 = 1536"
    using answer_packet [OF env lc, of "int offset"] by auto
  let ?h = "h\<lparr>hs_C2S2 := c2, hs_state := kHandShakeDoning\<rparr>"
  have r1: "buf_ok (retrieve b 1537)" by (rule retrieve_ok [OF b])
  have "readableBytes (retrieve b 1537) = 1536" using mb.avail_consume [OF b, of 1537] room by simp
  moreover have "contents (retrieve (retrieve b 1537) 1536) = []"
    using mb.bytes_consume [OF r1] mb.bytes_consume [OF b] cont lc by simp
  ultimately have "handShake env h b = Inr (0, sendC2S2 env ?h, retrieve (retrieve b 1537) 1536)"
      "contents (retrieve (retrieve b 1537) 1536) = []"
    using h room sl chk c2 by (simp_all add: handShake_def N_1536)
  moreover have "hs_state (settle env (sendC2S2 env ?h)) = kHandShakeDone" "hs_out (sendC2S2 env ?h) = hs_out h @ [c2]"
    by (simp_all add: settle_def sendC2S2_def hs_send_def post_def wc_state)
  ultimately show ?thesis using c2(2) by blast
qed

text \<open>The server takes any packet of the right size for the client's second one.\<close>

lemma server_finishes:
  assumes "buf_ok b" "contents b = c2" "length c2 = 1536" "hs_state h = kHandShakeWaitC2"
  shows "\<exists>h' b'. handShake env h b = Inr (0, h', b') \<and> contents b' = [] \<and> hs_state h' = kHandShakeDone"
proof -
  have "readableBytes b = 1536" using contents_length [OF assms(1)] assms(2,3) by simp
  moreover have "contents (retrieve b 1536) = []"
    using mb.bytes_consume [OF assms(1), of 1536] assms(2,3) by simp
  ultimately show ?thesis using assms(4) by (simp add: handShake_def N_1536 checkC2S2_def)
qed

lemma settle_client: "hs_state h \<in> {kHandShakePostC0C1, kHandShakeWaitS0S1} \<Longrightarrow>
    hs_state (settle env h) = kHandShakeWaitS0S1 \<and> hs_client (settle env h) = hs_client h \<and>
    hs_complex (settle env h) = hs_complex h \<and> hs_out (settle env h) = hs_out h"
  by (auto simp: settle_def wc_state)

text \<open>Without the third packet the client goes to the state it waits in for ever.\<close>

lemma client_without_S2:
  assumes env: "env_ok env" and b: "buf_ok b" and cont: "contents b = c"
    and c: "c1_signed env c offset rtmp_server_ver rtmp_server_key SERVER_KEY_OPEN_PART_LEN"
    and h: "hs_state h = kHandShakeWaitS0S1" "hs_complex h" "hs_client h"
  shows "\<exists>h' b'. handShake env h b = Inr (1, h', b') \<and> hs_state h' \<noteq> kHandShakeWaitS0S1"
proof -
  have lc: "length c = 1537" using c by (simp add: c1_signed_def)
  have room: "readableBytes b = 1537" using contents_length [OF b] cont lc by simp
  have sl: "slice (peek b) 0 1537 = Inr c" using peek_front [OF b, of c "[]"] cont lc by simp
  have chk: "checkC1S1 env h c 1537 = Inr (int offset, h)"
    using checkC1S1_signed [OF c h(2) ver_nonzero(2)] h by (simp add: N_1536)
  have "nat (int offset) + 32 \<le> 1536"
    using checkC1S1_total [OF lc, of env h] chk by (auto simp: N_1536)
  then obtain c2 where c2: "createC2S2 env h (drop 1 c) (nat (int offset)) = Inr (h\<lparr>hs_C2S2 := c2\<rparr>)"
    using answer_packet [OF env lc, of "int offset"] by auto
  have "readableBytes (retrieve b 1537) = 0" using mb.avail_consume [OF b, of 1537] room by simp
  then show ?thesis
    using h room sl chk c2
    by (simp add: handShake_def N_1536 sendC2S2_def hs_send_def post_def wc_state)
qed

section \<open>Properties\<close>

definition demo_env :: hs_env where
  "demo_env = \<lparr>hmac = \<lambda>k b. replicate 32 0, rndC1 = \<lambda>_. 0, rndC2 = \<lambda>_. 0, hs_now = 0,
     at_once = \<lambda>_. True\<rparr>"

lemma demo_env_ok: "env_ok demo_env"
  by (simp add: env_ok_def demo_env_def)

text \<open>
  C13: this program's client and server complete the handshake with each other. Whatever random bytes
  the two sides draw, and whether writes complete at once or later, the server answers the client's
  first packet with its two packets; when the client finds these two together in its buffer it takes
  both, reports success and sends its second packet; and with that packet the server reports success. Both
  sides are then in their final state with nothing left over. That the two packets come together is
  needed, as the property on the stuck client shows. What is relied on otherwise is that the HMAC both
  sides compute is the same function with 32-byte results.
\<close>

theorem handshake_interoperates:
  assumes "env_ok envc" "env_ok envs" "hmac envc = hmac envs"
  shows "\<exists>hc hs hs1 b1 hc1 b2 hs2 b3.
      start envc (newHandShake True) = Inr hc
    \<and> start envs (newHandShake False) = Inr hs
    \<and> handShake envs hs (append (newMsgBuffer kBufferDefaultLength) (concat (hs_out hc))) = Inr (1, hs1, b1)
    \<and> handShake envc (settle envc hc)
         (append (newMsgBuffer kBufferDefaultLength) (concat (hs_out (settle envs hs1)))) = Inr (0, hc1, b2)
    \<and> handShake envs (settle envs hs1) (append b1 (concat (drop 1 (hs_out hc1)))) = Inr (0, hs2, b3)
    \<and> hs_state (settle envc hc1) = kHandShakeDone \<and> hs_state hs2 = kHandShakeDone
    \<and> contents b2 = [] \<and> contents b3 = []"
proof -
  obtain hc oc where hc: "start envc (newHandShake True) = Inr hc" "hs_client hc" "hs_complex hc"
      "c1_signed envc (hs_C1S1 hc) oc rtmp_client_ver rtmp_player_key PLAYER_KEY_OPEN_PART_LEN"
      "hs_state hc \<in> {kHandShakePostC0C1, kHandShakeWaitS0S1}" "hs_out hc = [hs_C1S1 hc]"
    using start_client [OF assms(1)] by blast
  obtain hs os where hs: "start envs (newHandShake False) = Inr hs" "\<not> hs_client hs" "hs_complex hs"
      "c1_signed envs (hs_C1S1 hs) os rtmp_server_ver rtmp_server_key SERVER_KEY_OPEN_PART_LEN"
      "hs_state hs = kHandShakeWaitC0C1" "hs_out hs = []"
    using start_server [OF assms(2)] by blast
  have nb: "buf_ok (newMsgBuffer kBufferDefaultLength)" by (simp add: kBufferDefaultLength_def)
  have b: "buf_ok (append (newMsgBuffer kBufferDefaultLength) xs)"
      "contents (append (newMsgBuffer kBufferDefaultLength) xs) = xs" for xs
    using append_ok [OF nb] append_contents [OF nb] by simp_all
  obtain hs1 b1 s2 where s: "handShake envs hs (append (newMsgBuffer kBufferDefaultLength) (hs_C1S1 hc)) = Inr (1, hs1, b1)"
      "buf_ok b1" "contents b1 = []" "length s2 = 1536" "hs_state (settle envs hs1) = kHandShakeWaitC2"
      "hs_out (settle envs hs1) = [hs_C1S1 hs, s2]"
    using server_answers [OF assms(2) b hc(4) [unfolded c1_signed_hmac [OF assms(3)]] hs(5,3,2,6)] by blast
  note w = settle_client [OF hc(5), of envc]
  obtain hc1 b2 c2 where k: "handShake envc (settle envc hc)
      (append (newMsgBuffer kBufferDefaultLength) (hs_C1S1 hs @ s2)) = Inr (0, hc1, b2)"
      "contents b2 = []" "length c2 = 1536" "hs_state (settle envc hc1) = kHandShakeDone" "hs_out hc1 = hs_out hc @ [c2]"
    using client_accepts [OF assms(1) b s(4) hs(4) [folded c1_signed_hmac [OF assms(3)]], of "settle envc hc"] w hc(2,3)
    by auto
  have "buf_ok (append b1 c2)" "contents (append b1 c2) = c2" using append_ok [OF s(2)] append_contents [OF s(2)] s(3) by simp_all
  then obtain hs2 b3 where f: "handShake envs (settle envs hs1) (append b1 c2) = Inr (0, hs2, b3)"
      "contents b3 = []" "hs_state hs2 = kHandShakeDone"
    using server_finishes [OF _ _ k(3) s(5)] by blast
  show ?thesis using hc(1,6) hs(1) s k f 
    by (intro exI [of _ hc] exI [of _ hs] exI [of _ hs1] exI [of _ b1] exI [of _ hc1] exI [of _ b2] exI [of _ hs2]
        exI [of _ b3]) simp
qed

theorem handshake_interoperates_witness:
  "\<exists>hc hs hs1 b1 hs2 b b'. start demo_env (newHandShake True) = Inr hc \<and> start demo_env (newHandShake False) = Inr hs \<and>
     handShake demo_env hs (append (newMsgBuffer kBufferDefaultLength) (concat (hs_out hc))) = Inr (1, hs1, b1) \<and>
     handShake demo_env (settle demo_env hs1) b = Inr (0, hs2, b') \<and> hs_state hs2 = kHandShakeDone \<and> contents b' = []"
  using handshake_interoperates [OF demo_env_ok demo_env_ok refl] by blast

text \<open>
  C14: the server's side of the handshake keeps its order in every run. However the bytes arrive
  and whenever writes complete, \<open>handShake\<close> never faults; what the server has sent is always
  a beginning of its first packet followed by its second; and it reports success only
  in its final state, with both packets sent and both of the peer's packets received.
\<close>

theorem server_handshake_order:
  assumes "env_ok env" "start env (newHandShake False) = Inr h0" "hs_run env h0 (h, b, n, r)"
  shows "(\<exists>m. hs_out h = take m [hs_C1S1 h, hs_C2S2 h])
    \<and> (r = 0 \<longrightarrow> hs_state h = kHandShakeDone \<and> hs_out h = [hs_C1S1 h, hs_C2S2 h] \<and> 1537 + 1536 \<le> n)
    \<and> (\<exists>r' h' b'. handShake env h (readFd b (Some xs)) = Inr (r', h', b') \<and> r' \<in> {-1, 0, 1})"
proof -
  have h0: "hs_state h0 = kHandShakeWaitC0C1" "hs_out h0 = []"
    using start_server [OF assms(1)] assms(2) by auto
  have inv: "server_inv (h, b, n, r)"
    by (rule hs_run_server_inv [OF assms(3,1) h0])
  then have b: "buf_ok b" by (simp add: server_inv_def)
  obtain r' h' b' where d: "handShake env h (readFd b (Some xs)) = Inr (r', h', b')"
    using handShake_does [OF assms(1) readFd_feed(1) [OF b]] by blast
  have "\<exists>m. hs_out h = take m [hs_C1S1 h, hs_C2S2 h]"
    using inv exI [of _ 0] exI [of _ 1] exI [of _ 2]
    by (auto simp: server_inv_def) (metis take0 take_Suc_Cons)+
  with inv server_inv_recv [OF inv assms(1) d] d show ?thesis
    by (auto simp: server_inv_def)
qed

theorem server_handshake_order_witness:
  "\<exists>h0. start demo_env (newHandShake False) = Inr h0 \<and>
     (\<exists>r' h' b'. handShake demo_env h0 (readFd (newMsgBuffer kBufferDefaultLength) (Some [3, 0]))
        = Inr (r', h', b'))"
proof -
  obtain h0 where h0: "start demo_env (newHandShake False) = Inr h0"
    using start_server [OF demo_env_ok] by blast
  show ?thesis
    using server_handshake_order [OF demo_env_ok h0 run_init, of "[3, 0]"] h0 by auto
qed

text \<open>
  C36: a client whose buffer does not hold the server's third packet together with the first two,
  and nothing more, never finishes: once it has sent its second packet in that case, \<open>handShake\<close>
  returns 1, wait, on every later buffer, so the connection never leaves the handshake.
\<close>

theorem client_handshake_stuck:
  assumes "env_ok env" "hs_state h = kHandShakeWaitS0S1" "buf_ok b"
    and "readableBytes b \<noteq> 1537 + 1536" "handShake env h b = Inr (1, h1, b1)" "h1 \<noteq> h"
    and "hs_run env h1 (h2, b2, n, r)"
  shows "r = 1 \<and> handShake env h2 (readFd b2 (Some xs)) = Inr (1, h2, readFd b2 (Some xs))"
proof -
  have "handShake_does env h b 1 h1 b1"
    by (rule handShake_doesD [OF assms(1,3,5)])
  then have "client_waits_forever h1"
  proof (cases rule: handShake_does.cases)
    case (does_noS2 c cx)
    then show ?thesis
      by (auto simp: client_waits_forever_def sendC2S2_def hs_send_def post_def wc_state)
  qed (use assms(2,6) in auto)
  with hs_run_client_stuck [OF assms(7)] show ?thesis
    by (simp add: client_waits_step)
qed

theorem client_handshake_stuck_witness:
  "\<exists>h b h1 b1. handShake demo_env h b = Inr (1, h1, b1)
     \<and> handShake demo_env h1 (readFd (newMsgBuffer kBufferDefaultLength) (Some [1, 2]))
       = Inr (1, h1, readFd (newMsgBuffer kBufferDefaultLength) (Some [1, 2]))"
proof -
  obtain hs :: handshake and os where hs:
      "c1_signed demo_env (hs_C1S1 hs) os rtmp_server_ver rtmp_server_key SERVER_KEY_OPEN_PART_LEN"
    using start_server [OF demo_env_ok] by blast
  define h where "h = (newHandShake True)\<lparr>hs_state := kHandShakeWaitS0S1\<rparr>"
  have h: "hs_state h = kHandShakeWaitS0S1" "hs_complex h" "hs_client h"
    by (simp_all add: h_def)
  define b where "b = append (newMsgBuffer kBufferDefaultLength) (hs_C1S1 hs)"
  have nb: "buf_ok (newMsgBuffer kBufferDefaultLength)" by (simp add: kBufferDefaultLength_def)
  have b: "buf_ok b" "contents b = hs_C1S1 hs"
    using append_ok [OF nb] append_contents [OF nb] by (simp_all add: b_def)
  have rb: "readableBytes b \<noteq> 1537 + 1536"
    using contents_length [OF b(1)] b(2) hs by (simp add: c1_signed_def)
  obtain h1 b1 where 1: "handShake demo_env h b = Inr (1, h1, b1)" "hs_state h1 \<noteq> hs_state h"
    using client_without_S2 [OF demo_env_ok b hs h] h(1) by auto
  have "h1 \<noteq> h" using 1(2) by auto
  then show ?thesis
    using client_handshake_stuck [OF demo_env_ok h(1) b(1) rb 1(1) _ run_init, of "[1, 2]"] 1(1)
    by blast
qed

end
