(* ===== verification/Packet.thy ===== *)
theory Packet
  imports Prelude
begin

unbundle bit_operations_syntax

text \<open>
  The media packet of \<open>include/mmedia/base/packet.h\<close> and \<open>src/mmedia/base/packet.cpp\<close>, and
  the RTMP message header of \<open>include/mmedia/rtmp/rtmp_header.h\<close> that the packets carry in
  their \<open>ext_\<close>. \<open>pblock\<close> is the data area behind the packet; \<open>pcap\<close> is \<open>capacity_\<close>, a
  signed integer, so that \<open>getSpace\<close> is the conversion of an unsigned difference to \<open>int\<close>.
\<close>

section \<open>The RTMP message header\<close>

record rtmp_header =
  cs_id :: u32
  timestamp :: u32
  msg_len :: u32
  msg_type :: u8
  msg_sid :: u32

definition emptyHeader :: rtmp_header where
  "emptyHeader = \<lparr>cs_id = 0, timestamp = 0, msg_len = 0, msg_type = 0, msg_sid = 0\<rparr>"

text \<open>The message types \<open>RtmpMsgType\<close> and the chunk stream ids \<open>RtmpCSID\<close> the code names.\<close>

definition kRtmpMsgTypeChunkSize :: u8 where "kRtmpMsgTypeChunkSize = 1"
definition kRtmpMsgTypeBytesRead :: u8 where "kRtmpMsgTypeBytesRead = 3"
definition kRtmpMsgTypeUserControl :: u8 where "kRtmpMsgTypeUserControl = 4"
definition kRtmpMsgTypeWindowACKSize :: u8 where "kRtmpMsgTypeWindowACKSize = 5"
definition kRtmpMsgTypeSetPeerBW :: u8 where "kRtmpMsgTypeSetPeerBW = 6"
definition kRtmpMsgTypeAudio :: u8 where "kRtmpMsgTypeAudio = 8"
definition kRtmpMsgTypeVideo :: u8 where "kRtmpMsgTypeVideo = 9"
definition kRtmpMsgTypeAMF3Meta :: u8 where "kRtmpMsgTypeAMF3Meta = 15"
definition kRtmpMsgTypeAMF3Message :: u8 where "kRtmpMsgTypeAMF3Message = 17"
definition kRtmpMsgTypeAMFMeta :: u8 where "kRtmpMsgTypeAMFMeta = 18"
definition kRtmpMsgTypeAMFMessage :: u8 where "kRtmpMsgTypeAMFMessage = 20"

lemmas rtmp_msg_types = kRtmpMsgTypeChunkSize_def kRtmpMsgTypeBytesRead_def
  kRtmpMsgTypeUserControl_def kRtmpMsgTypeWindowACKSize_def kRtmpMsgTypeSetPeerBW_def
  kRtmpMsgTypeAudio_def kRtmpMsgTypeVideo_def kRtmpMsgTypeAMF3Meta_def
  kRtmpMsgTypeAMF3Message_def kRtmpMsgTypeAMFMeta_def kRtmpMsgTypeAMFMessage_def

definition kRtmpCSIDCommand :: u32 where "kRtmpCSIDCommand = 2"
definition kRtmpCSIDAMFIni :: u32 where "kRtmpCSIDAMFIni = 3"

lemmas rtmp_csids = kRtmpCSIDCommand_def kRtmpCSIDAMFIni_def

section \<open>The packet\<close>

record packet =
  ptype :: int
  psize :: nat
  pindex :: int
  ptimestamp :: int
  pcap :: int
  pblock :: bytes
  phdr :: "rtmp_header option"

text \<open>The packet types; they are flags only in part.\<close>

definition kPacketTypeVideo :: int where "kPacketTypeVideo = 1"
definition kPacketTypeAudio :: int where "kPacketTypeAudio = 2"
definition kPacketTypeMeta :: int where "kPacketTypeMeta = 4"
definition kPacketTypeMeta3 :: int where "kPacketTypeMeta3 = 8"
definition kFrameTypeKeyFrame :: int where "kFrameTypeKeyFrame = 16"
definition kPacketTypeUnknown :: int where "kPacketTypeUnknown = 255"

lemmas packet_types = kPacketTypeVideo_def kPacketTypeAudio_def kPacketTypeMeta_def
  kPacketTypeMeta3_def kFrameTypeKeyFrame_def kPacketTypeUnknown_def

text \<open>\<open>newPacket\<close> clears the whole block.\<close>

definition newPacket :: "nat \<Rightarrow> packet" where
  "newPacket sz =
     \<lparr>ptype = kPacketTypeUnknown, psize = 0, pindex = -1, ptimestamp = 0, pcap = i32 (int sz),
      pblock = replicate sz 0, phdr = None\<rparr>"

definition isVideo :: "packet \<Rightarrow> bool" where
  "isVideo p \<longleftrightarrow> ptype p AND kPacketTypeVideo = kPacketTypeVideo"

definition isAudio :: "packet \<Rightarrow> bool" where
  "isAudio p \<longleftrightarrow> ptype p = kPacketTypeAudio"

definition isKeyFrame :: "packet \<Rightarrow> bool" where
  "isKeyFrame p \<longleftrightarrow> ptype p AND kFrameTypeKeyFrame = kFrameTypeKeyFrame
     \<and> ptype p AND kPacketTypeVideo = kPacketTypeVideo"

definition isMeta :: "packet \<Rightarrow> bool" where
  "isMeta p \<longleftrightarrow> ptype p = kPacketTypeMeta"

definition isMeta3 :: "packet \<Rightarrow> bool" where
  "isMeta3 p \<longleftrightarrow> ptype p = kPacketTypeMeta3"

definition getSpace :: "packet \<Rightarrow> int" where
  "getSpace p = i32 (pcap p - int (psize p))"

definition setExt :: "rtmp_header \<Rightarrow> packet \<Rightarrow> packet" where
  "setExt h p = p\<lparr>phdr := Some h\<rparr>"

definition setPacketSize :: "nat \<Rightarrow> packet \<Rightarrow> packet" where
  "setPacketSize n p = p\<lparr>psize := n\<rparr>"

definition setTimestamp :: "int \<Rightarrow> packet \<Rightarrow> packet" where
  "setTimestamp t p = p\<lparr>ptimestamp := t\<rparr>"

text \<open>A \<open>memcpy\<close> into the data area, a fault when the bytes do not fit the block.\<close>

definition store_at :: "nat \<Rightarrow> bytes \<Rightarrow> packet \<Rightarrow> packet res" where
  "store_at i xs p =
     (if i + length xs \<le> length (pblock p)
      then Inr (p\<lparr>pblock := take i (pblock p) @ xs @ drop (i + length xs) (pblock p)\<rparr>)
      else Inl OutOfBounds)"

text \<open>The bytes of the message a packet holds.\<close>

definition pdata :: "packet \<Rightarrow> bytes" where
  "pdata p = take (psize p) (pblock p)"

text \<open>A packet whose capacity is the size of its block and that is not overfull.\<close>

definition packet_ok :: "packet \<Rightarrow> bool" where
  "packet_ok p \<longleftrightarrow> pcap p = int (length (pblock p)) \<and> length (pblock p) < 2 ^ 31
     \<and> psize p \<le> length (pblock p)"

lemma newPacket_ok [simp]: "sz < 2 ^ 31 \<Longrightarrow> packet_ok (newPacket sz)"
  by (simp add: packet_ok_def newPacket_def)

lemma newPacket_sel [simp]:
  "psize (newPacket sz) = 0" "phdr (newPacket sz) = None" "length (pblock (newPacket sz)) = sz"
  by (simp_all add: newPacket_def)

lemma getSpace_ok: "packet_ok p \<Longrightarrow> getSpace p = int (length (pblock p) - psize p)"
  by (simp add: getSpace_def packet_ok_def)

lemma pdata_length [simp]: "packet_ok p \<Longrightarrow> length (pdata p) = psize p"
  by (simp add: pdata_def packet_ok_def)

lemma setExt_ok [simp]: "packet_ok (setExt h p) = packet_ok p"
  by (simp add: packet_ok_def setExt_def)

lemma store_at_end:
  assumes "packet_ok p" "psize p + length xs \<le> length (pblock p)"
  shows "\<exists>q. store_at (psize p) xs p = Inr q \<and> packet_ok (setPacketSize (psize p + length xs) q)
           \<and> pdata (setPacketSize (psize p + length xs) q) = pdata p @ xs
           \<and> length (pblock q) = length (pblock p) \<and> phdr q = phdr p \<and> psize q = psize p"
  using assms by (auto simp: store_at_def packet_ok_def pdata_def setPacketSize_def)

end
