(* ===== verification/ChunkIn.thy ===== *)
theory ChunkIn
  imports Bytes Packet
begin

unbundle bit_operations_syntax

text \<open>
  The chunk parser: the loop of \<open>RtmpContext::parseMessage\<close> (\<open>src/mmedia/rtmp/rtmp_context.cpp\<close>)
  and the members it keeps, \<open>in_message_headers_\<close>, \<open>in_packets_\<close>, \<open>in_deltas_\<close>, \<open>in_ext_\<close> and
  \<open>in_chunk_size_\<close>. The two maps of pointers are partial maps, a null pointer being \<open>None\<close>; the
  two maps of plain values give 0 and false where nothing was stored, as \<open>operator[]\<close> does.

  \<open>parse_chunk\<close> is one round of the loop over the waiting bytes. It stops the loop with
  \<open>InWait\<close>, or takes bytes with \<open>InTook\<close>, perhaps with a complete message. It reads the waiting
  bytes only: a read behind them would be a fault here, and there is none.
\<close>

section \<open>State\<close>

record in_state =
  in_message_headers :: "u32 \<Rightarrow> rtmp_header option"
  in_packets :: "u32 \<Rightarrow> packet option"
  in_deltas :: "u32 \<Rightarrow> u32"
  in_ext :: "u32 \<Rightarrow> bool"
  in_chunk_size :: int

definition newInState :: in_state where
  "newInState = \<lparr>in_message_headers = \<lambda>_. None, in_packets = \<lambda>_. None, in_deltas = \<lambda>_. 0,
     in_ext = \<lambda>_. False, in_chunk_size = 128\<rparr>"

datatype in_step = InWait in_state | InTook in_state nat "packet option"

section \<open>Headers\<close>

text \<open>The basic header: the format, the chunk stream id and its length; \<open>None\<close> to wait.\<close>

definition basic_header_in :: "bytes \<Rightarrow> (nat \<times> u32 \<times> nat) option res" where
  "basic_header_in b =
     bindr (readUint8T b 0) (\<lambda>c0.
       let fmt = unat (drop_bit 6 c0 AND 3); csid = ucast (c0 AND 0x3F) :: u32 in
       if csid = 0 then
         if length b < 2 then Inr None
         else bindr (readUint8T b 1) (\<lambda>c1. Inr (Some (fmt, 64 + ucast c1, 2)))
       else if csid = 1 then
         if length b < 3 then Inr None
         else bindr (readUint8T b 1) (\<lambda>c1. bindr (readUint8T b 2) (\<lambda>c2.
                Inr (Some (fmt, 64 + ucast c1 + ucast c2 * 256, 3))))
       else Inr (Some (fmt, csid, 1)))"

text \<open>
  The message header by format: the timestamp field, the message's header, the delta to keep
  and the position after it.
\<close>

definition message_header_in ::
  "nat \<Rightarrow> bytes \<Rightarrow> nat \<Rightarrow> rtmp_header \<Rightarrow> u32 \<Rightarrow> rtmp_header \<Rightarrow> (u32 \<times> rtmp_header \<times> u32 \<times> nat) res"
where
  "message_header_in fmt b parsed prev delta header =
     (if fmt = 0 then
        bindr (readUint24T b parsed) (\<lambda>ts.
        bindr (readUint24T b (parsed + 3)) (\<lambda>len.
        bindr (readUint8T b (parsed + 6)) (\<lambda>ty.
        bindr (loadUint32LE b (parsed + 7)) (\<lambda>sid.
          Inr (ts, header\<lparr>timestamp := ts, msg_len := len, msg_type := ty, msg_sid := sid\<rparr>,
               0, parsed + 11)))))
      else if fmt = 1 then
        bindr (readUint24T b parsed) (\<lambda>ts.
        bindr (readUint24T b (parsed + 3)) (\<lambda>len.
        bindr (readUint8T b (parsed + 6)) (\<lambda>ty.
          Inr (ts, header\<lparr>timestamp := ts + timestamp prev, msg_len := len, msg_type := ty,
                          msg_sid := msg_sid prev\<rparr>, ts, parsed + 7))))
      else if fmt = 2 then
        bindr (readUint24T b parsed) (\<lambda>ts.
          Inr (ts, header\<lparr>timestamp := ts + timestamp prev, msg_len := msg_len prev,
                          msg_type := msg_type prev, msg_sid := msg_sid prev\<rparr>, ts, parsed + 3))
      else
        Inr (0, header\<lparr>timestamp := (if timestamp header = 0 then delta + timestamp prev
                                     else timestamp header),
                       msg_len := msg_len prev, msg_type := msg_type prev,
                       msg_sid := msg_sid prev\<rparr>, delta, parsed))"

definition prev_of :: "in_state \<Rightarrow> u32 \<Rightarrow> rtmp_header" where
  "prev_of st csid = (case in_message_headers st csid of None \<Rightarrow> emptyHeader | Some h \<Rightarrow> h)"

text \<open>The length a new packet gets.\<close>

definition new_len :: "in_state \<Rightarrow> nat \<Rightarrow> bytes \<Rightarrow> nat \<Rightarrow> rtmp_header \<Rightarrow> u32 res" where
  "new_len st fmt b parsed prev =
     (if fmt = 0 \<or> fmt = 1 then readUint24T b (parsed + 3)
      else if msg_len prev = 0 then Inr (word_of_int (in_chunk_size st))
      else Inr (msg_len prev))"

definition packet_of :: "in_state \<Rightarrow> u32 \<Rightarrow> u32 \<Rightarrow> packet" where
  "packet_of st csid len =
     (case in_packets st csid of
        Some p \<Rightarrow> p
      | None \<Rightarrow> setExt (emptyHeader\<lparr>cs_id := csid, msg_len := len\<rparr>) (newPacket (unat len)))"

text \<open>The extended timestamp: the header, the delta and the position after it.\<close>

definition ext_timestamp_in ::
  "bool \<Rightarrow> nat \<Rightarrow> bytes \<Rightarrow> nat \<Rightarrow> rtmp_header \<Rightarrow> rtmp_header \<Rightarrow> u32 \<Rightarrow> (rtmp_header \<times> u32 \<times> nat) res"
where
  "ext_timestamp_in ext fmt b parsed prev h d =
     (if ext then
        bindr (readUint32T b parsed) (\<lambda>ts.
          if fmt \<noteq> 0 then Inr (h\<lparr>timestamp := ts + timestamp prev\<rparr>, ts, parsed + 4)
          else Inr (h, d, parsed + 4))
      else Inr (h, d, parsed))"

section \<open>The body\<close>

text \<open>
  The tail of a round: the state has the packet with its header. The difference
  \<open>total_bytes - parsed\<close> is unsigned, and so is the comparison with \<open>bytes\<close>.
\<close>

definition chunk_body_in ::
  "in_state \<Rightarrow> u32 \<Rightarrow> bytes \<Rightarrow> nat \<Rightarrow> packet \<Rightarrow> rtmp_header \<Rightarrow> in_step res"
where
  "chunk_body_in st csid b parsed packet header =
     (let bytes = min (getSpace packet) (in_chunk_size st) in
      if u32_int (int (length b) - int parsed) < u32_int bytes then Inr (InWait st)
      else if bytes < 0 then Inl OutOfBounds
      else bindr (slice b parsed (nat bytes)) (\<lambda>body.
        bindr (store_at (psize packet) body packet) (\<lambda>p1.
          let p2 = setPacketSize (psize p1 + nat bytes) p1;
              st1 = st\<lparr>in_message_headers := (in_message_headers st)(csid \<mapsto> header),
                       in_packets := (in_packets st)(csid \<mapsto> p2)\<rparr>
          in if getSpace p2 = 0 then
               Inr (InTook (st1\<lparr>in_packets := (in_packets st1)(csid := None)\<rparr>)
                      (parsed + nat bytes)
                      (Some (p2\<lparr>ptype := uint (msg_type header),
                                ptimestamp := uint (timestamp header)\<rparr>)))
             else Inr (InTook st1 (parsed + nat bytes) None))))"

section \<open>One round of the loop\<close>

definition short_header :: "nat \<Rightarrow> nat \<Rightarrow> bool" where
  "short_header fmt sz \<longleftrightarrow>
     sz = 0 \<or> (fmt = 0 \<and> sz < 11) \<or> (fmt = 1 \<and> sz < 7) \<or> (fmt = 2 \<and> sz < 3)"

definition with_chunk ::
  "in_state \<Rightarrow> u32 \<Rightarrow> rtmp_header \<Rightarrow> packet \<Rightarrow> u32 \<Rightarrow> bool \<Rightarrow> in_state" where
  "with_chunk st csid prev p d ext =
     st\<lparr>in_message_headers := (in_message_headers st)(csid \<mapsto> prev),
        in_packets := (in_packets st)(csid \<mapsto> p),
        in_deltas := (in_deltas st)(csid := d), in_ext := (in_ext st)(csid := ext)\<rparr>"

definition parse_chunk :: "in_state \<Rightarrow> bytes \<Rightarrow> in_step res" where
  "parse_chunk st b =
     bindr (basic_header_in b) (\<lambda>bh. case bh of
       None \<Rightarrow> Inr (InWait st)
     | Some (fmt, csid, parsed) \<Rightarrow>
         if short_header fmt (length b - parsed) then Inr (InWait st)
         else let prev = prev_of st csid in
           bindr (new_len st fmt b parsed prev) (\<lambda>len.
           let packet = packet_of st csid len in
           bindr (deref (phdr packet)) (\<lambda>header.
           bindr (message_header_in fmt b parsed prev (in_deltas st csid) header)
             (\<lambda>(ts, h1, d1, parsed1).
           let ext = (if fmt = 3 then in_ext st csid else ts = 0xFFFFFF) in
           if ext \<and> length b - parsed1 < 4
           then Inr (InWait (with_chunk st csid prev (setExt h1 packet) d1 ext))
           else bindr (ext_timestamp_in ext fmt b parsed1 prev h1 d1) (\<lambda>(h2, d2, parsed2).
             let p = setExt h2 packet in
             chunk_body_in (with_chunk st csid prev p d2 ext) csid b parsed2 p h2)))))"

section \<open>What a parser state keeps\<close>

text \<open>
  Every unfinished packet has a header. It fits its block, or its capacity came from a
  negative chunk size; then nothing was stored and its space is negative.
\<close>

definition in_packet_ok :: "packet \<Rightarrow> bool" where
  "in_packet_ok p \<longleftrightarrow> phdr p \<noteq> None \<and>
     (packet_ok p \<or> (getSpace p < 0 \<and> - (2 ^ 31) \<le> getSpace p))"

definition in_ok :: "in_state \<Rightarrow> bool" where
  "in_ok st \<longleftrightarrow> (\<forall>csid p. in_packets st csid = Some p \<longrightarrow> in_packet_ok p)
     \<and> - (2 ^ 31) \<le> in_chunk_size st \<and> in_chunk_size st < 2 ^ 31"

lemma newInState_ok [simp]: "in_ok newInState"
  by (simp add: in_ok_def newInState_def)

lemma new_packet_ok: "in_packet_ok (setExt h (newPacket (unat (len :: u32))))"
proof (cases "unat len < 2 ^ 31")
  case True
  then show ?thesis by (simp add: in_packet_ok_def) (simp add: setExt_def)
next
  case False
  have u: "int (unat len) = uint len" by simp
  have "uint len < 2 ^ 32" using uint_lt2p [of len] by simp
  moreover have "\<not> unat len < 2147483648" using False by simp
  then have "2147483648 \<le> uint len" using u by linarith
  ultimately have "i32 (int (unat len)) < 0"
    unfolding u using i32_wrap [of "uint len"] by simp
  moreover have "getSpace (setExt h (newPacket (unat len))) = i32 (int (unat len))"
    using i32_bounds [of "int (unat len)"] by (simp add: getSpace_def setExt_def newPacket_def)
  ultimately show ?thesis
    using i32_bounds [of "int (unat len)"] by (simp add: in_packet_ok_def) (simp add: setExt_def)
qed

lemma packet_of_ok: "in_ok st \<Longrightarrow> in_packet_ok (packet_of st csid len)"
  by (auto simp: packet_of_def in_ok_def new_packet_ok split: option.split)

lemma in_packet_ok_setExt: "in_packet_ok p \<Longrightarrow> in_packet_ok (setExt h p)"
  by (auto simp: in_packet_ok_def getSpace_def setExt_def packet_ok_def)

lemma with_chunk_ok:
  "in_ok st \<Longrightarrow> in_packet_ok p \<Longrightarrow> in_ok (with_chunk st csid prev p d ext)"
  by (auto simp: in_ok_def with_chunk_def)

lemma with_chunk_sel [simp]:
  "in_chunk_size (with_chunk st csid prev p d ext) = in_chunk_size st"
  "in_packets (with_chunk st csid prev p d ext) csid = Some p"
  "in_message_headers (with_chunk st csid prev p d ext) csid = Some prev"
  "in_deltas (with_chunk st csid prev p d ext) csid = d"
  "in_ext (with_chunk st csid prev p d ext) csid = ext"
  by (simp_all add: with_chunk_def)

lemma with_chunk_twice [simp]:
  "with_chunk (with_chunk st csid v p d e) csid v' p' d' e' = with_chunk st csid v' p' d' e'"
  by (simp add: with_chunk_def)

section \<open>Headers are read inside the waiting bytes\<close>

lemma reader_append [simp]:
  "i + 1 \<le> length m \<Longrightarrow> readUint8T (m @ r) i = readUint8T m i"
  "i + 3 \<le> length m \<Longrightarrow> readUint24T (m @ r) i = readUint24T m i"
  "i + 4 \<le> length m \<Longrightarrow> readUint32T (m @ r) i = readUint32T m i"
  by (rule c8.get_append c24.get_append c32.get_append; assumption)+

lemma loadUint32LE_append [simp]:
  "i + 4 \<le> length m \<Longrightarrow> loadUint32LE (m @ r) i = loadUint32LE m i"
  by (simp add: loadUint32LE_def slice_def)

lemma loadUint32LE_total: "i + 4 \<le> length m \<Longrightarrow> \<exists>v. loadUint32LE m i = Inr v"
  using c32.get_total [of 0 "rev (take 4 (drop i m))"] by (simp add: loadUint32LE_def slice_def)

lemma fmt_lt_4: "unat (drop_bit 6 c0 AND 3 :: u8) < 4"
proof -
  have "drop_bit 6 c0 AND 3 = take_bit 2 (drop_bit 6 c0)"
    by (simp add: take_bit_eq_mask mask_eq_exp_minus_1)
  then show ?thesis
    using take_bit_nat_less_exp [of 2 "unat (drop_bit 6 c0)"]
    by (simp add: unsigned_take_bit_eq)
qed

lemma basic_header_total:
  assumes "b \<noteq> []"
  shows "basic_header_in b = Inr None \<and> length b < 3
       \<or> (\<exists>fmt csid n. basic_header_in b = Inr (Some (fmt, csid, n))
            \<and> fmt < 4 \<and> 1 \<le> n \<and> n \<le> 3 \<and> n \<le> length b
            \<and> (\<forall>r. basic_header_in (b @ r) = Inr (Some (fmt, csid, n))))"
proof -
  have l1: "1 \<le> length b" using assms by (cases b) auto
  then obtain c0 where c0: "readUint8T b 0 = Inr c0" "\<And>r. readUint8T (b @ r) 0 = Inr c0"
    using c8.get_total [of 0 b] by auto
  have c1: "\<exists>c1. readUint8T b 1 = Inr c1 \<and> (\<forall>r. readUint8T (b @ r) 1 = Inr c1)" if "2 \<le> length b"
    using that c8.get_total [of 1 b] by auto
  have c2: "\<exists>c2. readUint8T b 2 = Inr c2 \<and> (\<forall>r. readUint8T (b @ r) 2 = Inr c2)" if "3 \<le> length b"
    using that c8.get_total [of 2 b] by auto
  consider "ucast (c0 AND 0x3F) = (0 :: u32)" "length b < 2"
    | "ucast (c0 AND 0x3F) = (0 :: u32)" "2 \<le> length b"
    | "ucast (c0 AND 0x3F) = (1 :: u32)" "length b < 3"
    | "ucast (c0 AND 0x3F) = (1 :: u32)" "3 \<le> length b"
    | "ucast (c0 AND 0x3F) \<noteq> (0 :: u32)" "ucast (c0 AND 0x3F) \<noteq> (1 :: u32)"
    by linarith
  then show ?thesis
    by cases
      (use c0 c1 c2 l1 fmt_lt_4 [of c0] in
        \<open>auto simp: basic_header_in_def Let_def simp del: reader_append\<close>)
qed

lemma short_header_mono: "\<not> short_header fmt n \<Longrightarrow> n \<le> m \<Longrightarrow> \<not> short_header fmt m"
  by (auto simp: short_header_def)

lemma new_len_total:
  assumes "\<not> short_header fmt (length b - parsed)" "parsed \<le> length b"
  shows "\<exists>len. new_len st fmt b parsed prev = Inr len
           \<and> (\<forall>r. new_len st fmt (b @ r) parsed prev = Inr len)"
  using assms c24.get_total [of "parsed + 3" b]
  by (auto simp: new_len_def short_header_def)

lemma message_header_total:
  assumes "\<not> short_header fmt (length b - parsed)" "parsed \<le> length b"
  shows "\<exists>ts h1 d1 p1. message_header_in fmt b parsed prev d header = Inr (ts, h1, d1, p1)
           \<and> parsed \<le> p1 \<and> p1 \<le> length b
           \<and> (\<forall>r. message_header_in fmt (b @ r) parsed prev d header = Inr (ts, h1, d1, p1))"
proof -
  consider (f0) "fmt = 0" "parsed + 11 \<le> length b" | (f1) "fmt = 1" "parsed + 7 \<le> length b"
    | (f2) "fmt = 2" "parsed + 3 \<le> length b" | (f3) "fmt \<noteq> 0" "fmt \<noteq> 1" "fmt \<noteq> 2"
    using assms by (auto simp: short_header_def) linarith+
  then show ?thesis
  proof cases
    case f0
    then show ?thesis
      using c24.get_total [of parsed b] c24.get_total [of "parsed + 3" b]
        c8.get_total [of "parsed + 6" b] loadUint32LE_total [of "parsed + 7" b]
      by (auto simp: message_header_in_def)
  next
    case f1
    then show ?thesis
      using c24.get_total [of parsed b] c24.get_total [of "parsed + 3" b]
        c8.get_total [of "parsed + 6" b]
      by (auto simp: message_header_in_def)
  next
    case f2
    then show ?thesis
      using c24.get_total [of parsed b] by (auto simp: message_header_in_def)
  qed (use assms(2) in \<open>auto simp: message_header_in_def\<close>)
qed

lemma ext_timestamp_total:
  assumes "\<not> (ext \<and> length b - p1 < 4)" "p1 \<le> length b"
  shows "\<exists>h2 d2 p2. ext_timestamp_in ext fmt b p1 prev h1 d1 = Inr (h2, d2, p2)
           \<and> p1 \<le> p2 \<and> p2 \<le> length b
           \<and> (\<forall>r. ext_timestamp_in ext fmt (b @ r) p1 prev h1 d1 = Inr (h2, d2, p2))"
proof (cases ext)
  case True
  then have "p1 + 4 \<le> length b" using assms by simp
  then show ?thesis
    using c32.get_total [of p1 b] True by (auto simp: ext_timestamp_in_def)
qed (use assms(2) in \<open>simp add: ext_timestamp_in_def\<close>)

section \<open>Reading a header again\<close>

lemma message_header_again:
  "message_header_in fmt b parsed prev d header = Inr (ts, h1, d1, p1) \<Longrightarrow>
   message_header_in fmt b parsed prev d1 h1 = Inr (ts, h1, d1, p1)"
  by (auto simp: message_header_in_def res_simps split: if_splits)

lemma ext_timestamp_again:
  assumes "message_header_in fmt b parsed prev d header = Inr (ts, h1, d1, p1)"
    and "ext_timestamp_in ext fmt b p1 prev h1 d1 = Inr (h2, d2, p2)"
  shows "\<exists>h1' d1'. message_header_in fmt b parsed prev d2 h2 = Inr (ts, h1', d1', p1)
           \<and> ext_timestamp_in ext fmt b p1 prev h1' d1' = Inr (h2, d2, p2)"
  using assms
  by (auto simp: message_header_in_def ext_timestamp_in_def res_simps split: if_splits)

section \<open>The cases of a round\<close>

lemma packet_of_header: "in_ok st \<Longrightarrow> \<exists>h. phdr (packet_of st csid len) = Some h"
  using packet_of_ok [of st csid len] by (auto simp: in_packet_ok_def)

definition ext_of :: "in_state \<Rightarrow> nat \<Rightarrow> u32 \<Rightarrow> u32 \<Rightarrow> bool" where
  "ext_of st fmt csid ts = (if fmt = 3 then in_ext st csid else ts = 0xFFFFFF)"

text \<open>The round after a basic header and enough bytes for the message header.\<close>

lemma parse_chunk_eq:
  assumes "basic_header_in b = Inr (Some (fmt, csid, parsed))"
    and "\<not> short_header fmt (length b - parsed)"
    and "new_len st fmt b parsed (prev_of st csid) = Inr len"
    and "packet = packet_of st csid len" "phdr packet = Some header"
    and "message_header_in fmt b parsed (prev_of st csid) (in_deltas st csid) header
         = Inr (ts, h1, d1, p1)"
  shows "parse_chunk st b =
    (let prev = prev_of st csid; ext = ext_of st fmt csid ts in
     if ext \<and> length b - p1 < 4
     then Inr (InWait (with_chunk st csid prev (setExt h1 packet) d1 ext))
     else bindr (ext_timestamp_in ext fmt b p1 prev h1 d1) (\<lambda>(h2, d2, p2).
       chunk_body_in (with_chunk st csid prev (setExt h2 packet) d2 ext) csid b p2
         (setExt h2 packet) h2))"
  using assms by (simp add: parse_chunk_def ext_of_def Let_def)

lemma parse_chunk_cases:
  assumes ok: "in_ok st" and b: "b \<noteq> []"
  obtains (wait) "parse_chunk st b = Inr (InWait st)"
  | (chunk) fmt csid parsed len header ts h1 d1 p1 where
      "\<And>r. basic_header_in (b @ r) = Inr (Some (fmt, csid, parsed))"
      "\<And>r. \<not> short_header fmt (length (b @ r) - parsed)"
      "\<And>r. new_len st fmt (b @ r) parsed (prev_of st csid) = Inr len"
      "phdr (packet_of st csid len) = Some header"
      "\<And>r. message_header_in fmt (b @ r) parsed (prev_of st csid) (in_deltas st csid) header
            = Inr (ts, h1, d1, p1)"
      "fmt < 4" "1 \<le> parsed" "parsed \<le> p1" "p1 \<le> length b"
proof -
  consider "basic_header_in b = Inr None"
    | (some) fmt csid n where "basic_header_in b = Inr (Some (fmt, csid, n))" "fmt < 4"
        "1 \<le> n" "n \<le> length b" "\<forall>r. basic_header_in (b @ r) = Inr (Some (fmt, csid, n))"
    using basic_header_total [OF b] by blast
  then show thesis
  proof cases
    case 1
    then show thesis by (intro wait) (simp add: parse_chunk_def)
  next
    case some
    show thesis
    proof (cases "short_header fmt (length b - n)")
      case True
      with some show thesis by (intro wait) (simp add: parse_chunk_def)
    next
      case False
      obtain len where len: "\<forall>r. new_len st fmt (b @ r) n (prev_of st csid) = Inr len"
        using new_len_total [OF False some(4), of st "prev_of st csid"] by blast
      obtain header where h: "phdr (packet_of st csid len) = Some header"
        using packet_of_header [OF ok] by blast
      obtain ts h1 d1 p1 where mh: "n \<le> p1" "p1 \<le> length b"
          "\<forall>r. message_header_in fmt (b @ r) n (prev_of st csid) (in_deltas st csid) header
            = Inr (ts, h1, d1, p1)"
        using message_header_total [OF False some(4)] by blast
      have "\<not> short_header fmt (length (b @ r) - n)" for r
        by (rule short_header_mono [OF False]) simp
      with some len h mh False show thesis by (intro chunk) auto
    qed
  qed
qed

section \<open>The body\<close>

lemma u32_int_len: "length b < 2 ^ 31 \<Longrightarrow> p \<le> length b \<Longrightarrow>
    u32_int (int (length b) - int p) = int (length b - p)"
  by (simp add: of_nat_diff)

lemma u32_int_neg: "- (2 ^ 31) \<le> x \<Longrightarrow> x < 0 \<Longrightarrow> 2 ^ 31 \<le> u32_int x"
proof -
  assume a: "- (2 ^ 31) \<le> x" "x < 0"
  have "x mod 2 ^ 32 = (x + 2 ^ 32) mod 2 ^ 32" by simp
  also have "\<dots> = x + 2 ^ 32" using a by (subst mod_pos_pos_trivial) simp_all
  finally show ?thesis using a by (simp add: u32_int_def)
qed

definition body_size :: "in_state \<Rightarrow> packet \<Rightarrow> int" where
  "body_size st p = min (getSpace p) (in_chunk_size st)"

lemma getSpace_le: "in_packet_ok p \<Longrightarrow> - (2 ^ 31) \<le> getSpace p \<and> getSpace p < 2 ^ 31"
  using i32_bounds by (simp add: getSpace_def)

text \<open>With fewer than two to the 31 bytes waiting, the unsigned comparison is the real one.\<close>

lemma chunk_body_eq:
  assumes "in_ok st" "in_packet_ok p" "length b < 2 ^ 31" "parsed \<le> length b"
  shows "chunk_body_in st csid b parsed p h =
    (if body_size st p < 0 \<or> int (length b - parsed) < body_size st p then Inr (InWait st)
     else let n = nat (body_size st p);
              p2 = p\<lparr>pblock := take (psize p) (pblock p) @ take n (drop parsed b)
                               @ drop (psize p + n) (pblock p), psize := psize p + n\<rparr>;
              st1 = st\<lparr>in_message_headers := (in_message_headers st)(csid \<mapsto> h),
                       in_packets := (in_packets st)(csid \<mapsto> p2)\<rparr>
          in if psize p + n = length (pblock p)
             then Inr (InTook (st1\<lparr>in_packets := (in_packets st1)(csid := None)\<rparr>) (parsed + n)
                    (Some (p2\<lparr>ptype := uint (msg_type h), ptimestamp := uint (timestamp h)\<rparr>)))
             else Inr (InTook st1 (parsed + n) None))"
proof -
  have lo: "- (2 ^ 31) \<le> body_size st p" "body_size st p < 2 ^ 31"
    using assms(1) getSpace_le [OF assms(2)]
    by (simp_all add: body_size_def in_ok_def min_less_iff_disj)
  note len = u32_int_len [OF assms(3,4)]
  consider (neg) "body_size st p < 0"
    | (few) "0 \<le> body_size st p" "int (length b - parsed) < body_size st p"
    | (enough) "0 \<le> body_size st p" "\<not> int (length b - parsed) < body_size st p"
    by linarith
  then show ?thesis
  proof cases
    case neg
    have "u32_int (int (length b) - int parsed) < u32_int (body_size st p)"
      using u32_int_neg [OF lo(1) neg] assms(3) len by simp
    with neg show ?thesis by (simp add: chunk_body_in_def Let_def flip: body_size_def)
  next
    case few
    then have "u32_int (int (length b) - int parsed) < u32_int (body_size st p)"
      using len lo by simp
    with few show ?thesis by (simp add: chunk_body_in_def Let_def flip: body_size_def)
  next
    case enough
    then have pok: "packet_ok p"
      using assms(2) by (auto simp: in_packet_ok_def body_size_def)
    have fits: "psize p + nat (body_size st p) \<le> length (pblock p)"
      using enough(1) getSpace_ok [OF pok] pok by (auto simp: body_size_def packet_ok_def)
    have lb: "length (take (nat (body_size st p)) (drop parsed b)) = nat (body_size st p)"
      using enough assms(4) by simp
    have space: "getSpace p2 = 0 \<longleftrightarrow> psize p + nat (body_size st p) = length (pblock p)"
      if "pcap p2 = pcap p" "psize p2 = psize p + nat (body_size st p)" for p2 :: packet
      using that pok fits by (auto simp: getSpace_def packet_ok_def)
    show ?thesis
      using enough len lo fits lb assms(4) space
      by (auto simp: chunk_body_in_def store_at_def setPacketSize_def slice_def Let_def
          simp flip: body_size_def)
  qed
qed

text \<open>A round is total, keeps the state well formed, and takes some but not too many bytes.\<close>

definition message_ok :: "packet \<Rightarrow> bool" where
  "message_ok p \<longleftrightarrow> packet_ok p \<and> psize p = length (pblock p) \<and> phdr p \<noteq> None
     \<and> 0 \<le> ptype p \<and> ptype p < 256"

fun step_ok :: "nat \<Rightarrow> in_step \<Rightarrow> bool" where
  "step_ok len (InWait st) \<longleftrightarrow> in_ok st"
| "step_ok len (InTook st n p) \<longleftrightarrow> in_ok st \<and> 1 \<le> n \<and> n \<le> len \<and> (\<forall>m. p = Some m \<longrightarrow> message_ok m)"

lemma chunk_body_total:
  assumes "in_ok st" "in_packet_ok p" "length b < 2 ^ 31" "1 \<le> parsed" "parsed \<le> length b"
  shows "\<exists>s. chunk_body_in st csid b parsed p h = Inr s \<and> step_ok (length b) s"
proof (cases "body_size st p < 0 \<or> int (length b - parsed) < body_size st p")
  case True
  with assms show ?thesis by (simp add: chunk_body_eq)
next
  case False
  then have pok: "packet_ok p" and ph: "phdr p \<noteq> None"
    using assms(2) by (auto simp: in_packet_ok_def body_size_def)
  have fits: "psize p + nat (body_size st p) \<le> length (pblock p)"
    using False getSpace_ok [OF pok] pok by (auto simp: body_size_def packet_ok_def)
  have "nat (body_size st p) \<le> length b - parsed" using False by linarith
  with False pok ph fits assms uint_lt2p [of "msg_type h"] show ?thesis
    by (auto simp: chunk_body_eq Let_def in_ok_def in_packet_ok_def message_ok_def packet_ok_def)
qed

theorem parse_chunk_total:
  assumes "in_ok st" "b \<noteq> []" "length b < 2 ^ 31"
  shows "\<exists>s. parse_chunk st b = Inr s \<and> step_ok (length b) s"
  using assms(1,2)
proof (cases rule: parse_chunk_cases)
  case (chunk fmt csid parsed len header ts h1 d1 p1)
  note base = chunk(1-3,5) [of "[]", simplified]
  note eq = parse_chunk_eq [OF base(1-3) refl chunk(4) base(4)]
  have ok: "in_packet_ok (setExt h (packet_of st csid len))" for h
    by (rule in_packet_ok_setExt [OF packet_of_ok [OF assms(1)]])
  show ?thesis
  proof (cases "ext_of st fmt csid ts \<and> length b - p1 < 4")
    case True
    then show ?thesis using eq ok assms(1) by (simp add: with_chunk_ok)
  next
    case False
    obtain h2 d2 p2 where e: "ext_timestamp_in (ext_of st fmt csid ts) fmt b p1 (prev_of st csid) h1 d1
        = Inr (h2, d2, p2)" "p1 \<le> p2" "p2 \<le> length b"
      using ext_timestamp_total [OF False chunk(9)] by blast
    have "1 \<le> p2" using chunk(7,8) e(2) by linarith
    from chunk_body_total [OF with_chunk_ok [OF assms(1) ok] ok assms(3) this e(3)]
    show ?thesis using eq e(1) False by simp
  qed
qed (use assms in simp)

section \<open>More bytes\<close>

lemma setExt_sel [simp]: "phdr (setExt h p) = Some h" "setExt h (setExt h' p) = setExt h p"
  by (simp_all add: setExt_def)

lemma with_chunk_prev [simp]:
  "prev_of (with_chunk st csid prev p d ext) csid = prev"
  "packet_of (with_chunk st csid prev p d ext) csid len = p"
  "new_len (with_chunk st csid prev p d ext) fmt b parsed prev = new_len st fmt b parsed prev"
  by (simp_all add: prev_of_def packet_of_def new_len_def)

lemma ext_of_again [simp]:
  "ext_of (with_chunk st csid prev p d (ext_of st fmt csid ts)) fmt csid ts = ext_of st fmt csid ts"
  by (simp add: ext_of_def)

lemma chunk_body_wait:
  "chunk_body_in st csid b parsed p h = Inr (InWait st') \<Longrightarrow> st' = st"
  by (auto simp: chunk_body_in_def Let_def res_simps split: if_splits)

lemma chunk_body_append:
  assumes "in_ok st" "in_packet_ok p" "length (b @ r) < 2 ^ 31" "parsed \<le> length b"
    and "chunk_body_in st csid b parsed p h = Inr (InTook st' n m)"
  shows "chunk_body_in st csid (b @ r) parsed p h = Inr (InTook st' n m)"
proof -
  have b: "length b < 2 ^ 31" using assms(3) by simp
  have nw: "\<not> (body_size st p < 0 \<or> int (length b - parsed) < body_size st p)"
    using assms(5) by (auto simp: chunk_body_eq [OF assms(1,2) b assms(4)])
  then have "nat (body_size st p) \<le> length b - parsed" by linarith
  then have t: "take (nat (body_size st p)) (drop parsed (b @ r))
      = take (nat (body_size st p)) (drop parsed b)"
    using assms(4) by simp
  have le: "parsed \<le> length (b @ r)" using assms(4) by simp
  have nw2: "\<not> (body_size st p < 0 \<or> int (length (b @ r) - parsed) < body_size st p)"
    using nw by auto
  show ?thesis
    using assms(5) unfolding chunk_body_eq [OF assms(1,2) b assms(4)]
      chunk_body_eq [OF assms(1,2,3) le] t
    by (simp only: nw nw2 if_False Let_def t)
qed

text \<open>A round that took bytes takes the same bytes when more are waiting.\<close>

lemma parse_chunk_append:
  assumes ok: "in_ok st" and b: "b \<noteq> []" and len: "length (b @ r) < 2 ^ 31"
    and took: "parse_chunk st b = Inr (InTook st' n m)"
  shows "parse_chunk st (b @ r) = Inr (InTook st' n m)"
  using ok b
proof (cases rule: parse_chunk_cases)
  case (chunk fmt csid parsed ln header ts h1 d1 p1)
  note base = chunk(1-3,5) [of "[]", simplified] and more = chunk(1-3,5) [of r]
  note eq = parse_chunk_eq [OF base(1-3) refl chunk(4) base(4)]
    and eq' = parse_chunk_eq [OF more(1-3) refl chunk(4) more(4)]
  have pok: "in_packet_ok (setExt h (packet_of st csid ln))" for h
    by (rule in_packet_ok_setExt [OF packet_of_ok [OF ok]])
  have ne: "\<not> (ext_of st fmt csid ts \<and> length b - p1 < 4)"
    using took unfolding eq by (auto simp: Let_def)
  then have ne': "\<not> (ext_of st fmt csid ts \<and> length (b @ r) - p1 < 4)" by auto
  obtain h2 d2 p2 where e: "p2 \<le> length b"
      "ext_timestamp_in (ext_of st fmt csid ts) fmt b p1 (prev_of st csid) h1 d1 = Inr (h2, d2, p2)"
      "ext_timestamp_in (ext_of st fmt csid ts) fmt (b @ r) p1 (prev_of st csid) h1 d1
       = Inr (h2, d2, p2)"
    using ext_timestamp_total [OF ne chunk(9)] by blast
  show ?thesis
    using took chunk_body_append [OF with_chunk_ok [OF ok pok] pok len e(1)]
    unfolding eq eq' Let_def
    by (simp only: ne ne' if_False e(2,3) bindr_simps case_prod_conv)
qed (use took in simp)

text \<open>
  A round that stopped leaves its work half done: the header is in the packet, the deltas are
  updated. The next round reads the same header again and comes to the same state.
\<close>

lemma parse_chunk_again:
  assumes ok: "in_ok st" and b: "b \<noteq> []" and wait: "parse_chunk st b = Inr (InWait st')"
  shows "parse_chunk st' (b @ r) = parse_chunk st (b @ r)"
  using ok b
proof (cases rule: parse_chunk_cases)
  case (chunk fmt csid parsed ln header ts h1 d1 p1)
  let ?prev = "prev_of st csid" and ?ext = "ext_of st fmt csid ts" and ?p = "packet_of st csid ln"
  note base = chunk(1-3,5) [of "[]", simplified] and more = chunk(1-3,5) [of r]
  note eq = parse_chunk_eq [OF base(1-3) refl chunk(4) base(4)]
    and eq' = parse_chunk_eq [OF more(1-3) refl chunk(4) more(4)]
  have redo: "parse_chunk (with_chunk st csid ?prev (setExt h ?p) d ?ext) (b @ r)
      = parse_chunk st (b @ r)"
    if again: "message_header_in fmt (b @ r) parsed ?prev d h = Inr (ts, h1', d1', p1)"
      and same: "ext_timestamp_in ?ext fmt (b @ r) p1 ?prev h1' d1'
        = ext_timestamp_in ?ext fmt (b @ r) p1 ?prev h1 d1"
      and short: "?ext \<and> length (b @ r) - p1 < 4 \<longrightarrow> h1' = h1 \<and> d1' = d1"
    for h d h1' d1'
  proof -
    let ?st = "with_chunk st csid ?prev (setExt h ?p) d ?ext"
    have nl: "new_len ?st fmt (b @ r) parsed (prev_of ?st csid) = Inr ln" using more(3) by simp
    have mh: "message_header_in fmt (b @ r) parsed (prev_of ?st csid) (in_deltas ?st csid) h
        = Inr (ts, h1', d1', p1)" using again by simp
    have "parse_chunk ?st (b @ r) =
      (if ?ext \<and> length (b @ r) - p1 < 4
       then Inr (InWait (with_chunk st csid ?prev (setExt h1' ?p) d1' ?ext))
       else bindr (ext_timestamp_in ?ext fmt (b @ r) p1 ?prev h1' d1') (\<lambda>(h2, d2, p2).
         chunk_body_in (with_chunk st csid ?prev (setExt h2 ?p) d2 ?ext) csid (b @ r) p2
           (setExt h2 ?p) h2))"
      using parse_chunk_eq [OF more(1,2) nl refl _ mh] by (simp add: Let_def)
    then show ?thesis
      using short unfolding eq' Let_def same by (simp split: if_splits)
  qed
  show ?thesis
  proof (cases "?ext \<and> length b - p1 < 4")
    case True
    then have "st' = with_chunk st csid ?prev (setExt h1 ?p) d1 ?ext"
      using wait unfolding eq by (simp add: Let_def)
    then show ?thesis
      using redo [OF message_header_again [OF more(4)]] by simp
  next
    case False
    then have False': "\<not> (?ext \<and> length (b @ r) - p1 < 4)" by auto
    obtain h2 d2 p2 where e:
        "ext_timestamp_in ?ext fmt b p1 ?prev h1 d1 = Inr (h2, d2, p2)"
        "ext_timestamp_in ?ext fmt (b @ r) p1 ?prev h1 d1 = Inr (h2, d2, p2)"
      using ext_timestamp_total [OF False chunk(9)] by blast
    then have "st' = with_chunk st csid ?prev (setExt h2 ?p) d2 ?ext"
      using wait False chunk_body_wait unfolding eq by (simp add: Let_def)
    moreover obtain h1' d1' where
        "message_header_in fmt (b @ r) parsed ?prev d2 h2 = Inr (ts, h1', d1', p1)"
        "ext_timestamp_in ?ext fmt (b @ r) p1 ?prev h1' d1' = Inr (h2, d2, p2)"
      using ext_timestamp_again [OF more(4) e(2)] by blast
    ultimately show ?thesis
      using redo [of d2 h2 h1' d1'] e(2) False' by (simp only: simp_thms)
  qed
qed (use wait in simp)

section \<open>The loop\<close>

text \<open>
  The loop over the waiting bytes. The message's handler belongs to the connection and may
  change the parser's state: the loop works on a connection state \<open>'c\<close> that contains an
  \<open>in_state\<close>. The result is the new state and the number of bytes taken from the buffer.
\<close>

lemma parse_chunk_took:
  assumes "parse_chunk st b = Inr (InTook st' n m)"
  shows "1 \<le> n"
proof -
  obtain fmt csid k where k: "basic_header_in b = Inr (Some (fmt, csid, k))"
    using assms by (auto simp: parse_chunk_def res_simps split: option.splits)
  have pos: "1 \<le> k"
    using k by (auto simp: basic_header_in_def Let_def res_simps split: if_splits)
  have mh: "k \<le> p1" if "message_header_in fmt b k prev d h = Inr (ts, h1, d1, p1)"
    for fmt k prev d h ts h1 d1 p1
    using that by (auto simp: message_header_in_def res_simps split: if_splits)
  have et: "k \<le> p2" if "ext_timestamp_in ext fmt b k prev h d = Inr (h2, d2, p2)"
    for ext fmt k prev h d h2 d2 p2
    using that by (auto simp: ext_timestamp_in_def res_simps split: if_splits)
  have bd: "k \<le> n" if "chunk_body_in st2 csid b k p h = Inr (InTook st' n m)" for st2 csid k p h
    using that by (auto simp: chunk_body_in_def Let_def res_simps split: if_splits)
  show ?thesis
    using assms pos
    by (auto simp: parse_chunk_def k Let_def res_simps split: if_splits dest!: mh et bd)
qed

function parse_loop ::
  "('c \<Rightarrow> in_state) \<Rightarrow> (in_state \<Rightarrow> 'c \<Rightarrow> 'c) \<Rightarrow> (packet \<Rightarrow> 'c \<Rightarrow> 'c res) \<Rightarrow> 'c \<Rightarrow> bytes
    \<Rightarrow> ('c \<times> nat) res" where
  "parse_loop inp set_inp deliver c b =
     (if length b \<le> 1 then Inr (c, 0)
      else bindr (parse_chunk (inp c) b) (\<lambda>s. case s of
          InWait st \<Rightarrow> Inr (set_inp st c, 0)
        | InTook st n m \<Rightarrow>
            bindr (case m of None \<Rightarrow> Inr (set_inp st c) | Some p \<Rightarrow> deliver p (set_inp st c)) (\<lambda>c1.
            bindr (parse_loop inp set_inp deliver c1 (drop n b)) (\<lambda>(c2, k). Inr (c2, n + k)))))"
  by pat_completeness auto
termination
  by (relation "measure (\<lambda>(inp, set_inp, deliver, c, b). length b)")
    (auto dest: parse_chunk_took)

declare parse_loop.simps [simp del]

text \<open>
  The rounds the loop has behind it: whole chunks were taken, and the messages they completed were
  delivered without a fault.
\<close>

inductive parse_rounds ::
  "('c \<Rightarrow> in_state) \<Rightarrow> (in_state \<Rightarrow> 'c \<Rightarrow> 'c) \<Rightarrow> (packet \<Rightarrow> 'c \<Rightarrow> 'c res) \<Rightarrow> 'c \<Rightarrow> bytes \<Rightarrow> 'c \<Rightarrow> bytes \<Rightarrow> bool"
  for inp set_inp deliver where
  no_round: "parse_rounds inp set_inp deliver c b c b"
| one_round: "1 < length b \<Longrightarrow> parse_chunk (inp c) b = Inr (InTook st n m) \<Longrightarrow>
    (case m of None \<Rightarrow> Inr (set_inp st c) | Some p \<Rightarrow> deliver p (set_inp st c)) = Inr c1 \<Longrightarrow>
    parse_rounds inp set_inp deliver c1 (drop n b) c2 b2 \<Longrightarrow> parse_rounds inp set_inp deliver c b c2 b2"

text \<open>
  What the loop asks of a connection: to hold a parser state, and to keep it well formed when a
  message is delivered.
\<close>

locale chunk_consumer =
  fixes inp :: "'c \<Rightarrow> in_state"
    and set_inp :: "in_state \<Rightarrow> 'c \<Rightarrow> 'c"
    and deliver :: "packet \<Rightarrow> 'c \<Rightarrow> 'c res"
  assumes inp_set: "inp (set_inp st c) = st"
    and set_set: "set_inp st (set_inp st' c) = set_inp st c"
    and deliver_keeps: "deliver p c = Inr c' \<Longrightarrow> message_ok p \<Longrightarrow> in_ok (inp c) \<Longrightarrow> in_ok (inp c')"
begin

abbreviation handled :: "packet option \<Rightarrow> in_state \<Rightarrow> 'c \<Rightarrow> 'c res" where
  "handled m st c \<equiv> (case m of None \<Rightarrow> Inr (set_inp st c) | Some p \<Rightarrow> deliver p (set_inp st c))"

lemma loop_short: "length b \<le> 1 \<Longrightarrow> parse_loop inp set_inp deliver c b = Inr (c, 0)"
  by (simp add: parse_loop.simps)

lemma loop_wait:
  "1 < length b \<Longrightarrow> parse_chunk (inp c) b = Inr (InWait st) \<Longrightarrow>
   parse_loop inp set_inp deliver c b = Inr (set_inp st c, 0)"
  by (subst parse_loop.simps) simp

lemma loop_took:
  "1 < length b \<Longrightarrow> parse_chunk (inp c) b = Inr (InTook st n m) \<Longrightarrow>
   parse_loop inp set_inp deliver c b =
     bindr (handled m st c) (\<lambda>c1.
       bindr (parse_loop inp set_inp deliver c1 (drop n b)) (\<lambda>(c2, k). Inr (c2, n + k)))"
  by (subst parse_loop.simps) simp

lemma handled_ok:
  "handled m st c = Inr c1 \<Longrightarrow> in_ok st \<Longrightarrow> (\<And>p. m = Some p \<Longrightarrow> message_ok p) \<Longrightarrow> in_ok (inp c1)"
  by (auto simp: inp_set split: option.splits dest: deliver_keeps)

lemma round_cases:
  assumes "in_ok (inp c)" "1 < length b" "length b < 2 ^ 31"
  obtains (wait) st where "parse_chunk (inp c) b = Inr (InWait st)" "in_ok st"
  | (took) st n m where "parse_chunk (inp c) b = Inr (InTook st n m)" "in_ok st" "1 \<le> n"
      "n \<le> length b" "\<And>p. m = Some p \<Longrightarrow> message_ok p"
proof -
  have "b \<noteq> []" using assms(2) by auto
  from parse_chunk_total [OF assms(1) this assms(3)] obtain s where
    s: "parse_chunk (inp c) b = Inr s" "step_ok (length b) s" by blast
  then show thesis by (cases s) (use wait took in auto)
qed

text \<open>The state stays well formed and no more is taken than there is.\<close>

lemma loop_keeps:
  "in_ok (inp c) \<Longrightarrow> length b < 2 ^ 31 \<Longrightarrow> parse_loop inp set_inp deliver c b = Inr (c', n) \<Longrightarrow>
   in_ok (inp c') \<and> n \<le> length b"
proof (induction "length b" arbitrary: b c n rule: less_induct)
  case less
  show ?case
  proof (cases "length b \<le> 1")
    case True
    then show ?thesis using less.prems by (simp add: loop_short)
  next
    case False
    then have b: "1 < length b" by simp
    from less.prems(1) b less.prems(2) show ?thesis
    proof (cases rule: round_cases)
      case (wait st)
      then show ?thesis using loop_wait [OF b wait(1)] less.prems(3) by (auto simp: inp_set)
    next
      case (took st k m)
      from less.prems(3) obtain c1 j where 1: "handled m st c = Inr c1"
          "parse_loop inp set_inp deliver c1 (drop k b) = Inr (c', j)" "n = k + j"
        unfolding loop_took [OF b took(1)] by (auto simp: res_simps split: prod.splits)
      have "in_ok (inp c1)" using handled_ok [OF 1(1) took(2,5)] .
      moreover have "length (drop k b) < length b" "length (drop k b) < 2 ^ 31"
        using took(3,4) b less.prems(2) by auto
      ultimately have "in_ok (inp c') \<and> j \<le> length (drop k b)"
        using less.hyps 1(2) by blast
      then show ?thesis using 1(3) took(4) by auto
    qed
  qed
qed

text \<open>The loop faults only where a message of its input is delivered.\<close>

lemma loop_faults:
  "in_ok (inp c) \<Longrightarrow> length b < 2 ^ 31 \<Longrightarrow> parse_loop inp set_inp deliver c b = Inl e \<Longrightarrow>
   \<exists>c1 b1 st n p. parse_rounds inp set_inp deliver c b c1 b1 \<and> parse_chunk (inp c1) b1 = Inr (InTook st n (Some p)) \<and>
     in_ok st \<and> message_ok p \<and> deliver p (set_inp st c1) = Inl e"
proof (induction "length b" arbitrary: b c rule: less_induct)
  case less
  then have "\<not> length b \<le> 1" by (auto simp: loop_short)
  then have b: "1 < length b" by simp
  from less.prems(1) b less.prems(2) show ?case
  proof (cases rule: round_cases)
    case (wait st)
    then show ?thesis using loop_wait [OF b wait(1)] less.prems(3) by simp
  next
    case (took st k m)
    show ?thesis
    proof (cases "handled m st c")
      case (Inl e')
      then obtain p where "m = Some p" "deliver p (set_inp st c) = Inl e'"
        by (auto split: option.splits)
      moreover have "e' = e" using less.prems(3) Inl unfolding loop_took [OF b took(1)] by simp
      ultimately show ?thesis using took(1,2,5) parse_rounds.no_round by metis
    next
      case (Inr c1)
      then have "parse_loop inp set_inp deliver c1 (drop k b) = Inl e"
        using less.prems(3) unfolding loop_took [OF b took(1)]
        by (auto simp: res_simps split: prod.splits)
      moreover have "in_ok (inp c1)" using handled_ok [OF Inr took(2,5)] .
      moreover have "length (drop k b) < length b" "length (drop k b) < 2 ^ 31"
        using took(3,4) b less.prems(2) by auto
      ultimately show ?thesis 
        using less.hyps [of "drop k b" c1]
          parse_rounds.one_round [of b inp c st k m set_inp deliver c1, OF b took(1) Inr] by blast
    qed
  qed
qed

text \<open>
  Bytes may arrive in pieces: parsing a first piece, then what it left together with the rest, is
  parsing everything at once.
\<close>

lemma loop_append:
  "in_ok (inp c) \<Longrightarrow> length (xs @ ys) < 2 ^ 31 \<Longrightarrow>
   parse_loop inp set_inp deliver c (xs @ ys) =
     bindr (parse_loop inp set_inp deliver c xs) (\<lambda>(c1, n).
       bindr (parse_loop inp set_inp deliver c1 (drop n xs @ ys)) (\<lambda>(c2, k). Inr (c2, n + k)))"
proof (induction "length xs" arbitrary: xs c rule: less_induct)
  case less
  let ?loop = "parse_loop inp set_inp deliver"
  show ?case
  proof (cases "length xs \<le> 1")
    case True
    then show ?thesis by (simp add: loop_short) (cases "?loop c (xs @ ys)"; simp)
  next
    case False
    then have x: "1 < length xs" "1 < length (xs @ ys)" "xs \<noteq> []" "length xs < 2 ^ 31"
      using less.prems(2) by auto
    from less.prems(1) x(1,4) show ?thesis
    proof (cases rule: round_cases)
      case (wait st)
      have again: "parse_chunk (inp (set_inp st c)) (xs @ ys) = parse_chunk (inp c) (xs @ ys)"
        unfolding inp_set by (rule parse_chunk_again [OF less.prems(1) x(3) wait(1)])
      have n1: "\<not> length (xs @ ys) \<le> 1" using x(2) by simp
      have "?loop (set_inp st c) (xs @ ys) = ?loop c (xs @ ys)"
        by (subst (1 2) parse_loop.simps) (simp only: again set_set n1 if_False)
      then show ?thesis
        using loop_wait [OF x(1) wait(1)] by simp (cases "?loop c (xs @ ys)"; simp)
    next
      case (took st n m)
      have all: "parse_chunk (inp c) (xs @ ys) = Inr (InTook st n m)"
        by (rule parse_chunk_append [OF less.prems(1) x(3) less.prems(2) took(1)])
      have d: "drop n (xs @ ys) = drop n xs @ ys" using took(4) by simp
      have IH: "?loop c1 (drop n xs @ ys) =
          bindr (?loop c1 (drop n xs)) (\<lambda>(c2, i).
            bindr (?loop c2 (drop i (drop n xs) @ ys)) (\<lambda>(c3, k). Inr (c3, i + k)))"
        if "handled m st c = Inr c1" for c1
        by (rule less.hyps) (use took x less.prems(2) handled_ok [OF that took(2,5)] in auto)
      show ?thesis
        unfolding loop_took [OF x(1) took(1)] loop_took [OF x(2) all] d
        by (cases "handled m st c")
          (simp_all add: IH bindr_assoc case_prod_unfold add.commute add.left_commute)
    qed
  qed
qed

end

section \<open>An observer\<close>

text \<open>The messages a byte stream holds: the loop with a handler that only collects.\<close>

definition collect :: "packet \<Rightarrow> in_state \<times> packet list \<Rightarrow> (in_state \<times> packet list) res" where
  "collect p c = Inr (fst c, snd c @ [p])"

definition set_in :: "in_state \<Rightarrow> in_state \<times> packet list \<Rightarrow> in_state \<times> packet list" where
  "set_in st c = (st, snd c)"

interpretation observer: chunk_consumer fst set_in collect
  by unfold_locales (auto simp: set_in_def collect_def)

definition messages_in :: "in_state \<Rightarrow> bytes \<Rightarrow> ((in_state \<times> packet list) \<times> nat) res" where
  "messages_in st b = parse_loop fst set_in collect (st, []) b"

end
