(* ===== verification/ChunkOut.thy ===== *)
theory ChunkOut
  imports ChunkIn
begin

unbundle bit_operations_syntax

text \<open>
  The chunk builder of \<open>src/mmedia/rtmp/rtmp_context.cpp\<close>: both overloads of \<open>buildChunk\<close>, and
  the members they use. \<open>out_current_\<close> is the number of bytes of \<open>out_buffer_\<close> in use. A node
  of \<open>sending_buffers_\<close> is a pointer and a length; the model keeps the bytes it points to,
  which nothing changes until the write is complete and the lists are cleared.

  Headers go to a buffer of 4096 bytes. Only the header of a later chunk is checked, and only
  for a full buffer: a write behind the buffer is a fault. When the buffer is full the rest of
  the message is dropped and the call still returns true. A node that reaches behind the
  packet's block is a fault here; in the program the fault is when the node is sent.
\<close>

section \<open>State\<close>

definition RTMP_BUFFER_SIZE :: nat where
  "RTMP_BUFFER_SIZE = 4096"

definition out_chunk_size :: int where
  "out_chunk_size = 4096"

record out_state =
  out_used :: nat
  out_deltas :: "u32 \<Rightarrow> u32"
  out_message_headers :: "u32 \<Rightarrow> rtmp_header option"
  out_waiting_queue :: "packet list"
  sending_buffers :: "bytes list"
  out_sending_packets :: "packet list"
  sending :: bool

definition newOutState :: out_state where
  "newOutState = \<lparr>out_used = 0, out_deltas = \<lambda>_. 0, out_message_headers = \<lambda>_. None,
     out_waiting_queue = [], sending_buffers = [], out_sending_packets = [], sending = False\<rparr>"

section \<open>Headers\<close>

text \<open>The format of the first chunk and what is left of the timestamp.\<close>

definition chunk_fmt ::
  "rtmp_header \<Rightarrow> rtmp_header option \<Rightarrow> u32 \<Rightarrow> u32 \<Rightarrow> bool \<Rightarrow> nat \<times> u32" where
  "chunk_fmt header prev delta ts fmt0 =
     (case prev of
        None \<Rightarrow> (0, ts)
      | Some pv \<Rightarrow>
          if \<not> fmt0 \<and> timestamp pv \<le> ts \<and> msg_sid header = msg_sid pv then
            let d = ts - timestamp pv in
            if msg_type header = msg_type pv \<and> msg_len header = msg_len pv
            then (if d = delta then (3, d) else (2, d)) else (1, d)
          else (0, ts))"

definition basic_header_out :: "nat \<Rightarrow> u32 \<Rightarrow> bytes" where
  "basic_header_out fmt cs =
     (if cs < 64 then [push_bit 6 (word_of_nat fmt) OR ucast cs]
      else if cs < 64 + 256 then [push_bit 6 (word_of_nat fmt), ucast (cs - 64)]
      else (push_bit 6 (word_of_nat fmt) OR 1) # memcpyUint16 (ucast (cs - 64)))"

definition ts_field :: "u32 \<Rightarrow> u32" where
  "ts_field ts = (if 0xFFFFFF < ts then 0xFFFFFF else ts)"

definition message_header_out :: "nat \<Rightarrow> u32 \<Rightarrow> rtmp_header \<Rightarrow> bytes" where
  "message_header_out fmt ts header =
     (if fmt = 0 then
        writeUint24T ts @ writeUint24T (msg_len header) @ writeUint8T (msg_type header)
        @ memcpyUint32 (msg_sid header)
      else if fmt = 1 then
        writeUint24T ts @ writeUint24T (msg_len header) @ writeUint8T (msg_type header)
      else if fmt = 2 then writeUint24T ts
      else [])"

definition out_delta :: "nat \<Rightarrow> u32 \<Rightarrow> u32 \<Rightarrow> u32" where
  "out_delta fmt ts delta = (if fmt = 0 then 0 else if fmt = 1 \<or> fmt = 2 then ts else delta)"

text \<open>The extended timestamp is copied in the host's byte order.\<close>

definition ext_timestamp_out :: "u32 \<Rightarrow> bytes" where
  "ext_timestamp_out ts = (if ts_field ts = 0xFFFFFF then memcpyUint32 ts else [])"

text \<open>A header goes to \<open>out_buffer_\<close> and becomes a node.\<close>

definition push_header :: "bytes \<Rightarrow> nat \<Rightarrow> bytes list \<Rightarrow> (nat \<times> bytes list) res" where
  "push_header hdr used nodes =
     (if used + length hdr \<le> RTMP_BUFFER_SIZE then Inr (used + length hdr, nodes @ [hdr])
      else Inl OutOfBounds)"

section \<open>The body\<close>

lemma body_size_pos:
  "parsed < unat (len :: u32) \<Longrightarrow> 0 \<le> min (i32 (uint len - int parsed)) out_chunk_size \<Longrightarrow>
   0 < nat (min (i32 (uint len - int parsed)) out_chunk_size)"
proof -
  assume a: "parsed < unat len" "0 \<le> min (i32 (uint len - int parsed)) out_chunk_size"
  let ?d = "uint len - int parsed"
  have "int parsed < uint len" using a(1) by (simp add: int_less_uint)
  moreover have "uint len < 2 ^ 32" using uint_lt2p [of len] by simp
  ultimately have d: "0 < ?d" "?d < 2 ^ 32" by linarith+
  have "0 < i32 ?d"
  proof (cases "?d < 2 ^ 31")
    case True
    then show ?thesis using d by simp
  next
    case False
    then have "i32 ?d < 0" using d i32_wrap [of ?d] by simp
    then show ?thesis using a(2) by simp
  qed
  then show ?thesis by (simp add: out_chunk_size_def)
qed

lemma body_size_decreases:
  "parsed + nat (min (i32 (uint len - int parsed)) out_chunk_size) < unat (len :: u32) \<Longrightarrow>
   \<not> min (i32 (uint len - int parsed)) out_chunk_size < 0 \<Longrightarrow>
   unat len - (parsed + nat (min (i32 (uint len - int parsed)) out_chunk_size)) < unat len - parsed"
proof -
  let ?m = "min (i32 (uint len - int parsed)) out_chunk_size"
  assume a: "parsed + nat ?m < unat len" "\<not> ?m < 0"
  have "parsed < unat len" using a(1) by linarith
  moreover have "0 \<le> ?m" using a(2) by linarith
  ultimately have "0 < nat ?m" by (rule body_size_pos)
  then show ?thesis using a(1) by linarith
qed

function build_body ::
  "bytes \<Rightarrow> u32 \<Rightarrow> bytes \<Rightarrow> nat \<Rightarrow> nat \<Rightarrow> bytes list \<Rightarrow> (nat \<times> bytes list) res" where
  "build_body hdr len block parsed used nodes =
     (let sz = min (i32 (uint len - int parsed)) out_chunk_size in
      if sz < 0 then Inl OutOfBounds
      else bindr (slice block parsed (nat sz)) (\<lambda>chunk.
        let parsed1 = parsed + nat sz; nodes1 = nodes @ [chunk] in
        if parsed1 < unat len then
          if RTMP_BUFFER_SIZE \<le> used then Inr (used, nodes1)
          else bindr (push_header hdr used nodes1) (\<lambda>(used1, nodes2).
                 build_body hdr len block parsed1 used1 nodes2)
        else Inr (used, nodes1)))"
  by pat_completeness auto

termination
  by (relation "measure (\<lambda>(hdr, len, block, parsed, used, nodes). unat len - parsed)")
    (auto intro: body_size_decreases)

declare build_body.simps [simp del]

section \<open>buildChunk\<close>

text \<open>What both overloads do between finding the header and storing the packet.\<close>

definition build_chunks :: "packet \<Rightarrow> rtmp_header \<Rightarrow> u32 \<Rightarrow> bool \<Rightarrow> out_state \<Rightarrow> out_state res" where
  "build_chunks p header ts0 fmt0 o' =
     (let cs = cs_id header;
          prev = out_message_headers o' cs;
          (fmt, ts) = chunk_fmt header prev (out_deltas o' cs) ts0 fmt0;
          hdr = basic_header_out fmt cs @ message_header_out fmt (ts_field ts) header
               @ ext_timestamp_out ts;
          pv = (case prev of None \<Rightarrow> emptyHeader | Some h \<Rightarrow> h);
          pv1 = header\<lparr>timestamp := (if fmt = 0 then ts else timestamp pv + ts)\<rparr>
      in bindr (push_header hdr (out_used o') (sending_buffers o')) (\<lambda>(used, nodes).
         bindr (build_body (basic_header_out 3 cs @ ext_timestamp_out ts) (msg_len header)
                  (pblock p) 0 used nodes) (\<lambda>(used1, nodes1).
           Inr (o'\<lparr>out_used := used1,
                   out_deltas := (out_deltas o')(cs := out_delta fmt ts (out_deltas o' cs)),
                   out_message_headers := (out_message_headers o')(cs \<mapsto> pv1),
                   sending_buffers := nodes1\<rparr>))))"

text \<open>The overload for a shared packet keeps it alive before it builds, the other one after.\<close>

definition buildChunk :: "packet \<Rightarrow> u32 \<Rightarrow> bool \<Rightarrow> out_state \<Rightarrow> (bool \<times> out_state) res" where
  "buildChunk p ts fmt0 o' =
     (case phdr p of
        None \<Rightarrow> Inr (False, o')
      | Some header \<Rightarrow>
          bindr (build_chunks p header ts fmt0
                   (o'\<lparr>out_sending_packets := out_sending_packets o' @ [p]\<rparr>))
            (\<lambda>o1. Inr (True, o1)))"

definition buildChunk_move :: "packet \<Rightarrow> u32 \<Rightarrow> bool \<Rightarrow> out_state \<Rightarrow> (bool \<times> out_state) res" where
  "buildChunk_move p ts fmt0 o' =
     (case phdr p of
        None \<Rightarrow> Inr (False, o')
      | Some header \<Rightarrow>
          bindr (build_chunks p header ts fmt0 o')
            (\<lambda>o1. Inr (True, o1\<lparr>out_sending_packets := out_sending_packets o1 @ [p]\<rparr>)))"

section \<open>The two overloads\<close>

lemma build_chunks_keeps_packets:
  "build_chunks p h ts f (s\<lparr>out_sending_packets := ps\<rparr>)
   = bindr (build_chunks p h ts f s) (\<lambda>s1. Inr (s1\<lparr>out_sending_packets := ps\<rparr>))"
  by (cases s) (simp add: build_chunks_def Let_def case_prod_unfold bindr_assoc)

lemma build_chunks_packets:
  "build_chunks p h ts f s = Inr s1 \<Longrightarrow> out_sending_packets s1 = out_sending_packets s"
  by (auto simp: build_chunks_def Let_def res_simps split: prod.splits)

lemma overloads_agree:
  "buildChunk p ts fmt0 s = buildChunk_move p ts fmt0 s"
proof (cases "phdr p")
  case (Some h)
  have "build_chunks p h ts fmt0 (s\<lparr>out_sending_packets := out_sending_packets s @ [p]\<rparr>)
      = bindr (build_chunks p h ts fmt0 s)
          (\<lambda>s1. Inr (s1\<lparr>out_sending_packets := out_sending_packets s @ [p]\<rparr>))"
    by (rule build_chunks_keeps_packets)
  then show ?thesis
    by (cases "build_chunks p h ts fmt0 s")
      (simp_all add: buildChunk_def buildChunk_move_def Some build_chunks_packets)
qed (simp add: buildChunk_def buildChunk_move_def)

lemma build_chunks_frame:
  "build_chunks p h ts f s = Inr s1 \<Longrightarrow>
   out_waiting_queue s1 = out_waiting_queue s \<and> sending s1 = sending s"
  by (auto simp: build_chunks_def Let_def res_simps split: prod.splits)

lemma buildChunk_frame:
  "buildChunk p ts f s = Inr (b, s1) \<Longrightarrow>
   out_waiting_queue s1 = out_waiting_queue s \<and> sending s1 = sending s"
  by (auto simp: buildChunk_def res_simps split: option.split_asm dest!: build_chunks_frame)

section \<open>The stream of chunks\<close>

text \<open>The chunks after the first: each has its header, the data goes in pieces of 4096.\<close>

function cont_stream :: "bytes \<Rightarrow> bytes \<Rightarrow> bytes" where
  "cont_stream hdr d =
     (if d = [] then [] else hdr @ take 4096 d @ cont_stream hdr (drop 4096 d))"
  by pat_completeness auto
termination
  by (relation "measure (\<lambda>(hdr, d). length d)") auto

declare cont_stream.simps [simp del]

lemma cont_stream_Nil [simp]: "cont_stream hdr [] = []"
  by (simp add: cont_stream.simps)

lemma cont_stream_Cons:
  "d \<noteq> [] \<Longrightarrow> cont_stream hdr d = hdr @ take 4096 d @ cont_stream hdr (drop 4096 d)"
  by (subst cont_stream.simps) simp

lemma build_body_last:
  assumes "min (i32 (uint len - int k)) out_chunk_size = int n"
    and "k + n = unat len" "unat len \<le> length block"
  shows "build_body hdr len block k used nodes = Inr (used, nodes @ [take n (drop k block)])"
  by (subst build_body.simps, unfold assms(1) Let_def) (use assms(2,3) in \<open>simp add: slice_def\<close>)

text \<open>With room for the headers the builder writes the whole message in that form.\<close>

lemma build_body_stream:
  assumes "k \<le> unat len" "unat len \<le> length block" "unat len < 2 ^ 24" "hdr \<noteq> []"
    and "used + length hdr * ((unat len - k) div 4096) \<le> RTMP_BUFFER_SIZE"
  shows "\<exists>used1 ns. build_body hdr len block k used nodes = Inr (used1, nodes @ ns)
    \<and> concat ns = take 4096 (take (unat len - k) (drop k block))
                  @ cont_stream hdr (drop 4096 (take (unat len - k) (drop k block)))
    \<and> used1 \<le> used + length hdr * ((unat len - k) div 4096)"
  using assms
proof (induction "unat len - k" arbitrary: k used nodes rule: less_induct)
  case less
  let ?n = "unat len - k"
  have il: "i32 (uint len - int k) = int ?n"
  proof -
    have "uint len - int k = int ?n" using less.prems(1) by (simp add: of_nat_diff)
    moreover have "int ?n < 2 ^ 31" using less.prems(3) by simp
    ultimately show ?thesis by simp
  qed
  show ?case
  proof (cases "?n \<le> 4096")
    case True
    then have sz: "min (i32 (uint len - int k)) out_chunk_size = int ?n"
      using il by (simp add: out_chunk_size_def)
    have "build_body hdr len block k used nodes = Inr (used, nodes @ [take ?n (drop k block)])"
      by (rule build_body_last [OF sz]) (use less.prems(1,2) in simp_all)
    moreover have "drop 4096 (take ?n (drop k block)) = []" using True by simp
    ultimately show ?thesis using True by (intro exI [of _ used] exI) auto
  next
    case False
    then have "4096 < int ?n" by linarith
    then have sz: "min (i32 (uint len - int k)) out_chunk_size = 4096"
      unfolding il out_chunk_size_def by linarith
    obtain m where m: "?n = m + 4096" "unat len - (k + 4096) = m"
      using False by (intro that [of "?n - 4096"]) simp_all
    then have dv: "?n div 4096 = Suc (m div 4096)" by simp
    have "1 \<le> length hdr" using less.prems(4) by (cases hdr) simp_all
    moreover have "length hdr \<le> length hdr * Suc (m div 4096)" by simp
    moreover note less.prems(5) [unfolded dv]
    ultimately have room: "used + length hdr \<le> RTMP_BUFFER_SIZE" "used < RTMP_BUFFER_SIZE"
      by linarith+
    have room': "used + length hdr + length hdr * (m div 4096) \<le> RTMP_BUFFER_SIZE"
      using less.prems(5) [unfolded dv] by simp
    have "\<exists>used1 ns. build_body hdr len block (k + 4096) (used + length hdr)
          (nodes @ [take 4096 (drop k block)] @ [hdr])
        = Inr (used1, (nodes @ [take 4096 (drop k block)] @ [hdr]) @ ns)
        \<and> concat ns = take 4096 (take m (drop (k + 4096) block))
              @ cont_stream hdr (drop 4096 (take m (drop (k + 4096) block)))
        \<and> used1 \<le> used + length hdr + length hdr * (m div 4096)"
      by (rule less.hyps [where k = "k + 4096", unfolded m(2)]) (use less.prems(1-4) False room' m in simp_all)
    then obtain used1 ns where IH: "build_body hdr len block (k + 4096) (used + length hdr)
          (nodes @ [take 4096 (drop k block)] @ [hdr])
        = Inr (used1, (nodes @ [take 4096 (drop k block)] @ [hdr]) @ ns)"
        "concat ns = take 4096 (take m (drop (k + 4096) block))
              @ cont_stream hdr (drop 4096 (take m (drop (k + 4096) block)))"
        "used1 \<le> used + length hdr + length hdr * (m div 4096)"
      by blast
    have bb: "build_body hdr len block k used nodes
        = Inr (used1, nodes @ [take 4096 (drop k block), hdr] @ ns)"
      using False less.prems(2) room IH(1)
      by (subst build_body.simps, unfold sz Let_def) (simp add: slice_def push_header_def)
    let ?d = "take ?n (drop k block)"
    have d: "take 4096 ?d = take 4096 (drop k block)"
      "drop 4096 ?d = take m (drop (k + 4096) block)"
      using m by (simp_all add: drop_take add.commute)
    have ne: "drop 4096 ?d \<noteq> []" using False less.prems(1,2) by simp
    have "concat ([take 4096 (drop k block), hdr] @ ns) = take 4096 ?d @ cont_stream hdr (drop 4096 ?d)"
      unfolding cont_stream_Cons [OF ne] using IH(2) d by simp
    moreover have "used1 \<le> used + length hdr * (?n div 4096)"
      using IH(3) unfolding dv by simp
    ultimately show ?thesis using bb by blast
  qed
qed

section \<open>The basic header comes back\<close>

lemma bit_small: "unat w < 2 ^ k \<Longrightarrow> bit w n \<Longrightarrow> n < k" for w :: "'a :: len word"
proof -
  assume a: "unat w < 2 ^ k" "bit w n"
  have "take_bit k (unat w) = unat w" using a(1) by (simp add: take_bit_nat_eq_self)
  moreover have "bit (unat w) n" using a(2) bit_imp_le_length by (simp add: bit_unsigned_iff)
  ultimately show ?thesis by (metis bit_take_bit_iff)
qed

lemma first_byte:
  fixes x :: u8
  assumes "fmt < 4" "unat x < 64"
  shows "unat (drop_bit 6 (push_bit 6 (word_of_nat fmt) OR x) AND 3) = fmt"
    and "(push_bit 6 (word_of_nat fmt) OR x) AND 0x3F = x"
proof -
  have x: "take_bit 6 x = x"
    by (rule bit_word_eqI) (use assms(2) bit_small [of x 6] in \<open>auto simp: bit_simps\<close>)
  have m2: "(3 :: u8) = mask 2" by (simp add: mask_eq_exp_minus_1)
  have "drop_bit 6 (push_bit 6 (word_of_nat fmt) OR x) AND mask 2 = (take_bit 2 (word_of_nat fmt) :: u8)"
  proof (rule bit_word_eqI)
    fix n
    show "bit (drop_bit 6 (push_bit 6 (word_of_nat fmt) OR x) AND mask 2) n
        = bit (take_bit 2 (word_of_nat fmt) :: u8) n" if "n < LENGTH(8)"
      using that bit_small [of x 6 "n + 6"] assms(2)
      by (auto simp: bit_simps add.commute dest: bit_imp_le_length)
  qed
  then have "drop_bit 6 (push_bit 6 (word_of_nat fmt) OR x) AND 3 = (take_bit 2 (word_of_nat fmt) :: u8)"
    unfolding m2 .
  moreover have "unat (take_bit 2 (word_of_nat fmt) :: u8) = fmt"
    using assms(1) by (simp add: unsigned_take_bit_eq unsigned_of_nat take_bit_nat_eq_self)
  ultimately show "unat (drop_bit 6 (push_bit 6 (word_of_nat fmt) OR x) AND 3) = fmt" by simp
  have m6: "(0x3F :: u8) = mask 6" by (simp add: mask_eq_exp_minus_1)
  have "take_bit 6 (push_bit 6 (word_of_nat fmt) OR x) = x"
    using x by (simp add: take_bit_push_bit)
  then show "(push_bit 6 (word_of_nat fmt) OR x) AND 0x3F = x"
    unfolding m6 by (simp only: take_bit_eq_mask)
qed

lemma ucast_small: "unat w < 256 \<Longrightarrow> ucast (ucast w :: u8) = w" for w :: u32
  by (rule bit_word_eqI) (use bit_small [of w 8] in \<open>auto simp: bit_simps\<close>)

lemma two_bytes_sum:
  fixes w :: u32
  assumes "unat w < 65536"
  shows "ucast (ucast (ucast w :: u16) :: u8) + ucast (ucast (drop_bit 8 (ucast w :: u16)) :: u8) * 256 = w"
proof -
  have lo: "(ucast (ucast (ucast w :: u16) :: u8) :: u32) = take_bit 8 w"
    by (rule bit_word_eqI) (auto simp: bit_simps)
  have hi: "(ucast (ucast (drop_bit 8 (ucast w :: u16)) :: u8) :: u32) = drop_bit 8 w"
  proof (rule bit_word_eqI)
    fix n
    have "n < 8" if "bit w (n + 8)" using bit_small [of w 16, OF _ that] assms by simp
    then show "bit (ucast (ucast (drop_bit 8 (ucast w :: u16)) :: u8) :: u32) n = bit (drop_bit 8 w) n"
      if "n < LENGTH(32)"
      using that by (auto simp: bit_simps add.commute)
  qed
  have "drop_bit 8 w * 256 = push_bit 8 (drop_bit 8 w)"
    by (simp add: push_bit_eq_mult)
  then show ?thesis
    unfolding lo hi using bits_ident [of 8 w] by (simp add: add.commute)
qed

lemma basic_header_length: "1 \<le> length (basic_header_out fmt cs) \<and> length (basic_header_out fmt cs) \<le> 3"
  by (simp add: basic_header_out_def)

lemma basic_header_back:
  assumes "fmt < 4" "2 \<le> unat cs" "unat cs < 65600"
  shows "basic_header_in (basic_header_out fmt cs @ r)
       = Inr (Some (fmt, cs, length (basic_header_out fmt cs)))"
proof -
  consider (one) "unat cs < 64" | (two) "64 \<le> unat cs" "unat cs < 320"
    | (three) "320 \<le> unat cs" by linarith
  then show ?thesis
  proof cases
    case one
    have lt: "cs < 64" using one by (simp add: word_less_nat_alt)
    have s: "unat (ucast cs :: u8) < 64" "(ucast (ucast cs :: u8) :: u32) = cs"
      using one ucast_small [of cs] le_less_trans [OF take_bit_nat_less_eq_self [of 8 "unat cs"] one]
      by (simp_all add: unsigned_ucast_eq)
    have "cs \<noteq> 0" "cs \<noteq> 1" using assms(2) by auto
    then show ?thesis
      using first_byte [OF assms(1) s(1)] s(2) lt
      by (simp add: basic_header_in_def basic_header_out_def readUint8T_def slice_def Let_def)
  next
    case two
    have lt: "\<not> cs < 64" "cs < 320" using two by (simp_all add: word_less_nat_alt not_less)
    have "unat (cs - 64) = unat cs - 64"
      using two by (simp add: unat_sub word_le_nat_alt)
    then have "ucast (ucast (cs - 64) :: u8) = cs - 64"
      using two by (intro ucast_small) simp
    then show ?thesis
      using first_byte [of fmt 0] assms(1) lt
      by (simp add: basic_header_in_def basic_header_out_def readUint8T_def slice_def Let_def)
  next
    case three
    have lt: "\<not> cs < 64" "\<not> cs < 320" using three by (simp_all add: word_less_nat_alt not_less)
    have "unat (cs - 64) = unat cs - 64"
      using three by (simp add: unat_sub word_le_nat_alt)
    then have "ucast (ucast (ucast (cs - 64) :: u16) :: u8)
        + ucast (ucast (drop_bit 8 (ucast (cs - 64) :: u16)) :: u8) * 256 = cs - 64"
      using assms(3) by (intro two_bytes_sum) simp
    then have "64 + ucast (ucast (ucast (cs - 64) :: u16) :: u8)
        + ucast (ucast (drop_bit 8 (ucast (cs - 64) :: u16)) :: u8) * 256 = cs"
      by (simp add: add.assoc)
    then show ?thesis
      using first_byte [of fmt 1] assms(1) lt
      by (simp add: basic_header_in_def basic_header_out_def readUint8T_def slice_def Let_def
          memcpyUint16_def writeUint16T_def)
  qed
qed

section \<open>The message header comes back\<close>

lemma slice_skip: "slice (pre @ m) (length pre + i) n = slice m i n"
  by (simp add: slice_def)

lemma reader_skip [simp]:
  "readUint8T (pre @ m) (length pre + i) = readUint8T m i"
  "readUint24T (pre @ m) (length pre + i) = readUint24T m i"
  "readUint24T (pre @ m) (length pre) = readUint24T m 0"
  "loadUint32LE (pre @ m) (length pre + i) = loadUint32LE m i"
  using slice_skip [of pre m 0] slice_skip [of pre m i]
  by (simp_all add: readUint8T_def readUint24T_def loadUint32LE_def)

lemma fmt0_reads:
  "readUint24T (writeUint24T a @ writeUint24T b @ writeUint8T c @ memcpyUint32 d @ r) 3
   = Inr (take_bit 24 b)"
  "readUint8T (writeUint24T a @ writeUint24T b @ writeUint8T c @ memcpyUint32 d @ r) 6 = Inr c"
  "loadUint32LE (writeUint24T a @ writeUint24T b @ writeUint8T c @ memcpyUint32 d @ r) 7 = Inr d"
  using c24.get_at [of "writeUint24T a" 3 b "writeUint8T c @ memcpyUint32 d @ r"]
    c8.get_at [of "writeUint24T a @ writeUint24T b" 6 c "memcpyUint32 d @ r"]
    reader_skip(4) [of "writeUint24T a @ writeUint24T b @ writeUint8T c" "memcpyUint32 d @ r" 0]
  by (simp_all add: loadUint32LE_memcpy)

lemma fmt1_reads:
  "readUint24T (writeUint24T a @ writeUint24T b @ writeUint8T c @ r) 3 = Inr (take_bit 24 b)"
  "readUint8T (writeUint24T a @ writeUint24T b @ writeUint8T c @ r) 6 = Inr c"
  using c24.get_at [of "writeUint24T a" 3 b "writeUint8T c @ r"]
    c8.get_at [of "writeUint24T a @ writeUint24T b" 6 c r]
  by simp_all

lemma take_bit_24: "unat w < 2 ^ 24 \<Longrightarrow> take_bit 24 w = w" for w :: u32
  by (rule bit_word_eqI) (use bit_small [of w 24] in \<open>auto simp: bit_simps\<close>)

lemma header_eqI:
  "cs_id a = cs_id b \<Longrightarrow> timestamp a = timestamp b \<Longrightarrow> msg_len a = msg_len b \<Longrightarrow>
   msg_type a = msg_type b \<Longrightarrow> msg_sid a = msg_sid b \<Longrightarrow> a = b" for a b :: rtmp_header
  by (cases a, cases b) simp

text \<open>What the format chosen for a header says about the header before it.\<close>

definition fmt_fits :: "nat \<Rightarrow> u32 \<Rightarrow> rtmp_header \<Rightarrow> rtmp_header \<Rightarrow> u32 \<Rightarrow> u32 \<Rightarrow> bool" where
  "fmt_fits fmt ts h pv delta ts0 \<longleftrightarrow> fmt < 4 \<and> ts \<le> ts0
     \<and> (if fmt = 0 then ts = ts0
        else ts + timestamp pv = ts0 \<and> timestamp pv \<le> ts0 \<and> msg_sid h = msg_sid pv)
     \<and> (2 \<le> fmt \<longrightarrow> msg_type h = msg_type pv \<and> msg_len h = msg_len pv)
     \<and> (fmt = 3 \<longrightarrow> ts = delta)"

lemma chunk_fmt_fits:
  assumes "chunk_fmt h prev delta ts0 f0 = (fmt, ts)"
  shows "fmt_fits fmt ts h (case prev of None \<Rightarrow> emptyHeader | Some pv \<Rightarrow> pv) delta ts0"
proof -
  have sub: "ts0 - t \<le> ts0" if "t \<le> ts0" for t :: u32
    using that by (simp add: word_le_nat_alt unat_sub)
  show ?thesis
  proof (cases "\<exists>pv. prev = Some pv \<and> \<not> f0 \<and> timestamp pv \<le> ts0 \<and> msg_sid h = msg_sid pv")
    case True
    then obtain pv where pv: "prev = Some pv" "\<not> f0" "timestamp pv \<le> ts0" "msg_sid h = msg_sid pv"
      by blast
    define d where "d = ts0 - timestamp pv"
    have d: "d + timestamp pv = ts0" "d \<le> ts0" using sub [OF pv(3)] by (simp_all add: d_def)
    have "(fmt, ts) = (if msg_type h = msg_type pv \<and> msg_len h = msg_len pv
        then (if d = delta then (3, d) else (2, d)) else (1, d))"
      using assms [symmetric] pv
      by (simp only: chunk_fmt_def d_def [symmetric] Let_def option.case simp_thms if_True)
    with pv d show ?thesis by (simp add: fmt_fits_def split: if_splits)
  next
    case False
    then have "(fmt, ts) = (0, ts0)"
      using assms by (cases prev) (auto simp: chunk_fmt_def split: if_splits)
    then show ?thesis by (simp add: fmt_fits_def)
  qed
qed

lemma message_header_back:
  assumes fits: "fmt_fits fmt ts h pv delta ts0"
    and small: "unat ts0 < 2 ^ 24" "unat (msg_len h) < 2 ^ 24"
    and new: "cs_id h0 = cs_id h" "timestamp h0 = 0"
  shows "\<exists>f. message_header_in fmt (pre @ message_header_out fmt ts h @ r) (length pre) pv delta h0
       = Inr (f, h\<lparr>timestamp := ts0\<rparr>, out_delta fmt ts delta,
              length pre + length (message_header_out fmt ts h))
       \<and> (fmt < 3 \<longrightarrow> f = ts)"
proof -
  have "unat ts < 2 ^ 24"
    using fits small(1) by (auto simp: fmt_fits_def word_le_nat_alt)
  note t = take_bit_24 [OF this] take_bit_24 [OF small(2)]
  have "fmt = 0 \<or> fmt = 1 \<or> fmt = 2 \<or> fmt = 3" using fits by (auto simp: fmt_fits_def)
  then show ?thesis
  proof (elim disjE)
    assume "fmt = 0"
    then show ?thesis
      using fits new t
      by (auto simp: message_header_in_def message_header_out_def fmt0_reads fmt_fits_def
          out_delta_def intro!: header_eqI)
  next
    assume "fmt = 1"
    then show ?thesis
      using fits new t
      by (auto simp: message_header_in_def message_header_out_def fmt1_reads fmt_fits_def
          out_delta_def intro!: header_eqI)
  next
    assume "fmt = 2"
    then show ?thesis
      using fits new t
      by (auto simp: message_header_in_def message_header_out_def fmt_fits_def
          out_delta_def intro!: header_eqI)
  next
    assume "fmt = 3"
    then show ?thesis
      using fits new t
      by (auto simp: message_header_in_def message_header_out_def fmt_fits_def
          out_delta_def intro!: header_eqI)
  qed
qed

section \<open>Receiving one message\<close>

text \<open>A packet that holds the first \<open>k\<close> bytes of a message \<open>d\<close> with header \<open>h\<close>.\<close>

definition holds :: "packet \<Rightarrow> rtmp_header \<Rightarrow> bytes \<Rightarrow> nat \<Rightarrow> bool" where
  "holds p h d k \<longleftrightarrow> packet_ok p \<and> phdr p = Some h \<and> length (pblock p) = length d
     \<and> psize p = k \<and> take k (pblock p) = take k d"

text \<open>The state after a whole message on a chunk stream.\<close>

definition received :: "in_state \<Rightarrow> u32 \<Rightarrow> rtmp_header \<Rightarrow> u32 \<Rightarrow> in_state" where
  "received st cs h d =
     st\<lparr>in_message_headers := (in_message_headers st)(cs \<mapsto> h),
        in_packets := (in_packets st)(cs := None),
        in_deltas := (in_deltas st)(cs := d), in_ext := (in_ext st)(cs := False)\<rparr>"

definition is_message :: "packet \<Rightarrow> rtmp_header \<Rightarrow> bytes \<Rightarrow> bool" where
  "is_message q h d \<longleftrightarrow> message_ok q \<and> pdata q = d \<and> phdr q = Some h
     \<and> ptype q = uint (msg_type h) \<and> ptimestamp q = uint (timestamp h)"

lemma received_with_chunk [simp]:
  "received (with_chunk st cs pv p d' e) cs h d = received st cs h d"
  by (simp add: received_def with_chunk_def)

lemma chunk_body_receives:
  assumes st: "in_ok st" "in_message_headers st cs = Some pv" "in_packets st cs = Some p"
      "in_deltas st cs = dl" "in_ext st cs = False"
    and p: "holds p h d k" "k < length d" "length d < 2 ^ 24"
    and cz: "in_chunk_size st = 4096 \<or> (length d - k \<le> 4096 \<and> int (length d - k) \<le> in_chunk_size st)"
    and sz: "sz = min (length d - k) 4096"
    and b: "b = pre @ take sz (drop k d) @ r" "length b < 2 ^ 31"
  shows "if k + sz = length d
         then \<exists>q. chunk_body_in st cs b (length pre) p h
                  = Inr (InTook (received st cs h dl) (length pre + sz) (Some q)) \<and> is_message q h d
         else \<exists>p2. chunk_body_in st cs b (length pre) p h
                  = Inr (InTook (with_chunk st cs h p2 dl False) (length pre + sz) None)
                \<and> holds p2 h d (k + sz)"
proof -
  have pok: "packet_ok p" and ipok: "in_packet_ok p"
    using p(1) by (auto simp: holds_def in_packet_ok_def)
  have space: "getSpace p = int (length d - k)"
    using getSpace_ok [OF pok] p(1) by (simp add: holds_def)
  have bs: "body_size st p = int sz"
    using cz p(3) by (auto simp: body_size_def space sz)
  have lsz: "length (take sz (drop k d)) = sz" "k + sz \<le> length d" using sz p(2) by auto
  have enough: "\<not> (int sz < 0 \<or> int (length b - length pre) < int sz)"
    using lsz by (simp add: b(1))
  have pre: "length pre \<le> length b" by (simp add: b(1))
  have tk: "take sz (drop (length pre) b) = take sz (drop k d)" using lsz by (simp add: b(1))
  define p2 where "p2 = p\<lparr>pblock := take k (pblock p) @ take sz (drop k d)
      @ drop (k + sz) (pblock p), psize := k + sz\<rparr>"
  have h2: "holds p2 h d (k + sz)"
    using p(1) lsz by (auto simp: holds_def p2_def packet_ok_def take_add)
  have ph: "psize p = k" "length (pblock p) = length d" using p(1) by (simp_all add: holds_def)
  have eq: "chunk_body_in st cs b (length pre) p h =
     (let st1 = st\<lparr>in_message_headers := (in_message_headers st)(cs \<mapsto> h),
                   in_packets := (in_packets st)(cs \<mapsto> p2)\<rparr>
      in if k + sz = length d
         then Inr (InTook (st1\<lparr>in_packets := (in_packets st1)(cs := None)\<rparr>) (length pre + sz)
                (Some (p2\<lparr>ptype := uint (msg_type h), ptimestamp := uint (timestamp h)\<rparr>)))
         else Inr (InTook st1 (length pre + sz) None))"
    unfolding chunk_body_eq [OF st(1) ipok b(2) pre]
    by (simp only: enough if_False bs nat_int tk ph p2_def Let_def)
  have upd: "(in_deltas st)(cs := dl) = in_deltas st" "(in_ext st)(cs := False) = in_ext st"
    using st(4,5) by (simp_all add: fun_upd_idem)
  have last: "is_message (p2\<lparr>ptype := uint (msg_type h), ptimestamp := uint (timestamp h)\<rparr>) h d"
    if "k + sz = length d"
    using h2 that uint_lt2p [of "msg_type h"]
    by (auto simp: is_message_def message_ok_def holds_def packet_ok_def pdata_def)
  show ?thesis
  proof (cases "k + sz = length d")
    case True
    then show ?thesis
      using eq last by (simp add: received_def upd Let_def)
  next
    case False
    then show ?thesis
      using eq h2 by (auto simp: with_chunk_def upd Let_def)
  qed
qed

text \<open>A later chunk: its header says nothing, everything comes from the chunk before.\<close>

lemma parse_continuation:
  assumes st: "in_ok st" "in_message_headers st cs = Some h" "in_packets st cs = Some p"
      "in_deltas st cs = dl" "in_ext st cs = False"
    and h: "cs_id h = cs" "msg_len h \<noteq> 0" "timestamp h = 0 \<longrightarrow> dl = 0" "phdr p = Some h"
    and cs: "2 \<le> unat cs" "unat cs < 65600" and ne: "x \<noteq> []"
  shows "parse_chunk st (basic_header_out 3 cs @ x)
       = chunk_body_in st cs (basic_header_out 3 cs @ x) (length (basic_header_out 3 cs)) p h"
proof -
  let ?b = "basic_header_out 3 cs @ x" and ?n = "length (basic_header_out 3 cs)"
  have bh: "basic_header_in ?b = Inr (Some (3, cs, ?n))" by (rule basic_header_back) (use cs in simp_all)
  have sh: "\<not> short_header 3 (length ?b - ?n)" using ne by (simp add: short_header_def)
  have pv: "prev_of st cs = h" by (simp add: prev_of_def st(2))
  have nl: "new_len st 3 ?b ?n (prev_of st cs) = Inr (msg_len h)" using h(2) by (simp add: new_len_def pv)
  have po: "p = packet_of st cs (msg_len h)" by (simp add: packet_of_def st(3))
  have mh: "message_header_in 3 ?b ?n (prev_of st cs) (in_deltas st cs) h = Inr (0, h, dl, ?n)"
    using h(3) by (auto simp: message_header_in_def pv st(4) intro!: header_eqI)
  have "setExt h p = p" using h(4) by (cases p) (simp add: setExt_def)
  moreover have "(in_message_headers st)(cs \<mapsto> h) = in_message_headers st"
      "(in_packets st)(cs \<mapsto> p) = in_packets st" "(in_deltas st)(cs := dl) = in_deltas st"
      "(in_ext st)(cs := False) = in_ext st"
    using st by (simp_all add: fun_upd_idem)
  then have "with_chunk st cs h p dl False = st" by (simp add: with_chunk_def)
  ultimately show ?thesis
    unfolding parse_chunk_eq [OF bh sh nl po h(4) mh]
    by (simp add: Let_def pv ext_of_def st(5) ext_timestamp_in_def)
qed

context chunk_consumer
begin

abbreviation after :: "'c \<Rightarrow> bytes \<Rightarrow> nat \<Rightarrow> ('c \<times> nat) res" where
  "after c r n \<equiv> bindr (parse_loop inp set_inp deliver c r) (\<lambda>(c2, j). Inr (c2, n + j))"

text \<open>The chunks after the first complete the message and the loop goes on behind them.\<close>

lemma loop_continuations:
  assumes "in_ok (inp c)" "in_message_headers (inp c) cs = Some h" "in_packets (inp c) cs = Some p"
      "in_deltas (inp c) cs = dl" "in_ext (inp c) cs = False" "in_chunk_size (inp c) = 4096"
    and h: "cs_id h = cs" "msg_len h \<noteq> 0" "timestamp h = 0 \<longrightarrow> dl = 0"
    and cs: "2 \<le> unat cs" "unat cs < 65600"
    and p: "holds p h d k" "k < length d" and d: "length d < 2 ^ 24"
    and len: "length (cont_stream (basic_header_out 3 cs) (drop k d) @ r) < 2 ^ 31"
  shows "\<exists>q. is_message q h d \<and>
    parse_loop inp set_inp deliver c (cont_stream (basic_header_out 3 cs) (drop k d) @ r)
    = bindr (deliver q (set_inp (received (inp c) cs h dl) c))
        (\<lambda>c1. after c1 r (length (cont_stream (basic_header_out 3 cs) (drop k d))))"
  using assms(1-6) p len
proof (induction "length d - k" arbitrary: c p k rule: less_induct)
  case less
  note IH = less.hyps
    and st = less.prems(1-6) and p = less.prems(7,8) and len = less.prems(9)
  let ?bh = "basic_header_out 3 cs"
  let ?st = "inp c" and ?sz = "min (length d - k) 4096"
  let ?x = "cont_stream ?bh (drop (k + 4096) d)"
  let ?b = "?bh @ take ?sz (drop k d) @ ?x @ r"
  have tk: "take 4096 (drop k d) = take ?sz (drop k d)" by (simp add: min_def)
  have b: "cont_stream ?bh (drop k d) @ r = ?b"
    using cont_stream_Cons [of "drop k d" ?bh] p(2) by (simp add: tk add.commute)
  have lenb: "length ?b < 2 ^ 31" using len unfolding b .
  have sz: "0 < ?sz" "k + ?sz \<le> length d" "length (take ?sz (drop k d)) = ?sz" using p(2) by auto
  have l1: "1 < length ?b"
    using basic_header_length [of 3 cs] sz(1) by (simp only: length_append sz(3)) linarith
  have pp: "phdr p = Some h" using p(1) by (simp add: holds_def)
  have ne: "take ?sz (drop k d) @ ?x @ r \<noteq> []" using sz(1,3) by (metis append_is_Nil_conv less_numeral_extra(3) list.size(3))
  note pc = parse_continuation [OF st(1-5) h pp cs ne]
  note cb = chunk_body_receives [OF st(1-5) p d _ refl refl lenb, unfolded pc [symmetric]]
  have dr: "drop (length ?bh + ?sz) ?b = ?x @ r" using sz(3) by simp
  show ?case
  proof (cases "k + ?sz = length d")
    case True
    then have "drop (k + 4096) d = []" by auto
    then have x: "?x = []" by simp
    obtain q where q: "parse_chunk ?st ?b
        = Inr (InTook (received ?st cs h dl) (length ?bh + ?sz) (Some q))" "is_message q h d"
      using cb st(6) True by auto
    have "length (cont_stream ?bh (drop k d)) = length ?bh + ?sz"
      using cont_stream_Cons [of "drop k d" ?bh] p(2) sz(3) x by (simp add: tk add.commute)
    then show ?thesis
      using q unfolding b loop_took [OF l1 q(1)] dr by (auto simp: x)
  next
    case False
    then obtain p2 where p2: "parse_chunk ?st ?b
        = Inr (InTook (with_chunk ?st cs h p2 dl False) (length ?bh + ?sz) None)"
        "holds p2 h d (k + ?sz)"
      using cb st(6) by auto
    have full: "?sz = 4096" using False sz(2) by auto
    let ?st1 = "with_chunk ?st cs h p2 dl False"
    let ?c1 = "set_inp ?st1 c"
    have "in_packet_ok p2" using p2(2) by (auto simp: holds_def in_packet_ok_def)
    then have ok1: "in_ok (inp ?c1)" unfolding inp_set by (rule with_chunk_ok [OF st(1)])
    have len1: "length (cont_stream ?bh (drop (k + ?sz) d) @ r) < 2 ^ 31"
      using lenb full by simp
    have c1: "in_message_headers (inp ?c1) cs = Some h" "in_packets (inp ?c1) cs = Some p2"
        "in_deltas (inp ?c1) cs = dl" "in_ext (inp ?c1) cs = False" "in_chunk_size (inp ?c1) = 4096"
      using st(6) by (simp_all add: inp_set)
    have kk: "k + ?sz < length d" using False sz(2) by linarith
    then have dec: "length d - (k + ?sz) < length d - k" using sz(1) by linarith
    obtain q where q: "is_message q h d"
      "parse_loop inp set_inp deliver ?c1 (cont_stream ?bh (drop (k + ?sz) d) @ r)
       = bindr (deliver q (set_inp (received (inp ?c1) cs h dl) ?c1))
           (\<lambda>c1. after c1 r (length (cont_stream ?bh (drop (k + ?sz) d))))"
      using IH [OF dec ok1 c1 p2(2) kk len1] by blast
    have "length (cont_stream ?bh (drop k d)) = length ?bh + ?sz + length ?x"
      using cont_stream_Cons [of "drop k d" ?bh] p(2) sz(3) by (simp add: tk add.commute)
    then show ?thesis
      using q unfolding b loop_took [OF l1 p2(1)] dr
      by (auto simp: full inp_set set_set bindr_assoc case_prod_unfold add.assoc)
  qed
qed

end

section \<open>A sender and a receiver in step\<close>

text \<open>
  The two ends of a connection agree when the receiver has no unfinished message and the last
  headers and deltas of every chunk stream are the same.
\<close>

definition in_sync :: "out_state \<Rightarrow> in_state \<Rightarrow> bool" where
  "in_sync s st \<longleftrightarrow> (\<forall>cs. in_packets st cs = None \<and> in_ext st cs = False
     \<and> in_message_headers st cs = out_message_headers s cs \<and> in_deltas st cs = out_deltas s cs)"

text \<open>
  What a packet needs to be sent as one message: a header, a stream id the basic header can
  express, a length that is not zero, fits 24 bits and the block, and a timestamp below the
  mark of the extended one.
\<close>

definition sendable :: "packet \<Rightarrow> rtmp_header \<Rightarrow> u32 \<Rightarrow> bool" where
  "sendable p h ts \<longleftrightarrow> phdr p = Some h \<and> 2 \<le> unat (cs_id h) \<and> unat (cs_id h) < 65600
     \<and> 0 < unat (msg_len h) \<and> unat (msg_len h) < 2 ^ 24 \<and> unat (msg_len h) \<le> length (pblock p)
     \<and> unat ts < 0xFFFFFF"

definition payload :: "packet \<Rightarrow> rtmp_header \<Rightarrow> bytes" where
  "payload p h = take (unat (msg_len h)) (pblock p)"

definition out_room :: "out_state \<Rightarrow> rtmp_header \<Rightarrow> bool" where
  "out_room s h \<longleftrightarrow> out_used s + 14 + 3 * (unat (msg_len h) div 4096) \<le> RTMP_BUFFER_SIZE"

definition chunk_size_agrees :: "in_state \<Rightarrow> nat \<Rightarrow> bool" where
  "chunk_size_agrees st n \<longleftrightarrow>
     in_chunk_size st = 4096 \<or> (n \<le> 4096 \<and> int n \<le> in_chunk_size st)"

lemma new_in_sync [simp]: "in_sync newOutState newInState"
  by (simp add: in_sync_def newOutState_def newInState_def)

lemma message_header_length:
  "length (message_header_out fmt ts h) = (if fmt = 0 then 11 else if fmt = 1 then 7 else if fmt = 2 then 3 else 0)"
  by (simp add: message_header_out_def)

lemma small_ts:
  assumes "unat ts < 0xFFFFFF"
  shows "ts_field ts = ts" "ext_timestamp_out ts = []" "ts \<noteq> 0xFFFFFF"
proof -
  have "unat ts \<noteq> unat (0xFFFFFF :: u32)" "\<not> 0xFFFFFF < ts"
    using assms by (simp_all add: word_less_nat_alt)
  then show "ts_field ts = ts" "ext_timestamp_out ts = []" "ts \<noteq> 0xFFFFFF"
    by (auto simp: ts_field_def ext_timestamp_out_def)
qed

text \<open>The builder's side: the bytes it makes and the state it goes to.\<close>

definition first_header :: "nat \<Rightarrow> u32 \<Rightarrow> rtmp_header \<Rightarrow> bytes" where
  "first_header fmt t h = basic_header_out fmt (cs_id h) @ message_header_out fmt t h"

definition message_bytes :: "nat \<Rightarrow> u32 \<Rightarrow> rtmp_header \<Rightarrow> bytes \<Rightarrow> bytes" where
  "message_bytes fmt t h d =
     first_header fmt t h @ take 4096 d @ cont_stream (basic_header_out 3 (cs_id h)) (drop 4096 d)"

lemma cont_stream_length:
  "length hdr \<le> 3 \<Longrightarrow> length (cont_stream hdr d) \<le> length d + 3 * ((length d + 4095) div 4096)"
proof (induction hdr d rule: cont_stream.induct)
  case (1 hdr d)
  show ?case
  proof (cases "d = []")
    case False
    have IH: "length (cont_stream hdr (drop 4096 d)) \<le> length (drop 4096 d) + 3 * ((length (drop 4096 d) + 4095) div 4096)"
      by (rule 1) (use False 1(2) in auto)
    have l: "length (cont_stream hdr d) = length hdr + length (take 4096 d) + length (cont_stream hdr (drop 4096 d))"
      by (simp add: cont_stream_Cons [OF False])
    show ?thesis
    proof (cases "length d \<le> 4096")
      case True
      moreover have "4096 div 4096 \<le> (length d + 4095) div 4096" using False by (intro div_le_mono) (cases d, simp_all)
      ultimately show ?thesis using l 1(2) by simp
    next
      case False
      then have "(length d + 4095) div 4096 = Suc ((length (drop 4096 d) + 4095) div 4096)" by simp
      then show ?thesis using l IH False 1(2) by simp
    qed
  qed simp
qed

lemma message_bytes_length:
  assumes "n = length d"
  shows "length (message_bytes fmt t h d) \<le> 14 + 3 * (n div 4096) + n"
proof -
  have f: "length (first_header fmt t h) \<le> 14"
    using basic_header_length [of fmt "cs_id h"] message_header_length [of fmt t h]
    unfolding first_header_def length_append by (auto split: if_splits)
  have c: "length (cont_stream (basic_header_out 3 (cs_id h)) (drop 4096 d))
      \<le> length (drop 4096 d) + 3 * ((length (drop 4096 d) + 4095) div 4096)"
    by (rule cont_stream_length) (use basic_header_length [of 3 "cs_id h"] in simp)
  show ?thesis
  proof (cases "n \<le> 4096")
    case True
    then show ?thesis using f by (simp add: message_bytes_def assms)
  next
    case False
    then have "(length (drop 4096 d) + 4095) div 4096 \<le> n div 4096" using assms by simp
    then show ?thesis using f c False by (simp add: message_bytes_def assms)
  qed
qed

lemma build_chunks_eq:
  assumes "chunk_fmt h (out_message_headers s (cs_id h)) (out_deltas s (cs_id h)) ts f = (fmt, t)"
    and "push_header (basic_header_out fmt (cs_id h) @ message_header_out fmt (ts_field t) h
           @ ext_timestamp_out t) (out_used s) (sending_buffers s) = Inr (u1, n1)"
    and "build_body (basic_header_out 3 (cs_id h) @ ext_timestamp_out t) (msg_len h) (pblock p) 0
           u1 n1 = Inr (u2, n2)"
  shows "build_chunks p h ts f s = Inr (s\<lparr>out_used := u2,
      out_deltas := (out_deltas s)(cs_id h := out_delta fmt t (out_deltas s (cs_id h))),
      out_message_headers := (out_message_headers s)(cs_id h \<mapsto> h\<lparr>timestamp :=
        (if fmt = 0 then t
         else timestamp (case out_message_headers s (cs_id h) of None \<Rightarrow> emptyHeader | Some pv \<Rightarrow> pv)
              + t)\<rparr>),
      sending_buffers := n2\<rparr>)"
  unfolding build_chunks_def Let_def
  by (simp only: assms case_prod_conv bindr_simps)

lemma buildChunk_bytes:
  assumes p: "sendable p h ts" and room: "out_room s h"
    and fmt: "chunk_fmt h (out_message_headers s (cs_id h)) (out_deltas s (cs_id h)) ts fmt0 = (fmt, t)"
  shows "\<exists>s1 ns. buildChunk p ts fmt0 s = Inr (True, s1) \<and> sending_buffers s1 = sending_buffers s @ ns
    \<and> concat ns = message_bytes fmt t h (payload p h)
    \<and> out_message_headers s1 = (out_message_headers s)(cs_id h \<mapsto> h\<lparr>timestamp := ts\<rparr>)
    \<and> out_deltas s1 = (out_deltas s)(cs_id h := out_delta fmt t (out_deltas s (cs_id h)))
    \<and> out_used s1 \<le> out_used s + 14 + 3 * (unat (msg_len h) div 4096)"
proof -
  let ?cs = "cs_id h" and ?len = "msg_len h"
  let ?pv = "case out_message_headers s ?cs of None \<Rightarrow> emptyHeader | Some pv \<Rightarrow> pv"
  have fits: "fmt_fits fmt t h ?pv (out_deltas s ?cs) ts" by (rule chunk_fmt_fits [OF fmt])
  have "unat t < 0xFFFFFF"
    using fits p by (auto simp: fmt_fits_def sendable_def word_le_nat_alt)
  note t = small_ts [OF this]
  have abs: "(if fmt = 0 then t else timestamp ?pv + t) = ts"
    using fits by (auto simp: fmt_fits_def add.commute)
  let ?hdr = "basic_header_out fmt ?cs @ message_header_out fmt (ts_field t) h @ ext_timestamp_out t"
  have hdr: "?hdr = first_header fmt t h" by (simp add: t first_header_def)
  have "length (message_header_out fmt t h) \<le> 11" by (simp add: message_header_length)
  then have lh: "length (first_header fmt t h) \<le> 14"
    using basic_header_length [of fmt ?cs] unfolding first_header_def length_append by linarith
  let ?h3 = "basic_header_out 3 ?cs"
  have l3: "?h3 \<noteq> []" "length ?h3 \<le> 3" using basic_header_length [of 3 ?cs] by auto
  let ?used = "out_used s + length (first_header fmt t h)"
  have "length ?h3 * (unat ?len div 4096) \<le> 3 * (unat ?len div 4096)"
    using l3(2) by (rule mult_right_mono) simp
  moreover note room [unfolded out_room_def]
  ultimately have r: "?used + length ?h3 * ((unat ?len - 0) div 4096) \<le> RTMP_BUFFER_SIZE"
    and bound: "?used + length ?h3 * ((unat ?len - 0) div 4096)
                \<le> out_used s + 14 + 3 * (unat ?len div 4096)"
    using lh unfolding diff_zero by linarith+
  have "\<exists>used1 ns. build_body ?h3 ?len (pblock p) 0 ?used (sending_buffers s @ [first_header fmt t h])
        = Inr (used1, (sending_buffers s @ [first_header fmt t h]) @ ns)
      \<and> concat ns = take 4096 (take (unat ?len - 0) (drop 0 (pblock p)))
                    @ cont_stream ?h3 (drop 4096 (take (unat ?len - 0) (drop 0 (pblock p))))
      \<and> used1 \<le> ?used + length ?h3 * ((unat ?len - 0) div 4096)"
    by (rule build_body_stream [OF _ _ _ l3(1) r]) (use p in \<open>auto simp: sendable_def\<close>)
  then obtain used1 ns where
    bb: "build_body ?h3 ?len (pblock p) 0 ?used (sending_buffers s @ [first_header fmt t h])
        = Inr (used1, sending_buffers s @ [first_header fmt t h] @ ns)"
      "concat ns = take 4096 (payload p h) @ cont_stream ?h3 (drop 4096 (payload p h))"
      "used1 \<le> ?used + length ?h3 * ((unat ?len - 0) div 4096)"
    unfolding payload_def by auto
  have "?used \<le> RTMP_BUFFER_SIZE" using r by linarith
  then have push: "push_header (first_header fmt t h) (out_used s) (sending_buffers s)
      = Inr (?used, sending_buffers s @ [first_header fmt t h])"
    by (simp add: push_header_def)
  have ph: "phdr p = Some h" using p by (simp add: sendable_def)
  have push': "push_header ?hdr (out_used s) (sending_buffers s)
      = Inr (?used, sending_buffers s @ [first_header fmt t h])"
    by (simp only: hdr push)
  have bb': "build_body (?h3 @ ext_timestamp_out t) ?len (pblock p) 0 ?used
      (sending_buffers s @ [first_header fmt t h])
      = Inr (used1, sending_buffers s @ [first_header fmt t h] @ ns)"
    using bb(1) by (simp add: t(2))
  note bc = build_chunks_eq [OF fmt push' bb', unfolded abs]
  have "buildChunk p ts fmt0 s = Inr (True, s\<lparr>out_sending_packets := out_sending_packets s @ [p],
      out_used := used1,
      out_deltas := (out_deltas s)(?cs := out_delta fmt t (out_deltas s ?cs)),
      out_message_headers := (out_message_headers s)(?cs \<mapsto> h\<lparr>timestamp := ts\<rparr>),
      sending_buffers := sending_buffers s @ [first_header fmt t h] @ ns\<rparr>)"
    by (simp add: buildChunk_def ph build_chunks_keeps_packets bc)
  moreover have "concat ([first_header fmt t h] @ ns) = message_bytes fmt t h (payload p h)"
    using bb(2) by (simp add: message_bytes_def)
  moreover have "used1 \<le> out_used s + 14 + 3 * (unat ?len div 4096)"
    using bb(3) bound by (rule le_trans)
  ultimately show ?thesis
    by (intro exI conjI) (assumption | simp)+
qed

text \<open>The receiver's side: the first chunk's header.\<close>

lemma parse_first_header:
  assumes "length d = unat (msg_len h)"
    and st: "in_ok st" "in_packets st (cs_id h) = None" "in_ext st (cs_id h) = False"
    and pv: "prev_of st (cs_id h) = pv"
    and fits: "fmt_fits fmt t h pv (in_deltas st (cs_id h)) ts"
    and h: "2 \<le> unat (cs_id h)" "unat (cs_id h) < 65600" "msg_len h \<noteq> 0"
      "unat (msg_len h) < 2 ^ 24" "unat ts < 0xFFFFFF" and ne: "x \<noteq> []"
  shows "\<exists>p. holds p (h\<lparr>timestamp := ts\<rparr>) d 0 \<and>
      parse_chunk st (first_header fmt t h @ x)
      = chunk_body_in (with_chunk st (cs_id h) pv p (out_delta fmt t (in_deltas st (cs_id h))) False)
          (cs_id h) (first_header fmt t h @ x) (length (first_header fmt t h)) p (h\<lparr>timestamp := ts\<rparr>)"
proof -
  let ?cs = "cs_id h"
  let ?bh = "basic_header_out fmt ?cs" and ?mh = "message_header_out fmt t h"
  let ?b = "?bh @ ?mh @ x" and ?n = "length (basic_header_out fmt (cs_id h))"
  have f4: "fmt < 4" using fits by (simp add: fmt_fits_def)
  have ts24: "unat ts < 2 ^ 24" using h(5) by simp
  have bh: "basic_header_in ?b = Inr (Some (fmt, ?cs, ?n))"
    by (rule basic_header_back [OF f4 h(1,2)])
  have sh: "\<not> short_header fmt (length ?b - ?n)"
    using ne by (auto simp: short_header_def message_header_length)
  have nl: "new_len st fmt ?b ?n (prev_of st ?cs) = Inr (msg_len h)"
  proof (cases "fmt = 0 \<or> fmt = 1")
    case True
    then show ?thesis
      using fmt0_reads(1) fmt1_reads(1) take_bit_24 [OF h(4)]
      by (auto simp: new_len_def message_header_out_def)
  next
    case False
    then have "msg_len h = msg_len pv" using fits f4 by (auto simp: fmt_fits_def)
    with False h(3) show ?thesis by (simp add: new_len_def pv)
  qed
  let ?h0 = "emptyHeader\<lparr>cs_id := ?cs, msg_len := msg_len h\<rparr>"
  let ?p = "setExt ?h0 (newPacket (unat (msg_len h)))"
  have po: "?p = packet_of st ?cs (msg_len h)" by (simp add: packet_of_def st(2))
  obtain f where mh: "message_header_in fmt ?b ?n (prev_of st ?cs) (in_deltas st ?cs) ?h0
      = Inr (f, h\<lparr>timestamp := ts\<rparr>, out_delta fmt t (in_deltas st ?cs), ?n + length ?mh)"
      "fmt < 3 \<longrightarrow> f = t"
    using message_header_back [OF fits ts24 h(4), of ?h0 ?bh x] pv by (auto simp: emptyHeader_def)
  have "unat t < 0xFFFFFF" using fits h(5) by (auto simp: fmt_fits_def word_le_nat_alt)
  then have "t \<noteq> 0xFFFFFF" by (rule small_ts(3))
  then have ext: "ext_of st fmt ?cs f = False"
    using mh(2) f4 st(3) by (auto simp: ext_of_def)
  let ?q = "setExt (h\<lparr>timestamp := ts\<rparr>) (newPacket (unat (msg_len h)))"
  have hq: "holds ?q (h\<lparr>timestamp := ts\<rparr>) d 0"
    using assms(1) h(4) by (auto simp: holds_def) (simp_all add: setExt_def)
  have "parse_chunk st ?b
      = chunk_body_in (with_chunk st ?cs pv ?q (out_delta fmt t (in_deltas st ?cs)) False)
          ?cs ?b (?n + length ?mh) ?q (h\<lparr>timestamp := ts\<rparr>)"
    unfolding parse_chunk_eq [OF bh sh nl po setExt_sel(1) mh(1)] ext
    by (simp add: Let_def ext_timestamp_in_def pv)
  then show ?thesis using hq by (auto simp: first_header_def)
qed

context chunk_consumer
begin

text \<open>The receiver takes a whole message and hands it over.\<close>

lemma loop_message:
  assumes ok: "in_ok (inp c)" and st: "in_packets (inp c) (cs_id h) = None"
      "in_ext (inp c) (cs_id h) = False" "prev_of (inp c) (cs_id h) = pv"
    and fits: "fmt_fits fmt t h pv (in_deltas (inp c) (cs_id h)) ts"
    and h: "2 \<le> unat (cs_id h)" "unat (cs_id h) < 65600" "msg_len h \<noteq> 0"
      "unat (msg_len h) < 2 ^ 24" "unat ts < 0xFFFFFF"
    and d: "length d = unat (msg_len h)" and cz: "chunk_size_agrees (inp c) (length d)"
    and len: "length (message_bytes fmt t h d @ r) < 2 ^ 31"
  shows "\<exists>q. is_message q (h\<lparr>timestamp := ts\<rparr>) d \<and>
    parse_loop inp set_inp deliver c (message_bytes fmt t h d @ r)
    = bindr (deliver q (set_inp (received (inp c) (cs_id h) (h\<lparr>timestamp := ts\<rparr>)
                (out_delta fmt t (in_deltas (inp c) (cs_id h)))) c))
        (\<lambda>c1. after c1 r (length (message_bytes fmt t h d)))"
proof -
  let ?cs = "cs_id h" and ?H = "h\<lparr>timestamp := ts\<rparr>" and ?hd = "first_header fmt t h"
  let ?dl = "out_delta fmt t (in_deltas (inp c) ?cs)"
  let ?sz = "min (length d - 0) 4096"
  let ?x = "cont_stream (basic_header_out 3 ?cs) (drop 4096 d)"
  let ?b = "?hd @ take ?sz (drop 0 d) @ ?x @ r"
  have dpos: "0 < length d" using d h(3) by (simp add: unat_gt_0)
  have lsz: "length (take ?sz (drop 0 d)) = ?sz" "0 < ?sz" using dpos by auto
  have tk: "take 4096 d = take ?sz (drop 0 d)" by (simp add: min_def)
  have b: "message_bytes fmt t h d @ r = ?b" by (simp add: message_bytes_def tk)
  have lenb: "length ?b < 2 ^ 31" using len unfolding b .
  have "1 \<le> length ?hd"
    using basic_header_length [of fmt ?cs] by (simp add: first_header_def)
  then have l1: "1 < length ?b" using lsz(2) by (simp only: length_append lsz(1))
  have ne: "take ?sz (drop 0 d) @ ?x @ r \<noteq> []"
    using lsz by (metis append_is_Nil_conv less_numeral_extra(3) list.size(3))
  obtain p where p: "holds p ?H d 0"
      "parse_chunk (inp c) ?b = chunk_body_in (with_chunk (inp c) ?cs pv p ?dl False) ?cs ?b
          (length ?hd) p ?H"
    using parse_first_header [OF d ok st fits h ne] by blast
  let ?st = "with_chunk (inp c) ?cs pv p ?dl False"
  have "in_packet_ok p" using p(1) by (auto simp: holds_def in_packet_ok_def)
  then have ok1: "in_ok ?st" by (rule with_chunk_ok [OF ok])
  have cz1: "in_chunk_size ?st = 4096 \<or> (length d - 0 \<le> 4096 \<and> int (length d - 0) \<le> in_chunk_size ?st)"
    using cz by (simp add: chunk_size_agrees_def)
  have d24: "length d < 2 ^ 24" using d h(4) by simp
  note cb = chunk_body_receives [OF ok1 with_chunk_sel(3) with_chunk_sel(2) with_chunk_sel(4)
      with_chunk_sel(5) p(1) dpos d24 cz1 refl refl lenb, folded p(2), unfolded received_with_chunk]
  have dr: "drop (length ?hd + ?sz) ?b = ?x @ r" using lsz(1) by simp
  have lm: "length (message_bytes fmt t h d) = length ?hd + ?sz + length ?x"
    using lsz(1) by (simp add: message_bytes_def tk)
  show ?thesis
  proof (cases "0 + ?sz = length d")
    case True
    then have x: "?x = []" by auto
    obtain q where q: "is_message q ?H d"
        "parse_chunk (inp c) ?b = Inr (InTook (received (inp c) ?cs ?H ?dl) (length ?hd + ?sz) (Some q))"
      using cb unfolding if_P [OF True] by auto
    then show ?thesis
      unfolding b loop_took [OF l1 q(2)] dr by (auto simp: lm x)
  next
    case False
    then have full: "?sz = 4096" "4096 < length d" by auto
    obtain p2 where p2: "holds p2 ?H d (0 + ?sz)"
        "parse_chunk (inp c) ?b
         = Inr (InTook (with_chunk ?st ?cs ?H p2 ?dl False) (length ?hd + ?sz) None)"
      using cb unfolding if_not_P [OF False] by auto
    let ?st1 = "with_chunk (inp c) ?cs ?H p2 ?dl False"
    let ?c1 = "set_inp ?st1 c"
    have "in_packet_ok p2" using p2(1) by (auto simp: holds_def in_packet_ok_def)
    then have ok2: "in_ok (inp ?c1)" unfolding inp_set by (rule with_chunk_ok [OF ok])
    have cz2: "in_chunk_size (inp ?c1) = 4096"
      using cz full by (simp add: inp_set chunk_size_agrees_def)
    have c1: "in_message_headers (inp ?c1) ?cs = Some ?H" "in_packets (inp ?c1) ?cs = Some p2"
        "in_deltas (inp ?c1) ?cs = ?dl" "in_ext (inp ?c1) ?cs = False"
      by (simp_all add: inp_set)
    have H: "cs_id ?H = ?cs" "msg_len ?H \<noteq> 0" "timestamp ?H = 0 \<longrightarrow> ?dl = 0"
      using h(3) fits by (auto simp: fmt_fits_def out_delta_def)
    have p3: "holds p2 ?H d 4096" using p2(1) full(1) by simp
    have len2: "length (cont_stream (basic_header_out 3 ?cs) (drop 4096 d) @ r) < 2 ^ 31"
      using lenb by simp
    obtain q where q: "is_message q ?H d"
      "parse_loop inp set_inp deliver ?c1 (?x @ r)
       = bindr (deliver q (set_inp (received (inp ?c1) ?cs ?H ?dl) ?c1))
           (\<lambda>c1. after c1 r (length ?x))"
      using loop_continuations [OF ok2 c1 cz2 H h(1,2) p3 full(2) d24 len2] by blast
    have took: "parse_chunk (inp c) ?b = Inr (InTook ?st1 (length ?hd + ?sz) None)"
      using p2(2) by simp
    show ?thesis
      using q unfolding b loop_took [OF l1 took] dr
      by (auto simp: lm inp_set set_set bindr_assoc case_prod_unfold add.assoc)
  qed
qed

end

section \<open>Many messages\<close>

fun build_all :: "(packet \<times> u32 \<times> bool) list \<Rightarrow> out_state \<Rightarrow> out_state res" where
  "build_all [] s = Inr s"
| "build_all ((p, ts, fmt0) # ms) s = bindr (buildChunk p ts fmt0 s) (\<lambda>(b, s1). build_all ms s1)"

lemma received_sync:
  assumes "in_sync s st"
    and "out_message_headers s1 = (out_message_headers s)(cs \<mapsto> h)"
    and "out_deltas s1 = (out_deltas s)(cs := d)"
  shows "in_sync s1 (received st cs h d)"
  using assms by (auto simp: in_sync_def received_def)

lemma received_ok: "in_ok st \<Longrightarrow> in_ok (received st cs h d)"
  by (auto simp: in_ok_def received_def)

lemma received_chunk_size [simp]: "in_chunk_size (received st cs h d) = in_chunk_size st"
  by (simp add: received_def)

text \<open>A message sent and received, in front of whatever follows it.\<close>

lemma one_message:
  assumes ok: "in_ok st" and sync: "in_sync s st" and p: "sendable p h ts" and room: "out_room s h"
    and cz: "chunk_size_agrees st (unat (msg_len h))"
  shows "\<exists>s1 ns st1. buildChunk p ts fmt0 s = Inr (True, s1)
    \<and> sending_buffers s1 = sending_buffers s @ ns \<and> in_sync s1 st1 \<and> in_ok st1
    \<and> in_chunk_size st1 = in_chunk_size st
    \<and> out_used s1 \<le> out_used s + (14 + 3 * (unat (msg_len h) div 4096))
    \<and> length (concat ns) \<le> 14 + 3 * (unat (msg_len h) div 4096) + unat (msg_len h)
    \<and> (\<forall>r acc. length (concat ns @ r) < 2 ^ 31 \<longrightarrow>
         (\<exists>q. is_message q (h\<lparr>timestamp := ts\<rparr>) (payload p h) \<and>
           parse_loop fst set_in collect (st, acc) (concat ns @ r)
           = bindr (parse_loop fst set_in collect (st1, acc @ [q]) r)
               (\<lambda>(c2, j). Inr (c2, length (concat ns) + j))))"
proof -
  let ?cs = "cs_id h" and ?H = "h\<lparr>timestamp := ts\<rparr>" and ?d = "payload p h"
  obtain fmt t where fmt: "chunk_fmt h (out_message_headers s ?cs) (out_deltas s ?cs) ts fmt0 = (fmt, t)"
    by fastforce
  obtain s1 ns where s1: "buildChunk p ts fmt0 s = Inr (True, s1)"
      "sending_buffers s1 = sending_buffers s @ ns" "concat ns = message_bytes fmt t h ?d"
      "out_message_headers s1 = (out_message_headers s)(?cs \<mapsto> ?H)"
      "out_deltas s1 = (out_deltas s)(?cs := out_delta fmt t (out_deltas s ?cs))"
      "out_used s1 \<le> out_used s + 14 + 3 * (unat (msg_len h) div 4096)"
    using buildChunk_bytes [OF p room fmt] by blast
  let ?pv = "case out_message_headers s ?cs of None \<Rightarrow> emptyHeader | Some pv \<Rightarrow> pv"
  have syn: "in_packets st ?cs = None" "in_ext st ?cs = False" "prev_of st ?cs = ?pv"
      "in_deltas st ?cs = out_deltas s ?cs"
    using sync by (simp_all add: in_sync_def prev_of_def)
  have fits: "fmt_fits fmt t h ?pv (in_deltas st ?cs) ts"
    using chunk_fmt_fits [OF fmt] by (simp add: syn(4))
  have h: "2 \<le> unat ?cs" "unat ?cs < 65600" "msg_len h \<noteq> 0" "unat (msg_len h) < 2 ^ 24"
      "unat ts < 0xFFFFFF" "unat (msg_len h) \<le> length (pblock p)"
    using p by (auto simp: sendable_def)
  have d: "length ?d = unat (msg_len h)" using h(6) by (simp add: payload_def)
  let ?st1 = "received st ?cs ?H (out_delta fmt t (in_deltas st ?cs))"
  have "\<exists>q. is_message q ?H ?d \<and>
      parse_loop fst set_in collect (st, acc) (concat ns @ r)
      = bindr (parse_loop fst set_in collect (?st1, acc @ [q]) r)
          (\<lambda>(c2, j). Inr (c2, length (concat ns) + j))"
    if len: "length (concat ns @ r) < 2 ^ 31" for r acc
  proof -
    have "\<exists>q. is_message q ?H ?d \<and>
      parse_loop fst set_in collect (st, acc) (message_bytes fmt t h ?d @ r)
      = bindr (collect q (set_in (received (fst (st, acc)) ?cs ?H
            (out_delta fmt t (in_deltas (fst (st, acc)) ?cs))) (st, acc)))
          (\<lambda>c1. observer.after c1 r (length (message_bytes fmt t h ?d)))"
      by (rule observer.loop_message) (use ok syn fits h d cz len s1(3) in simp_all)
    then show ?thesis by (auto simp: s1(3) collect_def set_in_def)
  qed
  moreover have "in_sync s1 ?st1"
    by (rule received_sync [OF sync s1(4)]) (simp add: s1(5) syn(4))
  moreover have "length (concat ns) \<le> 14 + 3 * (unat (msg_len h) div 4096) + unat (msg_len h)"
    using message_bytes_length [of "unat (msg_len h)" ?d fmt t h] by (simp add: d s1(3))
  ultimately show ?thesis
    using s1(1,2,6) received_ok [OF ok] by (intro exI [of _ s1] exI [of _ ns] exI [of _ ?st1]) simp
qed

type_synonym message = "packet \<times> rtmp_header \<times> u32 \<times> bool"

definition header_room :: "message \<Rightarrow> nat" where
  "header_room m = (case m of (p, h, ts, f) \<Rightarrow> 14 + 3 * (unat (msg_len h) div 4096))"

text \<open>At most so many bytes are written for a message.\<close>

definition message_room :: "message \<Rightarrow> nat" where
  "message_room m = (case m of (p, h, ts, f) \<Rightarrow> header_room m + unat (msg_len h))"

definition message_fits :: "in_state \<Rightarrow> message \<Rightarrow> bool" where
  "message_fits st m \<longleftrightarrow> (case m of (p, h, ts, f) \<Rightarrow>
     sendable p h ts \<and> chunk_size_agrees st (unat (msg_len h)))"

definition arrives_as :: "message \<Rightarrow> packet \<Rightarrow> bool" where
  "arrives_as m q \<longleftrightarrow> (case m of (p, h, ts, f) \<Rightarrow> is_message q (h\<lparr>timestamp := ts\<rparr>) (payload p h))"

lemma many_messages:
  assumes "in_ok st" "in_sync s st" "\<forall>m \<in> set ms. message_fits st m"
    and "out_used s + sum_list (map header_room ms) \<le> RTMP_BUFFER_SIZE"
  shows "\<exists>s1 ns st1. build_all (map (\<lambda>(p, h, ts, f). (p, ts, f)) ms) s = Inr s1
    \<and> sending_buffers s1 = sending_buffers s @ ns \<and> in_sync s1 st1 \<and> in_ok st1 \<and> in_chunk_size st1 = in_chunk_size st
    \<and> length (concat ns) \<le> sum_list (map message_room ms)
    \<and> (length (concat ns) < 2 ^ 31 \<longrightarrow> (\<forall>acc. \<exists>qs. list_all2 arrives_as ms qs \<and>
         parse_loop fst set_in collect (st, acc) (concat ns) = Inr ((st1, acc @ qs), length (concat ns))))"
  using assms
proof (induction ms arbitrary: s st)
  case Nil
  then show ?case
    by (intro exI [of _ s] exI [of _ "[]"] exI [of _ st]) (simp add: observer.loop_short)
next
  case (Cons m ms)
  obtain p h ts f where m: "m = (p, h, ts, f)" by (cases m) auto
  have fit: "sendable p h ts" "chunk_size_agrees st (unat (msg_len h))"
    using Cons.prems(3) by (simp_all add: m message_fits_def)
  have room: "out_room s h" using Cons.prems(4) by (simp add: m header_room_def out_room_def)
  obtain s1 ns st1 where 1: "buildChunk p ts f s = Inr (True, s1)"
      "sending_buffers s1 = sending_buffers s @ ns" "in_sync s1 st1" "in_ok st1"
      "in_chunk_size st1 = in_chunk_size st"
      "out_used s1 \<le> out_used s + (14 + 3 * (unat (msg_len h) div 4096))"
      "length (concat ns) \<le> 14 + 3 * (unat (msg_len h) div 4096) + unat (msg_len h)"
      "\<forall>r acc. length (concat ns @ r) < 2 ^ 31 \<longrightarrow>
         (\<exists>q. is_message q (h\<lparr>timestamp := ts\<rparr>) (payload p h) \<and>
           parse_loop fst set_in collect (st, acc) (concat ns @ r)
           = bindr (parse_loop fst set_in collect (st1, acc @ [q]) r)
               (\<lambda>(c2, j). Inr (c2, length (concat ns) + j)))"
    using one_message [OF Cons.prems(1,2) fit(1) room fit(2)] by blast
  have hm: "header_room m = 14 + 3 * (unat (msg_len h) div 4096)" by (simp add: m header_room_def)
  have fits': "\<forall>m \<in> set ms. message_fits st1 m"
    using Cons.prems(3) by (auto simp: message_fits_def chunk_size_agrees_def 1(5))
  have room': "out_used s1 + sum_list (map header_room ms) \<le> RTMP_BUFFER_SIZE"
    using Cons.prems(4) 1(6) hm by simp
  obtain s2 ns2 st2 where 2: "build_all (map (\<lambda>(p, h, ts, f). (p, ts, f)) ms) s1 = Inr s2"
      "sending_buffers s2 = sending_buffers s1 @ ns2" "in_sync s2 st2" "in_ok st2"
      "in_chunk_size st2 = in_chunk_size st" "length (concat ns2) \<le> sum_list (map message_room ms)"
      "length (concat ns2) < 2 ^ 31 \<longrightarrow> (\<forall>acc. \<exists>qs. list_all2 arrives_as ms qs \<and>
         parse_loop fst set_in collect (st1, acc) (concat ns2) = Inr ((st2, acc @ qs), length (concat ns2)))"
    using Cons.IH [OF 1(4,3) fits' room'] 1(5) by metis
  have "\<exists>qs. list_all2 arrives_as (m # ms) qs \<and>
      parse_loop fst set_in collect (st, acc) (concat (ns @ ns2))
      = Inr ((st2, acc @ qs), length (concat (ns @ ns2)))"
    if len: "length (concat (ns @ ns2)) < 2 ^ 31" for acc
  proof -
    obtain q where q: "is_message q (h\<lparr>timestamp := ts\<rparr>) (payload p h)"
        "parse_loop fst set_in collect (st, acc) (concat ns @ concat ns2)
         = bindr (parse_loop fst set_in collect (st1, acc @ [q]) (concat ns2))
             (\<lambda>(c2, j). Inr (c2, length (concat ns) + j))"
      using 1(8) len by (auto simp: concat_append)
    have "length (concat ns2) < 2 ^ 31" using len by simp
    with 2(7) obtain qs where qs: "list_all2 arrives_as ms qs"
        "parse_loop fst set_in collect (st1, acc @ [q]) (concat ns2)
         = Inr ((st2, (acc @ [q]) @ qs), length (concat ns2))" by blast
    show ?thesis
      using q qs by (intro exI [of _ "q # qs"]) (simp add: m arrives_as_def)
  qed
  moreover have "message_room m = 14 + 3 * (unat (msg_len h) div 4096) + unat (msg_len h)"
    by (simp add: message_room_def hm m [symmetric]) (simp add: m)
  then have "length (concat (ns @ ns2)) \<le> sum_list (map message_room (m # ms))"
    using 1(7) 2(6) by simp
  ultimately show ?case
    using 1(1,2) 2(1-5)
    by (intro exI [of _ s2] exI [of _ "ns @ ns2"] exI [of _ st2]) (simp add: m)
qed

section \<open>Properties\<close>

text \<open>
  C1: what \<open>buildChunk\<close> writes, \<open>parseMessage\<close> reads back. Any sequence of messages, on any chunk
  streams in any order, with payloads of one chunk or many, whatever header formats the builder
  chooses, arrives at the peer's parser complete and in order, each with its bytes, type,
  stream ids and timestamp, and leaves the two ends in step again. It takes valid packets,
  timestamps below the extended ones, room for the headers in the 4096-byte buffer and a
  receiver that knows the sender's chunk size or gets short messages.
\<close>

theorem chunk_stream_round_trip:
  assumes "in_ok st" "in_sync s st" "\<forall>m \<in> set ms. message_fits st m"
    and "out_used s + sum_list (map header_room ms) \<le> RTMP_BUFFER_SIZE"
  shows "\<exists>s1 ns st1. build_all (map (\<lambda>(p, h, ts, f). (p, ts, f)) ms) s = Inr s1
    \<and> sending_buffers s1 = sending_buffers s @ ns \<and> in_sync s1 st1
    \<and> (length (concat ns) < 2 ^ 31 \<longrightarrow> (\<exists>qs. messages_in st (concat ns)
         = Inr ((st1, qs), length (concat ns)) \<and> list_all2 arrives_as ms qs))"
proof -
  obtain s1 ns st1 where 1: "build_all (map (\<lambda>(p, h, ts, f). (p, ts, f)) ms) s = Inr s1"
      "sending_buffers s1 = sending_buffers s @ ns" "in_sync s1 st1"
      "length (concat ns) < 2 ^ 31 \<longrightarrow> (\<forall>acc. \<exists>qs. list_all2 arrives_as ms qs \<and>
         parse_loop fst set_in collect (st, acc) (concat ns) = Inr ((st1, acc @ qs), length (concat ns)))"
    using many_messages [OF assms] by blast
  have "\<exists>qs. messages_in st (concat ns) = Inr ((st1, qs), length (concat ns)) \<and> list_all2 arrives_as ms qs"
    if "length (concat ns) < 2 ^ 31"
    using 1(4) that unfolding messages_in_def by (metis append_Nil)
  then show ?thesis using 1(1-3) by blast
qed

definition demo_header :: rtmp_header where
  "demo_header = \<lparr>cs_id = 3, timestamp = 0, msg_len = 5, msg_type = 20, msg_sid = 1\<rparr>"

definition demo_packet :: packet where
  "demo_packet = setExt demo_header (newPacket 5)"

lemma demo_sendable: "sendable demo_packet demo_header 7"
  by (simp add: sendable_def demo_packet_def) (simp add: demo_header_def setExt_def)

theorem chunk_stream_round_trip_witness:
  "\<exists>s1 ns st1. build_all [(demo_packet, 7, False), (demo_packet, 7, False)] newOutState = Inr s1
    \<and> sending_buffers s1 = ns \<and> in_sync s1 st1"
proof -
  have "\<forall>m \<in> set [(demo_packet, demo_header, 7, False), (demo_packet, demo_header, 7, False)].
      message_fits newInState m"
    using demo_sendable
    by (simp add: message_fits_def chunk_size_agrees_def newInState_def demo_header_def)
  moreover have "out_used newOutState + sum_list (map header_room
      [(demo_packet, demo_header, 7, False), (demo_packet, demo_header, 7, False)]) \<le> RTMP_BUFFER_SIZE"
    by (simp add: newOutState_def header_room_def demo_header_def RTMP_BUFFER_SIZE_def)
  ultimately show ?thesis
    using chunk_stream_round_trip [OF newInState_ok new_in_sync] by fastforce
qed

text \<open>
  The two overloads of \<open>buildChunk\<close>, which repeat each other's code, do the same: the
  same bytes, the same state, the same faults, for every packet, timestamp and state.
\<close>

theorem build_chunk_overloads:
  "buildChunk p ts fmt0 s = buildChunk_move p ts fmt0 s"
  by (rule overloads_agree)

text \<open>
  C40: a packet whose header says more bytes than its block has is read behind its end. A message
  whose length field changes between its chunks leaves the parser as such a packet, and relaying
  it to a player is this call.
\<close>

theorem build_chunk_overread:
  assumes "phdr p = Some h" "length (pblock p) < unat (msg_len h)" "unat (msg_len h) \<le> 4096"
  shows "buildChunk p ts fmt0 s = Inl OutOfBounds"
proof -
  have le: "int (unat (msg_len h)) \<le> 4096" using assms(3) by linarith
  have "uint (msg_len h) - int 0 = int (unat (msg_len h))" by simp
  moreover have "i32 (int (unat (msg_len h))) = int (unat (msg_len h))"
    by (rule i32_id [simplified]) (use le in linarith)+
  ultimately have "min (i32 (uint (msg_len h) - int 0)) out_chunk_size = int (unat (msg_len h))"
    using le unfolding out_chunk_size_def by (simp only: min_absorb1)
  then have "build_body hdr (msg_len h) (pblock p) 0 u ns = Inl OutOfBounds" for hdr u ns
    using assms(2) by (subst build_body.simps, unfold Let_def) (simp add: slice_def)
  then show ?thesis
    by (auto simp: buildChunk_def assms(1) build_chunks_def Let_def push_header_def split: prod.splits)
qed

theorem build_chunk_overread_witness:
  "buildChunk (setExt demo_header (newPacket 4)) 0 False newOutState = Inl OutOfBounds"
  by (rule build_chunk_overread [of _ demo_header]) (simp_all add: setExt_def demo_header_def newPacket_def)

end
