(* ===== verification/RtmpContext.thy ===== *)
theory RtmpContext
  imports Amf LssString Handshake ChunkOut
begin

text \<open>
  The RTMP connection of \<open>src/mmedia/rtmp/rtmp_context.cpp\<close>: the command and control messages it
  sends and handles, the output queue, and \<open>parse\<close>, which drives the handshake and then the
  chunk parser. What the connection and the application see is recorded in \<open>cx_effects\<close>, in
  order: lists of nodes handed to \<open>LSSTcpConnection::send\<close>, callbacks of the \<open>RtmpHandler\<close>,
  and forced closes.
\<close>

section \<open>State\<close>

datatype effect =
    SendNodes "bytes list"
  | OnRecv packet
  | OnPlay string string
  | OnPublish string string
  | OnPublishPrepare
  | OnActive
  | ForceClose

datatype ctx_state = kRtmpHandShake | kRtmpWaitingDone | kRtmpMessage

record ctx =
  cx_hs :: handshake
  cx_state :: ctx_state
  cx_handler :: bool
  cx_in :: in_state
  cx_out :: out_state
  ack_size :: int
  in_bytes :: int
  last_left :: int
  cx_app :: string
  tc_url :: string
  cx_name :: string
  session_name :: string
  param :: string
  is_player :: bool
  is_client :: bool
  cx_effects :: "effect list"

definition newContext :: "bool \<Rightarrow> bool \<Rightarrow> ctx" where
  "newContext handler client =
     \<lparr>cx_hs = newHandShake client, cx_state = kRtmpHandShake, cx_handler = handler,
      cx_in = newInState, cx_out = newOutState, ack_size = 2048 * 1000, in_bytes = 0,
      last_left = 0, cx_app = [], tc_url = [], cx_name = [], session_name = [], param = [],
      is_player = False, is_client = client, cx_effects = []\<rparr>"

definition emit :: "effect \<Rightarrow> ctx \<Rightarrow> ctx" where
  "emit e c = c\<lparr>cx_effects := cx_effects c @ [e]\<rparr>"

text \<open>A callback, when there is a handler.\<close>

definition notify :: "effect \<Rightarrow> ctx \<Rightarrow> ctx" where
  "notify e c = (if cx_handler c then emit e c else c)"

section \<open>The output queue\<close>

definition RTMP_SINGLE_MAX :: nat where
  "RTMP_SINGLE_MAX = 10"

text \<open>At most ten packets leave the waiting queue; a packet without a header is dropped.\<close>

fun build_waiting :: "nat \<Rightarrow> out_state \<Rightarrow> out_state res" where
  "build_waiting 0 s = Inr s"
| "build_waiting (Suc n) s =
     (case out_waiting_queue s of
        [] \<Rightarrow> Inr s
      | p # ps \<Rightarrow>
          bindr (buildChunk_move p 0 False (s\<lparr>out_waiting_queue := ps\<rparr>))
            (\<lambda>(b, s1). build_waiting n s1))"

definition send :: "ctx \<Rightarrow> ctx res" where
  "send c =
     (if sending (cx_out c) then Inr c
      else bindr (build_waiting RTMP_SINGLE_MAX ((cx_out c)\<lparr>sending := True\<rparr>))
        (\<lambda>s. Inr (emit (SendNodes (sending_buffers s)) (c\<lparr>cx_out := s\<rparr>))))"

definition ready :: "ctx \<Rightarrow> bool" where
  "ready c \<longleftrightarrow> \<not> sending (cx_out c)"

definition pushOutQueue :: "packet \<Rightarrow> ctx \<Rightarrow> ctx res" where
  "pushOutQueue p c =
     send (c\<lparr>cx_out := (cx_out c)\<lparr>out_waiting_queue := out_waiting_queue (cx_out c) @ [p]\<rparr>\<rparr>)"

definition checkAndSend :: "ctx \<Rightarrow> ctx res" where
  "checkAndSend c =
     (let s = (cx_out c)\<lparr>sending := False, out_used := 0, sending_buffers := [],
                         out_sending_packets := []\<rparr>;
          c1 = c\<lparr>cx_out := s\<rparr>
      in if out_waiting_queue s \<noteq> [] then send c1 else Inr (notify OnActive c1))"

text \<open>The public \<open>buildChunk\<close>: a player adds the chunks of a packet before it calls \<open>send\<close>.\<close>

definition ctx_buildChunk :: "packet \<Rightarrow> u32 \<Rightarrow> bool \<Rightarrow> ctx \<Rightarrow> (bool \<times> ctx) res" where
  "ctx_buildChunk p ts fmt0 c =
     bindr (buildChunk p ts fmt0 (cx_out c)) (\<lambda>(b, s). Inr (b, c\<lparr>cx_out := s\<rparr>))"

section \<open>Control messages\<close>

text \<open>
  A message of the program: a new packet with a header, the body written to its block. The body
  is written without a check, so a longer body than the block is a fault.
\<close>

definition make_message :: "nat \<Rightarrow> u32 \<Rightarrow> u32 \<Rightarrow> u8 \<Rightarrow> bytes \<Rightarrow> packet res" where
  "make_message cap cs sid ty body =
     bindr (store_at 0 body (newPacket cap)) (\<lambda>p.
       Inr (setPacketSize (length body)
         (setExt \<lparr>cs_id = cs, timestamp = 0, msg_len = word_of_nat (length body), msg_type = ty,
                  msg_sid = sid\<rparr> p)))"

definition DEFAULT_PACKET_SIZE :: nat where
  "DEFAULT_PACKET_SIZE = 1024"

definition sendSetChunkSize :: "ctx \<Rightarrow> ctx res" where
  "sendSetChunkSize c =
     bindr (make_message 64 kRtmpCSIDCommand 0 kRtmpMsgTypeChunkSize
              (writeUint32T (word_of_int out_chunk_size))) (\<lambda>p. pushOutQueue p c)"

definition sendAckWindowSize :: "ctx \<Rightarrow> ctx res" where
  "sendAckWindowSize c =
     bindr (make_message 64 kRtmpCSIDCommand 0 kRtmpMsgTypeWindowACKSize
              (writeUint32T (word_of_int (ack_size c)))) (\<lambda>p. pushOutQueue p c)"

definition sendSetPeerBandwidth :: "ctx \<Rightarrow> ctx res" where
  "sendSetPeerBandwidth c =
     bindr (make_message 64 kRtmpCSIDCommand 0 kRtmpMsgTypeSetPeerBW
              (writeUint32T (word_of_int (ack_size c)) @ [2])) (\<lambda>p. pushOutQueue p c)"

definition sendBytesRecv :: "ctx \<Rightarrow> ctx res" where
  "sendBytesRecv c =
     (if ack_size c \<le> in_bytes c then
        bindr (make_message 64 kRtmpCSIDCommand 0 kRtmpMsgTypeBytesRead
                 (writeUint32T (word_of_int (in_bytes c))))
          (\<lambda>p. bindr (pushOutQueue p c) (\<lambda>c1. Inr (c1\<lparr>in_bytes := 0\<rparr>)))
      else Inr c)"

text \<open>
  \<open>sendUserCtrlMessage\<close> moves \<open>p\<close> on but writes each field to \<open>body\<close>: the values go over the
  event type.
\<close>

definition kRtmpEventTypeStreamBegin :: u16 where "kRtmpEventTypeStreamBegin = 0"
definition kRtmpEventTypeSetBufferLength :: u16 where "kRtmpEventTypeSetBufferLength = 3"
definition kRtmpEventTypePingRequest :: u16 where "kRtmpEventTypePingRequest = 5"
definition kRtmpEventTypePingResponse :: u16 where "kRtmpEventTypePingResponse = 6"

definition user_ctrl_packet :: "u16 \<Rightarrow> u32 \<Rightarrow> u32 \<Rightarrow> packet res" where
  "user_ctrl_packet nType value1 value2 =
     bindr (store_at 0 (writeUint16T nType) (newPacket 64)) (\<lambda>p1.
     bindr (store_at 0 (writeUint32T value1) p1) (\<lambda>p2.
     bindr (if nType = kRtmpEventTypeSetBufferLength
            then bindr (store_at 0 (writeUint32T value2) p2) (\<lambda>p3. Inr (p3, 10))
            else Inr (p2, 6)) (\<lambda>(p3, len).
       Inr (setPacketSize len
         (setExt \<lparr>cs_id = kRtmpCSIDCommand, timestamp = 0, msg_len = word_of_nat len,
                  msg_type = kRtmpMsgTypeUserControl, msg_sid = 0\<rparr> p3)))))"

definition sendUserCtrlMessage :: "u16 \<Rightarrow> u32 \<Rightarrow> u32 \<Rightarrow> ctx \<Rightarrow> ctx res" where
  "sendUserCtrlMessage nType value1 value2 c =
     bindr (user_ctrl_packet nType value1 value2) (\<lambda>p. pushOutQueue p c)"

section \<open>Command messages\<close>

abbreviation dbl :: "int \<Rightarrow> u64" where
  "dbl n \<equiv> f64_of_int n"

definition connect_body :: "string \<Rightarrow> string \<Rightarrow> bytes" where
  "connect_body app url =
     encodeString ''connect'' @ encodeNumber (dbl 1) @ kAMFObject
     # encodeNamedString ''app'' app @ encodeNamedString ''tcUrl'' url
     @ encodeNamedBoolean ''fpad'' False
     @ encodeNamedNumber ''capabilities'' (dbl 31)
     @ encodeNamedNumber ''audioCodecs'' (dbl 1639)
     @ encodeNamedNumber ''videoCodecs'' (dbl 252)
     @ encodeNamedNumber ''videoFunction'' (dbl 1)
     @ [0, 0, 9]"

definition sendConnect :: "ctx \<Rightarrow> ctx res" where
  "sendConnect c =
     bindr (sendSetChunkSize c) (\<lambda>c1.
     bindr (make_message DEFAULT_PACKET_SIZE kRtmpCSIDAMFIni 0 kRtmpMsgTypeAMFMessage
              (connect_body (cx_app c1) (tc_url c1))) (\<lambda>p. pushOutQueue p c1))"

definition sendCreateStream :: "ctx \<Rightarrow> ctx res" where
  "sendCreateStream c =
     bindr (make_message DEFAULT_PACKET_SIZE kRtmpCSIDAMFIni 0 kRtmpMsgTypeAMFMessage
              (encodeString ''createStream'' @ encodeNumber (dbl 4) @ [kAMFNull]))
       (\<lambda>p. pushOutQueue p c)"

definition status_body :: "string \<Rightarrow> string \<Rightarrow> string \<Rightarrow> bytes" where
  "status_body level code desc =
     encodeString ''onStatus'' @ encodeNumber (dbl 0) @ kAMFNull # kAMFObject
     # encodeNamedString ''level'' level @ encodeNamedString ''code'' code
     @ encodeNamedString ''description'' desc @ [0, 0, 9]"

definition sendStatus :: "string \<Rightarrow> string \<Rightarrow> string \<Rightarrow> ctx \<Rightarrow> ctx res" where
  "sendStatus level code desc c =
     bindr (make_message DEFAULT_PACKET_SIZE kRtmpCSIDAMFIni 1 kRtmpMsgTypeAMFMessage
              (status_body level code desc)) (\<lambda>p. pushOutQueue p c)"

definition sendPlay :: "ctx \<Rightarrow> ctx res" where
  "sendPlay c =
     bindr (make_message DEFAULT_PACKET_SIZE kRtmpCSIDAMFIni 1 kRtmpMsgTypeAMFMessage
              (encodeString ''play'' @ encodeNumber (dbl 0) @ kAMFNull
               # encodeString (cx_name c) @ encodeNumber (f64_neg (dbl 1000))))
       (\<lambda>p. pushOutQueue p c)"

definition sendPublish :: "ctx \<Rightarrow> ctx res" where
  "sendPublish c =
     bindr (make_message DEFAULT_PACKET_SIZE kRtmpCSIDAMFIni 1 kRtmpMsgTypeAMFMessage
              (encodeString ''publish'' @ encodeNumber (dbl 5) @ kAMFNull
               # encodeString (cx_name c) @ encodeString ''live''))
       (\<lambda>p. pushOutQueue p c)"

section \<open>Handling control messages\<close>

definition handleChunkSize :: "packet \<Rightarrow> ctx \<Rightarrow> ctx res" where
  "handleChunkSize p c =
     (if 4 \<le> psize p then
        bindr (readUint32T (pblock p) 0)
          (\<lambda>sz. Inr (c\<lparr>cx_in := (cx_in c)\<lparr>in_chunk_size := i32 (uint sz)\<rparr>\<rparr>))
      else Inr c)"

definition handleAckWindowSize :: "packet \<Rightarrow> ctx \<Rightarrow> ctx res" where
  "handleAckWindowSize p c =
     (if 4 \<le> psize p then
        bindr (readUint32T (pblock p) 0) (\<lambda>sz. Inr (c\<lparr>ack_size := i32 (uint sz)\<rparr>))
      else Inr c)"

definition handleUserMessage :: "packet \<Rightarrow> ctx \<Rightarrow> ctx res" where
  "handleUserMessage p c =
     (if psize p < 6 then Inr c
      else bindr (readUint16T (pblock p) 0) (\<lambda>ty.
           bindr (readUint32T (pblock p) 2) (\<lambda>val.
             if ty = kRtmpEventTypePingRequest
             then sendUserCtrlMessage kRtmpEventTypePingResponse val 0 c
             else Inr c)))"

section \<open>Stream names\<close>

definition stripFirst :: "string \<Rightarrow> string" where
  "stripFirst app = (case find_first_of app ''/'' 0 of
     None \<Rightarrow> app | Some pos \<Rightarrow> substr_from app (pos + 1))"

definition parseNameAndTcUrl :: "ctx \<Rightarrow> ctx" where
  "parseNameAndTcUrl c =
     (let app = stripFirst (cx_app c);
          (prm, nm) = (case find_first_of (cx_name c) ''?'' 0 of
                         None \<Rightarrow> ([], cx_name c)
                       | Some pos \<Rightarrow> (substr_from (cx_name c) (pos + 1), substr (cx_name c) 0 pos));
          list = split (tc_url c) ''/'' False;
          (domain, app1) = (if length list = 5 \<or> length list = 4 then (list ! 2, list ! 3)
                            else ([], app));
          domain1 = (case find_first_of domain '':'' 0 of
                       None \<Rightarrow> domain | Some p \<Rightarrow> substr domain 0 p)
      in c\<lparr>cx_app := app1, param := prm, cx_name := nm,
           session_name := domain1 @ ''/'' @ app1 @ ''/'' @ nm\<rparr>)"

definition play :: "string \<Rightarrow> ctx \<Rightarrow> ctx" where
  "play url c = parseNameAndTcUrl (c\<lparr>is_client := True, is_player := True, tc_url := url\<rparr>)"

definition publish :: "string \<Rightarrow> ctx \<Rightarrow> ctx" where
  "publish url c = parseNameAndTcUrl (c\<lparr>is_client := True, is_player := False, tc_url := url\<rparr>)"

section \<open>Handling commands\<close>

text \<open>A property that is not there is a null pointer, and every handler follows it.\<close>

definition prop_number :: "amf_any list \<Rightarrow> int \<Rightarrow> u64 res" where
  "prop_number ps i = bindr (deref (property_at ps i)) (\<lambda>v. Inr (amf_number v))"

definition prop_str :: "amf_any list \<Rightarrow> int \<Rightarrow> string res" where
  "prop_str ps i = bindr (deref (property_at ps i)) (\<lambda>v. Inr (amf_str v))"

definition result_body :: "bool \<Rightarrow> bytes" where
  "result_body amf3 =
     encodeString ''_result'' @ encodeNumber (dbl 1) @ kAMFObject
     # encodeNamedString ''fmsVer'' ''FMS/3,0,1,123''
     @ encodeNamedNumber ''capabilities'' (dbl 31) @ [0, 0, 9] @ kAMFObject
     # encodeNamedString ''level'' ''status''
     @ encodeNamedString ''code'' ''NetConnection.Connect.Success''
     @ encodeNamedString ''description'' ''Connection succeeded''
     @ encodeNamedNumber ''objectEncoding'' (if amf3 then dbl 3 else dbl 0) @ [0, 0, 9]"

definition connect_app :: "amf_any list \<Rightarrow> ctx \<Rightarrow> (bool \<times> ctx) res" where
  "connect_app ps c =
     bindr (deref (property_named ps ''tcUrl'')) (\<lambda>url.
     bindr (deref (property_at ps 2)) (\<lambda>v.
       let c1 = c\<lparr>tc_url := amf_str url\<rparr> in
       case amf_object v of
         None \<Rightarrow> Inr (False, c1)
       | Some sub \<Rightarrow>
           bindr (deref (property_named sub ''app'')) (\<lambda>app.
             Inr (case property_named sub ''objectEncoding'' of
                    None \<Rightarrow> False | Some n \<Rightarrow> f64_eq (amf_number n) (dbl 3),
                  c1\<lparr>cx_app := amf_str app\<rparr>))))"

definition handleConnect :: "amf_any list \<Rightarrow> ctx \<Rightarrow> ctx res" where
  "handleConnect ps c =
     bindr (connect_app ps c) (\<lambda>(amf3, c1).
     bindr (sendAckWindowSize c1) (\<lambda>c2.
     bindr (sendSetPeerBandwidth c2) (\<lambda>c3.
     bindr (sendSetChunkSize c3) (\<lambda>c4.
     bindr (make_message DEFAULT_PACKET_SIZE kRtmpCSIDAMFIni 0 kRtmpMsgTypeAMFMessage
              (result_body amf3)) (\<lambda>p. pushOutQueue p c4)))))"

definition handleCreateStream :: "amf_any list \<Rightarrow> ctx \<Rightarrow> ctx res" where
  "handleCreateStream ps c =
     bindr (prop_number ps 1) (\<lambda>tran_id.
     bindr (make_message DEFAULT_PACKET_SIZE kRtmpCSIDAMFIni 0 kRtmpMsgTypeAMFMessage
              (encodeString ''_result'' @ encodeNumber tran_id @ kAMFNull # encodeNumber (dbl 1)))
       (\<lambda>p. pushOutQueue p c))"

definition handlePlay :: "amf_any list \<Rightarrow> ctx \<Rightarrow> ctx res" where
  "handlePlay ps c =
     bindr (prop_number ps 1) (\<lambda>tran_id.
     bindr (prop_str ps 3) (\<lambda>nm.
       let c1 = (parseNameAndTcUrl (c\<lparr>cx_name := nm\<rparr>))\<lparr>is_player := True\<rparr> in
       bindr (sendUserCtrlMessage kRtmpEventTypeStreamBegin 1 0 c1) (\<lambda>c2.
       bindr (sendStatus ''status'' ''NetStream.Play.Start'' ''Start playing'' c2) (\<lambda>c3.
         Inr (notify (OnPlay (session_name c3) (param c3)) c3)))))"

definition handlePublish :: "amf_any list \<Rightarrow> ctx \<Rightarrow> ctx res" where
  "handlePublish ps c =
     bindr (prop_number ps 1) (\<lambda>tran_id.
     bindr (prop_str ps 3) (\<lambda>nm.
       let c1 = (parseNameAndTcUrl (c\<lparr>cx_name := nm\<rparr>))\<lparr>is_player := False\<rparr> in
       bindr (sendStatus ''status'' ''NetStream.Publish.Start'' ''Start publish'' c1) (\<lambda>c2.
         Inr (notify (OnPublish (session_name c2) (param c2)) c2))))"

definition handleResult :: "amf_any list \<Rightarrow> ctx \<Rightarrow> ctx res" where
  "handleResult ps c =
     bindr (prop_number ps 1) (\<lambda>n.
       if f64_eq n (dbl 1) then sendCreateStream c
       else if f64_eq n (dbl 4) then (if is_player c then sendPlay c else sendPublish c)
       else if f64_eq n (dbl 5) then Inr (notify OnPublishPrepare c)
       else Inr c)"

definition handleError :: "amf_any list \<Rightarrow> ctx \<Rightarrow> ctx res" where
  "handleError ps c =
     bindr (deref (property_at ps 3)) (\<lambda>v.
     bindr (deref (amf_object v)) (\<lambda>sub.
     bindr (deref (property_named sub ''description'')) (\<lambda>d. Inr (emit ForceClose c))))"

text \<open>\<open>commands_\<close> and its lookup.\<close>

definition run_command :: "string \<Rightarrow> amf_any list \<Rightarrow> ctx \<Rightarrow> ctx res" where
  "run_command method ps c =
     (if method = ''connect'' then handleConnect ps c
      else if method = ''createStream'' then handleCreateStream ps c
      else if method = ''_result'' then handleResult ps c
      else if method = ''_error'' then handleError ps c
      else if method = ''play'' then handlePlay ps c
      else if method = ''publish'' then handlePublish ps c
      else Inr c)"

definition handleAmfCommand :: "packet \<Rightarrow> bool \<Rightarrow> ctx \<Rightarrow> ctx res" where
  "handleAmfCommand p amf3 c =
     (let body = (if amf3 then drop 1 (pblock p) else pblock p);
          msg_len = i32 (int (psize p)) - (if amf3 then 1 else 0)
      in bindr (object_decode body msg_len False) (\<lambda>r. case r of
           None \<Rightarrow> Inr c
         | Some (ps, n) \<Rightarrow> bindr (prop_str ps 0) (\<lambda>method. run_command method ps c)))"

section \<open>Complete messages\<close>

definition setPacketType :: "packet \<Rightarrow> packet" where
  "setPacketType p =
     (if ptype p = uint kRtmpMsgTypeAudio then p\<lparr>ptype := kPacketTypeAudio\<rparr>
      else if ptype p = uint kRtmpMsgTypeVideo then p\<lparr>ptype := kPacketTypeVideo\<rparr>
      else if ptype p = uint kRtmpMsgTypeAMFMeta then p\<lparr>ptype := kPacketTypeMeta\<rparr>
      else if ptype p = uint kRtmpMsgTypeAMF3Meta then p\<lparr>ptype := kPacketTypeMeta3\<rparr>
      else p)"

definition messageComplete :: "packet \<Rightarrow> ctx \<Rightarrow> ctx res" where
  "messageComplete p c =
     (let ty = ptype p in
      if ty = uint kRtmpMsgTypeChunkSize then handleChunkSize p c
      else if ty = uint kRtmpMsgTypeBytesRead then Inr c
      else if ty = uint kRtmpMsgTypeUserControl then handleUserMessage p c
      else if ty = uint kRtmpMsgTypeWindowACKSize then handleAckWindowSize p c
      else if ty = uint kRtmpMsgTypeAMF3Message then handleAmfCommand p True c
      else if ty = uint kRtmpMsgTypeAMFMessage then handleAmfCommand p False c
      else if ty \<in> {uint kRtmpMsgTypeAMFMeta, uint kRtmpMsgTypeAMF3Meta, uint kRtmpMsgTypeAudio,
                    uint kRtmpMsgTypeVideo} then Inr (notify (OnRecv (setPacketType p)) c)
      else Inr c)"

section \<open>Parsing\<close>

definition set_cx_in :: "in_state \<Rightarrow> ctx \<Rightarrow> ctx" where
  "set_cx_in st c = c\<lparr>cx_in := st\<rparr>"

abbreviation ctx_loop :: "ctx \<Rightarrow> bytes \<Rightarrow> (ctx \<times> nat) res" where
  "ctx_loop \<equiv> parse_loop cx_in set_cx_in messageComplete"

definition parseMessage :: "ctx \<Rightarrow> msgbuf \<Rightarrow> (int \<times> ctx \<times> msgbuf) res" where
  "parseMessage c b =
     (let c1 = c\<lparr>in_bytes := i32 (in_bytes c + (int (readableBytes b) - last_left c))\<rparr> in
      bindr (sendBytesRecv c1) (\<lambda>c2.
      bindr (ctx_loop c2 (contents b)) (\<lambda>(c3, n).
        Inr (1, c3, if n = 0 then b else retrieve b n))))"

definition parse_in_message :: "ctx \<Rightarrow> msgbuf \<Rightarrow> (int \<times> ctx \<times> msgbuf) res" where
  "parse_in_message c b =
     bindr (parseMessage c b) (\<lambda>(r, c1, b1).
       Inr (r, c1\<lparr>last_left := i32 (int (readableBytes b1))\<rparr>, b1))"

text \<open>
  \<open>parse\<close> calls itself when the handshake is done and bytes are left; its state is then
  \<open>kRtmpMessage\<close>, so the inner call is \<open>parse_in_message\<close>.
\<close>

definition parse :: "hs_env \<Rightarrow> ctx \<Rightarrow> msgbuf \<Rightarrow> (int \<times> ctx \<times> msgbuf) res" where
  "parse env c b =
     (case cx_state c of
        kRtmpHandShake \<Rightarrow>
          bindr (handShake env (cx_hs c) b) (\<lambda>(ret, h, b1).
            let c1 = c\<lparr>cx_hs := h\<rparr> in
            if ret = 0 then
              let c2 = c1\<lparr>cx_state := kRtmpMessage\<rparr> in
              bindr (if is_client c2 then sendConnect c2 else Inr c2) (\<lambda>c3.
                if 0 < readableBytes b1 then parse_in_message c3 b1 else Inr (ret, c3, b1))
            else if ret = 2 then Inr (ret, c1\<lparr>cx_state := kRtmpWaitingDone\<rparr>, b1)
            else Inr (ret, c1, b1))
      | kRtmpMessage \<Rightarrow> parse_in_message c b
      | kRtmpWaitingDone \<Rightarrow> Inr (0, c, b))"

definition onWriteComplete :: "hs_env \<Rightarrow> ctx \<Rightarrow> ctx res" where
  "onWriteComplete env c =
     (case cx_state c of
        kRtmpHandShake \<Rightarrow> Inr (c\<lparr>cx_hs := writeComplete (at_once env) (cx_hs c)\<rparr>)
      | kRtmpWaitingDone \<Rightarrow>
          let c1 = c\<lparr>cx_state := kRtmpMessage\<rparr> in
          (if is_client c1 then sendConnect c1 else Inr c1)
      | kRtmpMessage \<Rightarrow> checkAndSend c)"

definition startHandShake :: "hs_env \<Rightarrow> ctx \<Rightarrow> ctx res" where
  "startHandShake env c = bindr (start env (cx_hs c)) (\<lambda>h. Inr (c\<lparr>cx_hs := h\<rparr>))"

section \<open>What the senders change\<close>

text \<open>
  Sending a message changes the output state and adds effects, nothing else: the parser, the
  names and the roles are as before.
\<close>

definition outputs_only :: "ctx \<Rightarrow> ctx \<Rightarrow> bool" where
  "outputs_only c c' \<longleftrightarrow> c' = c\<lparr>cx_out := cx_out c', cx_effects := cx_effects c'\<rparr>"

named_theorems frames "senders change the output only"

lemma outputs_only_refl [simp]: "outputs_only c c"
  by (simp add: outputs_only_def)

lemma outputs_only_trans: "outputs_only c c1 \<Longrightarrow> outputs_only c1 c2 \<Longrightarrow> outputs_only c c2"
  unfolding outputs_only_def by (cases c; cases c1; cases c2) simp

lemma outputs_only_sel:
  assumes "outputs_only c c'"
  shows "cx_in c' = cx_in c" "cx_hs c' = cx_hs c" "cx_state c' = cx_state c"
    "cx_handler c' = cx_handler c" "ack_size c' = ack_size c" "in_bytes c' = in_bytes c"
    "last_left c' = last_left c" "cx_app c' = cx_app c" "tc_url c' = tc_url c"
    "cx_name c' = cx_name c" "session_name c' = session_name c" "param c' = param c"
    "is_player c' = is_player c" "is_client c' = is_client c"
  using assms unfolding outputs_only_def by (cases c; cases c'; simp)+

lemma outputs_only_emit: "outputs_only c (emit e c)"
  by (simp add: outputs_only_def emit_def)

lemma outputs_only_notify: "outputs_only c (notify e c)"
  by (simp add: notify_def outputs_only_emit)

lemma outputs_only_out: "outputs_only c (c\<lparr>cx_out := s\<rparr>)"
  by (simp add: outputs_only_def)

lemma send_frame [frames]: "send c = Inr c' \<Longrightarrow> outputs_only c c'"
  by (auto simp: send_def res_simps outputs_only_def emit_def split: if_splits)

lemma pushOutQueue_frame [frames]: "pushOutQueue p c = Inr c' \<Longrightarrow> outputs_only c c'"
  unfolding pushOutQueue_def by (rule outputs_only_trans [OF outputs_only_out send_frame])

lemma pushed_frame [frames]: "bindr m (\<lambda>p. pushOutQueue p c) = Inr c' \<Longrightarrow> outputs_only c c'"
  by (auto simp: res_simps intro: pushOutQueue_frame)

lemma checkAndSend_frame [frames]: "checkAndSend c = Inr c' \<Longrightarrow> outputs_only c c'"
  by (auto simp: checkAndSend_def Let_def split: if_splits
      intro: outputs_only_trans [OF outputs_only_out] send_frame outputs_only_notify)

lemma sender_frames [frames]:
  "sendSetChunkSize c = Inr c' \<Longrightarrow> outputs_only c c'"
  "sendAckWindowSize c = Inr c' \<Longrightarrow> outputs_only c c'"
  "sendSetPeerBandwidth c = Inr c' \<Longrightarrow> outputs_only c c'"
  "sendUserCtrlMessage n v w c = Inr c' \<Longrightarrow> outputs_only c c'"
  "sendCreateStream c = Inr c' \<Longrightarrow> outputs_only c c'"
  "sendStatus l s d c = Inr c' \<Longrightarrow> outputs_only c c'"
  "sendPlay c = Inr c' \<Longrightarrow> outputs_only c c'"
  "sendPublish c = Inr c' \<Longrightarrow> outputs_only c c'"
  unfolding sendSetChunkSize_def sendAckWindowSize_def sendSetPeerBandwidth_def
    sendUserCtrlMessage_def sendCreateStream_def sendStatus_def sendPlay_def sendPublish_def
  by (rule pushed_frame; assumption)+

lemma sendConnect_frame [frames]: "sendConnect c = Inr c' \<Longrightarrow> outputs_only c c'"
  by (auto simp: sendConnect_def res_simps intro: outputs_only_trans sender_frames pushOutQueue_frame)

lemma sendBytesRecv_in: "sendBytesRecv c = Inr c' \<Longrightarrow> cx_in c' = cx_in c"
  by (auto simp: sendBytesRecv_def res_simps split: if_splits
      dest!: pushOutQueue_frame outputs_only_sel(1))

section \<open>Handlers and the parser\<close>

lemma parseNameAndTcUrl_in [simp]: "cx_in (parseNameAndTcUrl c) = cx_in c"
  by (simp add: parseNameAndTcUrl_def Let_def split: prod.splits)

lemma connect_app_in:
  assumes "connect_app ps c = Inr (b, c')"
  shows "cx_in c' = cx_in c"
proof -
  obtain url v where "deref (property_named ps ''tcUrl'') = Inr url" "deref (property_at ps 2) = Inr v"
    using assms by (auto simp: connect_app_def res_simps)
  then show ?thesis
    using assms by (cases "amf_object v") (auto simp: connect_app_def Let_def res_simps)
qed

lemma notify_in [simp]: "cx_in (notify e c) = cx_in c"
  by (rule outputs_only_sel(1) [OF outputs_only_notify])

lemma run_command_in:
  assumes "run_command method ps c = Inr c'"
  shows "cx_in c' = cx_in c"
proof -
  have s: "cx_in b = cx_in a" if "outputs_only a b" for a b
    using that by (rule outputs_only_sel(1))
  have connect: "handleConnect ps c = Inr c' \<Longrightarrow> cx_in c' = cx_in c"
    by (auto simp: handleConnect_def res_simps dest!: connect_app_in s frames)
  have "handleCreateStream ps c = Inr c' \<Longrightarrow> cx_in c' = cx_in c"
    by (auto simp: handleCreateStream_def res_simps dest!: s frames)
  moreover have "handleResult ps c = Inr c' \<Longrightarrow> cx_in c' = cx_in c"
    by (auto simp: handleResult_def res_simps split: if_splits dest!: s frames)
  moreover have "handleError ps c = Inr c' \<Longrightarrow> cx_in c' = cx_in c"
    by (auto simp: handleError_def res_simps emit_def)
  moreover have "handlePlay ps c = Inr c' \<Longrightarrow> cx_in c' = cx_in c"
    by (auto simp: handlePlay_def Let_def res_simps dest!: s frames)
  moreover have "handlePublish ps c = Inr c' \<Longrightarrow> cx_in c' = cx_in c"
    by (auto simp: handlePublish_def Let_def res_simps dest!: s frames)
  ultimately show ?thesis
    using assms connect by (auto simp: run_command_def split: if_splits)
qed

lemma handleAmfCommand_in: "handleAmfCommand p b c = Inr c' \<Longrightarrow> cx_in c' = cx_in c"
  by (auto simp: handleAmfCommand_def Let_def res_simps split: option.split_asm dest: run_command_in)

lemma handleUserMessage_in: "handleUserMessage p c = Inr c' \<Longrightarrow> cx_in c' = cx_in c"
  by (auto simp: handleUserMessage_def res_simps split: if_splits
      dest!: outputs_only_sel(1) frames)

lemma messageComplete_ok:
  assumes "messageComplete p c = Inr c'" "in_ok (cx_in c)"
  shows "in_ok (cx_in c')"
proof -
  have "handleChunkSize p c = Inr c' \<Longrightarrow> in_ok (cx_in c')"
    using assms(2) i32_bounds by (auto simp: handleChunkSize_def res_simps in_ok_def split: if_splits)
  moreover have "handleAckWindowSize p c = Inr c' \<Longrightarrow> cx_in c' = cx_in c"
    by (auto simp: handleAckWindowSize_def res_simps split: if_splits)
  moreover note handleAmfCommand_in handleUserMessage_in
  ultimately show ?thesis
    using assms unfolding messageComplete_def Let_def by (auto split: if_splits)
qed

text \<open>The connection is what the parser's loop asks for.\<close>

interpretation rtmp: chunk_consumer cx_in set_cx_in messageComplete
  by unfold_locales (auto simp: set_cx_in_def intro: messageComplete_ok)

section \<open>Faults\<close>

lemma message_reads:
  "message_ok p \<Longrightarrow> k + 4 \<le> psize p \<Longrightarrow> \<exists>v. readUint32T (pblock p) k = Inr v"
  "message_ok p \<Longrightarrow> k + 2 \<le> psize p \<Longrightarrow> \<exists>v. readUint16T (pblock p) k = Inr v"
  using c32.get_total c16.get_total by (auto simp: message_ok_def)

lemma handleAckWindowSize_total: "message_ok p \<Longrightarrow> \<exists>c'. handleAckWindowSize p c = Inr c'"
  using message_reads(1) [of p 0] by (auto simp: handleAckWindowSize_def)

lemma handleChunkSize_total: "message_ok p \<Longrightarrow> \<exists>c'. handleChunkSize p c = Inr c'"
  using message_reads(1) [of p 0] by (auto simp: handleChunkSize_def)

lemma handleUserMessage_fault:
  "message_ok p \<Longrightarrow> handleUserMessage p c = Inl e \<Longrightarrow>
   6 \<le> psize p \<and> readUint16T (pblock p) 0 = Inr kRtmpEventTypePingRequest"
  using message_reads(1) [of p 2] message_reads(2) [of p 0]
  by (auto simp: handleUserMessage_def split: if_splits)

text \<open>Decoding an AMF command from too few bytes gives an object without properties.\<close>

lemma decode_short: "sz < 3 \<Longrightarrow> object_decode m sz has = Inr (Some ([], 0))"
  by (simp add: object_decode_def amf_decode.simps)

lemma short_command: "psize p \<le> 2 \<Longrightarrow> handleAmfCommand p amf3 c = Inl NullDeref"
  by (simp add: handleAmfCommand_def Let_def decode_short prop_str_def property_at_def)

section \<open>Properties of the parser and the handlers\<close>

text \<open>
  C5: how the network cuts the byte stream does not matter. Parsing a first piece and then what
  is left of it together with the rest gives the same connection, the same replies and callbacks
  in the same order and the same number of bytes taken, or the same fault, as parsing everything
  at once; also when the cut is in the middle of a header.
\<close>

theorem message_stream_fragmentation:
  assumes "in_ok (cx_in c)" "length (xs @ ys) < 2 ^ 31"
  shows "ctx_loop c (xs @ ys) =
    bindr (ctx_loop c xs) (\<lambda>(c1, n).
      bindr (ctx_loop c1 (drop n xs @ ys)) (\<lambda>(c2, k). Inr (c2, n + k)))"
  using assms by (rule rtmp.loop_append)

theorem message_stream_fragmentation_witness:
  "ctx_loop (newContext True False) ([2, 0] @ [0, 0]) =
    bindr (ctx_loop (newContext True False) [2, 0]) (\<lambda>(c1, n).
      bindr (ctx_loop c1 (drop n [2, 0] @ [0, 0])) (\<lambda>(c2, k). Inr (c2, n + k)))"
  by (rule message_stream_fragmentation) (simp_all add: newContext_def)

text \<open>
  C4: the parser itself never reads or writes outside a block, whatever the peer sends: after any
  input the connection's parser state is well formed and no more is taken than there is. When parsing
  faults, the fault is that of a handler: the rounds before went well, the next chunk of the input was
  taken and completed a message, and delivering that message faults. It is an AMF command, whose
  handlers follow missing properties, or a ping, whose answer is built.
\<close>

theorem parser_safety:
  assumes "in_ok (cx_in c)" "length b < 2 ^ 31"
  shows "case ctx_loop c b of
      Inr (c', n) \<Rightarrow> in_ok (cx_in c') \<and> n \<le> length b
    | Inl e \<Rightarrow> \<exists>c1 b1 st n p. parse_rounds cx_in set_cx_in messageComplete c b c1 b1 \<and>
        parse_chunk (cx_in c1) b1 = Inr (InTook st n (Some p)) \<and> in_ok st \<and> message_ok p \<and>
        messageComplete p (set_cx_in st c1) = Inl e \<and>
        (ptype p = uint kRtmpMsgTypeAMFMessage \<or> ptype p = uint kRtmpMsgTypeAMF3Message \<or>
         ptype p = uint kRtmpMsgTypeUserControl \<and>
           readUint16T (pblock p) 0 = Inr kRtmpEventTypePingRequest)"
proof (cases "ctx_loop c b")
  case (Inr r)
  then show ?thesis using rtmp.loop_keeps [OF assms] by (cases r) auto
next
  case (Inl e)
  obtain c1 b1 st n p where
    p: "parse_rounds cx_in set_cx_in messageComplete c b c1 b1" "parse_chunk (cx_in c1) b1 = Inr (InTook st n (Some p))"
      "in_ok st" "message_ok p" "messageComplete p (set_cx_in st c1) = Inl e"
    using rtmp.loop_faults [OF assms Inl] by blast
  have "ptype p = uint kRtmpMsgTypeAMFMessage \<or> ptype p = uint kRtmpMsgTypeAMF3Message \<or>
      ptype p = uint kRtmpMsgTypeUserControl \<and>
        readUint16T (pblock p) 0 = Inr kRtmpEventTypePingRequest"
    using p(5) handleChunkSize_total [OF p(4), of "set_cx_in st c1"]
      handleAckWindowSize_total [OF p(4), of "set_cx_in st c1"]
      handleUserMessage_fault [OF p(4)]
    unfolding messageComplete_def Let_def by (auto split: if_splits)
  with p Inl show ?thesis by (auto intro!: exI)
qed

theorem parser_safety_witness:
  "\<exists>c1 b1 st n p. parse_rounds cx_in set_cx_in messageComplete (newContext True False)
      [3, 0, 0, 0, 0, 0, 1, 20, 0, 0, 0, 0, 7] c1 b1 \<and>
    parse_chunk (cx_in c1) b1 = Inr (InTook st n (Some p)) \<and> messageComplete p (set_cx_in st c1) = Inl NullDeref"
proof -
  let ?c = "newContext True False" and ?b = "[3, 0, 0, 0, 0, 0, 1, 20, 0, 0, 0, 0, 7] :: bytes"
  have "case ctx_loop ?c ?b of Inl e \<Rightarrow> e = NullDeref | Inr _ \<Rightarrow> False" by code_simp
  then have crash: "ctx_loop ?c ?b = Inl NullDeref" by (simp split: sum.splits)
  have ok: "in_ok (cx_in ?c)" "length ?b < 2 ^ 31" by (simp_all add: newContext_def)
  show ?thesis using parser_safety [OF ok, unfolded crash sum.case] by blast
qed

text \<open>
  C33: thirteen bytes from the peer crash the program. An AMF command message of one byte decodes
  to an object without properties, and \<open>handleAmfCommand\<close> follows the pointer to the first one.
  It takes no more than a connection with no unfinished message on that chunk stream.
\<close>

theorem one_byte_command_crashes:
  assumes "in_packets (cx_in c) 3 = None" "1 \<le> in_chunk_size (cx_in c)" "in_chunk_size (cx_in c) < 2 ^ 31"
  shows "ctx_loop c [3, 0, 0, 0, 0, 0, 1, 20, 0, 0, 0, 0, x] = Inl NullDeref"
proof -
  let ?b = "[3, 0, 0, 0, 0, 0, 1, 20, 0, 0, 0, 0, x] :: bytes"
  have bh: "basic_header_in ?b = Inr (Some (0, 3, 1))"
    by (simp add: basic_header_in_def readUint8T_def slice_def)
  have rd: "readUint24T ?b 1 = Inr 0" "readUint24T ?b 4 = Inr 1" "readUint8T ?b 7 = Inr 20"
      "loadUint32LE ?b 8 = Inr 0"
    by (simp_all add: readUint24T_def readUint8T_def loadUint32LE_def readUint32T_def slice_def)
  let ?h0 = "emptyHeader\<lparr>cs_id := 3, msg_len := 1\<rparr>"
  let ?h = "?h0\<lparr>timestamp := 0, msg_len := 1, msg_type := 20, msg_sid := 0\<rparr>"
  let ?p = "setExt ?h (newPacket 1)"
  let ?st = "with_chunk (cx_in c) 3 (prev_of (cx_in c) 3) ?p 0 False"
  have chunk: "parse_chunk (cx_in c) ?b = chunk_body_in ?st 3 ?b 12 ?p ?h"
    unfolding parse_chunk_def bh
    by (simp add: short_header_def new_len_def rd rd(1) [unfolded One_nat_def] packet_of_def assms(1) message_header_in_def Let_def ext_timestamp_in_def)
  have sp: "min (getSpace ?p) (in_chunk_size ?st) = 1"
    using assms(2) by (simp add: getSpace_def setExt_def newPacket_def)
  let ?q = "?p\<lparr>pblock := [x], psize := 1, ptype := 20, ptimestamp := 0\<rparr>"
  have body: "\<exists>st q. chunk_body_in ?st 3 ?b 12 ?p ?h = Inr (InTook st 13 (Some q)) \<and> ptype q = 20 \<and> psize q = 1"
    unfolding chunk_body_in_def Let_def sp
    by (simp add: u32_int_def slice_def store_at_def setExt_def setPacketSize_def getSpace_def
        newPacket_def)
  then obtain st q where q: "parse_chunk (cx_in c) ?b = Inr (InTook st 13 (Some q))" "ptype q = 20"
      "psize q = 1"
    using chunk by auto
  then have "messageComplete q d = Inl NullDeref" for d
    by (simp add: messageComplete_def rtmp_msg_types short_command)
  then show ?thesis
    by (subst parse_loop.simps) (simp add: q(1))
qed

theorem one_byte_command_crashes_witness:
  "ctx_loop (newContext True False) [3, 0, 0, 0, 0, 0, 1, 20, 0, 0, 0, 0, 2] = Inl NullDeref"
  by (rule one_byte_command_crashes) (simp_all add: newContext_def newInState_def)

lemma value_over_type:
  "readUint16T (writeUint32T v @ r) 0 = Inr (ucast (drop_bit 16 v))"
proof -
  have "push_bit 8 (ucast (ucast (drop_bit 24 v) :: u8)) OR ucast (ucast (drop_bit 16 v) :: u8)
      = (ucast (drop_bit 16 v) :: u16)"
    by (rule bit_word_eqI) (auto simp: bit_simps not_less)
  then show ?thesis by (simp add: readUint16T_def writeUint32T_def slice_def)
qed

lemma user_ctrl_block:
  "\<exists>p. user_ctrl_packet nType v w = Inr p \<and>
     psize p = (if nType = kRtmpEventTypeSetBufferLength then 10 else 6) \<and>
     pblock p = writeUint32T (if nType = kRtmpEventTypeSetBufferLength then w else v)
                @ replicate 60 0"
  by (simp add: user_ctrl_packet_def store_at_def newPacket_def setPacketSize_def setExt_def
      writeUint16T_def writeUint32T_def Let_def)

text \<open>
  A user control message does not carry its event type. \<open>sendUserCtrlMessage\<close> writes every
  field to the start of the body, so the value is written over the event type and the message
  ends with zeros: what was to be the answer to a ping with value \<open>v\<close> reads as the event whose
  number is the upper half of \<open>v\<close>.
\<close>

theorem user_ctrl_type_lost:
  "\<exists>p. user_ctrl_packet nType value1 value2 = Inr p \<and>
     pdata p = (if nType = kRtmpEventTypeSetBufferLength
                then writeUint32T value2 @ replicate 6 0 else writeUint32T value1 @ [0, 0]) \<and>
     readUint16T (pblock p) 0 =
       Inr (ucast (drop_bit 16 (if nType = kRtmpEventTypeSetBufferLength then value2 else value1)))"
proof -
  obtain p where "user_ctrl_packet nType value1 value2 = Inr p"
      "psize p = (if nType = kRtmpEventTypeSetBufferLength then 10 else 6)"
      "pblock p = writeUint32T (if nType = kRtmpEventTypeSetBufferLength then value2 else value1)
                @ replicate 60 0"
    using user_ctrl_block by blast
  then show ?thesis
    by (simp add: pdata_def value_over_type) (simp add: writeUint32T_def eval_nat_numeral)
qed

section \<open>The output queue delivers\<close>

text \<open>What happens to the queue: a message is queued, or the connection has written everything.\<close>

datatype out_event = Queue packet | Written

fun out_event_step :: "out_event \<Rightarrow> ctx \<Rightarrow> ctx res" where
  "out_event_step (Queue p) c = pushOutQueue p c"
| "out_event_step Written c = checkAndSend c"

fun out_run :: "out_event list \<Rightarrow> ctx \<Rightarrow> ctx res" where
  "out_run [] c = Inr c"
| "out_run (e # es) c = bindr (out_event_step e c) (out_run es)"

fun queued :: "out_event list \<Rightarrow> packet list" where
  "queued [] = []"
| "queued (Queue p # es) = p # queued es"
| "queued (Written # es) = queued es"

text \<open>The bytes handed to the connection, in order.\<close>

fun sent_bytes :: "effect list \<Rightarrow> bytes" where
  "sent_bytes [] = []"
| "sent_bytes (SendNodes ns # es) = concat ns @ sent_bytes es"
| "sent_bytes (_ # es) = sent_bytes es"

lemma sent_bytes_append [simp]: "sent_bytes (es @ fs) = sent_bytes es @ sent_bytes fs"
  by (induction es rule: sent_bytes.induct) simp_all

lemma sent_bytes_notify [simp]: "sent_bytes (cx_effects (notify OnActive c)) = sent_bytes (cx_effects c)"
  by (simp add: notify_def emit_def)

text \<open>A message for the queue: one the peer can take, and ten of them fit the header buffer.\<close>

definition queue_fits :: "in_state \<Rightarrow> packet \<Rightarrow> bool" where
  "queue_fits st p \<longleftrightarrow> (case phdr p of None \<Rightarrow> False
     | Some h \<Rightarrow> message_fits st (p, h, 0, False) \<and> unat (msg_len h) < 2 ^ 19)"

definition arrives :: "packet \<Rightarrow> packet \<Rightarrow> bool" where
  "arrives p q \<longleftrightarrow> (case phdr p of None \<Rightarrow> False | Some h \<Rightarrow> arrives_as (p, h, 0, False) q)"

lemma queue_fits_chunk_size:
  "in_chunk_size st1 = in_chunk_size st \<Longrightarrow> queue_fits st1 p = queue_fits st p"
  by (simp add: queue_fits_def message_fits_def chunk_size_agrees_def split: option.split)

lemma in_sync_queue [simp]: "in_sync (s\<lparr>out_waiting_queue := q\<rparr>) st = in_sync s st"
  by (simp add: in_sync_def)

lemma build_waiting_stream:
  assumes "in_ok st" "in_sync s st" "\<forall>p \<in> set (out_waiting_queue s). queue_fits st p"
    and "out_used s + 409 * n \<le> RTMP_BUFFER_SIZE"
  shows "\<exists>s1 ns st1 built. build_waiting n s = Inr s1 \<and> in_sync s1 st1 \<and> in_ok st1
    \<and> in_chunk_size st1 = in_chunk_size st \<and> sending s1 = sending s
    \<and> sending_buffers s1 = sending_buffers s @ ns
    \<and> out_waiting_queue s = built @ out_waiting_queue s1
    \<and> length built = min n (length (out_waiting_queue s))
    \<and> (length (concat ns) < 2 ^ 31 \<longrightarrow> (\<forall>acc. \<exists>qs. list_all2 arrives built qs \<and>
         parse_loop fst set_in collect (st, acc) (concat ns) = Inr ((st1, acc @ qs), length (concat ns))))"
  using assms
proof (induction n arbitrary: s st)
  case 0
  then show ?case
    by (intro exI [of _ s] exI [of _ "[]"] exI [of _ st] exI [of _ "[]"]) (simp add: observer.loop_short)
next
  case (Suc n)
  show ?case
  proof (cases "out_waiting_queue s")
    case Nil
    then show ?thesis using Suc.prems
      by (intro exI [of _ s] exI [of _ "[]"] exI [of _ st] exI [of _ "[]"]) (simp add: observer.loop_short)
  next
    case (Cons p ps)
    have fit: "queue_fits st p" using Suc.prems(3) Cons by simp
    then obtain h where h: "phdr p = Some h" "sendable p h 0"
        "chunk_size_agrees st (unat (msg_len h))" "unat (msg_len h) < 2 ^ 19"
      by (auto simp: queue_fits_def message_fits_def split: option.splits)
    let ?s0 = "s\<lparr>out_waiting_queue := ps\<rparr>"
    have small: "14 + 3 * (unat (msg_len h) div 4096) \<le> 409" using h(4) by simp
    then have room: "out_room ?s0 h" using Suc.prems(4) by (simp add: out_room_def)
    have sync0: "in_sync ?s0 st" using Suc.prems(2) by simp
    obtain s1 ns st1 where 1: "buildChunk p 0 False ?s0 = Inr (True, s1)"
        "sending_buffers s1 = sending_buffers s @ ns" "in_sync s1 st1" "in_ok st1"
        "in_chunk_size st1 = in_chunk_size st"
        "out_used s1 \<le> out_used s + (14 + 3 * (unat (msg_len h) div 4096))"
        "\<forall>r acc. length (concat ns @ r) < 2 ^ 31 \<longrightarrow>
           (\<exists>q. is_message q (h\<lparr>timestamp := 0\<rparr>) (payload p h) \<and>
             parse_loop fst set_in collect (st, acc) (concat ns @ r)
             = bindr (parse_loop fst set_in collect (st1, acc @ [q]) r)
                 (\<lambda>(c2, j). Inr (c2, length (concat ns) + j)))"
      using one_message [OF Suc.prems(1) sync0 h(2) room h(3)] by fastforce
    have fr: "out_waiting_queue s1 = ps" "sending s1 = sending s"
      using buildChunk_frame [OF 1(1)] by simp_all
    have fits': "\<forall>p \<in> set (out_waiting_queue s1). queue_fits st1 p"
      using Suc.prems(3) Cons by (simp add: fr queue_fits_chunk_size [OF 1(5)])
    have room': "out_used s1 + 409 * n \<le> RTMP_BUFFER_SIZE"
      using Suc.prems(4) 1(6) small by simp
    obtain s2 ns2 st2 built where 2: "build_waiting n s1 = Inr s2" "in_sync s2 st2" "in_ok st2"
        "in_chunk_size st2 = in_chunk_size st1" "sending s2 = sending s1"
        "sending_buffers s2 = sending_buffers s1 @ ns2"
        "out_waiting_queue s1 = built @ out_waiting_queue s2"
        "length built = min n (length (out_waiting_queue s1))"
        "length (concat ns2) < 2 ^ 31 \<longrightarrow> (\<forall>acc. \<exists>qs. list_all2 arrives built qs \<and>
           parse_loop fst set_in collect (st1, acc) (concat ns2) = Inr ((st2, acc @ qs), length (concat ns2)))"
      using Suc.IH [OF 1(4,3) fits' room'] by blast
    have "\<exists>qs. list_all2 arrives (p # built) qs \<and>
        parse_loop fst set_in collect (st, acc) (concat (ns @ ns2))
        = Inr ((st2, acc @ qs), length (concat (ns @ ns2)))"
      if len: "length (concat (ns @ ns2)) < 2 ^ 31" for acc
    proof -
      obtain q where q: "is_message q (h\<lparr>timestamp := 0\<rparr>) (payload p h)"
          "parse_loop fst set_in collect (st, acc) (concat ns @ concat ns2)
           = bindr (parse_loop fst set_in collect (st1, acc @ [q]) (concat ns2))
               (\<lambda>(c2, j). Inr (c2, length (concat ns) + j))"
        using 1(7) len by (auto simp: concat_append)
      have "length (concat ns2) < 2 ^ 31" using len by simp
      with 2(9) obtain qs where qs: "list_all2 arrives built qs"
          "parse_loop fst set_in collect (st1, acc @ [q]) (concat ns2)
           = Inr ((st2, (acc @ [q]) @ qs), length (concat ns2))" by blast
      show ?thesis
        using q qs by (intro exI [of _ "q # qs"]) (simp add: arrives_def h(1) arrives_as_def)
    qed
    moreover have "build_waiting (Suc n) s = Inr s2"
      using 1(1) 2(1) by (simp add: Cons overloads_agree [symmetric])
    ultimately show ?thesis
      using 1(2,5) 2 fr Cons
      by (intro exI [of _ s2] exI [of _ "ns @ ns2"] exI [of _ st2] exI [of _ "p # built"]) simp
  qed
qed

text \<open>
  What holds between the events: the peer's parser would have taken exactly the messages that
  left the queue, and an idle connection has nothing waiting.
\<close>

definition queue_inv :: "in_state \<Rightarrow> packet list \<Rightarrow> ctx \<Rightarrow> bool" where
  "queue_inv st0 pushed c \<longleftrightarrow>
     (sending (cx_out c) \<or> out_waiting_queue (cx_out c) = [] \<and> out_used (cx_out c) = 0
        \<and> sending_buffers (cx_out c) = []) \<and>
     (\<exists>st done. in_ok st \<and> in_sync (cx_out c) st \<and> in_chunk_size st = in_chunk_size st0
        \<and> pushed = done @ out_waiting_queue (cx_out c)
        \<and> (length (sent_bytes (cx_effects c)) < 2 ^ 31 \<longrightarrow>
             (\<exists>qs. list_all2 arrives done qs \<and> messages_in st0 (sent_bytes (cx_effects c))
                = Inr ((st, qs), length (sent_bytes (cx_effects c))))))"

lemma queue_inv_send:
  assumes st0: "in_ok st0" and fits: "\<forall>p \<in> set (out_waiting_queue (cx_out c)). queue_fits st0 p"
    and idle: "\<not> sending (cx_out c)" "out_used (cx_out c) = 0" "sending_buffers (cx_out c) = []"
    and st: "in_ok st" "in_sync (cx_out c) st" "in_chunk_size st = in_chunk_size st0"
    and pushed: "pushed = done @ out_waiting_queue (cx_out c)"
    and sent: "length (sent_bytes (cx_effects c)) < 2 ^ 31 \<longrightarrow>
       (\<exists>qs. list_all2 arrives done qs \<and> messages_in st0 (sent_bytes (cx_effects c))
          = Inr ((st, qs), length (sent_bytes (cx_effects c))))"
  shows "\<exists>c'. send c = Inr c' \<and> queue_inv st0 pushed c'"
proof -
  let ?s = "(cx_out c)\<lparr>sending := True\<rparr>" and ?b = "sent_bytes (cx_effects c)"
  have sync: "in_sync ?s st" using st(2) by (simp add: in_sync_def)
  have fits': "\<forall>p \<in> set (out_waiting_queue ?s). queue_fits st p"
    using fits by (simp add: queue_fits_chunk_size [OF st(3)])
  have room: "out_used ?s + 409 * RTMP_SINGLE_MAX \<le> RTMP_BUFFER_SIZE"
    by (simp add: idle(2) RTMP_SINGLE_MAX_def RTMP_BUFFER_SIZE_def)
  obtain s1 ns st1 built where 1: "build_waiting RTMP_SINGLE_MAX ?s = Inr s1" "in_sync s1 st1"
      "in_ok st1" "in_chunk_size st1 = in_chunk_size st" "sending s1 = sending ?s"
      "sending_buffers s1 = sending_buffers ?s @ ns"
      "out_waiting_queue ?s = built @ out_waiting_queue s1"
      "length (concat ns) < 2 ^ 31 \<longrightarrow> (\<forall>acc. \<exists>qs. list_all2 arrives built qs \<and>
         parse_loop fst set_in collect (st, acc) (concat ns) = Inr ((st1, acc @ qs), length (concat ns)))"
    using build_waiting_stream [OF st(1) sync fits' room] by blast
  let ?c = "emit (SendNodes ns) (c\<lparr>cx_out := s1\<rparr>)"
  have send: "send c = Inr ?c"
    using 1(1,6) by (simp add: send_def idle)
  have bytes: "sent_bytes (cx_effects ?c) = ?b @ concat ns" by (simp add: emit_def)
  have "\<exists>qs. list_all2 arrives (done @ built) qs \<and> messages_in st0 (?b @ concat ns)
      = Inr ((st1, qs), length (?b @ concat ns))" if len: "length (?b @ concat ns) < 2 ^ 31"
  proof -
    have "length ?b < 2 ^ 31" "length (concat ns) < 2 ^ 31" using len by simp_all
    then obtain qs qs' where qs: "list_all2 arrives done qs"
        "parse_loop fst set_in collect (st0, []) ?b = Inr ((st, qs), length ?b)"
        "list_all2 arrives built qs'"
        "parse_loop fst set_in collect (st, qs) (concat ns) = Inr ((st1, qs @ qs'), length (concat ns))"
      using sent 1(8) unfolding messages_in_def by blast
    have "parse_loop fst set_in collect (st0, []) (?b @ concat ns)
        = Inr ((st1, qs @ qs'), length (?b @ concat ns))"
      using observer.loop_append [of "(st0, [])" ?b "concat ns"] st0 len qs(2,4) by simp
    then show ?thesis
      using qs(1,3) unfolding messages_in_def by (blast intro: list_all2_appendI)
  qed
  then have "queue_inv st0 pushed ?c"
    unfolding queue_inv_def bytes
    using 1(2-5,7) st(3) pushed
    by (intro conjI exI [of _ st1] exI [of _ "done @ built"]) (simp_all add: emit_def)
  then show ?thesis using send by blast
qed

lemma queue_inv_push:
  assumes "in_ok st0" "queue_inv st0 pushed c" "\<forall>x \<in> set (pushed @ [p]). queue_fits st0 x"
  shows "\<exists>c'. pushOutQueue p c = Inr c' \<and> queue_inv st0 (pushed @ [p]) c'"
proof -
  let ?c = "c\<lparr>cx_out := (cx_out c)\<lparr>out_waiting_queue := out_waiting_queue (cx_out c) @ [p]\<rparr>\<rparr>"
  obtain st "done" where inv: "in_ok st" "in_sync (cx_out c) st" "in_chunk_size st = in_chunk_size st0"
      "pushed = done @ out_waiting_queue (cx_out c)"
      "length (sent_bytes (cx_effects c)) < 2 ^ 31 \<longrightarrow>
       (\<exists>qs. list_all2 arrives done qs \<and> messages_in st0 (sent_bytes (cx_effects c))
          = Inr ((st, qs), length (sent_bytes (cx_effects c))))"
    using assms(2) unfolding queue_inv_def by blast
  show ?thesis
  proof (cases "sending (cx_out c)")
    case True
    then have "queue_inv st0 (pushed @ [p]) ?c"
      unfolding queue_inv_def using inv
      by (intro conjI exI [of _ st] exI [of _ "done"]) simp_all
    then show ?thesis using True by (simp add: pushOutQueue_def send_def)
  next
    case False
    then have idle: "out_used (cx_out c) = 0" "sending_buffers (cx_out c) = []"
      using assms(2) by (auto simp: queue_inv_def)
    have "\<exists>c'. send ?c = Inr c' \<and> queue_inv st0 (pushed @ [p]) c'"
      by (rule queue_inv_send [OF assms(1), of ?c st _ "done"])
        (use False idle inv assms(3) in simp_all)
    then show ?thesis by (simp add: pushOutQueue_def)
  qed
qed

lemma queue_inv_written:
  assumes "in_ok st0" "queue_inv st0 pushed c" "\<forall>x \<in> set pushed. queue_fits st0 x"
  shows "\<exists>c'. checkAndSend c = Inr c' \<and> queue_inv st0 pushed c'"
proof -
  let ?s = "(cx_out c)\<lparr>sending := False, out_used := 0, sending_buffers := [],
              out_sending_packets := []\<rparr>"
  let ?c = "c\<lparr>cx_out := ?s\<rparr>"
  obtain st "done" where inv: "in_ok st" "in_sync (cx_out c) st" "in_chunk_size st = in_chunk_size st0"
      "pushed = done @ out_waiting_queue (cx_out c)"
      "length (sent_bytes (cx_effects c)) < 2 ^ 31 \<longrightarrow>
       (\<exists>qs. list_all2 arrives done qs \<and> messages_in st0 (sent_bytes (cx_effects c))
          = Inr ((st, qs), length (sent_bytes (cx_effects c))))"
    using assms(2) unfolding queue_inv_def by blast
  have sync: "in_sync ?s st" using inv(2) by (simp add: in_sync_def)
  show ?thesis
  proof (cases "out_waiting_queue (cx_out c) = []")
    case True
    have out: "cx_out (notify OnActive ?c) = ?s"
      by (simp add: notify_def emit_def)
    have "queue_inv st0 pushed (notify OnActive ?c)"
      unfolding queue_inv_def out using inv sync True
      by (intro conjI exI [of _ st] exI [of _ "done"]) simp_all
    then show ?thesis using True by (simp add: checkAndSend_def Let_def)
  next
    case False
    have "\<exists>c'. send ?c = Inr c' \<and> queue_inv st0 pushed c'"
      by (rule queue_inv_send [OF assms(1), of ?c st _ "done"]) (use inv assms(3) sync in simp_all)
    then show ?thesis using False by (simp add: checkAndSend_def Let_def)
  qed
qed

lemma queue_inv_run:
  "in_ok st0 \<Longrightarrow> queue_inv st0 pushed c \<Longrightarrow> \<forall>x \<in> set (pushed @ queued es). queue_fits st0 x \<Longrightarrow>
   \<exists>c'. out_run es c = Inr c' \<and> queue_inv st0 (pushed @ queued es) c'"
proof (induction es arbitrary: pushed c)
  case (Cons e es)
  show ?case
  proof (cases e)
    case (Queue p)
    have f: "\<forall>x \<in> set (pushed @ [p]). queue_fits st0 x" using Cons.prems(3) Queue by simp
    obtain c1 where c1: "pushOutQueue p c = Inr c1" "queue_inv st0 (pushed @ [p]) c1"
      using queue_inv_push [OF Cons.prems(1,2) f] by blast
    have "\<exists>c'. out_run es c1 = Inr c' \<and> queue_inv st0 ((pushed @ [p]) @ queued es) c'"
      by (rule Cons.IH) (use Cons.prems c1 Queue in simp_all)
    then show ?thesis using c1 Queue by simp
  next
    case Written
    have f: "\<forall>x \<in> set pushed. queue_fits st0 x" using Cons.prems(3) by simp
    obtain c1 where c1: "checkAndSend c = Inr c1" "queue_inv st0 pushed c1"
      using queue_inv_written [OF Cons.prems(1,2) f] by blast
    have "\<exists>c'. out_run es c1 = Inr c' \<and> queue_inv st0 (pushed @ queued es) c'"
      by (rule Cons.IH) (use Cons.prems c1 Written in simp_all)
    then show ?thesis using c1 Written by simp
  qed
qed simp

lemma queue_inv_new:
  "in_ok st0 \<Longrightarrow> in_sync newOutState st0 \<Longrightarrow> queue_inv st0 [] (newContext handler client)"
  by (auto simp: queue_inv_def newContext_def newOutState_def messages_in_def observer.loop_short
      intro!: exI [of _ st0])

text \<open>
  C12: the output queue delivers. Whatever the order in which messages are queued and writes
  complete, the connection does not fault; the bytes handed to it are parsed by the peer into the
  messages queued first, complete and in order; and what is not sent is still in the queue, which
  is empty whenever no write is under way.
\<close>

theorem output_queue_delivers:
  assumes "in_ok st0" "in_sync newOutState st0" "\<forall>p \<in> set (queued es). queue_fits st0 p"
  shows "\<exists>c sent. out_run es (newContext handler client) = Inr c
    \<and> queued es = sent @ out_waiting_queue (cx_out c)
    \<and> (ready c \<longrightarrow> out_waiting_queue (cx_out c) = [])
    \<and> (length (sent_bytes (cx_effects c)) < 2 ^ 31 \<longrightarrow> (\<exists>st qs. list_all2 arrives sent qs \<and>
         messages_in st0 (sent_bytes (cx_effects c))
         = Inr ((st, qs), length (sent_bytes (cx_effects c)))))"
  using queue_inv_run [OF assms(1) queue_inv_new [OF assms(1,2), of handler client], of es] assms(3)
  unfolding queue_inv_def ready_def by simp blast

theorem output_queue_delivers_witness:
  "\<exists>c sent. out_run [Queue demo_packet, Queue demo_packet, Written] (newContext True False) = Inr c
    \<and> [demo_packet, demo_packet] = sent @ out_waiting_queue (cx_out c)
    \<and> (ready c \<longrightarrow> out_waiting_queue (cx_out c) = [])"
proof -
  have s: "sendable demo_packet demo_header 0"
    by (simp add: sendable_def demo_packet_def) (simp add: demo_header_def setExt_def)
  have "queue_fits newInState demo_packet"
    using s by (simp add: queue_fits_def message_fits_def chunk_size_agrees_def newInState_def
        demo_packet_def setExt_def demo_header_def)
  then show ?thesis
    using output_queue_delivers [OF newInState_ok new_in_sync, of
        "[Queue demo_packet, Queue demo_packet, Written]" True False] by fastforce
qed

section \<open>Session names\<close>

lemma url_glue:
  "''rtmp://'' @ host @ '':'' @ port @ ''/'' @ path = glue ''/'' [''rtmp:'', [], host @ '':'' @ port, path]"
  by simp

lemma url_pieces:
  assumes "CHR ''/'' \<notin> set host" "CHR ''/'' \<notin> set port" "CHR ''/'' \<notin> set app" "app \<noteq> []"
  shows "split (''rtmp://'' @ host @ '':'' @ port @ ''/'' @ app) ''/'' False
       = [''rtmp:'', [], host @ '':'' @ port, app]"
proof -
  have "split_loop ([] @ glue ''/'' [''rtmp:'', [], host @ '':'' @ port, app]) ''/'' False
      (length ([] :: string)) [] = [''rtmp:'', [], host @ '':'' @ port, app]"
    by (rule split_loop_glue) (use assms in auto)
  then show ?thesis by (simp add: split_def)
qed

lemma url_pieces5:
  assumes "CHR ''/'' \<notin> set host" "CHR ''/'' \<notin> set port" "CHR ''/'' \<notin> set app"
    "CHR ''/'' \<notin> set stream" "stream \<noteq> []"
  shows "split (''rtmp://'' @ host @ '':'' @ port @ ''/'' @ app @ ''/'' @ stream) ''/'' False
       = [''rtmp:'', [], host @ '':'' @ port, app, stream]"
proof -
  have "split_loop ([] @ glue ''/'' [''rtmp:'', [], host @ '':'' @ port, app, stream]) ''/'' False
      (length ([] :: string)) [] = [''rtmp:'', [], host @ '':'' @ port, app, stream]"
    by (rule split_loop_glue) (use assms in auto)
  then show ?thesis by (simp add: split_def)
qed

lemma host_without_port:
  "CHR '':'' \<notin> set host \<Longrightarrow>
   (case find_first_of (host @ '':'' @ port) '':'' 0 of
      None \<Rightarrow> host @ '':'' @ port | Some p \<Rightarrow> substr (host @ '':'' @ port) 0 p) = host"
  using find_first_of_found [of "CHR '':''" host port] by (simp add: substr_def)

text \<open>
  C30: the session's name. A server whose peer connected to \<open>rtmp://host:port/app\<close> and asks for
  \<open>stream?param\<close> makes the session \<open>host/app/stream\<close>, without the port and the parameters, and
  keeps the parameters apart; what the application name was before does not matter.
\<close>

theorem session_name_from_url:
  assumes "CHR ''/'' \<notin> set host" "CHR ''/'' \<notin> set port" "CHR ''/'' \<notin> set app" "app \<noteq> []"
    and "CHR '':'' \<notin> set host" "CHR ''?'' \<notin> set stream"
    and "tc_url c = ''rtmp://'' @ host @ '':'' @ port @ ''/'' @ app"
    and "cx_name c = stream @ ''?'' @ prm"
  shows "session_name (parseNameAndTcUrl c) = host @ ''/'' @ app @ ''/'' @ stream
    \<and> param (parseNameAndTcUrl c) = prm \<and> cx_name (parseNameAndTcUrl c) = stream
    \<and> cx_app (parseNameAndTcUrl c) = app"
proof -
  have q: "find_first_of (cx_name c) ''?'' 0 = Some (length stream)"
    using find_first_of_found [OF assms(6), of prm] by (simp add: assms(8))
  have s: "substr (cx_name c) 0 (length stream) = stream"
      "substr_from (cx_name c) (length stream + 1) = prm"
    by (simp_all add: assms(8) substr_def substr_from_def)
  have l: "split (tc_url c) ''/'' False = [''rtmp:'', [], host @ '':'' @ port, app]"
    unfolding assms(7) by (rule url_pieces [OF assms(1-4)])
  show ?thesis
    using host_without_port [OF assms(5), of port]
    by (simp add: parseNameAndTcUrl_def Let_def l q s s(2) [simplified] del: append.simps)
qed

theorem session_name_from_url_witness:
  "session_name (parseNameAndTcUrl ((newContext True False)
      \<lparr>tc_url := ''rtmp://h:1935/live'', cx_name := ''s?k=v''\<rparr>)) = ''h/live/s''"
  using session_name_from_url [of "''h''" "''1935''" "''live''" "''s''"
      "(newContext True False)\<lparr>tc_url := ''rtmp://h:1935/live'', cx_name := ''s?k=v''\<rparr>" "''k=v''"]
  by simp

text \<open>
  A client forgets what it was asked for. From a URL \<open>rtmp://host:port/app/stream\<close> the client
  takes the host and the application, and the last part is dropped: its stream name stays
  empty, and it then plays or publishes a stream without a name.
\<close>

theorem client_stream_name_lost:
  assumes "CHR ''/'' \<notin> set host" "CHR ''/'' \<notin> set port" "CHR ''/'' \<notin> set app"
    and "CHR ''/'' \<notin> set stream" "stream \<noteq> []" "CHR '':'' \<notin> set host"
    and "c \<in> {play url (newContext handler client), publish url (newContext handler client)}"
    and "url = ''rtmp://'' @ host @ '':'' @ port @ ''/'' @ app @ ''/'' @ stream"
  shows "cx_name c = [] \<and> session_name c = host @ ''/'' @ app @ ''/'' \<and> is_client c"
proof -
  have l: "split url ''/'' False = [''rtmp:'', [], host @ '':'' @ port, app, stream]"
    unfolding assms(8) by (rule url_pieces5 [OF assms(1-5)])
  show ?thesis
    using host_without_port [OF assms(6), of port] assms(7)
    by (auto simp: play_def publish_def parseNameAndTcUrl_def Let_def l newContext_def
        find_first_of_none simp del: append.simps)
qed

theorem client_stream_name_lost_witness:
  "cx_name (play ''rtmp://h:1935/live/s'' (newContext True True)) = []"
proof -
  have "CHR ''/'' \<notin> set ''h''" "CHR ''/'' \<notin> set ''1935''" "CHR ''/'' \<notin> set ''live''"
    "CHR ''/'' \<notin> set ''s''" "''s'' \<noteq> []" "CHR '':'' \<notin> set ''h''"
    by simp_all
  moreover have "''rtmp://h:1935/live/s'' = ''rtmp://'' @ ''h'' @ '':'' @ ''1935'' @ ''/'' @ ''live'' @ ''/'' @ ''s''"
    by simp
  ultimately show ?thesis
    by (rule client_stream_name_lost [OF _ _ _ _ _ _ insertI1, THEN conjunct1])
qed

section \<open>A client connects to a server\<close>

definition command_header :: "u32 \<Rightarrow> u8 \<Rightarrow> u32 \<Rightarrow> nat \<Rightarrow> rtmp_header" where
  "command_header cs ty sid n =
     \<lparr>cs_id = cs, timestamp = 0, msg_len = word_of_nat n, msg_type = ty, msg_sid = sid\<rparr>"

lemma make_message_ok:
  assumes "length body \<le> cap" "1 \<le> length body" "length body < 2 ^ 24"
    and "2 \<le> unat cs" "unat cs < 65600"
  shows "\<exists>p. make_message cap cs sid ty body = Inr p \<and> sendable p (command_header cs ty sid (length body)) 0
    \<and> payload p (command_header cs ty sid (length body)) = body"
proof -
  have l: "unat (word_of_nat (length body) :: u32) = length body"
    using assms(3) by (simp add: unat_of_nat)
  show ?thesis
    using assms by (simp add: make_message_def store_at_def newPacket_def setExt_def setPacketSize_def
        sendable_def payload_def command_header_def l Suc_le_eq)
qed

text \<open>An idle connection sends a message at once; a sending one keeps it.\<close>

lemma push_sending:
  "sending (cx_out c) \<Longrightarrow>
   pushOutQueue p c = Inr (c\<lparr>cx_out := (cx_out c)\<lparr>out_waiting_queue := out_waiting_queue (cx_out c) @ [p]\<rparr>\<rparr>)"
  by (simp add: pushOutQueue_def send_def)

lemma build_waiting_empty: "out_waiting_queue s = [] \<Longrightarrow> build_waiting n s = Inr s"
  by (cases n) simp_all

lemma build_waiting_one:
  "out_waiting_queue s = [p] \<Longrightarrow> buildChunk p 0 False (s\<lparr>out_waiting_queue := []\<rparr>) = Inr (True, s1) \<Longrightarrow>
   out_waiting_queue s1 = [] \<Longrightarrow> build_waiting RTMP_SINGLE_MAX s = Inr s1"
proof -
  assume a: "out_waiting_queue s = [p]" "buildChunk p 0 False (s\<lparr>out_waiting_queue := []\<rparr>) = Inr (True, s1)"
    "out_waiting_queue s1 = []"
  have "build_waiting (Suc n) s = Inr s1" for n
    using a by (simp add: overloads_agree [symmetric] build_waiting_empty)
  from this [of 9] show ?thesis by (simp add: RTMP_SINGLE_MAX_def)
qed

text \<open>The nodes of one message sent by a connection that is idle, and the state after it.\<close>

lemma build_one:
  assumes "sendable p h 0" "out_waiting_queue s = [p]" "out_used s = 0" "sending_buffers s = []"
    and "out_message_headers s (cs_id h) = None" "unat (msg_len h) \<le> 4096"
  shows "\<exists>s1. build_waiting RTMP_SINGLE_MAX s = Inr s1 \<and> concat (sending_buffers s1) = message_bytes 0 0 h (payload p h)
    \<and> out_waiting_queue s1 = [] \<and> sending s1 = sending s
    \<and> out_message_headers s1 = (out_message_headers s)(cs_id h \<mapsto> h\<lparr>timestamp := 0\<rparr>)"
proof -
  let ?s = "s\<lparr>out_waiting_queue := []\<rparr>"
  have room: "out_room ?s h" using assms(3,6) by (simp add: out_room_def RTMP_BUFFER_SIZE_def)
  have fmt: "chunk_fmt h (out_message_headers ?s (cs_id h)) (out_deltas ?s (cs_id h)) 0 False = (0, 0)"
    by (simp add: chunk_fmt_def assms(5))
  obtain s1 ns where s1: "buildChunk p 0 False ?s = Inr (True, s1)"
      "sending_buffers s1 = sending_buffers ?s @ ns" "concat ns = message_bytes 0 0 h (payload p h)"
      "out_message_headers s1 = (out_message_headers ?s)(cs_id h \<mapsto> h\<lparr>timestamp := 0\<rparr>)"
    using buildChunk_bytes [OF assms(1) room fmt] by blast
  have fr: "out_waiting_queue s1 = []" "sending s1 = sending s"
    using buildChunk_frame [OF s1(1)] by simp_all
  have "build_waiting RTMP_SINGLE_MAX s = Inr s1"
    by (rule build_waiting_one [OF assms(2) s1(1) fr(1)])
  then show ?thesis using s1 fr assms(4) by auto
qed

text \<open>The body of the connect command decodes to its values.\<close>

definition connect_props :: "string \<Rightarrow> string \<Rightarrow> amf_any list" where
  "connect_props app url =
     [AMFString ''app'' app, AMFString ''tcUrl'' url, AMFBoolean ''fpad'' False,
      AMFNumber ''capabilities'' (dbl 31), AMFNumber ''audioCodecs'' (dbl 1639),
      AMFNumber ''videoCodecs'' (dbl 252), AMFNumber ''videoFunction'' (dbl 1)]"

lemma connect_body_items:
  "connect_body app url = kAMFString # encodeName ''connect'' @ kAMFNumber # writeNumber (dbl 1)
     @ kAMFObject # amf_encode (connect_props app url) @ []"
  by (simp add: connect_body_def connect_props_def amf_encode_def amf_encode_prop_def object_end_def
      encodeString_def encodeName_def encodeNumber_def encodeNamedString_def encodeNamedNumber_def
      encodeNamedBoolean_def encodeBoolean_def)

lemma connect_props_ok:
  "fits16 app \<Longrightarrow> fits16 url \<Longrightarrow> \<forall>p \<in> set (connect_props app url). well_named p"
  using whole_number_of_int [of 31] whole_number_of_int [of 1639] whole_number_of_int [of 252]
    whole_number_of_int [of 1]
  by (simp add: connect_props_def fits16_def)

lemma connect_props_length:
  "length (amf_encode (connect_props app url)) = length app + length url + 120"
  by (simp add: connect_props_def amf_encode_def amf_encode_prop_def)

lemma connect_body_decodes:
  assumes "fits16 app" "fits16 url"
  shows "object_decode (connect_body app url) (int (length (connect_body app url))) False
    = Inr (Some ([AMFString [] ''connect'', AMFNumber [] (dbl 1), AMFObject [] (connect_props app url)],
                 length (connect_body app url)))"
proof -
    let ?pay1 = "encodeName ''connect''" and ?pay2 = "writeNumber (dbl 1)"
    let ?pay3 = "amf_encode (connect_props app url)"
    let ?b = "connect_body app url"
    let ?r2 = "kAMFObject # ?pay3 @ []" 
    let ?r1 = "kAMFNumber # ?pay2 @ ?r2"
    have len: "length ?b = length ?pay3 + 20" "length ?pay3 = length app + length url + 120"
      by (simp_all add: connect_body_items connect_props_length)
    have l3: "2 \<le> length ?pay3" using len(2) by simp
    have d: "dbl 1 = 0x3FF0000000000000" by code_simp
    have w: "whole_number (dbl 1)" by (rule whole_number_of_int) simp_all
    obtain e1 where e1: "readUint24T (kAMFString # ?pay1 @ ?r1) 0 = Inr e1" "e1 \<noteq> 9"
      using tag_not_end [of kAMFString "?pay1 @ ?r1"] by (auto simp: amf_tags)
    obtain e3 where e3: "readUint24T (kAMFObject # ?pay3 @ []) 0 = Inr e3" "e3 \<noteq> 9"
      using tag_not_end [of kAMFObject "?pay3 @ []"] len(2) by (auto simp: amf_tags)
    have e2: "readUint24T (kAMFNumber # ?pay2 @ ?r2) 0 = Inr 0x3FF0"
      unfolding d writeNumber_def writeUint64BE_def writeUint32T_def
      by (simp add: readUint24T_def slice_def amf_tags)
    have v1: "amf_value kAMFString [] (?pay1 @ ?r1) (int (length ?b) - int (0 + 1))
        = Inr (StepVal (Some (AMFString [] ''connect'')) (length ?pay1))"
      using amf_value_string [of "''connect''" "int (length ?b) - int (0 + 1)" "[]" ?r1] len(1)
      by (simp add: fits16_def)
    have v2: "amf_value kAMFNumber [] (?pay2 @ ?r2) (int (length ?b) - int (10 + 1))
        = Inr (StepVal (Some (AMFNumber [] (dbl 1))) (length ?pay2))"
      using amf_value_number [OF w, of "int (length ?b) - int (10 + 1)" "[]" ?r2] len(1) by simp
    have v3: "amf_value kAMFObject [] (?pay3 @ []) (int (length ?b) - int (19 + 1))
        = Inr (StepVal (Some (AMFObject [] (map forget_null (connect_props app url)))) (length ?pay3))"
      by (rule amf_value_object [OF connect_props_ok [OF assms]]) (simp add: len(1))
    have fin: "amf_decode [] (int (length ?b)) False (length ?b) ps = Inr (Some (ps, length ?b))" for ps
      by (simp add: amf_decode.simps)
    have fn: "map forget_null (connect_props app url) = connect_props app url"
      by (simp add: connect_props_def)
    have k: "0 + 1 + length ?pay1 = 10" "10 + 1 + length ?pay2 = 19" "19 + 1 + length ?pay3 = length ?b"
      by (simp_all add: len(1))
    have "amf_decode (kAMFString # ?pay1 @ ?r1) (int (length ?b)) False 0 []
        = amf_decode ?r1 (int (length ?b)) False 10 [AMFString [] ''connect'']"
      using amf_decode_item [OF v1 e1, of "[]", unfolded k] len(1) by simp
    also have "\<dots> = amf_decode ?r2 (int (length ?b)) False 19 [AMFString [] ''connect'', AMFNumber [] (dbl 1)]"
      using amf_decode_item [OF v2 e2, of "[AMFString [] ''connect'']", unfolded k] len(1) by simp
    also have "\<dots> = amf_decode [] (int (length ?b)) False (length ?b)
        [AMFString [] ''connect'', AMFNumber [] (dbl 1), AMFObject [] (connect_props app url)]"
      using amf_decode_item [OF v3 e3, of "[AMFString [] ''connect'', AMFNumber [] (dbl 1)]", unfolded k]
        len(1) fn l3 by simp
    finally show ?thesis unfolding object_decode_def fin by (simp add: connect_body_items)
qed

lemma send_one:
  assumes "sendable p h 0" "\<not> sending (cx_out c)" "out_waiting_queue (cx_out c) = [p]"
    and "out_used (cx_out c) = 0" "sending_buffers (cx_out c) = []"
    and "out_message_headers (cx_out c) (cs_id h) = None" "unat (msg_len h) \<le> 4096"
  shows "\<exists>s1. send c = Inr (emit (SendNodes (sending_buffers s1)) (c\<lparr>cx_out := s1\<rparr>))
    \<and> concat (sending_buffers s1) = message_bytes 0 0 h (payload p h)
    \<and> out_waiting_queue s1 = [] \<and> sending s1
    \<and> out_message_headers s1 = (out_message_headers (cx_out c))(cs_id h \<mapsto> h\<lparr>timestamp := 0\<rparr>)"
proof -
  obtain s1 where "build_waiting RTMP_SINGLE_MAX ((cx_out c)\<lparr>sending := True\<rparr>) = Inr s1"
      "concat (sending_buffers s1) = message_bytes 0 0 h (payload p h)"
      "out_waiting_queue s1 = []" "sending s1"
      "out_message_headers s1 = (out_message_headers (cx_out c))(cs_id h \<mapsto> h\<lparr>timestamp := 0\<rparr>)"
    using build_one [OF assms(1), of "(cx_out c)\<lparr>sending := True\<rparr>"] assms(3-7) by auto
  then show ?thesis using assms(2) by (auto simp: send_def)
qed

text \<open>What a connection that has just started sends, with its answer to being written.\<close>

definition idle :: "ctx \<Rightarrow> bool" where
  "idle c \<longleftrightarrow> \<not> sending (cx_out c) \<and> out_waiting_queue (cx_out c) = [] \<and> out_used (cx_out c) = 0
     \<and> sending_buffers (cx_out c) = []"

lemma push_idle:
  assumes "sendable p h 0" "idle c" "out_message_headers (cx_out c) (cs_id h) = None"
    and "unat (msg_len h) \<le> 4096"
  shows "\<exists>s1. pushOutQueue p c = Inr (emit (SendNodes (sending_buffers s1)) (c\<lparr>cx_out := s1\<rparr>))
    \<and> concat (sending_buffers s1) = message_bytes 0 0 h (payload p h)
    \<and> out_waiting_queue s1 = [] \<and> sending s1
    \<and> out_message_headers s1 = (out_message_headers (cx_out c))(cs_id h \<mapsto> h\<lparr>timestamp := 0\<rparr>)"
proof -
  let ?c = "c\<lparr>cx_out := (cx_out c)\<lparr>out_waiting_queue := out_waiting_queue (cx_out c) @ [p]\<rparr>\<rparr>"
  obtain s1 where "send ?c = Inr (emit (SendNodes (sending_buffers s1)) (?c\<lparr>cx_out := s1\<rparr>))"
      "concat (sending_buffers s1) = message_bytes 0 0 h (payload p h)"
      "out_waiting_queue s1 = []" "sending s1"
      "out_message_headers s1 = (out_message_headers (cx_out c))(cs_id h \<mapsto> h\<lparr>timestamp := 0\<rparr>)"
    using send_one [OF assms(1), of ?c] assms(2-4) by (auto simp: idle_def)
  then show ?thesis by (auto simp: pushOutQueue_def emit_def)
qed

lemma written_one:
  assumes "sendable p h 0" "out_waiting_queue (cx_out c) = [p]"
    and "out_message_headers (cx_out c) (cs_id h) = None" "unat (msg_len h) \<le> 4096"
  shows "\<exists>s1. checkAndSend c = Inr (emit (SendNodes (sending_buffers s1)) (c\<lparr>cx_out := s1\<rparr>))
    \<and> concat (sending_buffers s1) = message_bytes 0 0 h (payload p h)"
proof -
  let ?c = "c\<lparr>cx_out := (cx_out c)\<lparr>sending := False, out_used := 0, sending_buffers := [],
              out_sending_packets := []\<rparr>\<rparr>"
  obtain s1 where "send ?c = Inr (emit (SendNodes (sending_buffers s1)) (?c\<lparr>cx_out := s1\<rparr>))"
      "concat (sending_buffers s1) = message_bytes 0 0 h (payload p h)"
    using send_one [OF assms(1), of ?c] assms(2-4) by auto
  then show ?thesis using assms(2) by (auto simp: checkAndSend_def emit_def)
qed

lemma connect_body_length: "length (connect_body app url) = length app + length url + 140"
  by (simp add: connect_body_items connect_props_length)

definition chunk_size_body :: bytes where
  "chunk_size_body = writeUint32T (word_of_int out_chunk_size)"

lemma chunk_size_body_reads: "readUint32T (chunk_size_body @ r) 0 = Inr 4096" "length chunk_size_body = 4"
  by (simp_all add: chunk_size_body_def out_chunk_size_def c32.put_length)

lemma client_connects:
  assumes "cx_out c = newOutState" "cx_effects c = []" "length (cx_app c) + length (tc_url c) \<le> 800"
  shows "\<exists>c1 c2. sendConnect c = Inr c1 \<and> checkAndSend c1 = Inr c2 \<and>
    sent_bytes (cx_effects c2) = message_bytes 0 0 (command_header 2 1 0 4) chunk_size_body
      @ message_bytes 0 0 (command_header 3 20 0 (length (connect_body (cx_app c) (tc_url c))))
          (connect_body (cx_app c) (tc_url c))"
proof -
  let ?b = "connect_body (cx_app c) (tc_url c)"
  let ?h1 = "command_header 2 1 0 (length chunk_size_body)" and ?h2 = "command_header 3 20 0 (length ?b)"
  have len: "length ?b \<le> 940" "1 \<le> length ?b" using assms(3) by (simp_all add: connect_body_length)
  obtain p1 where p1: "make_message 64 2 0 1 chunk_size_body = Inr p1" "sendable p1 ?h1 0"
      "payload p1 ?h1 = chunk_size_body"
    using make_message_ok [of chunk_size_body 64 2 0 1] by (auto simp: chunk_size_body_reads)
  obtain p2 where p2: "make_message 1024 3 0 20 ?b = Inr p2" "sendable p2 ?h2 0" "payload p2 ?h2 = ?b"
    using make_message_ok [of ?b 1024 3 0 20] len by auto
  have hl: "unat (msg_len ?h1) \<le> 4096" "unat (msg_len ?h2) \<le> 4096"
    using len by (simp_all add: command_header_def chunk_size_body_reads unat_of_nat)
  have h: "cs_id ?h1 = 2" "cs_id ?h2 = 3" by (simp_all add: command_header_def)
  have "idle c" "out_message_headers (cx_out c) (cs_id ?h1) = None"
    by (simp_all add: assms(1) idle_def newOutState_def)
  then obtain s1 where s1: "pushOutQueue p1 c = Inr (emit (SendNodes (sending_buffers s1)) (c\<lparr>cx_out := s1\<rparr>))"
      "concat (sending_buffers s1) = message_bytes 0 0 ?h1 (payload p1 ?h1)"
      "out_waiting_queue s1 = []" "sending s1"
      "out_message_headers s1 = (out_message_headers (cx_out c))(cs_id ?h1 \<mapsto> ?h1\<lparr>timestamp := 0\<rparr>)"
    using push_idle [OF p1(2) _ _ hl(1)] by blast
  let ?c1 = "emit (SendNodes (sending_buffers s1)) (c\<lparr>cx_out := s1\<rparr>)"
  let ?c2 = "?c1\<lparr>cx_out := s1\<lparr>out_waiting_queue := [p2]\<rparr>\<rparr>"
  have e: "cx_out ?c1 = s1" "cx_app ?c1 = cx_app c" "tc_url ?c1 = tc_url c" by (simp_all add: emit_def)
  have "sendSetChunkSize c = Inr ?c1"
    using p1(1) s1(1) by (simp add: sendSetChunkSize_def rtmp_csids rtmp_msg_types chunk_size_body_def)
  then have "sendConnect c = Inr ?c2"
    using p2(1) push_sending [of ?c1 p2] s1(3,4)
    by (simp add: sendConnect_def e rtmp_csids rtmp_msg_types DEFAULT_PACKET_SIZE_def)
  moreover have "out_message_headers (cx_out ?c2) (cs_id ?h2) = None"
    by (simp add: s1(5) h assms(1) newOutState_def)
  then obtain s2 where "checkAndSend ?c2 = Inr (emit (SendNodes (sending_buffers s2)) (?c2\<lparr>cx_out := s2\<rparr>))"
      "concat (sending_buffers s2) = message_bytes 0 0 ?h2 (payload p2 ?h2)"
    using written_one [OF p2(2), of ?c2] hl(2) by auto
  ultimately show ?thesis
    using s1(2) p1(3) p2(3) assms(2) by (auto simp: emit_def chunk_size_body_reads)
qed

lemma is_message_sel:
  assumes "is_message q h d"
  shows "psize q = length d" "pblock q = d" "ptype q = uint (msg_type h)"
  using assms by (auto simp: is_message_def message_ok_def pdata_def packet_ok_def)

text \<open>A server takes the two messages.\<close>

lemma server_chunk_size:
  assumes "is_message q h chunk_size_body" "msg_type h = 1"
  shows "messageComplete q c = Inr (c\<lparr>cx_in := (cx_in c)\<lparr>in_chunk_size := 4096\<rparr>\<rparr>)"
  using is_message_sel [OF assms(1)] chunk_size_body_reads(1) [of "[]"] assms(2)
  by (simp add: messageComplete_def rtmp_msg_types handleChunkSize_def chunk_size_body_reads)

lemma connect_app_server:
  "connect_app [AMFString [] ''connect'', AMFNumber [] v, AMFObject [] (connect_props app url)] c
   = Inr (False, c\<lparr>tc_url := url, cx_app := app\<rparr>)"
  by (simp add: connect_app_def connect_props_def property_at_def)

lemma server_replies:
  assumes "idle c" "out_message_headers (cx_out c) = (\<lambda>_. None)"
  shows "\<exists>c'. bindr (sendAckWindowSize c) (\<lambda>c2. bindr (sendSetPeerBandwidth c2) (\<lambda>c3.
      bindr (sendSetChunkSize c3) (\<lambda>c4. bindr (make_message DEFAULT_PACKET_SIZE kRtmpCSIDAMFIni 0
        kRtmpMsgTypeAMFMessage (result_body False)) (\<lambda>p. pushOutQueue p c4)))) = Inr c'
    \<and> outputs_only c c'
    \<and> map (\<lambda>p. map_option msg_type (phdr p)) (out_waiting_queue (cx_out c'))
      = [Some kRtmpMsgTypeSetPeerBW, Some kRtmpMsgTypeChunkSize, Some kRtmpMsgTypeAMFMessage]"
proof -
  let ?w = "word_of_int (ack_size c) :: u32"
  have l: "length (writeUint32T v) = 4" for v by (simp add: c32.put_length)
  have rl: "length (result_body False) \<le> 1024" "1 \<le> length (result_body False)"
    by (simp_all add: result_body_def encodeString_def encodeNumber_def encodeNamedString_def
        encodeNamedNumber_def writeUint16T_def)
  obtain p1 where p1: "make_message 64 2 0 5 (writeUint32T ?w) = Inr p1" "sendable p1 (command_header 2 5 0 4) 0"
    using make_message_ok [of "writeUint32T ?w" 64 2 0 5] by (auto simp: l)
  obtain p2 where p2: "make_message 64 2 0 6 (writeUint32T ?w @ [2]) = Inr p2" "sendable p2 (command_header 2 6 0 5) 0"
    using make_message_ok [of "writeUint32T ?w @ [2]" 64 2 0 6] by (auto simp: l)
  obtain p3 where p3: "make_message 64 2 0 1 chunk_size_body = Inr p3" "sendable p3 (command_header 2 1 0 4) 0"
    using make_message_ok [of chunk_size_body 64 2 0 1] by (auto simp: chunk_size_body_reads)
  obtain p4 where p4: "make_message 1024 3 0 20 (result_body False) = Inr p4"
      "sendable p4 (command_header 3 20 0 (length (result_body False))) 0"
    using make_message_ok [of "result_body False" 1024 3 0 20] rl by auto
  have "out_message_headers (cx_out c) (cs_id (command_header 2 5 0 4)) = None"
      "unat (msg_len (command_header 2 5 0 4)) \<le> 4096"
    using assms(2) by (simp_all add: command_header_def)
  then obtain s1 where s1: "pushOutQueue p1 c = Inr (emit (SendNodes (sending_buffers s1)) (c\<lparr>cx_out := s1\<rparr>))"
      "out_waiting_queue s1 = []" "sending s1"
    using push_idle [OF p1(2) assms(1)] by blast
  let ?c1 = "emit (SendNodes (sending_buffers s1)) (c\<lparr>cx_out := s1\<rparr>)"
  have e: "cx_out ?c1 = s1" "ack_size ?c1 = ack_size c" by (simp_all add: emit_def)
  have hd: "phdr p2 = Some (command_header 2 6 0 5)" "phdr p3 = Some (command_header 2 1 0 4)"
      "phdr p4 = Some (command_header 3 20 0 (length (result_body False)))"
    using p2(2) p3(2) p4(2) by (simp_all add: sendable_def)
  show ?thesis
    by (simp add: sendAckWindowSize_def sendSetPeerBandwidth_def sendSetChunkSize_def rtmp_csids
        rtmp_msg_types DEFAULT_PACKET_SIZE_def p1(1) s1 p2(1) p3(1) [unfolded chunk_size_body_def]
        p4(1) push_sending e hd command_header_def outputs_only_def)
      (simp add: emit_def)
qed

lemma server_connect:
  assumes "is_message q h (connect_body app url)" "msg_type h = 20"
    and "length app + length url \<le> 800" "idle c" "out_message_headers (cx_out c) = (\<lambda>_. None)"
  shows "\<exists>c'. messageComplete q c = Inr c' \<and> outputs_only (c\<lparr>tc_url := url, cx_app := app\<rparr>) c'
    \<and> map (\<lambda>p. map_option msg_type (phdr p)) (out_waiting_queue (cx_out c'))
      = [Some kRtmpMsgTypeSetPeerBW, Some kRtmpMsgTypeChunkSize, Some kRtmpMsgTypeAMFMessage]"
proof -
  let ?b = "connect_body app url"
  have f: "fits16 app" "fits16 url" using assms(3) by (simp_all add: fits16_def)
  have "int (length ?b) < 2 ^ 31" using assms(3) by (simp add: connect_body_length)
  then have i: "i32 (int (length ?b)) = int (length ?b)" by (intro i32_id) simp_all
  have dec: "handleAmfCommand q False c = handleConnect
      [AMFString [] ''connect'', AMFNumber [] (dbl 1), AMFObject [] (connect_props app url)] c"
    using connect_body_decodes [OF f]
    by (simp add: handleAmfCommand_def is_message_sel [OF assms(1)] i prop_str_def property_at_def
        run_command_def)
  have "idle (c\<lparr>tc_url := url, cx_app := app\<rparr>)" using assms(4) by (simp add: idle_def)
  from server_replies [OF this] assms(5) show ?thesis
    by (simp add: messageComplete_def is_message_sel [OF assms(1)] assms(2) rtmp_msg_types dec
        handleConnect_def connect_app_server)
qed

text \<open>The two messages on the wire, and what a fresh server makes of the first.\<close>

abbreviation chunk_size_header :: rtmp_header where
  "chunk_size_header \<equiv> command_header 2 1 0 4"

abbreviation connect_header :: "string \<Rightarrow> string \<Rightarrow> rtmp_header" where
  "connect_header app url \<equiv> command_header 3 20 0 (length (connect_body app url))"

lemma connect_headers:
  assumes "length app + length url \<le> 800"
  shows "cs_id chunk_size_header = 2" "unat (msg_len chunk_size_header) = 4" "msg_type chunk_size_header = 1"
    "chunk_size_header\<lparr>timestamp := 0\<rparr> = chunk_size_header" "msg_len chunk_size_header \<noteq> 0"
    "cs_id (connect_header app url) = 3" "unat (msg_len (connect_header app url)) = length (connect_body app url)"
    "msg_type (connect_header app url) = 20" "(connect_header app url)\<lparr>timestamp := 0\<rparr> = connect_header app url"
    "msg_len (connect_header app url) \<noteq> 0"
    "length (message_bytes 0 0 chunk_size_header chunk_size_body @ message_bytes 0 0 (connect_header app url) (connect_body app url)) < 2 ^ 31"
proof -
  have len: "140 \<le> length (connect_body app url)" "length (connect_body app url) \<le> 940"
    using assms by (simp_all add: connect_body_length)
  show h1: "cs_id chunk_size_header = 2" "unat (msg_len chunk_size_header) = 4" "msg_type chunk_size_header = 1"
      "chunk_size_header\<lparr>timestamp := 0\<rparr> = chunk_size_header"
    by (simp_all add: command_header_def)
  show h2: "cs_id (connect_header app url) = 3" "unat (msg_len (connect_header app url)) = length (connect_body app url)"
      "msg_type (connect_header app url) = 20" "(connect_header app url)\<lparr>timestamp := 0\<rparr> = connect_header app url"
    using len by (simp_all add: command_header_def unat_of_nat)
  show "msg_len chunk_size_header \<noteq> 0" "msg_len (connect_header app url) \<noteq> 0"
    using h1(2) h2(2) len(1) by fastforce+
  have "length (message_bytes 0 0 h d) \<le> 14 + 3 * (length d div 4096) + length d" for h d
    by (rule message_bytes_length) simp
  from this [of chunk_size_header chunk_size_body] this [of "connect_header app url" "connect_body app url"]
  show "length (message_bytes 0 0 chunk_size_header chunk_size_body @
      message_bytes 0 0 (connect_header app url) (connect_body app url)) < 2 ^ 31"
    using len(2) by (simp add: chunk_size_body_reads)
qed

definition told_chunk_size :: "bool \<Rightarrow> ctx" where
  "told_chunk_size handler = set_cx_in ((received newInState 2 chunk_size_header 0)\<lparr>in_chunk_size := 4096\<rparr>) (newContext handler False)"

lemma server_reads_chunk_size:
  assumes "length (message_bytes 0 0 chunk_size_header chunk_size_body @ r) < 2 ^ 31"
  shows "ctx_loop (newContext handler False) (message_bytes 0 0 chunk_size_header chunk_size_body @ r) =
    rtmp.after (told_chunk_size handler) r (length (message_bytes 0 0 chunk_size_header chunk_size_body))"
proof -
  let ?s0 = "newContext handler False" and ?h = chunk_size_header and ?i = "received newInState 2 chunk_size_header 0"
  note h = connect_headers(1-5) [of "[]" "[]", simplified]
  have in0: "cx_in ?s0 = newInState" by (simp add: newContext_def)
  obtain q where q: "is_message q ?h chunk_size_body"
      "ctx_loop ?s0 (message_bytes 0 0 ?h chunk_size_body @ r) = bindr (messageComplete q (set_cx_in ?i ?s0))
         (\<lambda>c1. rtmp.after c1 r (length (message_bytes 0 0 ?h chunk_size_body)))"
    using rtmp.loop_message [of ?s0 ?h emptyHeader 0 0 0 chunk_size_body r] h(5) assms
    by (auto simp: in0 h fmt_fits_def newInState_def prev_of_def chunk_size_body_reads
        chunk_size_agrees_def out_delta_def newInState_ok [unfolded newInState_def])
  then show ?thesis
    using server_chunk_size [OF q(1) h(3)] by (simp add: set_cx_in_def told_chunk_size_def)
qed

lemma server_reads_connect:
  fixes app url handler
  defines "b \<equiv> connect_body app url"
  assumes "length app + length url \<le> 800"
  shows "\<exists>s. ctx_loop (told_chunk_size handler) (message_bytes 0 0 (connect_header app url) b)
      = Inr (s, length (message_bytes 0 0 (connect_header app url) b)) \<and>
    cx_app s = app \<and> tc_url s = url \<and> in_chunk_size (cx_in s) = 4096 \<and>
    map (\<lambda>p. map_option msg_type (phdr p)) (out_waiting_queue (cx_out s))
      = [Some kRtmpMsgTypeSetPeerBW, Some kRtmpMsgTypeChunkSize, Some kRtmpMsgTypeAMFMessage]"
proof -
  let ?s1 = "told_chunk_size handler" and ?h = "command_header 3 20 0 (length b)"
  note h = connect_headers(6-11) [OF assms(2), folded b_def]
  have st: "in_packets (cx_in ?s1) 3 = None" "in_ext (cx_in ?s1) 3 = False" "prev_of (cx_in ?s1) 3 = emptyHeader"
      "chunk_size_agrees (cx_in ?s1) (length b)" "in_deltas (cx_in ?s1) 3 = 0" "in_ok (cx_in ?s1)"
    using received_ok [OF newInState_ok, of 2 chunk_size_header 0]
    by (simp_all add: told_chunk_size_def set_cx_in_def received_def newInState_def prev_of_def chunk_size_agrees_def in_ok_def)
  let ?s2 = "set_cx_in (received (cx_in ?s1) 3 ?h 0) ?s1"
  have len: "length (message_bytes 0 0 ?h b @ []) < 2 ^ 31" using h(6) by simp
  have small: "length b < 2 ^ 24" using assms(2) by (simp add: b_def connect_body_length)
  have "\<exists>q. is_message q (?h\<lparr>timestamp := 0\<rparr>) b \<and> ctx_loop ?s1 (message_bytes 0 0 ?h b @ [])
      = bindr (messageComplete q (set_cx_in (received (cx_in ?s1) (cs_id ?h) (?h\<lparr>timestamp := 0\<rparr>)
           (out_delta 0 0 (in_deltas (cx_in ?s1) (cs_id ?h)))) ?s1))
         (\<lambda>c1. rtmp.after c1 [] (length (message_bytes 0 0 ?h b)))"
    by (rule rtmp.loop_message [where pv = emptyHeader and ts = 0])
      (use st h(5) len small in \<open>simp_all add: h(1-4) fmt_fits_def\<close>)
  then obtain q where q: "is_message q ?h b" "ctx_loop ?s1 (message_bytes 0 0 ?h b) = bindr (messageComplete q ?s2)
         (\<lambda>c1. rtmp.after c1 [] (length (message_bytes 0 0 ?h b)))"
    by (auto simp: h(1-4) out_delta_def)
  have i: "idle ?s2" "out_message_headers (cx_out ?s2) = (\<lambda>_. None)"
    by (simp_all add: idle_def set_cx_in_def told_chunk_size_def newContext_def newOutState_def)
  obtain s where s: "messageComplete q ?s2 = Inr s" "outputs_only (?s2\<lparr>tc_url := url, cx_app := app\<rparr>) s"
      "map (\<lambda>p. map_option msg_type (phdr p)) (out_waiting_queue (cx_out s))
       = [Some kRtmpMsgTypeSetPeerBW, Some kRtmpMsgTypeChunkSize, Some kRtmpMsgTypeAMFMessage]"
    using server_connect [OF q(1) [unfolded b_def] h(3) [unfolded b_def] assms(2) i] by (elim exE conjE) (rule that)
  have "ctx_loop ?s1 (message_bytes 0 0 ?h b) = Inr (s, length (message_bytes 0 0 ?h b))"
    unfolding q(2) s(1) by (simp add: rtmp.loop_short)
  then show ?thesis
    using outputs_only_sel(1,8,9) [OF s(2)] s(3) by (intro exI [of _ s]) (simp add: set_cx_in_def told_chunk_size_def b_def)
qed

text \<open>
  C3: a client connects to a server. A client whose handshake is done sends its chunk size and,
  when that is written, the connect command; the server's parser, fresh from the handshake, takes
  all of these bytes, uses the client's chunk size from then on, knows the application and the
  URL exactly as the client had them, and has its window size on the way and the peer bandwidth,
  the chunk size and the result in its queue, in this order. Any application name and URL that
  fit the 1024-byte packet will do.
\<close>

theorem connect_reaches_server:
  assumes "cx_out c = newOutState" "cx_effects c = []" "length (cx_app c) + length (tc_url c) \<le> 800"
  shows "\<exists>c1 c2 s. sendConnect c = Inr c1 \<and> checkAndSend c1 = Inr c2 \<and>
    ctx_loop (newContext handler False) (sent_bytes (cx_effects c2))
      = Inr (s, length (sent_bytes (cx_effects c2))) \<and>
    cx_app s = cx_app c \<and> tc_url s = tc_url c \<and> in_chunk_size (cx_in s) = 4096 \<and>
    map (\<lambda>p. map_option msg_type (phdr p)) (out_waiting_queue (cx_out s))
      = [Some kRtmpMsgTypeSetPeerBW, Some kRtmpMsgTypeChunkSize, Some kRtmpMsgTypeAMFMessage]"
proof -
  obtain c1 c2 where c: "sendConnect c = Inr c1" "checkAndSend c1 = Inr c2"
      "sent_bytes (cx_effects c2) = message_bytes 0 0 chunk_size_header chunk_size_body
        @ message_bytes 0 0 (connect_header (cx_app c) (tc_url c)) (connect_body (cx_app c) (tc_url c))"
    using client_connects [OF assms] by blast
  show ?thesis
    using server_reads_connect [OF assms(3), of handler] server_reads_chunk_size [OF connect_headers(11) [OF assms(3)], of handler] c
    by auto
qed

theorem connect_reaches_server_witness:
  "\<exists>c1 c2 s. sendConnect ((newContext True True)\<lparr>cx_app := ''live'', tc_url := ''rtmp://h/live''\<rparr>) = Inr c1
    \<and> checkAndSend c1 = Inr c2
    \<and> ctx_loop (newContext True False) (sent_bytes (cx_effects c2))
      = Inr (s, length (sent_bytes (cx_effects c2)))
    \<and> cx_app s = ''live'' \<and> tc_url s = ''rtmp://h/live''"
  using connect_reaches_server [of "(newContext True True)\<lparr>cx_app := ''live'', tc_url := ''rtmp://h/live''\<rparr>" True]
  by (auto simp: newContext_def)

end
