(* ===== verification/RtmpLink.thy ===== *)
theory RtmpLink
  imports TcpConn RtmpContext
begin

text \<open>
  How an RTMP context and the TCP connection it sits on work together, for servers and clients: what
  the context sends is passed to the connection, in order; a forced close closes it; the calls of
  the \<open>RtmpHandler\<close> are made in between, with whatever the handler does to connections in them.

  All callbacks run in the thread of the loop, where a send or a close is done at once. The
  environment of the handshake is a parameter, but for whether a send completes at once: that is
  read off the connection.
\<close>

section \<open>Sends of the handshake\<close>

text \<open>
  The handshake's packets are sent whole when nothing waits and the kernel takes all of them. The
  write-complete callback of such a send is the part of \<open>RtmpContext\<close> that \<open>at_once\<close> describes, so
  the send itself is made without it.
\<close>

fun hs_sizes :: "hs_state \<Rightarrow> nat list" where
  "hs_sizes kHandShakeInit = [kRtmpHandShakePacketSize + 1]"
| "hs_sizes kHandShakeWaitC0C1 = [kRtmpHandShakePacketSize + 1, kRtmpHandShakePacketSize]"
| "hs_sizes kHandShakePostS0S1 = [kRtmpHandShakePacketSize]"
| "hs_sizes kHandShakeWaitS0S1 = [kRtmpHandShakePacketSize]"
| "hs_sizes _ = []"

fun takes :: "nat \<times> tx \<Rightarrow> bool" where
  "takes (n, Took m) = (n \<le> m)"
| "takes (n, TxFail) = False"

definition sends_whole :: "nat list \<Rightarrow> tcp_conn \<Rightarrow> nat \<Rightarrow> bool" where
  "sends_whole sizes t k \<longleftrightarrow> \<not> tc_closed t \<and> tc_iov t = [] \<and> k < length (zip sizes (so_tx t)) \<and>
     list_all takes (take (Suc k) (zip sizes (so_tx t)))"

definition conn_env :: "hs_env \<Rightarrow> handshake \<Rightarrow> tcp_conn \<Rightarrow> hs_env" where
  "conn_env e h t = e\<lparr>at_once := \<lambda>i. sends_whole (hs_sizes (hs_state h)) t (i - length (hs_out h))\<rparr>"

definition silent :: "(nat \<Rightarrow> 'a callbacks) \<Rightarrow> nat \<Rightarrow> 'a callbacks" where
  "silent K c = (K c)\<lparr>cb_complete := None\<rparr>"

fun raw_sends :: "(nat \<Rightarrow> 'a callbacks) \<Rightarrow> nat \<Rightarrow> bytes list \<Rightarrow> 'a step" where
  "raw_sends K c [] s = Inr s"
| "raw_sends K c (p # ps) s = bindr (sendInLoop_buf (silent K) p c s) (raw_sends K c ps)"

section \<open>Effects\<close>

datatype handler_call =
    CallNew nat
  | CallDestroy nat
  | CallActive nat
  | Call nat effect

fun run_effect :: "(nat \<Rightarrow> 'a step) \<Rightarrow> (handler_call \<Rightarrow> 'a step) \<Rightarrow> nat \<Rightarrow> effect \<Rightarrow> 'a step" where
  "run_effect close call c (SendNodes bs) s = Inr (sendInLoop bs c s)"
| "run_effect close call c ForceClose s = close c s"
| "run_effect close call c e s = call (Call c e) s"

fun run_effects :: "(nat \<Rightarrow> 'a step) \<Rightarrow> (handler_call \<Rightarrow> 'a step) \<Rightarrow> nat \<Rightarrow> effect list \<Rightarrow> 'a step" where
  "run_effects close call c [] s = Inr s"
| "run_effects close call c (e # es) s = bindr (run_effect close call c e s) (run_effects close call c es)"

text \<open>The context \<open>x\<close> has become \<open>y\<close>: its new packets and effects reach the connection.\<close>

definition perform ::
  "(nat \<Rightarrow> 'a callbacks) \<Rightarrow> (nat \<Rightarrow> 'a step) \<Rightarrow> (handler_call \<Rightarrow> 'a step) \<Rightarrow> nat \<Rightarrow> ctx \<Rightarrow> ctx \<Rightarrow> 'a step" where
  "perform K close call c x y s =
     bindr (raw_sends K c (drop (length (hs_out (cx_hs x))) (hs_out (cx_hs y))) s)
       (run_effects close call c (drop (length (cx_effects x)) (cx_effects y)))"

context tcp_user begin

lemma raw_sends_keeps: "raw_sends K c ps s = Inr s' \<Longrightarrow> inv s \<Longrightarrow> inv s'"
proof (induction ps arbitrary: s)
  case (Cons p ps)
  have quiet: "tcp_user inv close (silent K)"
  proof
    show "inv s \<Longrightarrow> call_cb (cb_message (silent K c)) c s = Inr s' \<Longrightarrow> inv s'" for s c s'
      by (rule message_keeps [of s c s']) (simp_all add: silent_def)
    show "inv s \<Longrightarrow> call_cb (cb_active (silent K c)) c s = Inr s' \<Longrightarrow> inv s'" for s c s'
      by (rule active_keeps [of s c s']) (simp_all add: silent_def)
    show "inv s \<Longrightarrow> call_cb (cb_complete (silent K c)) c s = Inr s' \<Longrightarrow> inv s'" for s c s'
      by (simp add: silent_def call_cb_def)
  qed (fact inv_net, fact inv_data, fact close_keeps)
  obtain s1 where s1: "sendInLoop_buf (silent K) p c s = Inr s1" "raw_sends K c ps s1 = Inr s'"
    using Cons.prems(1) by (auto simp: bindr_eq_Inr)
  then show ?case using Cons.IH tcp_user.sendInLoop_buf_keeps [OF quiet s1(1) Cons.prems(2)] by blast
qed simp

lemma run_effects_keeps:
  assumes "\<And>e s s'. call e s = Inr s' \<Longrightarrow> inv s \<Longrightarrow> inv s'" "run_effects close call c es s = Inr s'" "inv s"
  shows "inv s'"
  using assms(2,3)
proof (induction es arbitrary: s)
  case (Cons e es)
  then obtain s1 where s1: "run_effect close call c e s = Inr s1" "run_effects close call c es s1 = Inr s'"
    by (auto simp: bindr_eq_Inr)
  have called: "inv s1" if "call (Call c e) s = Inr s1" using assms(1) [OF that Cons.prems(2)] .
  have "inv s1"
    using s1(1) Cons.prems(2) sendInLoop_keeps close_keeps called by (cases e) auto
  then show ?case using Cons.IH s1(2) by blast
qed simp

lemma perform_keeps:
  assumes "\<And>e s s'. call e s = Inr s' \<Longrightarrow> inv s \<Longrightarrow> inv s'" "perform K close call c x y s = Inr s'" "inv s"
  shows "inv s'"
proof -
  obtain s1 where "raw_sends K c (drop (length (hs_out (cx_hs x))) (hs_out (cx_hs y))) s = Inr s1"
      "run_effects close call c (drop (length (cx_effects x)) (cx_effects y)) s1 = Inr s'"
    using assms(2) by (auto simp: perform_def bindr_eq_Inr)
  then show ?thesis
    using run_effects_keeps [where call = call] raw_sends_keeps assms(1,3) by metis
qed

end

section \<open>The buffer a context gives back\<close>

lemma handShake_buf: "handShake e h b = Inr (r, h', b') \<Longrightarrow> buf_ok b \<Longrightarrow> buf_ok b'"
  by (auto simp: handShake_def Let_def res_simps intro!: retrieve_ok split: hs_state.splits if_splits)

lemma parse_in_message_buf: "parse_in_message x b = Inr (r, y, b') \<Longrightarrow> buf_ok b \<Longrightarrow> buf_ok b'"
  by (auto simp: parse_in_message_def parseMessage_def Let_def res_simps intro!: retrieve_ok split: if_splits)

lemma parse_buf:
  assumes "parse e x b = Inr (r, y, b')" "buf_ok b"
  shows "buf_ok b'"
proof (cases "cx_state x")
  case kRtmpHandShake
  then obtain ret h b1 where 1: "handShake e (cx_hs x) b = Inr (ret, h, b1)"
    using assms(1) by (auto simp: parse_def res_simps)
  then have "b' = b1 \<or> (\<exists>z. parse_in_message z b1 = Inr (r, y, b'))"
    using assms(1) kRtmpHandShake by (auto simp: parse_def Let_def res_simps split: if_splits)
  then show ?thesis using handShake_buf [OF 1 assms(2)] parse_in_message_buf by blast
qed (use assms parse_in_message_buf in \<open>auto simp: parse_def\<close>)

section \<open>What reaches the socket\<close>

text \<open>
  A send on behalf of connection \<open>c\<close>: all bytes count as asked for when it is open; everything but the
  data of that connection, and epoll's mask for it, stays.
\<close>

definition asked :: "nat \<Rightarrow> bytes \<Rightarrow> 'a net \<Rightarrow> 'a net \<Rightarrow> bool" where
  "asked c xs s s' \<longleftrightarrow> nt_app s' = nt_app s \<and> (\<forall>d. d \<noteq> c \<longrightarrow> nt_conns s' d = nt_conns s d) \<and>
     tc_closed (nt_conns s' c) = tc_closed (nt_conns s c) \<and> tc_buf (nt_conns s' c) = tc_buf (nt_conns s c) \<and>
     so_asked (nt_conns s' c) = so_asked (nt_conns s c) @ (if tc_closed (nt_conns s c) then [] else xs)"

lemma enable_sel:
  "tc_closed (nt_conns (conn_enableWriting c en s) d) = tc_closed (nt_conns s d)"
  "so_asked (nt_conns (conn_enableWriting c en s) d) = so_asked (nt_conns s d)"
  "tc_buf (nt_conns (conn_enableWriting c en s) d) = tc_buf (nt_conns s d)"
  by (simp_all add: conn_enableWriting_eq Let_def)

lemma asked_nothing [simp]: "asked c [] s s"
  by (simp add: asked_def)

lemma asked_trans: "asked c xs s s1 \<Longrightarrow> asked c ys s1 s2 \<Longrightarrow> asked c (xs @ ys) s s2"
  by (auto simp: asked_def)

lemma sendInLoop_asked: "asked c (concat bs) s (sendInLoop bs c s)"
  by (simp add: asked_def sendInLoop_def enable_sel Let_def)

lemma sendInLoop_buf_asked: "sendInLoop_buf (silent K) xs c s = Inr s' \<Longrightarrow> asked c xs s s'"
  by (auto simp: asked_def sendInLoop_buf_def queue_rest_def enable_sel Let_def
      call_cb_def silent_def split: list.splits tx.splits if_splits)

lemma raw_sends_asked: "raw_sends K c ps s = Inr s' \<Longrightarrow> asked c (concat ps) s s'"
proof (induction ps arbitrary: s)
  case (Cons p ps)
  then obtain s1 where "asked c p s s1" "asked c (concat ps) s1 s'"
    by (auto simp: bindr_eq_Inr dest: sendInLoop_buf_asked)
  then show ?case using asked_trans by fastforce
qed simp

end
