(* ===== verification/RtmpServer.thy ===== *)
theory RtmpServer
  imports TcpServer RtmpLink
begin

text \<open>
  \<open>RtmpServer\<close> of \<open>src/mmedia/rtmp/rtmp_server.cpp\<close>: the callbacks that tie the RTMP contexts to the
  connections of a TCP server. A context reads and writes the buffer of its connection; what it
  sends goes through the connection, a forced close closes it.

  The handler is a parameter, and so is what it does, within a call, to the connections of the
  server: the live service closes a publisher that is replaced and a connection that sends media
  without being a user, and a packet that comes in wakes the players, which send on their own
  connections before the call returns (\<open>src/live/live_service.cpp\<close>, \<open>src/live/live_stream.cpp\<close>).
  What else the live service does is the theory \<open>LiveService\<close>. Players in the loops of other threads
  are woken by tasks of those loops and are not part of this state.
\<close>

section \<open>State\<close>

record rtmp_app =
  ra_contexts :: "nat \<Rightarrow> ctx option"
  ra_calls :: "handler_call list"

type_synonym rstep = "rtmp_app sstep"

definition newApp :: rtmp_app where
  "newApp = \<lparr>ra_contexts = Map.empty, ra_calls = []\<rparr>"

definition on_app :: "(rtmp_app \<Rightarrow> rtmp_app) \<Rightarrow> rtmp_app server net \<Rightarrow> rtmp_app server net" where
  "on_app f = on_server (\<lambda>v. v\<lparr>sv_app := f (sv_app v)\<rparr>)"

definition setContext :: "nat \<Rightarrow> ctx option \<Rightarrow> rtmp_app server net \<Rightarrow> rtmp_app server net" where
  "setContext c x = on_app (\<lambda>a. a\<lparr>ra_contexts := (ra_contexts a)(c := x)\<rparr>)"

definition getContext :: "nat \<Rightarrow> rtmp_app server net \<Rightarrow> ctx option" where
  "getContext c s = ra_contexts (sv_app (nt_app s)) c"

section \<open>The handler\<close>

text \<open>
  What a handler does to a connection in a call: it closes it, sends on it, sets its \<open>active_\<close> flag, or
  builds and sends chunks with its context, which becomes another one. A handler is a function from
  all calls it has had, the last one included, to what it does in this one; that covers every
  handler, as no two calls of a run have the same history. The history leaves out \<open>onConnectionDestroy\<close>,
  in which the live service does no more than close that connection once more, which is closed
  already, and the calls of \<open>onActive\<close> that come from a handler's own \<open>active()\<close>: what is sent in those
  is listed after the flag.
\<close>

datatype conn_act =
    SendOn nat "bytes list"
  | CloseOn nat
  | ActiveOn nat bool
  | PostOn nat ctx "bytes list"

type_synonym handler = "handler_call list \<Rightarrow> conn_act list"

fun answered_call :: "handler_call \<Rightarrow> bool" where
  "answered_call (CallDestroy c) = False"
| "answered_call k = True"

definition calls_made :: "rtmp_app server net \<Rightarrow> handler_call list" where
  "calls_made s = filter answered_call (ra_calls (sv_app (nt_app s)))"

definition note_call :: "handler option \<Rightarrow> handler_call \<Rightarrow> rtmp_app server net \<Rightarrow> rtmp_app server net" where
  "note_call H k s = (if H = None then s else on_app (\<lambda>a. a\<lparr>ra_calls := ra_calls a @ [k]\<rparr>) s)"

section \<open>Closing\<close>

definition onDestroyed :: "handler option \<Rightarrow> nat \<Rightarrow> rstep" where
  "onDestroyed H c s = Inr (setContext c None (note_call H (CallDestroy c) s))"

text \<open>A close needs only this callback of the server.\<close>

definition destroy_only :: "handler option \<Rightarrow> rtmp_app server_callbacks" where
  "destroy_only H = \<lparr>sc_message = None, sc_active = None, sc_complete = None, sc_new = None,
     sc_destroy = Some (onDestroyed H)\<rparr>"

definition rtmp_close :: "handler option \<Rightarrow> nat \<Rightarrow> rstep" where
  "rtmp_close H = server_close (destroy_only H)"

section \<open>Calling the handler\<close>

fun do_act :: "handler option \<Rightarrow> conn_act \<Rightarrow> rstep" where
  "do_act H (SendOn d bs) s = Inr (sendInLoop bs d s)"
| "do_act H (CloseOn d) s = rtmp_close H d s"
| "do_act H (ActiveOn d b) s = Inr (on_tcp d (\<lambda>t. t\<lparr>tc_active := b\<rparr>) s)"
| "do_act H (PostOn d y bs) s =
     (if getContext d s = None then Inr s else Inr (sendInLoop bs d (setContext d (Some y) s)))"

fun do_acts :: "handler option \<Rightarrow> conn_act list \<Rightarrow> rstep" where
  "do_acts H [] s = Inr s"
| "do_acts H (a # as) s = bindr (do_act H a s) (do_acts H as)"

definition answer :: "handler option \<Rightarrow> handler_call list \<Rightarrow> conn_act list" where
  "answer H ks = (case H of None \<Rightarrow> [] | Some p \<Rightarrow> p ks)"

definition call_handler :: "handler option \<Rightarrow> handler_call \<Rightarrow> rstep" where
  "call_handler H k s = (let s1 = note_call H k s in do_acts H (answer H (calls_made s1)) s1)"

text \<open>The context \<open>x\<close> has become \<open>y\<close>.\<close>

definition update_context :: "handler option \<Rightarrow> nat \<Rightarrow> ctx \<Rightarrow> ctx \<Rightarrow> rstep" where
  "update_context H c x y s =
     perform (conn_callbacks (destroy_only H)) (rtmp_close H) (call_handler H) c x y (setContext c (Some y) s)"

section \<open>The callbacks\<close>

definition onNewConnection :: "(nat \<Rightarrow> hs_env) \<Rightarrow> handler option \<Rightarrow> nat \<Rightarrow> rstep" where
  "onNewConnection E H c s =
     bindr (call_handler H (CallNew c) s) (\<lambda>s1.
       let x = newContext (H \<noteq> None) False;
           s2 = setContext c (Some x) s1
       in bindr (startHandShake (conn_env (E c) (cx_hs x) (nt_conns s2 c)) x) (\<lambda>y. update_context H c x y s2))"

definition onMessage :: "(nat \<Rightarrow> hs_env) \<Rightarrow> handler option \<Rightarrow> nat \<Rightarrow> rstep" where
  "onMessage E H c s =
     (case getContext c s of
        None \<Rightarrow> Inr s
      | Some x \<Rightarrow>
          bindr (parse (conn_env (E c) (cx_hs x) (nt_conns s c)) x (tc_buf (nt_conns s c))) (\<lambda>(ret, y, b).
          bindr (update_context H c x y (on_tcp c (\<lambda>t. t\<lparr>tc_buf := b\<rparr>) s)) (\<lambda>s1.
            if ret = -1 then rtmp_close H c s1 else Inr s1)))"

definition server_onWriteComplete :: "(nat \<Rightarrow> hs_env) \<Rightarrow> handler option \<Rightarrow> nat \<Rightarrow> rstep" where
  "server_onWriteComplete E H c s =
     (case getContext c s of
        None \<Rightarrow> Inr s
      | Some x \<Rightarrow>
          bindr (onWriteComplete (conn_env (E c) (cx_hs x) (nt_conns s c)) x) (\<lambda>y. update_context H c x y s))"

definition server_onActive :: "handler option \<Rightarrow> nat \<Rightarrow> rstep" where
  "server_onActive H c s = call_handler H (CallActive c) s"

text \<open>\<open>RtmpServer::start\<close> sets the callbacks.\<close>

definition rtmp_callbacks :: "(nat \<Rightarrow> hs_env) \<Rightarrow> handler option \<Rightarrow> rtmp_app server_callbacks" where
  "rtmp_callbacks E H = \<lparr>sc_message = Some (onMessage E H), sc_active = Some (server_onActive H),
     sc_complete = Some (server_onWriteComplete E H), sc_new = Some (onNewConnection E H),
     sc_destroy = Some (onDestroyed H)\<rparr>"

text \<open>A run of the RTMP server, which has no timers of its own.\<close>

definition rtmp_run :: "(nat \<Rightarrow> hs_env) \<Rightarrow> handler option \<Rightarrow> net_event list \<Rightarrow> rstep" where
  "rtmp_run E H = net_run (rtmp_callbacks E H) (\<lambda>_. Inr)"

section \<open>The callbacks keep the tables\<close>

lemma close_callbacks: "rtmp_close H = server_close (rtmp_callbacks E H)"
  by (intro ext) (simp add: rtmp_close_def server_close_def onClose_def conn_callbacks_def call_cb_def
      onConnectionClose_def destroy_only_def rtmp_callbacks_def)

lemma on_app_inv: "tables_ok D s \<Longrightarrow> tables_ok D (on_app f s)"
  unfolding on_app_def by (rule tables_ok_app) simp_all

lemma note_call_inv: "tables_ok D s \<Longrightarrow> tables_ok D (note_call H e s)"
  by (simp add: note_call_def on_app_inv)

lemma setContext_inv: "tables_ok D s \<Longrightarrow> tables_ok D (setContext c x s)"
  by (simp add: setContext_def on_app_inv)

interpretation destroyer: tcp_server "destroy_only H" "\<lambda>_. Inr" D for H D
  by unfold_locales
    (auto simp: server_hooks_def destroy_only_def onDestroyed_def intro: setContext_inv note_call_inv)

lemma rtmp_close_inv: "tables_ok D s \<Longrightarrow> rtmp_close H c s = Inr s' \<Longrightarrow> tables_ok D s'"
  unfolding rtmp_close_def by (rule destroyer.close_keeps)

lemma do_act_inv: "do_act H a s = Inr s' \<Longrightarrow> tables_ok D s \<Longrightarrow> tables_ok D s'"
  by (cases a) (auto split: if_splits intro: rtmp_close_inv setContext_inv destroyer.conns.sendInLoop_keeps
      destroyer.conns.on_tcp_keeps)

lemma do_acts_inv: "do_acts H as s = Inr s' \<Longrightarrow> tables_ok D s \<Longrightarrow> tables_ok D s'"
  by (induction as arbitrary: s) (auto simp: bindr_eq_Inr dest: do_act_inv)

lemma call_handler_inv: "call_handler H k s = Inr s' \<Longrightarrow> tables_ok D s \<Longrightarrow> tables_ok D s'"
  unfolding call_handler_def Let_def using do_acts_inv note_call_inv by blast

lemma update_context_inv:
  assumes "update_context H c x y s = Inr s'" "tables_ok D s"
  shows "tables_ok D s'"
  using assms(1) unfolding update_context_def rtmp_close_def
  by (rule destroyer.conns.perform_keeps [rotated]) (use setContext_inv assms(2) call_handler_inv in blast)+

lemma onMessage_inv:
  assumes "onMessage E H c s = Inr s'" "tables_ok D s"
  shows "tables_ok D s'"
proof (cases "getContext c s")
  case (Some x)
  then obtain ret y b s1 where 1:
      "parse (conn_env (E c) (cx_hs x) (nt_conns s c)) x (tc_buf (nt_conns s c)) = Inr (ret, y, b)"
      "update_context H c x y (on_tcp c (\<lambda>t. t\<lparr>tc_buf := b\<rparr>) s) = Inr s1"
      "(if ret = -1 then rtmp_close H c s1 else Inr s1) = Inr s'"
    using assms(1) unfolding onMessage_def by (auto simp: bindr_eq_Inr)
  have "buf_ok (tc_buf (nt_conns s c))"
    using tables_okD(1) [OF assms(2)] by (simp add: net_ok_def conn_ok_def)
  then have "data_step (\<lambda>t. t\<lparr>tc_buf := b\<rparr>) (nt_conns s c)"
    using parse_buf [OF 1(1)] by (simp add: data_step_def conn_ok_def)
  then have "tables_ok D (on_tcp c (\<lambda>t. t\<lparr>tc_buf := b\<rparr>) s)"
    using assms(2) by (intro destroyer.conns.on_tcp_keeps) simp_all
  then have "tables_ok D s1" using update_context_inv [OF 1(2)] by blast
  then show ?thesis using 1(3) rtmp_close_inv by (auto split: if_splits)
qed (use assms in \<open>simp add: onMessage_def\<close>)

lemma onWriteComplete_inv: "server_onWriteComplete E H c s = Inr s' \<Longrightarrow> tables_ok D s \<Longrightarrow> tables_ok D s'"
  unfolding server_onWriteComplete_def
  by (auto simp: bindr_eq_Inr split: option.splits dest: update_context_inv)

lemma onNewConnection_inv: "onNewConnection E H c s = Inr s' \<Longrightarrow> tables_ok D s \<Longrightarrow> tables_ok D s'"
  unfolding onNewConnection_def Let_def bindr_eq_Inr
  by (elim exE conjE) (erule update_context_inv, intro setContext_inv, erule call_handler_inv)

lemma onDestroyed_inv: "onDestroyed H c s = Inr s' \<Longrightarrow> tables_ok D s \<Longrightarrow> tables_ok D s'"
  unfolding onDestroyed_def using setContext_inv note_call_inv by (metis sum.inject(2))

lemma onActive_inv: "server_onActive H c s = Inr s' \<Longrightarrow> tables_ok D s \<Longrightarrow> tables_ok D s'"
  unfolding server_onActive_def by (rule call_handler_inv)

lemmas callbacks_inv = onMessage_inv onWriteComplete_inv onNewConnection_inv onDestroyed_inv onActive_inv

interpretation rtmp_server: tcp_server "rtmp_callbacks E H" "\<lambda>_. Inr" D for E H D
  by unfold_locales (auto simp: server_hooks_def rtmp_callbacks_def dest: callbacks_inv)

lemma rtmp_run_inv: "rtmp_run E H es (newNet newApp) = Inr s \<Longrightarrow> tables_ok {} s"
  unfolding rtmp_run_def by (erule rtmp_server.run_keeps) (rule new_net_inv)

section \<open>What reaches the socket\<close>

lemma app_sel [simp]:
  "nt_conns (on_app f s) = nt_conns s" "sv_next (nt_app (on_app f s)) = sv_next (nt_app s)"
  "sv_app (nt_app (on_app f s)) = f (sv_app (nt_app s))" "el_events (on_app f s) = el_events s"
  "el_epoll (on_app f s) = el_epoll s" "el_pipe (on_app f s) = el_pipe s"
  by (simp_all add: on_app_def)

lemma getContext_sel [simp]:
  "getContext d (setContext c x s) = (if d = c then x else getContext d s)"
  "getContext d (note_call H e s) = getContext d s"
  "nt_conns (setContext c x s) = nt_conns s" "nt_conns (note_call H e s) = nt_conns s"
  "calls_made (setContext c x s) = calls_made s"
  "calls_made (note_call H k s) = (if H = None \<or> \<not> answered_call k then calls_made s else calls_made s @ [k])"
  by (simp_all add: getContext_def setContext_def note_call_def calls_made_def)

text \<open>
  What is seen of a connection from outside: whether it is closed, its context, and the bytes its peer
  was or will be sent; and what an action makes of it. What a closed connection is to send is
  dropped, and a close takes the context away.
\<close>

type_synonym conn_view = "bool \<times> ctx option \<times> bytes"

definition view_of :: "rtmp_app server net \<Rightarrow> nat \<Rightarrow> conn_view" where
  "view_of s d = (tc_closed (nt_conns s d), getContext d s, so_sent (nt_conns s d) @ concat (tc_iov (nt_conns s d)))"

fun act_on :: "nat \<Rightarrow> conn_act \<Rightarrow> conn_view \<Rightarrow> conn_view" where
  "act_on d (SendOn e bs) (cl, x, out) = (cl, x, if e = d \<and> \<not> cl then out @ concat bs else out)"
| "act_on d (CloseOn e) (cl, x, out) = (if e = d \<and> \<not> cl then (True, None, out) else (cl, x, out))"
| "act_on d (ActiveOn e b) v = v"
| "act_on d (PostOn e y bs) (cl, x, out) =
     (if e = d \<and> x \<noteq> None then (cl, Some y, if cl then out else out @ concat bs) else (cl, x, out))"

fun target_of :: "conn_act \<Rightarrow> nat" where
  "target_of (SendOn d bs) = d"
| "target_of (CloseOn d) = d"
| "target_of (ActiveOn d b) = d"
| "target_of (PostOn d y bs) = d"

text \<open>
  All that the effects of the context of \<open>c\<close> do to connections, when the handler had the calls \<open>ks\<close>: what
  the context sends and closes, and in between what the handler does in the calls the context makes.
\<close>

fun all_acts :: "handler option \<Rightarrow> nat \<Rightarrow> effect list \<Rightarrow> handler_call list \<Rightarrow> conn_act list" where
  "all_acts H c [] ks = []"
| "all_acts H c (SendNodes bs # es) ks = SendOn c bs # all_acts H c es ks"
| "all_acts H c (ForceClose # es) ks = CloseOn c # all_acts H c es ks"
| "all_acts H c (e # es) ks = answer H (ks @ [Call c e]) @ all_acts H c es (ks @ [Call c e])"

definition asked_view :: "rtmp_app server net \<Rightarrow> nat \<Rightarrow> conn_view" where
  "asked_view s d = (tc_closed (nt_conns s d), getContext d s, so_asked (nt_conns s d))"

text \<open>
  One state has become another: the handler had the calls \<open>ks\<close>, the views have changed by the given
  actions, and nothing has where none is aimed.
\<close>

definition acted ::
  "handler_call list \<Rightarrow> conn_act list \<Rightarrow> rtmp_app server net \<Rightarrow> rtmp_app server net \<Rightarrow> bool" where
  "acted ks as s s' \<longleftrightarrow> calls_made s' = calls_made s @ ks \<and>
     (\<forall>d. asked_view s' d = fold (act_on d) as (asked_view s d) \<and> tc_buf (nt_conns s' d) = tc_buf (nt_conns s d) \<and>
        (d \<notin> target_of ` set as \<longrightarrow> nt_conns s' d = nt_conns s d))"

lemma acted_nil [simp]: "acted [] [] s s"
  by (simp add: acted_def)

lemma acted_append: "acted ks as s s1 \<Longrightarrow> acted ls bs s1 s2 \<Longrightarrow> acted (ks @ ls) (as @ bs) s s2"
  by (simp add: acted_def image_Un)

lemma acted_send: "acted [] [SendOn c bs] s (sendInLoop bs c s)"
proof -
  have a: "asked c (concat bs) s (sendInLoop bs c s)" by (rule sendInLoop_asked)
  have app: "nt_app (sendInLoop bs c s) = nt_app s" using a by (simp add: asked_def)
  have "getContext d (sendInLoop bs c s) = getContext d s" "calls_made (sendInLoop bs c s) = calls_made s" for d
    by (simp_all only: getContext_def calls_made_def app)
  moreover have "asked_view (sendInLoop bs c s) d = act_on d (SendOn c bs) (asked_view s d) \<and>
      tc_buf (nt_conns (sendInLoop bs c s) d) = tc_buf (nt_conns s d) \<and>
      (d \<noteq> c \<longrightarrow> nt_conns (sendInLoop bs c s) d = nt_conns s d)" for d
    using a calculation by (cases "d = c") (simp_all add: asked_view_def asked_def)
  ultimately show ?thesis by (simp add: acted_def)
qed

text \<open>A close removes the context and sends nothing.\<close>

lemma acted_close:
  assumes "rtmp_close H c s = Inr s'"
  shows "acted [] [CloseOn c] s s'"
proof (cases "tc_closed (nt_conns s c)")
  case True
  then have "s' = s" using assms by (auto simp: rtmp_close_def server_close_def onClose_def split: if_splits)
  then show ?thesis using True by (simp add: acted_def asked_view_def)
next
  case False
  let ?s1 = "on_server (\<lambda>v. v\<lparr>sv_conns := sv_conns v - {c}\<rparr>) (on_tcp c (\<lambda>t. t\<lparr>tc_closed := True\<rparr>) s)"
  let ?s2 = "setContext c None (note_call H (CallDestroy c) (delEvent (nt_conns ?s1 c) ?s1))"
  have s': "s' = set_tcp c (event_close (nt_conns ?s2 c) ?s2)"
    using assms False
    by (auto simp: rtmp_close_def server_close_def onClose_def conn_callbacks_def destroy_only_def call_cb_def
        onConnectionClose_def onDestroyed_def Let_def split: if_splits)
  have app: "nt_app s' = nt_app ?s2" by (simp add: s' set_tcp_def event_close_def)
  have ctx: "getContext d s' = (if d = c then None else getContext d s)" for d
    by (simp add: getContext_def app delEvent_tcp setContext_def note_call_def)
  have calls: "calls_made s' = calls_made s"
    by (simp add: calls_made_def app delEvent_tcp setContext_def note_call_def)
  have conns: "nt_conns s' d = (if d = c then fst (event_close (nt_conns ?s2 c) ?s2) else nt_conns s d)" for d
    by (simp add: s' set_tcp_def event_close_def delEvent_tcp)
  show ?thesis
    using False by (simp add: acted_def asked_view_def ctx calls conns event_close_def delEvent_tcp)
qed

lemma rtmp_close_returns: "c < sv_next (nt_app s) \<Longrightarrow> \<exists>s'. rtmp_close H c s = Inr s'"
  by (simp add: rtmp_close_def server_close_def onClose_def conn_callbacks_def destroy_only_def call_cb_def
      onConnectionClose_def onDestroyed_def Let_def)

lemma acted_post:
  assumes "getContext c s \<noteq> None"
  shows "acted [] [PostOn c y bs] s (sendInLoop bs c (setContext c (Some y) s))"
proof -
  let ?s = "setContext c (Some y) s"
  have a: "asked c (concat bs) ?s (sendInLoop bs c ?s)" by (rule sendInLoop_asked)
  have app: "nt_app (sendInLoop bs c ?s) = nt_app ?s" using a by (simp add: asked_def)
  have "getContext d (sendInLoop bs c ?s) = getContext d ?s" "calls_made (sendInLoop bs c ?s) = calls_made ?s" for d
    by (simp_all only: getContext_def calls_made_def app)
  then show ?thesis using a assms by (simp add: acted_def asked_view_def asked_def)
qed

lemma acted_do_act:
  assumes "do_act H a s = Inr s'"
  shows "acted [] [a] s s'"
proof (cases a)
  case (ActiveOn d b)
  then have s': "s' = on_tcp d (\<lambda>t. t\<lparr>tc_active := b\<rparr>) s" using assms by simp
  have app: "nt_app s' = nt_app s" by (simp add: s' on_tcp_def)
  have "getContext e s' = getContext e s" "calls_made s' = calls_made s" for e
    by (simp_all only: getContext_def calls_made_def app)
  then show ?thesis unfolding ActiveOn by (simp add: acted_def asked_view_def s')
next
  case (PostOn d y bs)
  show ?thesis
  proof (cases "getContext d s = None")
    case True
    then have "s' = s" using assms PostOn by simp
    then show ?thesis using True PostOn by (simp add: acted_def asked_view_def)
  next
    case False
    then have "s' = sendInLoop bs d (setContext d (Some y) s)"
      using assms unfolding PostOn do_act.simps if_not_P [OF False] by simp
    then show ?thesis unfolding PostOn using acted_post [OF False] by simp
  qed
qed (use assms acted_send acted_close in auto)

lemma acted_do_acts: "do_acts H as s = Inr s' \<Longrightarrow> acted [] as s s'"
proof (induction as arbitrary: s)
  case (Cons a as)
  then obtain s1 where "acted [] [a] s s1" "acted [] as s1 s'" by (auto simp: bindr_eq_Inr dest: acted_do_act)
  then show ?case using acted_append by fastforce
qed simp

text \<open>An open connection with whose context no chunks are built.\<close>

fun sent_on :: "nat \<Rightarrow> conn_act list \<Rightarrow> bytes" where
  "sent_on c [] = []"
| "sent_on c (SendOn d bs # as) = (if d = c then concat bs else []) @ sent_on c as"
| "sent_on c (a # as) = sent_on c as"

lemma fold_shut: "\<forall>z bs. PostOn c z bs \<notin> set as \<Longrightarrow> fold (act_on c) as (True, None, out) = (True, None, out)"
proof (induction as)
  case (Cons a as)
  then show ?case by (cases a) auto
qed simp

lemma fold_open:
  "\<forall>z bs. PostOn c z bs \<notin> set as \<Longrightarrow> fold (act_on c) as (False, Some y, out) =
   (CloseOn c \<in> set as, if CloseOn c \<in> set as then None else Some y, out @ sent_on c (takeWhile (\<lambda>a. a \<noteq> CloseOn c) as))"
proof (induction as arbitrary: out)
  case (Cons a as)
  then show ?case by (cases a) (auto simp: fold_shut)
qed simp

text \<open>The effects in order, with the calls that are made on the way.\<close>

definition noted :: "handler option \<Rightarrow> handler_call list \<Rightarrow> handler_call list" where
  "noted H ks = (if H = None then [] else ks)"

fun calls_of :: "nat \<Rightarrow> effect list \<Rightarrow> handler_call list" where
  "calls_of c [] = []"
| "calls_of c (SendNodes bs # es) = calls_of c es"
| "calls_of c (ForceClose # es) = calls_of c es"
| "calls_of c (e # es) = Call c e # calls_of c es"

lemma acted_call:
  assumes "call_handler H k s = Inr s'" "answered_call k"
  shows "acted (noted H [k]) (answer H (calls_made s @ [k])) s s'"
proof -
  let ?s = "note_call H k s"
  have same: "acted (noted H [k]) [] s ?s" using assms(2) by (auto simp: acted_def asked_view_def noted_def)
  have "do_acts H (answer H (calls_made ?s)) ?s = Inr s'" using assms(1) by (simp add: call_handler_def)
  then have "acted [] (answer H (calls_made ?s)) ?s s'" by (rule acted_do_acts)
  moreover have "answer H (calls_made ?s) = answer H (calls_made s @ [k])" using assms(2) by (simp add: answer_def split: option.splits)
  ultimately show ?thesis using acted_append [OF same] by fastforce
qed

lemma all_acts_None: "all_acts None c es ks = all_acts None c es ls"
proof (induction es arbitrary: ks ls)
  case (Cons e es)
  show ?case by (cases e) (auto simp: answer_def intro: Cons.IH)
qed simp

lemma effects_act:
  "run_effects (rtmp_close H) (call_handler H) c es s = Inr s' \<Longrightarrow>
   acted (noted H (calls_of c es)) (all_acts H c es (calls_made s)) s s'"
proof (induction es arbitrary: s)
  case (Cons e es)
  then obtain s1 where s1: "run_effect (rtmp_close H) (call_handler H) c e s = Inr s1"
      "run_effects (rtmp_close H) (call_handler H) c es s1 = Inr s'"
    by (auto simp: bindr_eq_Inr)
  have rest: "acted (noted H (calls_of c es)) (all_acts H c es (calls_made s1)) s1 s'" using Cons.IH [OF s1(2)] .
  have call: ?case if "call_handler H (Call c e) s = Inr s1" "calls_of c (e # es) = Call c e # calls_of c es"
    "all_acts H c (e # es) (calls_made s) = answer H (calls_made s @ [Call c e]) @ all_acts H c es (calls_made s @ [Call c e])"
  proof -
    note first = acted_call [OF that(1)]
    then have "calls_made s1 = calls_made s @ noted H [Call c e]" by (simp add: acted_def)
    then have "all_acts H c es (calls_made s1) = all_acts H c es (calls_made s @ [Call c e])"
      by (cases H) (auto simp: noted_def intro: all_acts_None)
    moreover have "noted H (calls_of c (e # es)) = noted H [Call c e] @ noted H (calls_of c es)"
      using that(2) by (simp add: noted_def)
    ultimately show ?thesis using acted_append [OF first rest] that(3) by simp
  qed
  show ?case
  proof (cases e)
    case (SendNodes bs)
    then have first: "acted [] [SendOn c bs] s s1" using s1(1) acted_send by auto
    then have "calls_made s1 = calls_made s" unfolding acted_def by simp
    then show ?thesis using acted_append [OF first rest] SendNodes by simp
  next
    case ForceClose
    then have first: "acted [] [CloseOn c] s s1" using s1(1) acted_close by simp
    then have "calls_made s1 = calls_made s" unfolding acted_def by simp
    then show ?thesis using acted_append [OF first rest] ForceClose by simp
  qed (use call s1(1) in auto)
qed (simp add: noted_def)

section \<open>Properties\<close>

text \<open>
  C6: the tables of the RTMP server agree after every run. Whatever arrives and whatever is accepted,
  and whatever the handler does to connections in its calls, a connection is in \<open>connections_\<close> exactly while it is open, and exactly then the loop has it
  registered under its descriptor; epoll knows the same descriptors as the loop; a closed
  connection's descriptor is closed; and the bytes sent and the bytes waiting are together what the
  connection was asked to send, in order.
\<close>

theorem server_tables_agree:
  assumes "rtmp_run E H es (newNet newApp) = Inr s"
  shows "(c \<in> sv_conns (nt_app s) \<longleftrightarrow> c < sv_next (nt_app s) \<and> \<not> tc_closed (nt_conns s c)) \<and>
    (c \<in> sv_conns (nt_app s) \<longleftrightarrow> el_events s (ev_fd (nt_conns s c)) = Some (Tcp c)) \<and>
    (c \<in> sv_conns (nt_app s) \<longrightarrow> el_epoll s (ev_fd (nt_conns s c)) = Some (ev_mask (nt_conns s c))) \<and>
    dom (el_epoll s) = dom (el_events s) \<and>
    (tc_closed (nt_conns s c) \<longrightarrow> ev_fd (nt_conns s c) \<le> 1) \<and>
    so_asked (nt_conns s c) = so_sent (nt_conns s c) @ concat (tc_iov (nt_conns s c))"
proof -
  have inv: "tables_ok {} s" using assms by (rule rtmp_run_inv)
  note i = tables_okD [OF inv]
  have "registered s" "conn_ok (nt_conns s c)" using i(1) by (simp_all add: net_ok_def)
  then show ?thesis using i(2) i(7,8) [of c] i(10) [of c] registeredD(1) by (auto simp: conn_ok_def)
qed

text \<open>
  C11: what a context sends reaches the socket, and what the handler does to connections meanwhile is
  done at its place. When a message callback returns, the bytes the peer of \<open>c\<close> was or will be sent
  have grown by exactly the handshake packets, the chunks the context has made of the input and what
  the handler sent there in the calls the context made, in order, up to the first close; the unread
  bytes are those the parser left; the connection is closed and its context gone exactly when the
  context or the handler asked for it or parsing failed. Every other connection is as the handler's
  actions in those calls leave it: closed, its context changed, and sent what the handler sent, in
  order; and one at which no action aims does not change at all. The handler had exactly the calls
  the context made. This is for every handler, provided that it does not itself build chunks with
  the context of \<open>c\<close>, which is being used.
\<close>

theorem message_output_reaches_socket:
  assumes "tables_ok {} s" "getContext c s = Some x" "\<not> tc_closed (nt_conns s c)"
    and "parse (conn_env (E c) (cx_hs x) (nt_conns s c)) x (tc_buf (nt_conns s c)) = Inr (ret, y, b)"
    and "es = drop (length (cx_effects x)) (cx_effects y)" "onMessage E H c s = Inr s'"
    and "as = all_acts H c es (calls_made s) @ (if ret = -1 then [CloseOn c] else [])"
    and "\<forall>z bs. PostOn c z bs \<notin> set as"
  shows "so_sent (nt_conns s' c) @ concat (tc_iov (nt_conns s' c)) =
      so_sent (nt_conns s c) @ concat (tc_iov (nt_conns s c)) @
      concat (drop (length (hs_out (cx_hs x))) (hs_out (cx_hs y))) @ sent_on c (takeWhile (\<lambda>a. a \<noteq> CloseOn c) as) \<and>
    tc_buf (nt_conns s' c) = b \<and>
    (tc_closed (nt_conns s' c) \<longleftrightarrow> CloseOn c \<in> set as) \<and>
    getContext c s' = (if CloseOn c \<in> set as then None else Some y) \<and>
    (\<forall>d. d \<noteq> c \<longrightarrow> view_of s' d = fold (act_on d) as (view_of s d)) \<and>
    (\<forall>d. d \<noteq> c \<and> d \<notin> target_of ` set as \<longrightarrow> nt_conns s' d = nt_conns s d) \<and>
    calls_made s' = calls_made s @ noted H (calls_of c es)"
proof -
  let ?ps = "drop (length (hs_out (cx_hs x))) (hs_out (cx_hs y))"
  let ?s0 = "setContext c (Some y) (on_tcp c (\<lambda>t. t\<lparr>tc_buf := b\<rparr>) s)"
  obtain s1 s2 where s1: "raw_sends (conn_callbacks (destroy_only H)) c ?ps ?s0 = Inr s1"
      "run_effects (rtmp_close H) (call_handler H) c es s1 = Inr s2"
      "(if ret = -1 then rtmp_close H c s2 else Inr s2) = Inr s'"
    using assms(2,4-6) unfolding onMessage_def update_context_def perform_def by (auto simp: bindr_eq_Inr)
  note sent = raw_sends_asked [OF s1(1), unfolded asked_def]
  have ctx: "getContext d s1 = (if d = c then Some y else getContext d s)" and calls: "calls_made s1 = calls_made s" for d
    using sent by (simp_all add: getContext_def calls_made_def setContext_def)
  have here: "asked_view s1 c = (False, Some y, so_asked (nt_conns s c) @ concat ?ps)" "tc_buf (nt_conns s1 c) = b"
    and there: "d \<noteq> c \<Longrightarrow> asked_view s1 d = asked_view s d \<and> nt_conns s1 d = nt_conns s d" for d
    using sent assms(3) by (simp_all add: asked_view_def ctx)
  have "acted [] (if ret = -1 then [CloseOn c] else []) s2 s'" using s1(3) acted_close by (auto split: if_splits)
  from acted_append [OF effects_act [OF s1(2)] this]
  have acted: "acted (noted H (calls_of c es)) as s1 s'" using assms(7) calls by simp
  have inv: "tables_ok {} s'" using onMessage_inv assms(1,6) by blast
  have ok: "so_asked (nt_conns s d) = so_sent (nt_conns s d) @ concat (tc_iov (nt_conns s d))"
      "so_asked (nt_conns s' d) = so_sent (nt_conns s' d) @ concat (tc_iov (nt_conns s' d))" for d
    using tables_okD(1) [OF assms(1)] tables_okD(1) [OF inv] by (simp_all add: net_ok_def conn_ok_def)
  have views: "view_of s d = asked_view s d" "view_of s' d = asked_view s' d" for d
    by (simp_all add: view_of_def asked_view_def ok)
  have "asked_view s' c = fold (act_on c) as (False, Some y, so_asked (nt_conns s c) @ concat ?ps)"
    using acted here(1) by (simp add: acted_def)
  then have mine: "tc_closed (nt_conns s' c) \<longleftrightarrow> CloseOn c \<in> set as"
      "getContext c s' = (if CloseOn c \<in> set as then None else Some y)"
      "so_asked (nt_conns s' c) = so_asked (nt_conns s c) @ concat ?ps @ sent_on c (takeWhile (\<lambda>a. a \<noteq> CloseOn c) as)"
    unfolding fold_open [OF assms(8)] asked_view_def by (simp_all split: if_splits)
  have "\<forall>d. d \<noteq> c \<longrightarrow> view_of s' d = fold (act_on d) as (view_of s d)"
    using acted there unfolding views acted_def by metis
  moreover have "\<forall>d. d \<noteq> c \<and> d \<notin> target_of ` set as \<longrightarrow> nt_conns s' d = nt_conns s d"
    using acted there unfolding acted_def by metis
  moreover have "tc_buf (nt_conns s' c) = b" "calls_made s' = calls_made s @ noted H (calls_of c es)"
    using acted here(2) calls unfolding acted_def by metis+
  moreover have "so_sent (nt_conns s' c) @ concat (tc_iov (nt_conns s' c)) =
      so_sent (nt_conns s c) @ concat (tc_iov (nt_conns s c)) @ concat ?ps @ sent_on c (takeWhile (\<lambda>a. a \<noteq> CloseOn c) as)"
    using mine(3) unfolding ok by simp
  ultimately show ?thesis using mine(1,2) by blast
qed

definition demo_events :: "net_event list" where
  "demo_events = [Sockets [5], Start, Peers [Accepted 7 [] []], Turn (Ready [(5, EPOLLIN)] 0)]"

text \<open>Starting a handshake of the server, whatever its environment.\<close>

lemma server_starts:
  assumes "env_ok e"
  shows "\<exists>h. startHandShake e (newContext hn False) = Inr ((newContext hn False)\<lparr>cx_hs := h\<rparr>) \<and> hs_out h = []"
proof -
  obtain h where "start e (newHandShake False) = Inr h" "hs_out h = []" using start_server [OF assms] by blast
  then show ?thesis by (simp add: startHandShake_def newContext_def)
qed

definition demo_listening :: "rtmp_app server net" where
  "demo_listening = (newNet newApp)\<lparr>el_events := [5 \<mapsto> AcceptObj], el_epoll := [5 \<mapsto> kEventRead],
     nt_app := (newTcpServer newApp)\<lparr>sv_acceptor := \<lparr>ev_fd = 5, ev_mask = kEventRead, ac_open = True,
       ac_accepts = [Accepted 7 [] []], ac_sockets = []\<rparr>\<rparr>\<rparr>"

lemmas net_start = newNet_def newEventLoop_def event_loop.defs newTcpServer_def

lemma demo_listens:
  "rtmp_run E H (Sockets [5] # Start # Peers [Accepted 7 [] []] # es) (newNet newApp) = rtmp_run E H es demo_listening"
  by (simp add: rtmp_run_def net_start on_acceptor_def on_server_def server_start_def open_acceptor_def
      drop_socket_def new_socket_def fd_free_def pipe_fds_def addEvent_def Let_def demo_listening_def)

definition demo_wheel :: wheel where
  "demo_wheel = newWheel\<lparr>wh_second := (replicate 60 [])[29 := [Entry (Idle 0)]]\<rparr>"

lemma demo_idle: "el_wheel s = newWheel \<Longrightarrow> loop_insertEntry 30 (Idle 0) s = Inr (True, s\<lparr>el_wheel := demo_wheel\<rparr>)"
  by (simp add: loop_insertEntry_def insertEntry_def insertSecondEntry_def put_slot_def before_def newWheel_def
      kTimingMinute_def u32_int_def demo_wheel_def)

text \<open>A new connection gets a context that has sent nothing.\<close>

lemma new_connection_does:
  assumes "env_ok (E c)" "call_handler H (CallNew c) s = Inr s1"
  shows "\<exists>h. onNewConnection E H c s = Inr (setContext c (Some ((newContext (H \<noteq> None) False)\<lparr>cx_hs := h\<rparr>)) s1)"
proof -
  let ?x = "newContext (H \<noteq> None) False"
  let ?s = "setContext c (Some ?x) s1"
  have "env_ok (conn_env (E c) (cx_hs ?x) (nt_conns ?s c))" using assms(1) by (simp add: env_ok_def conn_env_def)
  then obtain h where h: "startHandShake (conn_env (E c) (cx_hs ?x) (nt_conns ?s c)) ?x = Inr (?x\<lparr>cx_hs := h\<rparr>)" "hs_out h = []"
    using server_starts by blast
  moreover have "setContext c (Some (?x\<lparr>cx_hs := h\<rparr>)) ?s = setContext c (Some (?x\<lparr>cx_hs := h\<rparr>)) s1"
    by (simp add: setContext_def on_app_def on_server_def)
  ultimately show ?thesis
    using assms(2) by (auto simp: onNewConnection_def Let_def update_context_def perform_def newContext_def)
qed

text \<open>A handler that closes a connection that sends media, as the live service does when it has no user.\<close>

definition demo_handler :: handler where
  "demo_handler ks = (case last ks of Call d (OnRecv p) \<Rightarrow> [CloseOn d] | _ \<Rightarrow> [])"

lemma demo_new: "call_handler (Some demo_handler) (CallNew 0) s = Inr (note_call (Some demo_handler) (CallNew 0) s)"
  by (simp add: call_handler_def answer_def demo_handler_def Let_def)

lemma demo_accepts:
  "\<exists>s x. rtmp_run (\<lambda>_. demo_env) (Some demo_handler) [Turn (Ready [(5, EPOLLIN)] 0)] demo_listening = Inr s \<and>
     getContext 0 s = Some x \<and> sv_conns (nt_app s) = {0} \<and> ev_fd (nt_conns s 0) = 7 \<and> \<not> tc_closed (nt_conns s 0)"
proof -
  let ?E = "\<lambda>_. demo_env" and ?H = "Some demo_handler"
  obtain h where h: "\<And>s. onNewConnection ?E ?H 0 s =
      Inr (setContext 0 (Some ((newContext True False)\<lparr>cx_hs := h s\<rparr>)) (note_call ?H (CallNew 0) s))"
    using new_connection_does [of ?E 0 ?H, OF _ demo_new] demo_env_ok by (simp add: choice_iff [symmetric]) metis
  have new: "sc_new (rtmp_callbacks ?E ?H) = Some (onNewConnection ?E ?H)" by (simp add: rtmp_callbacks_def)
  show ?thesis
    by (simp add: rtmp_run_def acceptor_onRead_def demo_listening_def net_start on_acceptor_def on_server_def
        fd_free_def pipe_fds_def onAccept_def Let_def addEvent_def set_tcp_def on_tcp_def newTcpConnection_def
        enableCheckIdleTimeout_def demo_idle call_cb_def new h setContext_def note_call_def on_app_def
        getContext_def handler_of_def epoll_defs grow_events_def runTask_def loop_onTimer_def with_wheel_def
        TimingWheel.onTimer_def demo_wheel_def LSS_EPOLLEVENTS_MAXSIZE_def newWheel_def)
qed

theorem server_tables_agree_witness:
  "\<exists>s. rtmp_run (\<lambda>_. demo_env) (Some demo_handler) demo_events (newNet newApp) = Inr s \<and> sv_conns (nt_app s) = {0} \<and>
     el_events s 7 = Some (Tcp 0) \<and> dom (el_epoll s) = dom (el_events s)"
proof -
  obtain s where s: "rtmp_run (\<lambda>_. demo_env) (Some demo_handler) demo_events (newNet newApp) = Inr s"
      "sv_conns (nt_app s) = {0}" "ev_fd (nt_conns s 0) = 7"
    using demo_accepts unfolding demo_events_def demo_listens by blast
  show ?thesis using server_tables_agree [OF s(1), of 0] s by auto
qed

text \<open>A connection that has finished its handshake and receives a byte of sound, which nobody has asked for.\<close>

definition demo_talk :: ctx where
  "demo_talk = (newContext True False)\<lparr>cx_state := kRtmpMessage\<rparr>"

definition demo_sound :: msgbuf where
  "demo_sound = append (newMsgBuffer kBufferDefaultLength) [4, 0,0,0, 0,0,1, 8, 1,0,0,0, 175]"

lemma demo_sound_parses:
  "\<exists>y b p. parse e demo_talk demo_sound = Inr (1, y, b) \<and> cx_effects y = [OnRecv p] \<and> hs_out (cx_hs y) = []"
proof -
  have p: "case_sum (\<lambda>_. None) (\<lambda>(r, y, b). Some (r, length (cx_effects y), case cx_effects y of OnRecv p # es \<Rightarrow> True | _ \<Rightarrow> False,
      hs_out (cx_hs y))) (parse_in_message demo_talk demo_sound) = Some (1, 1, True, [])"
    by code_simp
  then obtain y b where "parse_in_message demo_talk demo_sound = Inr (1, y, b)" "length (cx_effects y) = 1"
      "case cx_effects y of OnRecv p # es \<Rightarrow> True | _ \<Rightarrow> False" "hs_out (cx_hs y) = []"
    by (cases "parse_in_message demo_talk demo_sound") auto
  then show ?thesis by (auto simp: parse_def demo_talk_def length_Suc_conv split: effect.splits)
qed

theorem message_output_reaches_socket_witness:
  "\<exists>s s'. onMessage (\<lambda>_. demo_env) (Some demo_handler) 0 s = Inr s' \<and> \<not> tc_closed (nt_conns s 0) \<and>
     getContext 0 s = Some demo_talk \<and> tc_closed (nt_conns s' 0) \<and> getContext 0 s' = None"
proof -
  let ?E = "\<lambda>_. demo_env" and ?H = "Some demo_handler" and ?t = "\<lambda>t. t\<lparr>tc_buf := demo_sound\<rparr>"
  obtain r where r: "rtmp_run ?E ?H demo_events (newNet newApp) = Inr r" "\<not> tc_closed (nt_conns r 0)"
      "sv_conns (nt_app r) = {0}"
    using demo_accepts unfolding demo_events_def demo_listens by blast
  define s where "s = setContext 0 (Some demo_talk) (on_tcp 0 ?t r)"
  have ok: "tables_ok {} r" using rtmp_run_inv [OF r(1)] .
  then have "data_step ?t (nt_conns r 0)"
    by (simp add: data_step_def conn_ok_def demo_sound_def append_ok kBufferDefaultLength_def)
  then have inv: "tables_ok {} s"
    unfolding s_def using ok by (intro setContext_inv destroyer.conns.on_tcp_keeps) simp_all
  have s: "getContext 0 s = Some demo_talk" "tc_buf (nt_conns s 0) = demo_sound" "\<not> tc_closed (nt_conns s 0)"
    using r(2) by (simp_all add: s_def)
  obtain y b p where y: "parse (conn_env demo_env (cx_hs demo_talk) (nt_conns s 0)) demo_talk (tc_buf (nt_conns s 0)) = Inr (1, y, b)"
      "cx_effects y = [OnRecv p]" "hs_out (cx_hs y) = []"
    using demo_sound_parses unfolding s(2) by blast
  have none: "cx_effects demo_talk = []" "hs_out (cx_hs demo_talk) = []"
    by (simp_all add: demo_talk_def newContext_def newHandShake_def)
  have "0 < sv_next (nt_app r)" using tables_okD(8) [OF ok, of 0] r(3) by simp
  then have "0 < sv_next (nt_app (note_call ?H (Call 0 (OnRecv p)) (setContext 0 (Some y) (on_tcp 0 (\<lambda>t. t\<lparr>tc_buf := b\<rparr>) s))))"
    by (simp add: s_def note_call_def setContext_def)
  then obtain s1 where "rtmp_close ?H 0 (note_call ?H (Call 0 (OnRecv p)) (setContext 0 (Some y) (on_tcp 0 (\<lambda>t. t\<lparr>tc_buf := b\<rparr>) s))) = Inr s1"
    using rtmp_close_returns by blast
  then have s': "onMessage ?E ?H 0 s = Inr s1"
    using y s none by (simp add: onMessage_def update_context_def perform_def call_handler_def answer_def demo_handler_def)
  have acts: "all_acts ?H 0 (drop (length (cx_effects demo_talk)) (cx_effects y)) (calls_made s) @
      (if (1 :: int) = -1 then [CloseOn 0] else []) = [CloseOn 0]"
    by (simp add: none y(2) answer_def demo_handler_def)
  have "\<forall>z bs. PostOn 0 z bs \<notin> set [CloseOn 0]" by simp
  then show ?thesis
    using message_output_reaches_socket [where as = "[CloseOn 0]", OF inv s(1,3) y(1) refl s' acts [symmetric]] s s' by auto
qed

end
