(* ===== verification/TcpClient.thy ===== *)
theory TcpClient
  imports TcpConn
begin

text \<open>
  \<open>TcpClient\<close> of \<open>src/network/tcp_client.cpp\<close>: a connection that connects itself. It keeps a status beside
  that of the connection, overrides the handlers and \<open>onClose\<close>, and times out after three seconds
  without a connection. The answers of \<open>socket\<close> and \<open>connect\<close> and the pending error of a socket are
  part of the state.
\<close>

section \<open>State\<close>

datatype client_status =
    kTcpConnStatusInit | kTcpConnStatusConnecting | kTcpConnStatusConnected | kTcpConnStatusDisconnected

datatype connect_answer = ConnectOk | InProgress | ConnectFail

record 'b clients =
  cl_next :: nat
  cl_status :: "nat \<Rightarrow> client_status"
  cl_sockets :: "int list"
  cl_connects :: "connect_answer list"
  cl_failed :: "nat \<Rightarrow> bool"
  cl_app :: 'b

type_synonym 'b cstep = "'b clients step"

record 'b client_callbacks =
  cc_base :: "'b clients callbacks"
  cc_connected :: "(nat \<Rightarrow> bool \<Rightarrow> 'b cstep) option"

definition on_clients :: "('b clients \<Rightarrow> 'b clients) \<Rightarrow> 'b clients net \<Rightarrow> 'b clients net" where
  "on_clients f s = s\<lparr>nt_app := f (nt_app s)\<rparr>"

definition status :: "nat \<Rightarrow> 'b clients net \<Rightarrow> client_status" where
  "status c s = cl_status (nt_app s) c"

definition set_status :: "nat \<Rightarrow> client_status \<Rightarrow> 'b clients net \<Rightarrow> 'b clients net" where
  "set_status c st = on_clients (\<lambda>a. a\<lparr>cl_status := (cl_status a)(c := st)\<rparr>)"

definition client_up :: "client_status \<Rightarrow> bool" where
  "client_up st \<longleftrightarrow> st = kTcpConnStatusConnecting \<or> st = kTcpConnStatusConnected"

definition newClients :: "'b \<Rightarrow> 'b clients" where
  "newClients a = \<lparr>cl_next = 0, cl_status = (\<lambda>_. kTcpConnStatusInit), cl_sockets = [], cl_connects = [],
     cl_failed = (\<lambda>_. False), cl_app = a\<rparr>"

definition newClientNet :: "'b \<Rightarrow> 'b clients net" where
  "newClientNet a = event_loop.extend newEventLoop \<lparr>nt_conns = (\<lambda>_. newTcpConnection (-1) [] []), nt_entries = [],
     nt_dangling = [], nt_app = newClients a\<rparr>"

text \<open>The constructor makes the next object, without a descriptor.\<close>

definition newTcpClient :: "'b clients net \<Rightarrow> nat \<times> 'b clients net" where
  "newTcpClient s =
     (let c = cl_next (nt_app s)
      in (c, on_clients (\<lambda>a. a\<lparr>cl_next := Suc c\<rparr>) (on_tcp c (\<lambda>_. newTcpConnection (-1) [] []) s)))"

text \<open>A descriptor the kernel can give out is not in use.\<close>

definition fd_unused :: "int \<Rightarrow> 'b clients net \<Rightarrow> bool" where
  "fd_unused fd s \<longleftrightarrow> 2 < fd \<and> el_events s fd = None \<and> fd \<notin> set (pipe_fds (el_pipe s)) \<and>
     list_all (\<lambda>c. ev_fd (nt_conns s c) \<noteq> fd) [0..<cl_next (nt_app s)]"

section \<open>Closing\<close>

definition base :: "(nat \<Rightarrow> 'b client_callbacks) \<Rightarrow> nat \<Rightarrow> 'b clients callbacks" where
  "base C c = cc_base (C c)"

definition client_onClose :: "(nat \<Rightarrow> 'b client_callbacks) \<Rightarrow> nat \<Rightarrow> 'b cstep" where
  "client_onClose C c s =
     (let s1 = (if client_up (status c s) then delEvent (nt_conns s c) s else s)
      in onClose (base C) c (set_status c kTcpConnStatusDisconnected s1))"

text \<open>A call of it, on an object that must exist.\<close>

definition client_close :: "(nat \<Rightarrow> 'b client_callbacks) \<Rightarrow> nat \<Rightarrow> 'b cstep" where
  "client_close C c s = (if c < cl_next (nt_app s) then client_onClose C c s else Inl NullDeref)"

section \<open>Connecting\<close>

definition updateConnectionStatus :: "(nat \<Rightarrow> 'b client_callbacks) \<Rightarrow> nat \<Rightarrow> 'b cstep" where
  "updateConnectionStatus C c s =
     (let s1 = set_status c kTcpConnStatusConnected s
      in case cc_connected (C c) of None \<Rightarrow> Inr s1 | Some f \<Rightarrow> f c True s1)"

text \<open>The socket is asked for first: the client is then an event of the loop, with its idle time.\<close>

definition open_client :: "int \<Rightarrow> nat \<Rightarrow> 'b clients net \<Rightarrow> 'b clients net" where
  "open_client fd c s =
     (let s1 = set_status c kTcpConnStatusConnecting (on_tcp c (\<lambda>t. t\<lparr>ev_fd := fd\<rparr>) s);
          s2 = set_tcp c (addEvent (Tcp c) (nt_conns s1 c) s1)
      in conn_enableWriting c True s2)"

text \<open>The call of \<open>connect\<close>; at the end of the answers it stays in progress.\<close>

definition do_connect :: "(nat \<Rightarrow> 'b client_callbacks) \<Rightarrow> nat \<Rightarrow> 'b cstep" where
  "do_connect C c s =
     (let s1 = on_clients (\<lambda>a. a\<lparr>cl_connects := tl (cl_connects a)\<rparr>) s
      in case cl_connects (nt_app s) of
           ConnectOk # _ \<Rightarrow> updateConnectionStatus C c s1
         | ConnectFail # _ \<Rightarrow> client_close C c s1
         | _ \<Rightarrow> Inr s1)"

definition connectInLoop :: "(nat \<Rightarrow> 'b client_callbacks) \<Rightarrow> nat \<Rightarrow> 'b cstep" where
  "connectInLoop C c s =
     (case cl_sockets (nt_app s) of
        [] \<Rightarrow> client_close C c (on_tcp c (\<lambda>t. t\<lparr>ev_fd := -1\<rparr>) s)
      | fd # fds \<Rightarrow>
          bindr (enableCheckIdleTimeout (client_close C) 3 c
                   (open_client fd c (on_clients (\<lambda>a. a\<lparr>cl_sockets := fds\<rparr>) s)))
            (do_connect C c))"

definition connect :: "(task \<Rightarrow> 'b cstep) \<Rightarrow> nat \<Rightarrow> 'b cstep" where
  "connect q c s = q (TaskConnect c) s"

text \<open>\<open>SO_ERROR\<close> is read and with that cleared.\<close>

definition checkError :: "nat \<Rightarrow> 'b clients net \<Rightarrow> bool \<times> 'b clients net" where
  "checkError c s = (cl_failed (nt_app s) c, on_clients (\<lambda>a. a\<lparr>cl_failed := (cl_failed a)(c := False)\<rparr>) s)"

section \<open>Events\<close>

text \<open>While connecting, whichever event comes first ends it, and nothing is read or written yet.\<close>

definition connect_done :: "(nat \<Rightarrow> 'b client_callbacks) \<Rightarrow> nat \<Rightarrow> 'b cstep" where
  "connect_done C c s =
     (case checkError c s of (err, s1) \<Rightarrow> if err then client_close C c s1 else updateConnectionStatus C c s1)"

definition client_onRead :: "(nat \<Rightarrow> 'b client_callbacks) \<Rightarrow> nat \<Rightarrow> 'b cstep" where
  "client_onRead C c s =
     (if status c s = kTcpConnStatusConnecting then connect_done C c s
      else if status c s = kTcpConnStatusConnected then onRead (client_close C) (base C) c s
      else Inr s)"

definition client_onWrite :: "(nat \<Rightarrow> 'b client_callbacks) \<Rightarrow> nat \<Rightarrow> 'b cstep" where
  "client_onWrite C c s =
     (if status c s = kTcpConnStatusConnecting then connect_done C c s
      else if status c s = kTcpConnStatusConnected then onWrite (client_close C) (base C) c s
      else Inr s)"

definition client_send_list :: "(task \<Rightarrow> 'b cstep) \<Rightarrow> bytes list \<Rightarrow> nat \<Rightarrow> 'b cstep" where
  "client_send_list q bufs c s = (if status c s = kTcpConnStatusConnected then send_list q bufs c s else Inr s)"

definition client_send_buf :: "(task \<Rightarrow> 'b cstep) \<Rightarrow> bytes \<Rightarrow> nat \<Rightarrow> 'b cstep" where
  "client_send_buf q xs c s = (if status c s = kTcpConnStatusConnected then send_buf q xs c s else Inr s)"

fun client_handle :: "(nat \<Rightarrow> 'b client_callbacks) \<Rightarrow> obj \<Rightarrow> handler \<Rightarrow> 'b cstep" where
  "client_handle C (Tcp c) HError s = onError (client_close C) c s"
| "client_handle C (Tcp c) HClose s = client_close C c s"
| "client_handle C (Tcp c) HRead s = client_onRead C c s"
| "client_handle C (Tcp c) HWrite s = client_onWrite C c s"
| "client_handle C ob h s = net_handle (\<lambda>_. Inr) (client_close C) (base C) ob h s"

fun client_task :: "(nat \<Rightarrow> 'b client_callbacks) \<Rightarrow> task \<Rightarrow> 'b cstep" where
  "client_task C (TaskConnect c) s = connectInLoop C c s"
| "client_task C t s = Inr s"

section \<open>Runs of clients\<close>

definition client_run_task :: "(nat \<Rightarrow> 'b client_callbacks) \<Rightarrow> (nat \<Rightarrow> 'b cstep) \<Rightarrow> task \<Rightarrow> 'b cstep" where
  "client_run_task C after = run_task (client_close C) (base C) after (\<lambda>_. Inr)"

text \<open>
  The thread of the loop makes a client and connects it, once; sockets become available and
  connections succeed or fail; data arrives or there is room for more; another thread hands over a
  task of a connection; the loop turns.
\<close>

datatype client_event =
    NewClient
  | Connect nat
  | Answers "int list" "connect_answer list"
  | Fails nat
  | Arrives nat "rx list" "tx list"
  | Hand task "int \<times> int"
  | Turns wait

fun client_step :: "(nat \<Rightarrow> 'b client_callbacks) \<Rightarrow> (nat \<Rightarrow> 'b cstep) \<Rightarrow> client_event \<Rightarrow> 'b cstep" where
  "client_step C after NewClient s = Inr (snd (newTcpClient s))"
| "client_step C after (Connect c) s =
     (if c < cl_next (nt_app s) \<and> status c s = kTcpConnStatusInit \<and>
         (case cl_sockets (nt_app s) of [] \<Rightarrow> True | fd # _ \<Rightarrow> fd_unused fd s)
      then enqueueTask True (client_task C) PipeObj (-1, -1) (TaskConnect c) s
      else Inr s)"
| "client_step C after (Answers fds cs) s =
     Inr (on_clients (\<lambda>a. a\<lparr>cl_sockets := cl_sockets a @ fds, cl_connects := cl_connects a @ cs\<rparr>) s)"
| "client_step C after (Fails c) s = Inr (on_clients (\<lambda>a. a\<lparr>cl_failed := (cl_failed a)(c := True)\<rparr>) s)"
| "client_step C after (Arrives c rs ts) s = Inr (on_tcp c (\<lambda>t. t\<lparr>so_rx := so_rx t @ rs, so_tx := so_tx t @ ts\<rparr>) s)"
| "client_step C after (Hand t fds) s =
     (if el_pipe s = None \<and> \<not> (fd_unused (fst fds) s \<and> fd_unused (snd fds) s \<and> fst fds \<noteq> snd fds) then Inr s
      else enqueueTask False (client_run_task C after) PipeObj fds t s)"
| "client_step C after (Turns w) s =
     loop_turn (client_handle C) (client_run_task C after) (fire_timer (client_close C) after) w s"

fun client_run :: "(nat \<Rightarrow> 'b client_callbacks) \<Rightarrow> (nat \<Rightarrow> 'b cstep) \<Rightarrow> client_event list \<Rightarrow> 'b cstep" where
  "client_run C after [] s = Inr s"
| "client_run C after (e # es) s = bindr (client_step C after e s) (client_run C after es)"

section \<open>The invariant\<close>

text \<open>
  The status agrees with the loop: a client that is connecting or connected is exactly one that is
  registered; a disconnected one is closed, and so is its descriptor. \<open>D\<close> are the clients whose
  \<open>onClose\<close> is in its callback.
\<close>

definition client_ok :: "nat set \<Rightarrow> 'b clients net \<Rightarrow> bool" where
  "client_ok D s \<longleftrightarrow> net_ok s \<and> dom (el_epoll s) = dom (el_events s) \<and>
     (\<forall>fd ob. el_events s fd = Some ob \<longrightarrow> 2 < fd) \<and>
     (\<forall>c. client_up (status c s) \<longleftrightarrow> el_events s (ev_fd (nt_conns s c)) = Some (Tcp c)) \<and>
     (\<forall>c. tc_closed (nt_conns s c) \<longleftrightarrow> status c s = kTcpConnStatusDisconnected) \<and>
     (\<forall>c \<in> D. status c s = kTcpConnStatusDisconnected) \<and>
     (\<forall>c. cl_next (nt_app s) \<le> c \<longrightarrow> status c s = kTcpConnStatusInit \<and> c \<notin> D) \<and>
     (\<forall>c. \<not> client_up (status c s) \<and> c \<notin> D \<longrightarrow> ev_fd (nt_conns s c) \<le> 1)"

lemma client_okD:
  assumes "client_ok D s"
  shows "net_ok s" "dom (el_epoll s) = dom (el_events s)" "el_events s fd = Some ob \<Longrightarrow> 2 < fd"
    "client_up (status c s) \<longleftrightarrow> el_events s (ev_fd (nt_conns s c)) = Some (Tcp c)"
    "tc_closed (nt_conns s c) \<longleftrightarrow> status c s = kTcpConnStatusDisconnected"
    "c \<in> D \<Longrightarrow> status c s = kTcpConnStatusDisconnected"
    "cl_next (nt_app s) \<le> c \<Longrightarrow> status c s = kTcpConnStatusInit \<and> c \<notin> D"
    "\<not> client_up (status c s) \<Longrightarrow> c \<notin> D \<Longrightarrow> ev_fd (nt_conns s c) \<le> 1"
  using assms unfolding client_ok_def by blast+

lemma client_okI:
  assumes "net_ok s" "dom (el_epoll s) = dom (el_events s)" "\<And>fd ob. el_events s fd = Some ob \<Longrightarrow> 2 < fd"
    "\<And>c. client_up (status c s) \<longleftrightarrow> el_events s (ev_fd (nt_conns s c)) = Some (Tcp c)"
    "\<And>c. tc_closed (nt_conns s c) \<longleftrightarrow> status c s = kTcpConnStatusDisconnected"
    "\<And>c. c \<in> D \<Longrightarrow> status c s = kTcpConnStatusDisconnected"
    "\<And>c. cl_next (nt_app s) \<le> c \<Longrightarrow> status c s = kTcpConnStatusInit \<and> c \<notin> D"
    "\<And>c. \<not> client_up (status c s) \<Longrightarrow> c \<notin> D \<Longrightarrow> ev_fd (nt_conns s c) \<le> 1"
  shows "client_ok D s"
proof -
  have "\<forall>fd ob. el_events s fd = Some ob \<longrightarrow> 2 < fd" using assms(3) by blast
  moreover have "\<forall>c \<in> D. status c s = kTcpConnStatusDisconnected" using assms(6) by blast
  moreover have "\<forall>c. cl_next (nt_app s) \<le> c \<longrightarrow> status c s = kTcpConnStatusInit \<and> c \<notin> D" using assms(7) by blast
  moreover have "\<forall>c. \<not> client_up (status c s) \<and> c \<notin> D \<longrightarrow> ev_fd (nt_conns s c) \<le> 1" using assms(8) by blast
  ultimately show ?thesis using assms(1,2,4,5) unfolding client_ok_def by (intro conjI) (assumption | rule allI)+
qed

lemma client_up_simps [simp]:
  "client_up kTcpConnStatusConnecting" "client_up kTcpConnStatusConnected"
  "\<not> client_up kTcpConnStatusInit" "\<not> client_up kTcpConnStatusDisconnected"
  by (simp_all add: client_up_def)

lemma on_clients_sel [simp]:
  "nt_conns (on_clients f s) = nt_conns s" "el_events (on_clients f s) = el_events s"
  "el_epoll (on_clients f s) = el_epoll s" "el_pipe (on_clients f s) = el_pipe s"
  "nt_app (on_clients f s) = f (nt_app s)" "el_wheel (on_clients f s) = el_wheel s"
  by (simp_all add: on_clients_def)

lemma status_sel [simp]:
  "status d (set_status c st s) = (if d = c then st else status d s)"
  "status d (on_tcp c f s) = status d s"
  by (simp_all add: status_def set_status_def)

lemma set_status_sel [simp]:
  "nt_conns (set_status c st s) = nt_conns s" "el_events (set_status c st s) = el_events s"
  "el_epoll (set_status c st s) = el_epoll s" "el_pipe (set_status c st s) = el_pipe s"
  "cl_next (nt_app (set_status c st s)) = cl_next (nt_app s)" "el_wheel (set_status c st s) = el_wheel s"
  by (simp_all add: set_status_def)

lemma new_client_net_ok: "client_ok {} (newClientNet a)"
  by (rule client_okI)
    (auto simp: newClientNet_def newEventLoop_def event_loop.defs newClients_def newTcpConnection_def status_def
      net_ok_def conn_ok_def registered_def kBufferDefaultLength_def)

lemma same_shape_client: "client_ok D s \<Longrightarrow> net_ok s' \<Longrightarrow> same_shape s s' \<Longrightarrow> client_ok D s'"
proof -
  assume a: "client_ok D s" "net_ok s'" "same_shape s s'"
  have e: "el_events s' = el_events s" "nt_app s' = nt_app s" "dom (el_epoll s') = dom (el_epoll s)"
      "\<And>c. ev_fd (nt_conns s' c) = ev_fd (nt_conns s c)" "\<And>c. tc_closed (nt_conns s' c) = tc_closed (nt_conns s c)"
    using a(3) by (simp_all add: same_shape_def)
  have st: "status c s' = status c s" for c by (simp add: status_def e(2))
  show ?thesis using a(1,2) unfolding client_ok_def e st by simp
qed

text \<open>The data of the clients may change but for status and number.\<close>

lemma client_app:
  assumes "client_ok D s" "cl_status (f (nt_app s)) = cl_status (nt_app s)" "cl_next (f (nt_app s)) = cl_next (nt_app s)"
  shows "client_ok D (on_clients f s)"
proof -
  have "net_ok (on_clients f s)" using client_okD(1) [OF assms(1)] by (rule net_ok_cong) simp_all
  moreover have "status c (on_clients f s) = status c s" for c by (simp add: status_def assms(2))
  ultimately show ?thesis using assms(1,3) unfolding client_ok_def by simp
qed

section \<open>Closing keeps it\<close>



text \<open>The loop forgets an open client, which is disconnected and closed then.\<close>

lemma shut_down:
  assumes "client_ok D s" "\<not> tc_closed (nt_conns s c)" "c < cl_next (nt_app s)"
    and "s1 = (if client_up (status c s) then delEvent (nt_conns s c) s else s)"
  shows "client_ok (insert c D) (on_tcp c (\<lambda>t. t\<lparr>tc_closed := True\<rparr>) (set_status c kTcpConnStatusDisconnected s1))"
    (is "client_ok ?D ?s")
proof -
  note i = client_okD [OF assms(1)]
  let ?fd = "ev_fd (nt_conns s c)"
  have ev: "el_events s1 = (if client_up (status c s) then (el_events s)(?fd := None) else el_events s)"
      "nt_conns s1 = nt_conns s" "nt_app s1 = nt_app s"
    by (simp_all add: assms(4) delEvent_tcp)
  have ep: "dom (el_epoll s1) = dom (el_events s1)"
    using i(2) i(4) [of c] by (auto simp: assms(4) delEvent_def)
  have st: "status d s1 = status d s" for d by (simp add: status_def ev(3))
  have "net_ok s1" using i(1) by (simp add: assms(4) net_ok_delEvent)
  then have "net_ok (set_status c kTcpConnStatusDisconnected s1)" by (rule net_ok_cong) simp_all
  then have ok: "net_ok ?s" by (rule net_ok_on_tcp) simp
  have small: "el_events s fd \<noteq> Some (Tcp d)" if "fd \<le> 1" for fd d using i(3) [of fd "Tcp d"] that by auto
  have mine: "\<not> client_up (status c s) \<Longrightarrow> el_events s ?fd \<noteq> Some (Tcp c)" using i(4) [of c] by simp
  have other: "el_events s (ev_fd (nt_conns s d)) = Some (Tcp d) \<Longrightarrow> d \<noteq> c \<Longrightarrow> client_up (status c s) \<Longrightarrow>
      ev_fd (nt_conns s d) \<noteq> ?fd" for d
    using i(4) [of c] by auto
  have cs: "nt_conns ?s d = (if d = c then nt_conns s c\<lparr>tc_closed := True\<rparr> else nt_conns s d)" for d
    by (simp add: ev)
  have sel: "el_events ?s = el_events s1" "el_epoll ?s = el_epoll s1" "cl_next (nt_app ?s) = cl_next (nt_app s)"
      "status d ?s = (if d = c then kTcpConnStatusDisconnected else status d s)" for d
    by (simp_all add: ev st)
  show ?thesis
  proof (rule client_okI)
    show "net_ok ?s" by (rule ok)
    show "dom (el_epoll ?s) = dom (el_events ?s)" unfolding sel by (rule ep)
    show "el_events ?s fd = Some ob \<Longrightarrow> 2 < fd" for fd ob
      unfolding sel ev using i(3) [of fd ob] by (auto split: if_splits)
    show "client_up (status d ?s) \<longleftrightarrow> el_events ?s (ev_fd (nt_conns ?s d)) = Some (Tcp d)" for d
      unfolding sel cs ev using i(4) [of d] mine other [of d] by auto
    show "tc_closed (nt_conns ?s d) \<longleftrightarrow> status d ?s = kTcpConnStatusDisconnected" for d
      unfolding sel cs using i(5) [of d] by simp
    show "d \<in> ?D \<Longrightarrow> status d ?s = kTcpConnStatusDisconnected" for d
      unfolding sel using i(6) [of d] by auto
    show "cl_next (nt_app ?s) \<le> d \<Longrightarrow> status d ?s = kTcpConnStatusInit \<and> d \<notin> ?D" for d
      unfolding sel using i(7) [of d] assms(3) by auto
    show "\<not> client_up (status d ?s) \<Longrightarrow> d \<notin> ?D \<Longrightarrow> ev_fd (nt_conns ?s d) \<le> 1" for d
      unfolding sel cs using i(8) [of d] by auto
  qed
qed

text \<open>Closing the descriptor afterwards.\<close>

lemma client_release:
  assumes "client_ok (insert c D) s" "c \<notin> D"
  shows "client_ok D (set_tcp c (event_close (nt_conns s c) s))" (is "client_ok D ?s")
proof -
  note i = client_okD [OF assms(1)]
  have down: "status c s = kTcpConnStatusDisconnected" using i(6) [of c] by simp
  then have n: "el_events s (ev_fd (nt_conns s c)) \<noteq> Some (Tcp c)" using i(4) [of c] by simp
  have cs: "nt_conns ?s d = (if d = c then nt_conns s c\<lparr>ev_fd := if 1 < ev_fd (nt_conns s c) then -1 else ev_fd (nt_conns s c)\<rparr>
      else nt_conns s d)" for d
    by (simp add: set_tcp_def event_close_def)
  have sel: "el_events ?s = el_events s" "status d ?s = status d s" "cl_next (nt_app ?s) = cl_next (nt_app s)" for d
    by (simp_all add: set_tcp_def event_close_def status_def)
  have ep: "dom (el_epoll ?s) = dom (el_events ?s)"
  proof (cases "1 < ev_fd (nt_conns s c)")
    case True
    then have "el_events s (ev_fd (nt_conns s c)) = None"
      using n i(1) by (auto simp: net_ok_def registered_def)
    moreover from this have "el_epoll s (ev_fd (nt_conns s c)) = None" using i(2) domIff by metis
    ultimately show ?thesis using i(2) by (simp add: set_tcp_def event_close_def fun_upd_idem)
  qed (use i(2) in \<open>auto simp: set_tcp_def event_close_def\<close>)
  have small: "el_events s fd \<noteq> Some (Tcp d)" if "fd \<le> 1" for fd d using i(3) [of fd "Tcp d"] that by auto
  show ?thesis
  proof (rule client_okI)
    show "net_ok ?s" by (rule net_ok_close [OF i(1) n])
    show "dom (el_epoll ?s) = dom (el_events ?s)" by (rule ep)
    show "el_events ?s fd = Some ob \<Longrightarrow> 2 < fd" for fd ob unfolding sel by (rule i(3))
    show "client_up (status d ?s) \<longleftrightarrow> el_events ?s (ev_fd (nt_conns ?s d)) = Some (Tcp d)" for d
      unfolding sel cs using i(4) [of d] n small [of "-1" c] down by (cases "d = c") simp_all
    show "tc_closed (nt_conns ?s d) \<longleftrightarrow> status d ?s = kTcpConnStatusDisconnected" for d
      unfolding sel cs using i(5) [of d] by auto
    show "d \<in> D \<Longrightarrow> status d ?s = kTcpConnStatusDisconnected" for d unfolding sel using i(6) [of d] by simp
    show "cl_next (nt_app ?s) \<le> d \<Longrightarrow> status d ?s = kTcpConnStatusInit \<and> d \<notin> D" for d
      unfolding sel using i(7) [of d] by simp
    show "\<not> client_up (status d ?s) \<Longrightarrow> d \<notin> D \<Longrightarrow> ev_fd (nt_conns ?s d) \<le> 1" for d
      unfolding sel cs using i(8) [of d] by simp
  qed
qed

section \<open>Connecting keeps it\<close>

lemma fd_unusedD:
  assumes "fd_unused fd s" "client_ok D s"
  shows "2 < fd" "el_events s fd = None" "el_epoll s fd = None" "ev_fd (nt_conns s c) \<noteq> fd"
proof -
  note i = client_okD [OF assms(2)]
  show fd: "2 < fd" "el_events s fd = None" using assms(1) by (simp_all add: fd_unused_def)
  then show "el_epoll s fd = None" using i(2) domIff by metis
  have used: "c < cl_next (nt_app s) \<Longrightarrow> ev_fd (nt_conns s c) \<noteq> fd" for c
    using assms(1) by (simp add: fd_unused_def list_all_iff)
  show "ev_fd (nt_conns s c) \<noteq> fd" using used [of c] i(7,8) [of c] fd(1) by (cases "c < cl_next (nt_app s)") auto
qed

text \<open>Registering an idle client under a fresh descriptor.\<close>

lemma open_client_sel:
  assumes "2 < fd" "el_events s fd = None" "el_epoll s fd = None"
  shows "\<exists>m. nt_conns (open_client fd c s) = (nt_conns s)(c := nt_conns s c\<lparr>ev_fd := fd, ev_mask := m\<rparr>) \<and>
    el_events (open_client fd c s) = (el_events s)(fd \<mapsto> Tcp c) \<and>
    el_epoll (open_client fd c s) = (el_epoll s)(fd \<mapsto> m) \<and>
    nt_app (open_client fd c s) = nt_app (set_status c kTcpConnStatusConnecting s)"
  using assms
  by (intro exI [of _ "or (or (ev_mask (nt_conns s c)) kEventRead) kEventWrite"])
    (simp add: open_client_def addEvent_def set_tcp_def conn_enableWriting_def enableWriting_def enable_def on_tcp_def
      set_status_def on_clients_def Let_def)

lemma open_client_keeps:
  assumes "client_ok D s" "fd_unused fd s" "status c s = kTcpConnStatusInit" "c < cl_next (nt_app s)"
  shows "client_ok D (open_client fd c s)" (is "client_ok D ?s")
proof -
  note i = client_okD [OF assms(1)] and f = fd_unusedD [OF assms(2,1)]
  obtain m where sel: "nt_conns ?s = (nt_conns s)(c := nt_conns s c\<lparr>ev_fd := fd, ev_mask := m\<rparr>)"
      "el_events ?s = (el_events s)(fd \<mapsto> Tcp c)" "el_epoll ?s = (el_epoll s)(fd \<mapsto> m)"
      "nt_app ?s = nt_app (set_status c kTcpConnStatusConnecting s)"
    using open_client_sel [OF f(1-3)] by blast
  have st: "status d ?s = (if d = c then kTcpConnStatusConnecting else status d s)"
      "cl_next (nt_app ?s) = cl_next (nt_app s)" for d
    by (simp_all add: status_def sel(4)) (simp add: set_status_def)
  have c: "c \<notin> D" "\<not> tc_closed (nt_conns s c)" "ev_fd (nt_conns s c) \<le> 1"
    using i(5,6,8) [of c] assms(3) by auto
  have not_c: "el_events s fd' = Some (Tcp d) \<Longrightarrow> d \<noteq> c \<and> fd' \<noteq> fd" for fd' d
    using registeredD(1) [of s fd' d] i(1) c(3) f(2) by (auto simp: net_ok_def)
  have "registered ?s"
    using i(1) f(1) not_c f(4) unfolding net_ok_def registered_def sel by (auto split: if_splits)
  moreover have "conn_ok (nt_conns ?s d)" for d using i(1) by (simp add: sel net_ok_def conn_ok_def)
  ultimately have ok: "net_ok ?s" by (simp add: net_ok_def)
  show ?thesis
  proof (rule client_okI)
    show "net_ok ?s" by (rule ok)
    show "dom (el_epoll ?s) = dom (el_events ?s)" unfolding sel using i(2) by simp
    show "el_events ?s fd' = Some ob \<Longrightarrow> 2 < fd'" for fd' ob
      unfolding sel using i(3) [of fd' ob] f(1) by (auto split: if_splits)
    show "client_up (status d ?s) \<longleftrightarrow> el_events ?s (ev_fd (nt_conns ?s d)) = Some (Tcp d)" for d
      unfolding st sel using i(4) [of d] f(4) [of d] by simp
    show "tc_closed (nt_conns ?s d) \<longleftrightarrow> status d ?s = kTcpConnStatusDisconnected" for d
      unfolding st sel using i(5) [of d] c(2) by auto
    show "d \<in> D \<Longrightarrow> status d ?s = kTcpConnStatusDisconnected" for d
      unfolding st using i(6) [of d] c(1) by auto
    show "cl_next (nt_app ?s) \<le> d \<Longrightarrow> status d ?s = kTcpConnStatusInit \<and> d \<notin> D" for d
      unfolding st using i(7) [of d] assms(4) by auto
    show "\<not> client_up (status d ?s) \<Longrightarrow> d \<notin> D \<Longrightarrow> ev_fd (nt_conns ?s d) \<le> 1" for d
      unfolding st sel using i(8) [of d] by (auto split: if_splits)
  qed
qed

text \<open>From connecting to connected, and a new client.\<close>

lemma connected_keeps:
  assumes "client_ok D s" "client_up (status c s)"
  shows "client_ok D (set_status c kTcpConnStatusConnected s)" (is "client_ok D ?s")
proof -
  note i = client_okD [OF assms(1)]
  have "net_ok ?s" using i(1) by (rule net_ok_cong) simp_all
  moreover have "c < cl_next (nt_app s)" using i(7) [of c] assms(2) by (cases "c < cl_next (nt_app s)") auto
  moreover have "status c s \<noteq> kTcpConnStatusDisconnected" "c \<notin> D" using assms(2) i(6) [of c] by auto
  ultimately show ?thesis
    using assms unfolding client_ok_def by (auto simp: client_up_def)
qed

lemma new_client_keeps:
  assumes "client_ok D s"
  shows "client_ok D (snd (newTcpClient s))" (is "client_ok D ?s")
proof -
  note i = client_okD [OF assms]
  define c where "c = cl_next (nt_app s)"
  have c: "status c s = kTcpConnStatusInit" "c \<notin> D" using i(7) [of c] by (simp_all add: c_def)
  have small: "ev_fd (nt_conns s c) \<le> 1" using i(8) [of c] c by simp
  let ?t = "newTcpConnection (-1) [] []"
  have n: "ev_fd ?t = -1" "\<not> tc_closed ?t" "conn_ok ?t" by (simp_all add: newTcpConnection_def conn_ok_def kBufferDefaultLength_def)
  have none: "el_events s fd \<noteq> Some (Tcp c)" for fd
    using registeredD(1) [of s fd c] i(1) small by (auto simp: net_ok_def)
  have sel: "nt_conns ?s = (nt_conns s)(c := ?t)" "el_events ?s = el_events s" "el_epoll ?s = el_epoll s"
      "cl_next (nt_app ?s) = Suc c" "status d ?s = status d s" for d
    by (simp_all add: newTcpClient_def c_def Let_def on_tcp_def status_def)
  have ok: "net_ok ?s"
    using i(1) n none unfolding net_ok_def registered_def sel by auto
  show ?thesis
    using assms ok n none c unfolding client_ok_def sel by (auto simp: c_def)
qed

text \<open>Without a socket an idle client gets the descriptor -1.\<close>

lemma no_socket_keeps:
  assumes "client_ok D s" "status c s = kTcpConnStatusInit"
  shows "client_ok D (on_tcp c (\<lambda>t. t\<lparr>ev_fd := -1\<rparr>) s)" (is "client_ok D ?s")
proof -
  note i = client_okD [OF assms(1)]
  have small: "ev_fd (nt_conns s c) \<le> 1" using i(6,8) [of c] assms(2) by auto
  have none: "el_events s fd \<noteq> Some (Tcp c)" for fd
    using registeredD(1) [of s fd c] i(1) small by (auto simp: net_ok_def)
  have sel: "nt_conns ?s = (nt_conns s)(c := nt_conns s c\<lparr>ev_fd := -1\<rparr>)" "status d ?s = status d s" for d
    by (simp_all add: on_tcp_def status_def)
  have ok: "net_ok ?s"
    using i(1) none unfolding net_ok_def registered_def sel by (auto simp: conn_ok_def)
  show ?thesis
    using assms ok none unfolding client_ok_def sel by auto
qed

text \<open>The wake-up pipe gets fresh descriptors.\<close>

lemma client_pipe_keeps:
  assumes "client_ok D s" "el_pipe s = None" "fd_unused (fst fds) s"
  shows "client_ok D (initPipe PipeObj fds s)" (is "client_ok D ?s")
proof -
  note i = client_okD [OF assms(1)] and f = fd_unusedD [OF assms(3,1)]
  let ?fd = "fst fds"
  obtain m where ev: "el_events ?s = (el_events s)(?fd \<mapsto> PipeObj)" "el_epoll ?s = (el_epoll s)(?fd \<mapsto> m)"
      "nt_conns ?s = nt_conns s" "nt_app ?s = nt_app s"
    using assms(2) f(1-3) by (simp add: initPipe_def addEvent_def newPipe_def Let_def)
  have st: "status d ?s = status d s" for d by (simp add: status_def ev)
  have ok: "net_ok ?s"
    using i(1) f(2,4) unfolding net_ok_def registered_def ev by (auto split: if_splits)
  show ?thesis
    using assms(1) ok f(1,4) unfolding client_ok_def st ev by (auto split: if_splits)
qed

lemma open_client_app: "nt_app (open_client fd c s) = nt_app (set_status c kTcpConnStatusConnecting s)"
  by (simp add: open_client_def set_tcp_def addEvent_def Let_def set_status_def)

section \<open>Users of clients\<close>

text \<open>
  A program of clients is its callbacks and timers, each of which keeps the invariant; as with
  servers, \<open>D\<close> is fixed for the operations and any for the callbacks.
\<close>

locale client_user =
  fixes C :: "nat \<Rightarrow> 'b client_callbacks"
    and after :: "nat \<Rightarrow> 'b cstep"
    and D :: "nat set"
  assumes base_keep: "cb \<in> {cb_message (base C c), cb_close (base C c), cb_complete (base C c), cb_active (base C c)} \<Longrightarrow>
      client_ok E s \<Longrightarrow> call_cb cb c s = Inr s' \<Longrightarrow> client_ok E s'"
    and connected_keep: "cc_connected (C c) = Some f \<Longrightarrow> client_ok E s \<Longrightarrow> f c True s = Inr s' \<Longrightarrow> client_ok E s'"
    and timers_keep: "client_ok E s \<Longrightarrow> after n s = Inr s' \<Longrightarrow> client_ok E s'"
begin

lemma close_keeps:
  assumes "client_ok E s" "client_close C c s = Inr s'"
  shows "client_ok E s'"
proof (cases "tc_closed (nt_conns s c)")
  case True
  then have "status c s = kTcpConnStatusDisconnected" using client_okD(5) [OF assms(1)] by simp
  then have "s' = set_status c kTcpConnStatusDisconnected s"
    using assms(2) True by (simp add: client_close_def client_onClose_def onClose_def split: if_splits)
  moreover have "set_status c kTcpConnStatusDisconnected s = s"
    using \<open>status c s = kTcpConnStatusDisconnected\<close>
    by (simp add: set_status_def on_clients_def status_def fun_upd_idem)
  ultimately show ?thesis using assms(1) by simp
next
  case False
  define s1 where "s1 = (if client_up (status c s) then delEvent (nt_conns s c) s else s)"
  let ?s2 = "on_tcp c (\<lambda>t. t\<lparr>tc_closed := True\<rparr>) (set_status c kTcpConnStatusDisconnected s1)"
  have c: "c < cl_next (nt_app s)" "c \<notin> E"
    using assms(2) False client_okD(5,6) [OF assms(1), of c] by (auto simp: client_close_def split: if_splits)
  have "nt_conns s1 = nt_conns s" by (simp add: s1_def delEvent_tcp)
  then obtain s3 where s3: "call_cb (cb_close (base C c)) c ?s2 = Inr s3" "s' = set_tcp c (event_close (nt_conns s3 c) s3)"
    using assms(2) False c(1)
    by (auto simp: client_close_def client_onClose_def onClose_def Let_def s1_def [symmetric] bindr_eq_Inr)
  have "client_ok (insert c E) ?s2" by (rule shut_down [OF assms(1) False c(1) s1_def])
  then have "client_ok (insert c E) s3" using base_keep s3(1) by blast
  then show ?thesis using client_release c(2) s3(2) by simp
qed

end

sublocale client_user \<subseteq> conns: tcp_user "client_ok D" "client_close C" "base C"
proof
  show "client_ok D s \<Longrightarrow> net_ok s" for s by (rule client_okD)
  show "client_ok D s \<Longrightarrow> net_ok s' \<Longrightarrow> same_shape s s' \<Longrightarrow> client_ok D s'" for s s' by (rule same_shape_client)
  show "client_ok D s \<Longrightarrow> client_close C c s = Inr s' \<Longrightarrow> client_ok D s'" for s c s' by (rule close_keeps)
qed (use base_keep in blast)+

sublocale client_user \<subseteq> prog: tcp_program "client_ok D" "client_close C" "base C" "\<lambda>_. Inr" after "\<lambda>_. Inr"
  by unfold_locales (auto intro: timers_keep)

context client_user begin

lemma update_keeps:
  assumes "client_ok D s" "client_up (status c s)" "updateConnectionStatus C c s = Inr s'"
  shows "client_ok D s'"
  using connected_keeps [OF assms(1,2)] assms(3) connected_keep
  by (auto simp: updateConnectionStatus_def Let_def split: option.splits)

lemma connect_done_keeps:
  assumes "client_ok D s" "status c s = kTcpConnStatusConnecting" "connect_done C c s = Inr s'"
  shows "client_ok D s'"
proof -
  let ?s1 = "on_clients (\<lambda>a. a\<lparr>cl_failed := (cl_failed a)(c := False)\<rparr>) s"
  have i: "client_ok D ?s1" by (rule client_app [OF assms(1)]) simp_all
  moreover have "client_up (status c ?s1)" using assms(2) by (simp add: status_def)
  moreover have "client_close C c ?s1 = Inr s' \<or> updateConnectionStatus C c ?s1 = Inr s'"
    using assms(3) by (simp add: connect_done_def checkError_def split: if_splits)
  ultimately show ?thesis using close_keeps update_keeps by blast
qed

lemma handle_keeps: "client_ok D s \<Longrightarrow> client_handle C ob h s = Inr s' \<Longrightarrow> client_ok D s'"
  by (cases "(C, ob, h, s)" rule: client_handle.cases)
    (auto simp: onError_def client_onRead_def client_onWrite_def split: if_splits
      intro: prog.pipe_change prog.pipe_fd dest: close_keeps connect_done_keeps conns.onRead_keeps conns.onWrite_keeps prog.net_handle_keeps)

lemma connectInLoop_keeps:
  assumes "client_ok D s" "status c s = kTcpConnStatusInit" "c < cl_next (nt_app s)"
    and "\<And>fd fds. cl_sockets (nt_app s) = fd # fds \<Longrightarrow> fd_unused fd s" "connectInLoop C c s = Inr s'"
  shows "client_ok D s'"
proof (cases "cl_sockets (nt_app s)")
  case Nil
  have "client_ok D (on_tcp c (\<lambda>t. t\<lparr>ev_fd := -1\<rparr>) s)" by (rule no_socket_keeps [OF assms(1,2)])
  then show ?thesis using close_keeps assms(5) Nil by (simp add: connectInLoop_def)
next
  case (Cons fd fds)
  let ?s1 = "on_clients (\<lambda>a. a\<lparr>cl_sockets := fds\<rparr>) s"
  have "client_ok D ?s1" by (rule client_app [OF assms(1)]) simp_all
  moreover have "fd_unused fd ?s1" using assms(4) [OF Cons] by (simp add: fd_unused_def)
  ultimately have opened: "client_ok D (open_client fd c ?s1)"
    using assms(2,3) by (intro open_client_keeps) (simp_all add: status_def)
  obtain s2 where s2: "enableCheckIdleTimeout (client_close C) 3 c (open_client fd c ?s1) = Inr s2" "do_connect C c s2 = Inr s'"
    using assms(5) Cons by (auto simp: connectInLoop_def bindr_eq_Inr)
  have i2: "client_ok D s2" by (rule conns.idle_keeps [OF s2(1) opened])
  then have i3: "client_ok D (on_clients (\<lambda>a. a\<lparr>cl_connects := tl (cl_connects a)\<rparr>) s2)"
    by (rule client_app) simp_all
  obtain w where "s2 = (on_tcp c (\<lambda>t. t\<lparr>tc_idle := 3, tc_entry := Some (length (nt_entries (open_client fd c ?s1)))\<rparr>)
      ((open_client fd c ?s1)\<lparr>nt_entries := nt_entries (open_client fd c ?s1) @ [c]\<rparr>))\<lparr>el_wheel := w\<rparr>"
    using enableCheckIdleTimeout_short [OF s2(1)] by auto
  then have "status c s2 = kTcpConnStatusConnecting"
    by (simp add: status_def open_client_app set_status_def)
  then have up: "client_up (status c (on_clients (\<lambda>a. a\<lparr>cl_connects := tl (cl_connects a)\<rparr>) s2))" (is "client_up (status c ?s3)")
    by (simp add: status_def)
  have "s' = ?s3 \<or> client_close C c ?s3 = Inr s' \<or> updateConnectionStatus C c ?s3 = Inr s'"
    using s2(2) by (auto simp: do_connect_def Let_def split: list.splits connect_answer.splits)
  then show ?thesis using i3 close_keeps [OF i3] update_keeps [OF i3 up] by blast
qed

lemma hand_keeps:
  fixes s :: "'b clients net"
  assumes "client_ok D s" "el_pipe s = None \<Longrightarrow> fd_unused (fst fds) s" "enqueueTask False run PipeObj fds t s = Inr s'"
  shows "client_ok D s'"
proof -
  let ?s0 = "s\<lparr>el_tasks := el_tasks s @ [t]\<rparr>"
  have i0: "client_ok D ?s0" using conns.books_change [OF assms(1)] by blast
  have "client_ok D (initPipe PipeObj fds ?s0)"
  proof (cases "el_pipe s")
    case None
    then have "fd_unused (fst fds) ?s0" using assms(2) by (simp add: fd_unused_def)
    then show ?thesis using i0 None by (intro client_pipe_keeps) simp_all
  next
    case (Some p)
    then have "initPipe PipeObj fds ?s0 = ?s0" by (simp add: initPipe_def)
    then show ?thesis using i0 by simp
  qed
  then show ?thesis using assms(3) prog.pipe_change [of "pipe_write 8"]
    by (auto simp: enqueueTask_def wakeUp_def Let_def pipe_write_def)
qed

end

sublocale client_user \<subseteq> in_loop: loop_client "client_ok D" "client_handle C"
    "run_task (client_close C) (base C) after (\<lambda>_. Inr)" "fire_timer (client_close C) after"
  by unfold_locales
    (use handle_keeps prog.run_task_keeps prog.fire_timer_keeps conns.wheel_change conns.books_change in blast)+

context client_user begin

lemma client_step_keeps:
  assumes "client_ok D s" "client_step C after e s = Inr s'"
  shows "client_ok D s'"
proof (cases e)
  case NewClient
  then show ?thesis using assms new_client_keeps by auto
next
  case (Connect c)
  then have "s' = s \<or> status c s = kTcpConnStatusInit \<and> c < cl_next (nt_app s) \<and>
      (\<forall>fd fds. cl_sockets (nt_app s) = fd # fds \<longrightarrow> fd_unused fd s) \<and> connectInLoop C c s = Inr s'"
    using assms(2) by (auto simp: enqueueTask_def split: if_splits list.splits)
  then show ?thesis using assms(1) connectInLoop_keeps [OF assms(1), of c s'] by blast
next
  case (Arrives c rs ts)
  have "client_ok D (on_tcp c (\<lambda>t. t\<lparr>so_rx := so_rx t @ rs, so_tx := so_tx t @ ts\<rparr>) s)"
    using assms(1) by (rule conns.on_tcp_keeps) (simp_all add: data_step_def conn_ok_def)
  then show ?thesis using assms(2) Arrives by simp
next
  case (Hand t fds)
  then have "s' = s \<or> (el_pipe s = None \<longrightarrow> fd_unused (fst fds) s) \<and>
      enqueueTask False (client_run_task C after) PipeObj fds t s = Inr s'"
    using assms(2) by (auto split: if_splits)
  then show ?thesis using assms(1) hand_keeps [OF assms(1), of fds "client_run_task C after" t s'] by (elim disjE conjE) simp_all
next
  case (Turns w)
  then have "loop_turn (client_handle C) (run_task (client_close C) (base C) after (\<lambda>_. Inr))
      (fire_timer (client_close C) after) w s = Inr s'"
    using assms(2) by (simp add: client_run_task_def [abs_def])
  then show ?thesis by (rule in_loop.turn_keeps) (rule assms(1))
qed (use assms(2) client_app [OF assms(1)] in auto)

lemma client_run_keeps: "client_run C after es s = Inr s' \<Longrightarrow> client_ok D s \<Longrightarrow> client_ok D s'"
  by (induction es arbitrary: s) (auto simp: res_simps dest: client_step_keeps)

end

end
