(* ===== verification/InetAddress.thy ===== *)
theory InetAddress
  imports LssString
begin

text \<open>
  \<open>LSSInetAddress\<close> of \<open>src/network/base/lssvc_inetaddress.cpp\<close>: an address and a port as strings, what
  they are as numbers, and which networks an address belongs to.

  \<open>inet_pton\<close> belongs to the operating system. It is a parameter: \<open>pton s\<close> is the IPv4 address of the
  string, in the host's byte order, and \<open>pton6 s\<close> the sixteen bytes of an IPv6 address; both are
  \<open>None\<close> for a string that is no address, for which the code goes on with zeros.
\<close>

section \<open>Numbers as strings\<close>

definition digit :: "nat \<Rightarrow> char" where
  "digit n = char_of (48 + n)"

fun to_string :: "nat \<Rightarrow> string" where
  "to_string n = (if n < 10 then [digit n] else to_string (n div 10) @ [digit (n mod 10)])"

declare to_string.simps [simp del]

definition is_digit :: "char \<Rightarrow> bool" where
  "is_digit c \<longleftrightarrow> 48 \<le> (of_char c :: nat) \<and> (of_char c :: nat) \<le> 57"

definition is_space :: "char \<Rightarrow> bool" where
  "is_space c \<longleftrightarrow> (of_char c :: nat) = 32 \<or> 9 \<le> (of_char c :: nat) \<and> (of_char c :: nat) \<le> 13"

fun digits_value :: "int \<Rightarrow> string \<Rightarrow> int" where
  "digits_value n [] = n"
| "digits_value n (c # s) = (if is_digit c then digits_value (n * 10 + int (of_char c) - 48) s else n)"

text \<open>\<open>atoi\<close> skips spaces, takes a sign and digits; it is \<open>strtol\<close>, which saturates, cut to an \<open>int\<close>.\<close>

definition saturate_long :: "int \<Rightarrow> int" where
  "saturate_long n = max (- (2 ^ 63)) (min n (2 ^ 63 - 1))"

definition atoi :: "string \<Rightarrow> int" where
  "atoi s =
     (case dropWhile is_space s of
        [] \<Rightarrow> 0
      | c # r \<Rightarrow>
          i32 (saturate_long
            (if c = CHR ''-'' then - digits_value 0 r
             else if c = CHR ''+'' then digits_value 0 r
             else digits_value 0 (c # r))))"

section \<open>Addresses\<close>

record inet_addr =
  ia_addr :: string
  ia_port :: string
  ia_ipv6 :: bool

definition getIpAndPort :: "string \<Rightarrow> string \<Rightarrow> string \<Rightarrow> int \<times> string \<times> string" where
  "getIpAndPort host ip port =
     (case split host '':'' False of
        [a] \<Rightarrow> (-1, a, ''0'')
      | [a, b] \<Rightarrow> (0, a, b)
      | _ \<Rightarrow> (-1, ip, port))"

definition newInetAddress :: "string \<Rightarrow> u16 \<Rightarrow> bool \<Rightarrow> inet_addr" where
  "newInetAddress ip port ipv6 = \<lparr>ia_addr = ip, ia_port = to_string (unat port), ia_ipv6 = ipv6\<rparr>"

text \<open>The constructor from a host assigns \<open>is_ipv6_\<close> to itself: its argument is lost.\<close>

definition newInetHost :: "string \<Rightarrow> bool \<Rightarrow> inet_addr" where
  "newInetHost host ipv6 =
     (case getIpAndPort host [] [] of (r, ip, port) \<Rightarrow> \<lparr>ia_addr = ip, ia_port = port, ia_ipv6 = False\<rparr>)"

definition setHost :: "string \<Rightarrow> inet_addr \<Rightarrow> inet_addr" where
  "setHost host a =
     (case getIpAndPort host (ia_addr a) (ia_port a) of (r, ip, port) \<Rightarrow> a\<lparr>ia_addr := ip, ia_port := port\<rparr>)"

definition setAddr :: "string \<Rightarrow> inet_addr \<Rightarrow> inet_addr" where
  "setAddr ip a = a\<lparr>ia_addr := ip\<rparr>"

definition setPort :: "u16 \<Rightarrow> inet_addr \<Rightarrow> inet_addr" where
  "setPort port a = a\<lparr>ia_port := to_string (unat port)\<rparr>"

definition setIsIpv6 :: "bool \<Rightarrow> inet_addr \<Rightarrow> inet_addr" where
  "setIsIpv6 v a = a\<lparr>ia_ipv6 := v\<rparr>"

definition getIp :: "inet_addr \<Rightarrow> string" where
  "getIp a = ia_addr a"

definition toIpWithPort :: "inet_addr \<Rightarrow> string" where
  "toIpWithPort a = ia_addr a @ '':'' @ ia_port a"

definition getPort :: "inet_addr \<Rightarrow> u16" where
  "getPort a = word_of_int (atoi (ia_port a))"

section \<open>Addresses as numbers\<close>

definition IPv4 :: "(string \<Rightarrow> u32 option) \<Rightarrow> string \<Rightarrow> u32" where
  "IPv4 pton ip = (case pton ip of None \<Rightarrow> 0 | Some w \<Rightarrow> w)"

definition getIpv4 :: "(string \<Rightarrow> u32 option) \<Rightarrow> inet_addr \<Rightarrow> u32" where
  "getIpv4 pton a = IPv4 pton (ia_addr a)"

datatype sockaddr = SockIn u16 u32 | SockIn6 u16 bytes

definition getSockAddr :: "(string \<Rightarrow> u32 option) \<Rightarrow> (string \<Rightarrow> bytes option) \<Rightarrow> inet_addr \<Rightarrow> sockaddr" where
  "getSockAddr pton pton6 a =
     (if ia_ipv6 a
      then SockIn6 (word_of_int (atoi (ia_port a))) (case pton6 (ia_addr a) of None \<Rightarrow> replicate 16 0 | Some b \<Rightarrow> b)
      else SockIn (word_of_int (atoi (ia_port a))) (IPv4 pton (ia_addr a)))"

section \<open>Networks\<close>

definition INADDR_LOOPBACK :: u32 where
  "INADDR_LOOPBACK = 0x7f000001"

definition in_range :: "(string \<Rightarrow> u32 option) \<Rightarrow> string \<Rightarrow> string \<Rightarrow> u32 \<Rightarrow> bool" where
  "in_range pton first_ip last_ip ip \<longleftrightarrow> IPv4 pton first_ip \<le> ip \<and> ip \<le> IPv4 pton last_ip"

definition isWanIp :: "(string \<Rightarrow> u32 option) \<Rightarrow> inet_addr \<Rightarrow> bool" where
  "isWanIp pton a =
     (let ip = getIpv4 pton a;
          is_a = in_range pton ''10.0.0.0'' ''10.255.255.255'' ip;
          is_b = in_range pton ''172.16.0.0'' ''172.31.255.255'' ip;
          is_c = in_range pton ''192.168.0.0'' ''192.168.255.255'' ip
      in \<not> is_a \<and> \<not> is_b \<and> \<not> is_c \<and> ip \<noteq> INADDR_LOOPBACK)"

definition isLanIp :: "(string \<Rightarrow> u32 option) \<Rightarrow> inet_addr \<Rightarrow> bool" where
  "isLanIp pton a =
     (let ip = getIpv4 pton a;
          is_a = in_range pton ''10.0.0.0'' ''10.255.255.255'' ip;
          is_b = in_range pton ''172.16.0.0'' ''172.31.255.255'' ip;
          is_c = in_range pton ''192.168.0.0'' ''192.168.255.255'' ip
      in is_a \<or> is_b \<or> is_c)"

definition isLoopbackIp :: "inet_addr \<Rightarrow> bool" where
  "isLoopbackIp a \<longleftrightarrow> ia_addr a = ''127.0.0.1''"

section \<open>Decimal digits\<close>

lemma digit_value: "n < 10 \<Longrightarrow> of_char (digit n) = (48 + n :: nat)"
  by (simp add: digit_def)

lemma digit_is_digit [simp]: "n < 10 \<Longrightarrow> is_digit (digit n)"
  by (simp add: is_digit_def digit_value)

lemma digits_value_append:
  "list_all is_digit s \<Longrightarrow> digits_value n (s @ r) = digits_value (digits_value n s) r"
  by (induction s arbitrary: n) simp_all

lemma to_string_digits: "list_all is_digit (to_string n)"
  by (induction n rule: to_string.induct) (subst to_string.simps, simp)

lemma to_string_ne [simp]: "to_string n \<noteq> []"
  by (subst to_string.simps) simp

lemma digits_value_to_string: "digits_value 0 (to_string n) = int n"
proof (induction n rule: to_string.induct)
  case (1 n)
  show ?case
  proof (cases "n < 10")
    case True
    then show ?thesis by (subst to_string.simps) (simp add: digit_value)
  next
    case False
    then have "digits_value 0 (to_string n) = int (n div 10) * 10 + int (n mod 10)"
      using 1 by (subst to_string.simps) (simp add: digits_value_append to_string_digits digit_value)
    moreover have "int n = int (n div 10 * 10 + n mod 10)" by (simp only: div_mult_mod_eq)
    ultimately show ?thesis by (simp only: of_nat_add of_nat_mult of_nat_numeral)
  qed
qed

lemma digit_ordinary: "is_digit c \<Longrightarrow> \<not> is_space c \<and> c \<noteq> CHR ''-'' \<and> c \<noteq> CHR ''+'' \<and> c \<noteq> CHR '':'' \<and> c \<noteq> CHR ''.''"
  by (auto simp: is_digit_def is_space_def)

lemma to_string_ordinary: "CHR '':'' \<notin> set (to_string n) \<and> CHR ''.'' \<notin> set (to_string n)"
  using to_string_digits [of n] digit_ordinary by (auto simp: list_all_iff)

text \<open>\<open>atoi\<close> reads back what \<open>to_string\<close> wrote.\<close>

lemma atoi_to_string:
  assumes "n < 2 ^ 31"
  shows "atoi (to_string n) = int n"
proof -
  obtain c r where s: "to_string n = c # r" by (cases "to_string n") auto
  have "is_digit c" using to_string_digits [of n] s by simp
  then have "atoi (to_string n) = i32 (saturate_long (digits_value 0 (to_string n)))"
    using digit_ordinary [of c] by (simp add: atoi_def s)
  then show ?thesis using assms by (simp add: digits_value_to_string saturate_long_def i32_id)
qed

section \<open>Dotted addresses\<close>

text \<open>Four numbers with dots, and what \<open>inet_pton\<close> makes of them.\<close>

definition dotted :: "nat \<Rightarrow> nat \<Rightarrow> nat \<Rightarrow> nat \<Rightarrow> string" where
  "dotted a b c d = glue ''.'' (map to_string [a, b, c, d])"

definition dotted_value :: "nat \<Rightarrow> nat \<Rightarrow> nat \<Rightarrow> nat \<Rightarrow> nat" where
  "dotted_value a b c d = (a * 256 + b) * 65536 + (c * 256 + d)"

definition reads_dotted :: "(string \<Rightarrow> u32 option) \<Rightarrow> bool" where
  "reads_dotted pton \<longleftrightarrow> (\<forall>a < 256. \<forall>b < 256. \<forall>c < 256. \<forall>d < 256.
     pton (dotted a b c d) = Some (word_of_nat (dotted_value a b c d)))"

lemma dotted_at:
  "''10.0.0.0'' = dotted 10 0 0 0" "''10.255.255.255'' = dotted 10 255 255 255"
  "''172.16.0.0'' = dotted 172 16 0 0" "''172.31.255.255'' = dotted 172 31 255 255"
  "''192.168.0.0'' = dotted 192 168 0 0" "''192.168.255.255'' = dotted 192 168 255 255"
  by code_simp+

lemma IPv4_dotted:
  assumes "reads_dotted pton" "a < 256" "b < 256" "c < 256" "d < 256"
  shows "unat (IPv4 pton (dotted a b c d)) = dotted_value a b c d"
proof -
  have "dotted_value a b c d < 2 ^ 32" using assms by (simp add: dotted_value_def)
  moreover have "IPv4 pton (dotted a b c d) = word_of_nat (dotted_value a b c d)"
    using assms by (simp add: IPv4_def reads_dotted_def)
  ultimately show ?thesis by (simp add: unat_of_nat take_bit_nat_eq_self)
qed

lemma block_le:
  assumes "r < (m :: nat)"
  shows "k * m \<le> n * m + r \<longleftrightarrow> k \<le> n" "n * m + r \<le> k * m + (m - 1) \<longleftrightarrow> n \<le> k"
proof -
  have "(n * m + r) div m = n" using assms by simp
  then have "k * m \<le> n * m + r \<longleftrightarrow> k \<le> n" "n * m + r < Suc k * m \<longleftrightarrow> n < Suc k"
    using assms by (metis less_eq_div_iff_mult_less_eq gr_implies_not0 neq0_conv)
      (metis div_less_iff_less_mult \<open>(n * m + r) div m = n\<close> assms gr_implies_not0 neq0_conv)
  then show "k * m \<le> n * m + r \<longleftrightarrow> k \<le> n" "n * m + r \<le> k * m + (m - 1) \<longleftrightarrow> n \<le> k"
    using assms by auto
qed

lemma block_eq:
  assumes "y < m" "y' < (m :: nat)"
  shows "x * m + y = x' * m + y' \<longleftrightarrow> x = x' \<and> y = y'"
proof
  assume eq: "x * m + y = x' * m + y'"
  have "(x * m + y) div m = x" "(x * m + y) mod m = y" "(x' * m + y') div m = x'" "(x' * m + y') mod m = y'"
    using assms by simp_all
  then show "x = x' \<and> y = y'" using eq by metis
qed simp

text \<open>A range of whole blocks of 65536 addresses looks at the first two numbers only.\<close>

lemma pair_le: "b < 256 \<Longrightarrow> b' < 256 \<Longrightarrow> a * 256 + b \<le> a' * 256 + b' \<longleftrightarrow> a < a' \<or> a = a' \<and> b \<le> (b' :: nat)"
  by (cases "a < a'"; cases "a = a'") linarith+

lemma in_blocks:
  assumes "reads_dotted pton" "a < 256" "b < 256" "c < 256" "d < 256" "a1 < 256" "b1 < 256" "a2 < 256" "b2 < 256"
  shows "in_range pton (dotted a1 b1 0 0) (dotted a2 b2 255 255) (IPv4 pton (dotted a b c d)) \<longleftrightarrow>
    (a1 < a \<or> a1 = a \<and> b1 \<le> b) \<and> (a < a2 \<or> a = a2 \<and> b \<le> b2)"
proof -
  have "c * 256 + d < 65536" using assms by simp
  note le = block_le [OF this, where n = "a * 256 + b"]
  have "unat (IPv4 pton (dotted a1 b1 0 0)) = (a1 * 256 + b1) * 65536"
    using assms by (simp add: IPv4_dotted dotted_value_def)
  moreover have "unat (IPv4 pton (dotted a2 b2 255 255)) = (a2 * 256 + b2) * 65536 + (65536 - 1)"
    using assms by (simp add: IPv4_dotted dotted_value_def)
  moreover have "unat (IPv4 pton (dotted a b c d)) = (a * 256 + b) * 65536 + (c * 256 + d)"
    using assms by (simp add: IPv4_dotted dotted_value_def)
  ultimately show ?thesis
    using assms by (simp only: in_range_def word_le_nat_alt le pair_le)
qed

lemma lan_dotted:
  assumes "reads_dotted pton" "a < 256" "b < 256" "c < 256" "d < 256"
  shows "in_range pton ''10.0.0.0'' ''10.255.255.255'' (IPv4 pton (dotted a b c d)) \<longleftrightarrow> a = 10"
    "in_range pton ''172.16.0.0'' ''172.31.255.255'' (IPv4 pton (dotted a b c d)) \<longleftrightarrow> a = 172 \<and> 16 \<le> b \<and> b \<le> 31"
    "in_range pton ''192.168.0.0'' ''192.168.255.255'' (IPv4 pton (dotted a b c d)) \<longleftrightarrow> a = 192 \<and> b = 168"
  unfolding dotted_at using assms(2,3) by (auto simp: in_blocks [OF assms])

lemma loopback_dotted:
  assumes "reads_dotted pton" "a < 256" "b < 256" "c < 256" "d < 256"
  shows "IPv4 pton (dotted a b c d) = INADDR_LOOPBACK \<longleftrightarrow> (a, b, c, d) = (127, 0, 0, 1)"
proof -
  have l: "unat INADDR_LOOPBACK = dotted_value 127 0 0 1" by (simp add: INADDR_LOOPBACK_def dotted_value_def)
  have "dotted_value a b c d = dotted_value 127 0 0 1 \<longleftrightarrow> a * 256 + b = 127 * 256 + 0 \<and> c * 256 + d = 0 * 256 + 1"
    unfolding dotted_value_def using assms by (intro block_eq) simp_all
  also have "... \<longleftrightarrow> a = 127 \<and> b = 0 \<and> c = 0 \<and> d = 1"
    using assms block_eq [of b 256 0 a 127] block_eq [of d 256 1 c 0] by simp
  finally show ?thesis unfolding word_unat_eq_iff IPv4_dotted [OF assms] l by simp
qed

lemma split_pieces:
  assumes "ps \<noteq> []" "\<forall>p \<in> set ps. c \<notin> set p" "last ps \<noteq> []"
  shows "split (glue [c] ps) [c] False = ps"
  using split_loop_glue [OF assms(1,2), of False "[]"] assms(3) by (simp add: split_def)

section \<open>Properties\<close>

text \<open>
  An address printed with its port is read back: splitting the printed host gives the address and
  the port string, and the number of the port, as long as the address has no colon, so for IPv4
  addresses and names, not for IPv6.
\<close>

theorem host_round_trip:
  assumes "ip \<noteq> []" "CHR '':'' \<notin> set ip"
  shows "getIpAndPort (toIpWithPort (newInetAddress ip port v)) x y = (0, ip, to_string (unat port)) \<and>
    getIp (newInetHost (toIpWithPort (newInetAddress ip port v)) w) = ip \<and>
    getPort (newInetHost (toIpWithPort (newInetAddress ip port v)) w) = port"
proof -
  let ?host = "toIpWithPort (newInetAddress ip port v)"
  have "?host = glue '':'' [ip, to_string (unat port)]" by (simp add: toIpWithPort_def newInetAddress_def)
  then have get: "getIpAndPort ?host x y = (0, ip, to_string (unat port))" for x y
    using split_pieces [of "[ip, to_string (unat port)]" "CHR '':''"] assms to_string_ordinary
    by (simp add: getIpAndPort_def)
  have "unat port < 2 ^ 16" using unsigned_less [of port] by simp
  then have "atoi (to_string (unat port)) = int (unat port)" by (intro atoi_to_string) simp
  then show ?thesis using get by (simp add: newInetHost_def getIp_def getPort_def)
qed

theorem host_round_trip_witness:
  "getIpAndPort (toIpWithPort (newInetAddress ''192.168.1.10'' 1935 False)) [] [] = (0, ''192.168.1.10'', to_string 1935)"
  using host_round_trip [of "''192.168.1.10''" 1935 False "[]" "[]"] by simp

text \<open>
  The tests for networks. For a dotted address, \<open>isLanIp\<close> holds exactly in the three private networks
  10/8, 172.16/12 and 192.168/16, and \<open>isWanIp\<close> everywhere else but at 127.0.0.1, so also in the rest
  of the loopback network; a string that is no address counts as one of the wide network.
\<close>

theorem private_networks:
  assumes "reads_dotted pton" "a < 256" "b < 256" "c < 256" "d < 256" "pton h = None"
  shows "(isLanIp pton (newInetAddress (dotted a b c d) port v) \<longleftrightarrow>
      a = 10 \<or> (a = 172 \<and> 16 \<le> b \<and> b \<le> 31) \<or> (a = 192 \<and> b = 168)) \<and>
    (isWanIp pton (newInetAddress (dotted a b c d) port v) \<longleftrightarrow>
      \<not> isLanIp pton (newInetAddress (dotted a b c d) port v) \<and> (a, b, c, d) \<noteq> (127, 0, 0, 1)) \<and>
    isWanIp pton (newInetAddress h port v)"
proof -
  have zero: "\<not> in_range pton ''10.0.0.0'' ''10.255.255.255'' 0" "\<not> in_range pton ''172.16.0.0'' ''172.31.255.255'' 0"
    "\<not> in_range pton ''192.168.0.0'' ''192.168.255.255'' 0"
    unfolding dotted_at by (simp_all add: in_range_def word_le_nat_alt IPv4_dotted [OF assms(1)] dotted_value_def)
  have "isWanIp pton (newInetAddress h port v)"
    using zero assms(6) by (simp add: isWanIp_def getIpv4_def newInetAddress_def IPv4_def INADDR_LOOPBACK_def)
  moreover note lan_dotted [OF assms(1-5)] loopback_dotted [OF assms(1-5)]
  ultimately show ?thesis by (simp add: isLanIp_def isWanIp_def getIpv4_def newInetAddress_def)
qed

text \<open>A reader of dotted addresses.\<close>

definition demo_pton :: "string \<Rightarrow> u32 option" where
  "demo_pton s =
     (case split s ''.'' False of
        [a, b, c, d] \<Rightarrow> Some (word_of_nat (dotted_value (nat (atoi a)) (nat (atoi b)) (nat (atoi c)) (nat (atoi d))))
      | _ \<Rightarrow> None)"

lemma demo_pton_reads: "reads_dotted demo_pton"
proof -
  have "split (dotted a b c d) ''.'' False = map to_string [a, b, c, d]" for a b c d
    unfolding dotted_def using to_string_ordinary by (intro split_pieces) simp_all
  moreover have "atoi (to_string n) = int n" if "n < 256" for n
    using that by (intro atoi_to_string) simp
  ultimately show ?thesis by (simp add: reads_dotted_def demo_pton_def)
qed

theorem private_networks_witness:
  "isLanIp demo_pton (newInetAddress (dotted 172 20 0 7) 80 False) \<and>
   isWanIp demo_pton (newInetAddress (dotted 127 0 0 2) 80 False) \<and>
   isWanIp demo_pton (newInetAddress ''localhost'' 80 False)"
proof -
  have none: "demo_pton ''localhost'' = None" by code_simp
  have lt: "(172 :: nat) < 256" "(20 :: nat) < 256" "(0 :: nat) < 256" "(7 :: nat) < 256" "(127 :: nat) < 256" "(2 :: nat) < 256"
    by simp_all
  note lan = private_networks [OF demo_pton_reads lt(1-4) none, of 80 False]
  note loop = private_networks [OF demo_pton_reads lt(5,3,3,6) none, of 80 False]
  have "isLanIp demo_pton (newInetAddress (dotted 172 20 0 7) 80 False)"
    using conjunct1 [OF lan] by (rule iffD2) simp
  moreover have "isWanIp demo_pton (newInetAddress (dotted 127 0 0 2) 80 False)"
    using conjunct1 [OF conjunct2 [OF loop]] conjunct1 [OF loop] by (elim iffD2) simp
  ultimately show ?thesis using conjunct2 [OF conjunct2 [OF lan]] by (intro conjI)
qed

end
