(* ===== verification/RtmpClient.thy ===== *)
theory RtmpClient
  imports TcpClient RtmpLink InetAddress
begin

text \<open>
  \<open>RtmpClient\<close> of \<open>src/mmedia/rtmp/rtmp_client.cpp\<close>: it takes the server from the URL, makes a TCP
  client for it, and when that is connected a client's RTMP context, which starts the handshake. The
  calls of the handler and of the close callback are recorded in order; \<open>rc_servers\<close> is the address
  each TCP client was made for.
\<close>

section \<open>State\<close>

datatype client_call = Closed "nat option" | Handled handler_call

record rtmp_client =
  rc_url :: string
  rc_is_player :: bool
  rc_addr :: inet_addr
  rc_tcp :: "nat option"
  rc_servers :: "nat \<Rightarrow> inet_addr"
  rc_contexts :: "nat \<Rightarrow> ctx option"
  rc_calls :: "client_call list"

type_synonym kstep = "rtmp_client cstep"

definition newRtmpClient :: rtmp_client where
  "newRtmpClient = \<lparr>rc_url = [], rc_is_player = False, rc_addr = \<lparr>ia_addr = [], ia_port = [], ia_ipv6 = False\<rparr>,
     rc_tcp = None, rc_servers = (\<lambda>_. \<lparr>ia_addr = [], ia_port = [], ia_ipv6 = False\<rparr>),
     rc_contexts = Map.empty, rc_calls = []\<rparr>"

definition on_client :: "(rtmp_client \<Rightarrow> rtmp_client) \<Rightarrow> rtmp_client clients net \<Rightarrow> rtmp_client clients net" where
  "on_client f = on_clients (\<lambda>v. v\<lparr>cl_app := f (cl_app v)\<rparr>)"

definition record_call :: "client_call \<Rightarrow> rtmp_client clients net \<Rightarrow> rtmp_client clients net" where
  "record_call e = on_client (\<lambda>a. a\<lparr>rc_calls := rc_calls a @ [e]\<rparr>)"

definition set_context :: "nat \<Rightarrow> ctx \<Rightarrow> rtmp_client clients net \<Rightarrow> rtmp_client clients net" where
  "set_context c x = on_client (\<lambda>a. a\<lparr>rc_contexts := (rc_contexts a)(c \<mapsto> x)\<rparr>)"

definition get_context :: "nat \<Rightarrow> rtmp_client clients net \<Rightarrow> ctx option" where
  "get_context c s = rc_contexts (cl_app (nt_app s)) c"

section \<open>The URL\<close>

text \<open>The first seven characters are not looked at. A port counts only when a slash follows it.\<close>

definition parseUrl :: "string \<Rightarrow> inet_addr \<Rightarrow> bool \<times> inet_addr" where
  "parseUrl url a =
     (if 7 < length url then
        case find_first_of url '':/'' 7 of
          None \<Rightarrow> (False, a)
        | Some pos \<Rightarrow>
            let domain = substr url 7 (pos - 7);
                port = (if url ! pos = CHR '':'' then
                          case find_first_of url ''/'' (pos + 1) of
                            None \<Rightarrow> 1935
                          | Some pos1 \<Rightarrow> word_of_int (atoi (substr url (pos + 1) (pos1 - pos)))
                        else 1935)
            in (True, setPort port (setAddr domain a))
      else (False, a))"

section \<open>The callbacks of the TCP client\<close>

text \<open>\<open>X\<close> tells whether there is a close callback, \<open>H\<close> whether there is a handler.\<close>

definition call_close :: "bool \<Rightarrow> nat option \<Rightarrow> rtmp_client clients net \<Rightarrow> rtmp_client clients net" where
  "call_close X c s = (if X then record_call (Closed c) s else s)"

definition close_cb :: "bool \<Rightarrow> (nat \<Rightarrow> kstep) option" where
  "close_cb X = (if X then Some (\<lambda>c s. Inr (call_close X (Some c) s)) else None)"

text \<open>A close needs only this callback.\<close>

definition close_only :: "bool \<Rightarrow> nat \<Rightarrow> rtmp_client client_callbacks" where
  "close_only X c = \<lparr>cc_base = \<lparr>cb_message = None, cb_close = close_cb X, cb_complete = None, cb_active = None\<rparr>,
     cc_connected = None\<rparr>"

definition client_call_handler :: "bool \<Rightarrow> handler_call \<Rightarrow> rtmp_client clients net \<Rightarrow> rtmp_client clients net" where
  "client_call_handler H e s = (if H then record_call (Handled e) s else s)"

definition update_client :: "bool \<Rightarrow> bool \<Rightarrow> nat \<Rightarrow> ctx \<Rightarrow> ctx \<Rightarrow> kstep" where
  "update_client X H c x y s =
     perform (base (close_only X)) (client_close (close_only X)) (\<lambda>e t. Inr (client_call_handler H e t)) c x y (set_context c y s)"

definition client_onWriteComplete :: "(nat \<Rightarrow> hs_env) \<Rightarrow> bool \<Rightarrow> bool \<Rightarrow> nat \<Rightarrow> kstep" where
  "client_onWriteComplete E X H c s =
     (case get_context c s of
        None \<Rightarrow> Inr s
      | Some x \<Rightarrow>
          bindr (onWriteComplete (conn_env (E c) (cx_hs x) (nt_conns s c)) x) (\<lambda>y. update_client X H c x y s))"

definition onConnection :: "(nat \<Rightarrow> hs_env) \<Rightarrow> bool \<Rightarrow> bool \<Rightarrow> nat \<Rightarrow> bool \<Rightarrow> kstep" where
  "onConnection E X H c connected s =
     (if connected then
        let a = cl_app (nt_app s);
            x0 = newContext H True;
            x = (if rc_is_player a then play (rc_url a) x0 else publish (rc_url a) x0);
            s1 = set_context c x s
        in bindr (startHandShake (conn_env (E c) (cx_hs x) (nt_conns s1 c)) x) (\<lambda>y. update_client X H c x y s1)
      else Inr s)"

definition client_onMessage :: "(nat \<Rightarrow> hs_env) \<Rightarrow> bool \<Rightarrow> bool \<Rightarrow> nat \<Rightarrow> kstep" where
  "client_onMessage E X H c s =
     (case get_context c s of
        None \<Rightarrow> Inr s
      | Some x \<Rightarrow>
          bindr (parse (conn_env (E c) (cx_hs x) (nt_conns s c)) x (tc_buf (nt_conns s c))) (\<lambda>(ret, y, b).
          bindr (update_client X H c x y (on_tcp c (\<lambda>t. t\<lparr>tc_buf := b\<rparr>) s)) (\<lambda>s1.
            if ret = -1 then client_close (close_only X) c s1 else Inr s1)))"

text \<open>What \<open>createTcpClient\<close> sets in a client.\<close>

definition rtmp_client_callbacks :: "(nat \<Rightarrow> hs_env) \<Rightarrow> bool \<Rightarrow> bool \<Rightarrow> nat \<Rightarrow> rtmp_client client_callbacks" where
  "rtmp_client_callbacks E X H c =
     \<lparr>cc_base = \<lparr>cb_message = Some (client_onMessage E X H), cb_close = close_cb X,
        cb_complete = Some (client_onWriteComplete E X H), cb_active = None\<rparr>,
      cc_connected = Some (onConnection E X H)\<rparr>"

section \<open>Playing and publishing\<close>

text \<open>\<open>createTcpClient\<close> with the connect of the new client, in the thread of the loop.\<close>

definition createTcpClient :: "(nat \<Rightarrow> hs_env) \<Rightarrow> bool \<Rightarrow> bool \<Rightarrow> kstep" where
  "createTcpClient E X H s =
     (case parseUrl (rc_url (cl_app (nt_app s))) (rc_addr (cl_app (nt_app s))) of
        (False, a) \<Rightarrow> Inr (call_close X None s)
      | (True, a) \<Rightarrow>
          (case newTcpClient s of
             (c, s1) \<Rightarrow>
               client_step (rtmp_client_callbacks E X H) (\<lambda>_. Inr) (Connect c)
                 (on_client (\<lambda>r. r\<lparr>rc_addr := a, rc_tcp := Some c, rc_servers := (rc_servers r)(c := a)\<rparr>) s1)))"

definition client_play :: "(nat \<Rightarrow> hs_env) \<Rightarrow> bool \<Rightarrow> bool \<Rightarrow> string \<Rightarrow> kstep" where
  "client_play E X H url s = createTcpClient E X H (on_client (\<lambda>r. r\<lparr>rc_is_player := True, rc_url := url\<rparr>) s)"

definition client_publish :: "(nat \<Rightarrow> hs_env) \<Rightarrow> bool \<Rightarrow> bool \<Rightarrow> string \<Rightarrow> kstep" where
  "client_publish E X H url s = createTcpClient E X H (on_client (\<lambda>r. r\<lparr>rc_is_player := False, rc_url := url\<rparr>) s)"

datatype rtmp_client_event = Plays string | Publishes string | Net client_event

fun rtmp_client_step :: "(nat \<Rightarrow> hs_env) \<Rightarrow> bool \<Rightarrow> bool \<Rightarrow> rtmp_client_event \<Rightarrow> kstep" where
  "rtmp_client_step E X H (Plays url) s = client_play E X H url s"
| "rtmp_client_step E X H (Publishes url) s = client_publish E X H url s"
| "rtmp_client_step E X H (Net e) s = client_step (rtmp_client_callbacks E X H) (\<lambda>_. Inr) e s"

fun rtmp_client_run :: "(nat \<Rightarrow> hs_env) \<Rightarrow> bool \<Rightarrow> bool \<Rightarrow> rtmp_client_event list \<Rightarrow> kstep" where
  "rtmp_client_run E X H [] s = Inr s"
| "rtmp_client_run E X H (e # es) s = bindr (rtmp_client_step E X H e s) (rtmp_client_run E X H es)"

section \<open>The callbacks keep the invariant\<close>

lemma client_close_callbacks: "client_close (close_only X) = client_close (rtmp_client_callbacks E X H)"
proof -
  have "cb_close (base (close_only X) c) = cb_close (base (rtmp_client_callbacks E X H) c)" for c
    by (simp add: base_def close_only_def rtmp_client_callbacks_def)
  then show ?thesis by (intro ext) (simp add: client_close_def client_onClose_def onClose_def Let_def)
qed

lemma on_client_keeps: "client_ok D s \<Longrightarrow> client_ok D (on_client f s)"
  unfolding on_client_def by (rule client_app) simp_all

lemmas record_keeps = on_client_keeps [of _ _ "\<lambda>a. a\<lparr>rc_calls := rc_calls a @ [e]\<rparr>" for e, folded record_call_def]

lemma set_context_keeps: "client_ok D s \<Longrightarrow> client_ok D (set_context c x s)"
  by (simp add: set_context_def on_client_keeps)

lemma call_close_keeps: "client_ok D s \<Longrightarrow> client_ok D (call_close X c s)"
  by (simp add: call_close_def record_keeps)

lemma call_handler_keeps: "client_ok D s \<Longrightarrow> client_ok D (client_call_handler H e s)"
  by (simp add: client_call_handler_def record_keeps)

lemma close_cb_keeps: "client_ok D s \<Longrightarrow> call_cb (close_cb X) c s = Inr s' \<Longrightarrow> client_ok D s'"
  by (auto simp: call_cb_def close_cb_def intro: call_close_keeps split: if_splits)

interpretation closer: client_user "close_only X" "\<lambda>_. Inr" D for X D
proof
  show "client_ok E s'"
    if "cb \<in> {cb_message (base (close_only X) c), cb_close (base (close_only X) c), cb_complete (base (close_only X) c),
      cb_active (base (close_only X) c)}" "client_ok E s" "call_cb cb c s = Inr s'" for cb c E s s'
    using that close_cb_keeps [of E s X c s'] by (auto simp: base_def close_only_def call_cb_def [of None])
qed (simp_all add: close_only_def)

lemma update_client_keeps:
  assumes "update_client X H c x y s = Inr s'" "client_ok D s"
  shows "client_ok D s'"
  using assms(1) unfolding update_client_def
  by (rule closer.conns.perform_keeps [rotated]) (use set_context_keeps assms(2) call_handler_keeps in auto)

lemma write_complete_keeps: "client_onWriteComplete E X H c s = Inr s' \<Longrightarrow> client_ok D s \<Longrightarrow> client_ok D s'"
  unfolding client_onWriteComplete_def
  by (auto simp: bindr_eq_Inr split: option.splits dest: update_client_keeps)

lemma connection_keeps: "onConnection E X H c b s = Inr s' \<Longrightarrow> client_ok D s \<Longrightarrow> client_ok D s'"
  unfolding onConnection_def Let_def
  by (auto simp: bindr_eq_Inr split: if_splits dest: update_client_keeps [OF _ set_context_keeps])

lemma message_keeps:
  assumes "client_onMessage E X H c s = Inr s'" "client_ok D s"
  shows "client_ok D s'"
proof (cases "get_context c s")
  case (Some x)
  then obtain ret y b s1 where 1:
      "parse (conn_env (E c) (cx_hs x) (nt_conns s c)) x (tc_buf (nt_conns s c)) = Inr (ret, y, b)"
      "update_client X H c x y (on_tcp c (\<lambda>t. t\<lparr>tc_buf := b\<rparr>) s) = Inr s1"
      "(if ret = -1 then client_close (close_only X) c s1 else Inr s1) = Inr s'"
    using assms(1) unfolding client_onMessage_def by (auto simp: bindr_eq_Inr)
  have "buf_ok (tc_buf (nt_conns s c))"
    using client_okD(1) [OF assms(2)] by (simp add: net_ok_def conn_ok_def)
  then have "data_step (\<lambda>t. t\<lparr>tc_buf := b\<rparr>) (nt_conns s c)"
    using parse_buf [OF 1(1)] by (simp add: data_step_def conn_ok_def)
  then have "client_ok D (on_tcp c (\<lambda>t. t\<lparr>tc_buf := b\<rparr>) s)"
    using assms(2) by (intro closer.conns.on_tcp_keeps) simp_all
  then have "client_ok D s1" using update_client_keeps [OF 1(2)] by blast
  then show ?thesis using 1(3) closer.close_keeps by (auto split: if_splits)
qed (use assms in \<open>simp add: client_onMessage_def\<close>)

interpretation rtmp_client: client_user "rtmp_client_callbacks E X H" "\<lambda>_. Inr" D for E X H D
proof
  show "client_ok G s'"
    if "cb \<in> {cb_message (base (rtmp_client_callbacks E X H) c), cb_close (base (rtmp_client_callbacks E X H) c),
      cb_complete (base (rtmp_client_callbacks E X H) c), cb_active (base (rtmp_client_callbacks E X H) c)}"
      "client_ok G s" "call_cb cb c s = Inr s'" for cb c G s s'
    using that close_cb_keeps [of G s X c s'] message_keeps write_complete_keeps
    by (auto simp: base_def rtmp_client_callbacks_def call_cb_def [of None] call_cb_def [of "Some _"])
qed (auto simp: rtmp_client_callbacks_def dest: connection_keeps)

lemma create_keeps:
  assumes "createTcpClient E X H s = Inr s'" "client_ok D s"
  shows "client_ok D s'"
proof -
  obtain ok a where p: "parseUrl (rc_url (cl_app (nt_app s))) (rc_addr (cl_app (nt_app s))) = (ok, a)" by force
  obtain c s1 where n: "newTcpClient s = (c, s1)" by force
  show ?thesis
  proof (cases ok)
    case True
    have "client_ok D s1" using new_client_keeps [OF assms(2)] n by simp
    then have "client_ok D (on_client (\<lambda>r. r\<lparr>rc_addr := a, rc_tcp := Some c, rc_servers := (rc_servers r)(c := a)\<rparr>) s1)"
      by (rule on_client_keeps)
    then show ?thesis
      using rtmp_client.client_step_keeps assms(1) p n True
      by (simp add: createTcpClient_def del: client_step.simps)
  next
    case False
    then show ?thesis using call_close_keeps assms p by (auto simp: createTcpClient_def)
  qed
qed

lemma rtmp_client_step_keeps: "rtmp_client_step E X H e s = Inr s' \<Longrightarrow> client_ok D s \<Longrightarrow> client_ok D s'"
  by (cases e) (auto simp: client_play_def client_publish_def
      dest: create_keeps [OF _ on_client_keeps] rtmp_client.client_step_keeps)

lemma rtmp_client_run_keeps: "rtmp_client_run E X H es s = Inr s' \<Longrightarrow> client_ok D s \<Longrightarrow> client_ok D s'"
  by (induction es arbitrary: s) (auto simp: res_simps dest: rtmp_client_step_keeps)

section \<open>The start of a connection\<close>

lemma named_hs: "cx_hs (parseNameAndTcUrl x) = cx_hs x" "cx_effects (parseNameAndTcUrl x) = cx_effects x"
  by (simp_all add: parseNameAndTcUrl_def Let_def split: option.splits)

definition role :: "bool \<Rightarrow> bool \<Rightarrow> string \<Rightarrow> ctx" where
  "role H player url = (if player then play url (newContext H True) else publish url (newContext H True))"

lemma role_sel: "cx_hs (role H p url) = newHandShake True" "cx_effects (role H p url) = []"
  by (simp_all add: role_def play_def publish_def named_hs) (simp_all add: newContext_def)

lemma client_starts:
  assumes "env_ok e" "cx_hs x = newHandShake True"
  shows "\<exists>h offset. startHandShake e x = Inr (x\<lparr>cx_hs := h\<rparr>) \<and> hs_out h = [hs_C1S1 h] \<and>
    c1_signed e (hs_C1S1 h) offset rtmp_client_ver rtmp_player_key PLAYER_KEY_OPEN_PART_LEN"
proof -
  obtain h offset where "start e (newHandShake True) = Inr h" "hs_out h = [hs_C1S1 h]"
      "c1_signed e (hs_C1S1 h) offset rtmp_client_ver rtmp_player_key PLAYER_KEY_OPEN_PART_LEN"
    using start_client [OF assms(1)] by blast
  then show ?thesis using assms(2) by (auto simp: startHandShake_def)
qed

lemma send_succeeds:
  assumes "\<not> tc_closed (nt_conns s c)" "tc_iov (nt_conns s c) = []" "so_tx (nt_conns s c) = Took n # as" "xs \<noteq> []"
  shows "\<exists>s'. sendInLoop_buf (silent K) xs c s = Inr s'"
  using assms by (simp add: sendInLoop_buf_def Let_def call_cb_def silent_def)

lemma client_sel [simp]:
  "nt_conns (set_context c x s) = nt_conns s" "status d (set_context c x s) = status d s"
  "get_context d (set_context c x s) = (if d = c then Some x else get_context d s)"
  by (simp_all add: set_context_def on_client_def status_def get_context_def)

lemma asked_context: "asked c xs s s' \<Longrightarrow> get_context d s' = get_context d s \<and> status d s' = status d s"
  by (simp add: asked_def get_context_def status_def)

text \<open>Connected: the context starts the handshake, and its first packet is sent.\<close>

lemma connection_starts:
  assumes "env_ok (E c)" "\<not> tc_closed (nt_conns s c)" "tc_iov (nt_conns s c) = []" "so_tx (nt_conns s c) = Took n # as"
  shows "\<exists>s' h offset. onConnection E X H c True s = Inr s' \<and>
    get_context c s' = Some ((role H (rc_is_player (cl_app (nt_app s))) (rc_url (cl_app (nt_app s))))\<lparr>cx_hs := h\<rparr>) \<and>
    c1_signed (E c) (hs_C1S1 h) offset rtmp_client_ver rtmp_player_key PLAYER_KEY_OPEN_PART_LEN \<and>
    so_asked (nt_conns s' c) = so_asked (nt_conns s c) @ hs_C1S1 h \<and> status c s' = status c s"
proof -
  let ?x = "role H (rc_is_player (cl_app (nt_app s))) (rc_url (cl_app (nt_app s)))"
  let ?e = "conn_env (E c) (cx_hs ?x) (nt_conns s c)"
  have e: "env_ok ?e" "c1_signed ?e = c1_signed (E c)"
    using assms(1) by (simp_all add: env_ok_def conn_env_def c1_signed_def [abs_def])
  obtain h offset where h: "startHandShake ?e ?x = Inr (?x\<lparr>cx_hs := h\<rparr>)" "hs_out h = [hs_C1S1 h]"
      "c1_signed (E c) (hs_C1S1 h) offset rtmp_client_ver rtmp_player_key PLAYER_KEY_OPEN_PART_LEN"
    using client_starts [OF e(1) role_sel(1)] unfolding e(2) by blast
  let ?y = "?x\<lparr>cx_hs := h\<rparr>"
  let ?s = "set_context c ?y (set_context c ?x s)"
  have "length (hs_C1S1 h) = 1537" using h(3) by (simp add: c1_signed_def)
  then have "hs_C1S1 h \<noteq> []" by auto
  then obtain s' where s': "sendInLoop_buf (silent (base (close_only X))) (hs_C1S1 h) c ?s = Inr s'"
    using send_succeeds [of ?s c] assms(2-4) by fastforce
  have "onConnection E X H c True s = Inr s'"
    using h(1,2) s' by (simp add: onConnection_def role_def [symmetric] Let_def update_client_def perform_def role_sel)
  moreover note a = sendInLoop_buf_asked [OF s']
  have "so_asked (nt_conns s' c) = so_asked (nt_conns s c) @ hs_C1S1 h" using a assms(2) by (simp add: asked_def)
  moreover have "get_context c s' = Some ?y" "status c s' = status c s" using asked_context [OF a] by simp_all
  ultimately show ?thesis using h(3) by blast
qed

section \<open>Properties\<close>

text \<open>
  C15: an RTMP client's connections agree with the loop after every run, whatever URLs are played and
  whatever the network answers: a client is connecting or connected exactly while the loop has it
  registered; it is closed exactly when it is disconnected, and unless it is connecting or connected
  it has no descriptor; what is sent and what waits is what it was asked to send, in order.
\<close>

theorem client_tables_agree:
  assumes "rtmp_client_run E X H es (newClientNet newRtmpClient) = Inr s"
  shows "(client_up (status c s) \<longleftrightarrow> el_events s (ev_fd (nt_conns s c)) = Some (Tcp c)) \<and>
    (client_up (status c s) \<longrightarrow> el_epoll s (ev_fd (nt_conns s c)) = Some (ev_mask (nt_conns s c))) \<and>
    (tc_closed (nt_conns s c) \<longleftrightarrow> status c s = kTcpConnStatusDisconnected) \<and>
    (\<not> client_up (status c s) \<longrightarrow> ev_fd (nt_conns s c) \<le> 1) \<and>
    dom (el_epoll s) = dom (el_events s) \<and>
    so_asked (nt_conns s c) = so_sent (nt_conns s c) @ concat (tc_iov (nt_conns s c))"
proof -
  have inv: "client_ok {} s" using rtmp_client_run_keeps [OF assms new_client_net_ok] .
  note i = client_okD [OF inv]
  have "registered s" "conn_ok (nt_conns s c)" using i(1) by (simp_all add: net_ok_def)
  then show ?thesis using i(2) i(4,5) [of c] i(8) [of c] registeredD(1) by (auto simp: conn_ok_def)
qed

text \<open>
  C24: the first event of a connecting client starts the handshake. When the socket reports no error
  and takes some bytes, the client is connected, gets a client's context with the role and the names
  of the URL, and is asked to send exactly the first packet of the handshake, which carries a
  client's digest.
\<close>

theorem connected_client_starts_handshake:
  assumes "env_ok (E c)" "client_ok {} s" "status c s = kTcpConnStatusConnecting" "\<not> cl_failed (nt_app s) c"
    and "tc_iov (nt_conns s c) = []" "so_tx (nt_conns s c) = Took n # as" "h = HRead \<or> h = HWrite"
  shows "\<exists>s' hs offset. client_handle (rtmp_client_callbacks E X H) (Tcp c) h s = Inr s' \<and>
    status c s' = kTcpConnStatusConnected \<and>
    get_context c s' = Some ((role H (rc_is_player (cl_app (nt_app s))) (rc_url (cl_app (nt_app s))))\<lparr>cx_hs := hs\<rparr>) \<and>
    c1_signed (E c) (hs_C1S1 hs) offset rtmp_client_ver rtmp_player_key PLAYER_KEY_OPEN_PART_LEN \<and>
    so_sent (nt_conns s' c) @ concat (tc_iov (nt_conns s' c)) = so_sent (nt_conns s c) @ hs_C1S1 hs"
proof -
  let ?C = "rtmp_client_callbacks E X H"
  let ?s1 = "set_status c kTcpConnStatusConnected (snd (checkError c s))"
  have open_conn: "\<not> tc_closed (nt_conns s c)" using client_okD(5) [OF assms(2)] assms(3) by simp
  have s1: "nt_conns ?s1 = nt_conns s" "status c ?s1 = kTcpConnStatusConnected" "cl_app (nt_app ?s1) = cl_app (nt_app s)"
    by (simp_all add: checkError_def) (simp add: set_status_def)
  obtain s' hs offset where r: "onConnection E X H c True ?s1 = Inr s'"
      "get_context c s' = Some ((role H (rc_is_player (cl_app (nt_app s))) (rc_url (cl_app (nt_app s))))\<lparr>cx_hs := hs\<rparr>)"
      "c1_signed (E c) (hs_C1S1 hs) offset rtmp_client_ver rtmp_player_key PLAYER_KEY_OPEN_PART_LEN"
      "so_asked (nt_conns s' c) = so_asked (nt_conns s c) @ hs_C1S1 hs" "status c s' = kTcpConnStatusConnected"
    using connection_starts [of E c ?s1 n as X H] assms(1,5,6) open_conn unfolding s1 by blast
  have run: "client_handle ?C (Tcp c) h s = Inr s'"
    using assms(3,4,7) r(1)
    by (auto simp: client_onRead_def client_onWrite_def connect_done_def checkError_def updateConnectionStatus_def
        rtmp_client_callbacks_def)
  have "client_ok {} s'" using rtmp_client.handle_keeps [OF assms(2) run] .
  then have "conn_ok (nt_conns s c)" "conn_ok (nt_conns s' c)"
    using client_okD(1) [OF assms(2)] client_okD(1) [of "{}" s'] by (simp_all add: net_ok_def)
  then have "so_sent (nt_conns s' c) @ concat (tc_iov (nt_conns s' c)) = so_sent (nt_conns s c) @ hs_C1S1 hs"
    using r(4) assms(5) by (simp add: conn_ok_def)
  then show ?thesis using run r by blast
qed

section \<open>URLs\<close>

lemma find_first_of_at:
  assumes "set x \<inter> set cs = {}" "c \<in> set cs"
  shows "find_first_of (p @ x @ c # y) cs (length p) = Some (length p + length x)"
proof -
  let ?s = "p @ x @ c # y"
  let ?P = "\<lambda>i. ?s ! i \<notin> set cs"
  have "dropWhile ?P [length p..<length ?s] = dropWhile ?P [length p + length x..<length ?s]"
  proof (rule dropWhile_upt_skip)
    show "\<forall>i. length p \<le> i \<and> i < length p + length x \<longrightarrow> ?P i"
    proof (intro allI impI)
      fix i assume i: "length p \<le> i \<and> i < length p + length x"
      then have "i - length p < length x" by linarith
      then have "?s ! i = x ! (i - length p)" "x ! (i - length p) \<in> set x" using i by (simp_all add: nth_append)
      then show "?P i" using assms(1) by auto
    qed
  qed simp_all
  also have "\<dots> = (length p + length x) # [Suc (length p + length x)..<length ?s]"
    using assms(2) by (subst upt_conv_Cons) (simp_all add: nth_append del: upt_Suc)
  finally show ?thesis by (simp add: find_first_of_def del: upt_Suc)
qed

lemma find_first_of_absent:
  assumes "set x \<inter> set cs = {}"
  shows "find_first_of (p @ x) cs (length p) = None"
proof -
  let ?s = "p @ x"
  have "dropWhile (\<lambda>i. ?s ! i \<notin> set cs) [length p..<length ?s] = []"
    unfolding dropWhile_eq_Nil_conv
  proof
    fix i assume i: "i \<in> set [length p..<length ?s]"
    then have "i - length p < length x" by auto
    then have "?s ! i = x ! (i - length p)" "x ! (i - length p) \<in> set x" using i by (simp_all add: nth_append)
    then show "?s ! i \<notin> set cs" using assms by auto
  qed
  then show ?thesis unfolding find_first_of_def by (simp only: list.case)
qed

lemma atoi_with_slash: "n < 2 ^ 31 \<Longrightarrow> atoi (to_string n @ ''/'') = int n"
proof -
  assume n: "n < 2 ^ 31"
  obtain c r where s: "to_string n = c # r" by (cases "to_string n") auto
  have d: "is_digit c" using to_string_digits [of n] s by simp
  have "digits_value 0 (to_string n @ ''/'') = int n"
    by (simp add: digits_value_append to_string_digits digits_value_to_string is_digit_def)
  moreover have "atoi (to_string n @ ''/'') = i32 (saturate_long (digits_value 0 (to_string n @ ''/'')))"
    using d digit_ordinary [of c] by (simp add: atoi_def s)
  ultimately show ?thesis using n by (simp add: saturate_long_def i32_id)
qed

lemma digits_no_slash: "CHR ''/'' \<notin> set (to_string n)"
  using to_string_digits [of n] by (auto simp: list_all_iff is_digit_def)

text \<open>
  The URL names the server. After seven characters comes the host; the port is the number between
  a colon and the next slash, and 1935 without a colon, or when no slash follows it, whatever number
  the URL then has.
\<close>

theorem url_names_server:
  fixes port :: u16
  assumes "length p = 7" "CHR '':'' \<notin> set host" "CHR ''/'' \<notin> set host" "CHR ''/'' \<notin> set q"
  shows "parseUrl (p @ host @ '':'' @ to_string (unat port) @ ''/'' @ rest) a =
      (True, a\<lparr>ia_addr := host, ia_port := to_string (unat port)\<rparr>) \<and>
    parseUrl (p @ host @ ''/'' @ rest) a = (True, a\<lparr>ia_addr := host, ia_port := to_string 1935\<rparr>) \<and>
    parseUrl (p @ host @ '':'' @ q) a = (True, a\<lparr>ia_addr := host, ia_port := to_string 1935\<rparr>)"
proof (intro conjI)
  have clear: "set host \<inter> set '':/'' = {}" using assms(2,3) by simp
  note at = find_first_of_at [OF clear, of _ p]
  let ?u = "p @ host @ CHR '':'' # to_string (unat port) @ CHR ''/'' # rest"
  have "set (to_string (unat port)) \<inter> set ''/'' = {}" using digits_no_slash by simp
  then have slash: "find_first_of ?u ''/'' (length (p @ host @ '':'')) = Some (length (p @ host @ '':'') + length (to_string (unat port)))"
    using find_first_of_at [of "to_string (unat port)" "''/''" "CHR ''/''" "p @ host @ '':''" rest] by simp
  have "unat port < 2 ^ 16" using unsigned_less [of port] by simp
  then have "atoi (to_string (unat port) @ ''/'') = int (unat port)" by (intro atoi_with_slash) simp
  then show "parseUrl (p @ host @ '':'' @ to_string (unat port) @ ''/'' @ rest) a =
      (True, a\<lparr>ia_addr := host, ia_port := to_string (unat port)\<rparr>)"
    using at [of "CHR '':''"] slash assms(1)
    by (simp add: parseUrl_def substr_def setPort_def setAddr_def nth_append Let_def)
  show "parseUrl (p @ host @ ''/'' @ rest) a = (True, a\<lparr>ia_addr := host, ia_port := to_string 1935\<rparr>)"
    using at [of "CHR ''/''"] assms(1)
    by (simp add: parseUrl_def substr_def setPort_def setAddr_def nth_append Let_def)
  have "find_first_of ((p @ host @ '':'') @ q) ''/'' (length (p @ host @ '':'')) = None"
    using assms(4) by (intro find_first_of_absent) simp
  then show "parseUrl (p @ host @ '':'' @ q) a = (True, a\<lparr>ia_addr := host, ia_port := to_string 1935\<rparr>)"
    using at [of "CHR '':''"] assms(1)
    by (simp add: parseUrl_def substr_def setPort_def setAddr_def nth_append Let_def)
qed

theorem url_names_server_witness:
  "parseUrl ''rtmp://live.example:1936/app/stream'' \<lparr>ia_addr = [], ia_port = [], ia_ipv6 = False\<rparr> =
    (True, \<lparr>ia_addr = ''live.example'', ia_port = to_string 1936, ia_ipv6 = False\<rparr>)"
proof -
  have "to_string (unat (1936 :: u16)) = ''1936''" by code_simp
  then show ?thesis
    using url_names_server [of "''rtmp://''" "''live.example''" "''1936''" "1936 :: u16" "''app/stream''"] by simp
qed

section \<open>A client that connects\<close>

definition demo_client_events :: "rtmp_client_event list" where
  "demo_client_events = [Net (Answers [5] [InProgress]), Plays ''rtmp://h/a/s'', Net (Arrives 0 [] [Took 2000])]"

definition demo_client_wheel :: wheel where
  "demo_client_wheel = newWheel\<lparr>wh_second := (replicate 60 [])[2 := [Entry (Idle 0)]]\<rparr>"

lemma demo_client_idle:
  "el_wheel s = newWheel \<Longrightarrow> loop_insertEntry 3 (Idle 0) s = Inr (True, s\<lparr>el_wheel := demo_client_wheel\<rparr>)"
  by (simp add: loop_insertEntry_def insertEntry_def insertSecondEntry_def put_slot_def before_def newWheel_def
      kTimingMinute_def u32_int_def demo_client_wheel_def)

lemma demo_url: "parseUrl ''rtmp://h/a/s'' \<lparr>ia_addr = [], ia_port = [], ia_ipv6 = False\<rparr> =
    (True, \<lparr>ia_addr = ''h'', ia_port = ''1935'', ia_ipv6 = False\<rparr>)"
  by code_simp

lemma demo_connects:
  "\<exists>s. rtmp_client_run E True True demo_client_events (newClientNet newRtmpClient) = Inr s \<and>
     status 0 s = kTcpConnStatusConnecting \<and> ev_fd (nt_conns s 0) = 5 \<and> \<not> cl_failed (nt_app s) 0 \<and>
     tc_iov (nt_conns s 0) = [] \<and> so_tx (nt_conns s 0) = [Took 2000]"
  by (simp add: demo_client_events_def newClientNet_def newEventLoop_def event_loop.defs newClients_def newRtmpClient_def
      client_play_def createTcpClient_def on_client_def on_clients_def demo_url newTcpClient_def Let_def
      fd_unused_def pipe_fds_def status_def set_status_def enqueueTask_def connectInLoop_def open_client_def addEvent_def
      set_tcp_def on_tcp_def newTcpConnection_def conn_enableWriting_def EventLoop.enableWriting_def
      enableCheckIdleTimeout_def enable_def epoll_defs demo_client_idle do_connect_def)

theorem client_tables_agree_witness:
  "\<exists>s. rtmp_client_run (\<lambda>_. demo_env) True True demo_client_events (newClientNet newRtmpClient) = Inr s \<and>
     status 0 s = kTcpConnStatusConnecting \<and> el_events s 5 = Some (Tcp 0) \<and> dom (el_epoll s) = dom (el_events s)"
proof -
  obtain s where s: "rtmp_client_run (\<lambda>_. demo_env) True True demo_client_events (newClientNet newRtmpClient) = Inr s"
      "status 0 s = kTcpConnStatusConnecting" "ev_fd (nt_conns s 0) = 5"
    using demo_connects by blast
  show ?thesis using client_tables_agree [OF s(1), of 0] s by auto
qed

theorem connected_client_starts_handshake_witness:
  "\<exists>s s' (hs :: handshake) offset. client_handle (rtmp_client_callbacks (\<lambda>_. demo_env) True True) (Tcp 0) HWrite s = Inr s' \<and>
     status 0 s = kTcpConnStatusConnecting \<and> status 0 s' = kTcpConnStatusConnected \<and>
     c1_signed demo_env (hs_C1S1 hs) offset rtmp_client_ver rtmp_player_key PLAYER_KEY_OPEN_PART_LEN"
proof -
  obtain s where s: "rtmp_client_run (\<lambda>_. demo_env) True True demo_client_events (newClientNet newRtmpClient) = Inr s"
      "status 0 s = kTcpConnStatusConnecting" "\<not> cl_failed (nt_app s) 0" "tc_iov (nt_conns s 0) = []"
      "so_tx (nt_conns s 0) = [Took 2000]"
    using demo_connects by blast
  have ok: "client_ok {} s" using rtmp_client_run_keeps [OF s(1) new_client_net_ok] .
  show ?thesis
    using connected_client_starts_handshake [of "\<lambda>_. demo_env" 0, OF demo_env_ok ok s(2-5) disjI2 [OF refl], of True True] s(2)
    by blast
qed

end
