(* ===== verification/SocketOpt.thy ===== *)
theory SocketOpt
  imports InetAddress
begin

text \<open>
  \<open>LSSocketOpt\<close> of \<open>src/network/base/lssvc_socketopt.cpp\<close>: the calls its operations make on a socket,
  and the addresses they read back. Text forms of addresses are the parameters \<open>ntop\<close> and \<open>ntop6\<close>
  for \<open>inet_ntop\<close>, \<open>pton\<close> and \<open>pton6\<close> for \<open>inet_pton\<close>.
\<close>

section \<open>Calls\<close>

datatype protocol = IPPROTO_TCP | IPPROTO_UDP
datatype sock_option = TCP_NODELAY | SO_REUSEADDR | SO_REUSEPORT | SO_KEEPALIVE
datatype sock_flag = SOCK_NONBLOCK | SOCK_CLOEXEC | O_NONBLOCK | FD_CLOEXEC

datatype socket_call =
    SocketCall int protocol "sock_flag list"
  | AddFlag int sock_flag
  | BindCall int sockaddr nat
  | ListenCall int nat
  | ConnectCall int sockaddr nat
  | OptionCall int sock_option bool

definition createNonblockingTcpSocket :: "int \<Rightarrow> socket_call" where
  "createNonblockingTcpSocket family = SocketCall family IPPROTO_TCP [SOCK_NONBLOCK, SOCK_CLOEXEC]"

definition createNonblockingUdpSocket :: "int \<Rightarrow> socket_call" where
  "createNonblockingUdpSocket family = SocketCall family IPPROTO_UDP [SOCK_NONBLOCK, SOCK_CLOEXEC]"

text \<open>Each flag is added to those the descriptor has.\<close>

definition setNonblocking :: "int \<Rightarrow> socket_call list" where
  "setNonblocking fd = [AddFlag fd O_NONBLOCK, AddFlag fd FD_CLOEXEC]"

definition sizeof_in :: nat where "sizeof_in = 16"
definition sizeof_in6 :: nat where "sizeof_in6 = 28"
definition SOMAXCONN :: nat where "SOMAXCONN = 4096"

definition bindAddress :: "(string \<Rightarrow> u32 option) \<Rightarrow> (string \<Rightarrow> bytes option) \<Rightarrow> int \<Rightarrow> inet_addr \<Rightarrow> socket_call" where
  "bindAddress pton pton6 fd a = BindCall fd (getSockAddr pton pton6 a) (if ia_ipv6 a then sizeof_in6 else sizeof_in)"

definition opt_listen :: "int \<Rightarrow> socket_call" where
  "opt_listen fd = ListenCall fd SOMAXCONN"

definition opt_connect :: "(string \<Rightarrow> u32 option) \<Rightarrow> (string \<Rightarrow> bytes option) \<Rightarrow> int \<Rightarrow> inet_addr \<Rightarrow> socket_call" where
  "opt_connect pton pton6 fd a = ConnectCall fd (getSockAddr pton pton6 a) sizeof_in6"

definition setTcpNoDelay :: "bool \<Rightarrow> int \<Rightarrow> socket_call" where
  "setTcpNoDelay on fd = OptionCall fd TCP_NODELAY on"

definition setReuseAddr :: "bool \<Rightarrow> int \<Rightarrow> socket_call" where
  "setReuseAddr on fd = OptionCall fd SO_REUSEADDR on"

definition setReusePort :: "bool \<Rightarrow> int \<Rightarrow> socket_call" where
  "setReusePort on fd = OptionCall fd SO_REUSEPORT on"

definition setKeepAlive :: "bool \<Rightarrow> int \<Rightarrow> socket_call" where
  "setKeepAlive on fd = OptionCall fd SO_KEEPALIVE on"

section \<open>Addresses\<close>

text \<open>What the operations write into an address object for what the kernel answers.\<close>

fun put_sockaddr :: "(u32 \<Rightarrow> string) \<Rightarrow> (bytes \<Rightarrow> string) \<Rightarrow> sockaddr \<Rightarrow> inet_addr \<Rightarrow> inet_addr" where
  "put_sockaddr ntop ntop6 (SockIn p w) a = setPort p (setAddr (ntop w) a)"
| "put_sockaddr ntop ntop6 (SockIn6 p b) a = setIsIpv6 True (setPort p (setAddr (ntop6 b) a))"

definition nullAddress :: inet_addr where
  "nullAddress = \<lparr>ia_addr = [], ia_port = [], ia_ipv6 = False\<rparr>"

text \<open>\<open>accept\<close> fills in the caller's object, whose flag for IPv6 an IPv4 peer leaves as it is.\<close>

definition opt_accept ::
  "(u32 \<Rightarrow> string) \<Rightarrow> (bytes \<Rightarrow> string) \<Rightarrow> int \<times> sockaddr \<Rightarrow> inet_addr \<Rightarrow> int \<times> inet_addr" where
  "opt_accept ntop ntop6 r a = (fst r, if 0 < fst r then put_sockaddr ntop ntop6 (snd r) a else a)"

definition getLocalAddr :: "(u32 \<Rightarrow> string) \<Rightarrow> (bytes \<Rightarrow> string) \<Rightarrow> sockaddr \<Rightarrow> inet_addr" where
  "getLocalAddr ntop ntop6 sa = put_sockaddr ntop ntop6 sa nullAddress"

definition getPeerAddr :: "(u32 \<Rightarrow> string) \<Rightarrow> (bytes \<Rightarrow> string) \<Rightarrow> sockaddr \<Rightarrow> inet_addr" where
  "getPeerAddr ntop ntop6 sa = put_sockaddr ntop ntop6 sa nullAddress"

text \<open>The same in a fresh object, where the flag is set either way.\<close>

fun peer_address :: "(u32 \<Rightarrow> string) \<Rightarrow> (bytes \<Rightarrow> string) \<Rightarrow> sockaddr \<Rightarrow> inet_addr" where
  "peer_address ntop ntop6 (SockIn p w) = setIsIpv6 False (put_sockaddr ntop ntop6 (SockIn p w) nullAddress)"
| "peer_address ntop ntop6 (SockIn6 p b) = put_sockaddr ntop ntop6 (SockIn6 p b) nullAddress"

text \<open>
  An address survives the way through the kernel. What a socket is bound or connected to, read
  back from the socket or accepted from it, is the address that was given, for both families, as long
  as its text is the form \<open>inet_ntop\<close> prints.
\<close>

theorem socket_address_round_trip:
  assumes "if v6 then (\<exists>b. pton6 ip = Some b \<and> ntop6 b = ip) else (\<exists>w. pton ip = Some w \<and> ntop w = ip)"
    and "a = newInetAddress ip port v6" "0 < fd"
  shows "getPeerAddr ntop ntop6 (getSockAddr pton pton6 a) = a \<and>
    getLocalAddr ntop ntop6 (getSockAddr pton pton6 a) = a \<and>
    opt_accept ntop ntop6 (fd, getSockAddr pton pton6 a) nullAddress = (fd, a)"
proof -
  have "unat port < 2 ^ 16" using unsigned_less [of port] by simp
  then have "atoi (to_string (unat port)) = int (unat port)" by (intro atoi_to_string) simp
  then have "put_sockaddr ntop ntop6 (getSockAddr pton pton6 a) nullAddress = a"
    using assms(1,2) by (auto simp: getSockAddr_def newInetAddress_def IPv4_def nullAddress_def setPort_def setAddr_def
        setIsIpv6_def split: if_splits)
  then show ?thesis using assms(3) by (simp add: getPeerAddr_def getLocalAddr_def opt_accept_def)
qed

theorem socket_address_round_trip_witness:
  "getPeerAddr (\<lambda>w. dotted 10 0 0 7) (\<lambda>b. []) (getSockAddr demo_pton (\<lambda>x. None) (newInetAddress (dotted 10 0 0 7) 1935 False))
     = newInetAddress (dotted 10 0 0 7) 1935 False"
proof -
  have "\<exists>w. demo_pton (dotted 10 0 0 7) = Some w" using demo_pton_reads by (simp add: reads_dotted_def)
  then show ?thesis
    using socket_address_round_trip [of False "\<lambda>x. None" "dotted 10 0 0 7" "\<lambda>b. []" demo_pton "\<lambda>w. dotted 10 0 0 7"
        "newInetAddress (dotted 10 0 0 7) (1935 :: u16) False" "1935 :: u16" 3] by simp
qed

end
