(* ===== verification/Dns.thy ===== *)
theory Dns
  imports SocketOpt
begin

text \<open>
  \<open>DnsService\<close> of \<open>src/network/dns_service.cpp\<close>: the addresses of host names, which a thread of its
  own looks up again and again. The table is a list of pairs in the order in which it is walked; what
  \<open>getaddrinfo\<close> answers to each attempt is a parameter. A round of the thread is one step: hosts are
  never taken out, and each update holds the lock.
\<close>

section \<open>State\<close>

record dns_service =
  dn_hosts :: "(string \<times> inet_addr list) list"
  dn_interval :: int
  dn_sleep :: int
  dn_retry :: int
  dn_running :: bool

definition newDnsService :: "int \<Rightarrow> int \<Rightarrow> int \<Rightarrow> dns_service" where
  "newDnsService interval sleep retry =
     \<lparr>dn_hosts = [], dn_interval = interval, dn_sleep = sleep, dn_retry = retry, dn_running = False\<rparr>"

definition setDnsServiceParam :: "int \<Rightarrow> int \<Rightarrow> int \<Rightarrow> dns_service \<Rightarrow> dns_service" where
  "setDnsServiceParam interval sleep retry d = d\<lparr>dn_interval := interval, dn_sleep := sleep, dn_retry := retry\<rparr>"

definition dns_start :: "dns_service \<Rightarrow> dns_service" where
  "dns_start d = d\<lparr>dn_running := True\<rparr>"

definition dns_stop :: "dns_service \<Rightarrow> dns_service" where
  "dns_stop d = d\<lparr>dn_running := False\<rparr>"

section \<open>The table\<close>

definition addHost :: "string \<Rightarrow> dns_service \<Rightarrow> dns_service" where
  "addHost host d = (if map_of (dn_hosts d) host \<noteq> None then d else d\<lparr>dn_hosts := dn_hosts d @ [(host, [])]\<rparr>)"

text \<open>The index is converted to 64 bits without a sign before the division.\<close>

definition getHostAddress :: "string \<Rightarrow> int \<Rightarrow> dns_service \<Rightarrow> inet_addr option" where
  "getHostAddress host index d =
     (case map_of (dn_hosts d) host of
        None \<Rightarrow> None
      | Some as \<Rightarrow> if 0 < length as then Some (as ! (unat (word_of_int index :: u64) mod length as)) else None)"

definition getHostAddresses :: "string \<Rightarrow> dns_service \<Rightarrow> inet_addr list" where
  "getHostAddresses host d = (case map_of (dn_hosts d) host of None \<Rightarrow> [] | Some as \<Rightarrow> as)"

definition getHosts :: "dns_service \<Rightarrow> (string \<times> inet_addr list) list" where
  "getHosts d = dn_hosts d"

text \<open>The addresses are swapped with those there were, which the caller gets.\<close>

definition updateHost :: "string \<Rightarrow> inet_addr list \<Rightarrow> dns_service \<Rightarrow> inet_addr list \<times> dns_service" where
  "updateHost host as d =
     (getHostAddresses host d,
      if map_of (dn_hosts d) host = None then d\<lparr>dn_hosts := dn_hosts d @ [(host, as)]\<rparr>
      else d\<lparr>dn_hosts := map (\<lambda>(h, bs). (h, if h = host then as else bs)) (dn_hosts d)\<rparr>)"

section \<open>Looking up\<close>

text \<open>
  \<open>getaddrinfo\<close> succeeds with a list, in which an entry of another family carries no address, or fails
  with one of its codes. On a failure nothing is promised about the caller's pointer to the list, which
  the code does not initialise. What it holds then is part of the answer: it may be null, it may point to
  a list, such as that of an earlier call, as lists are never freed, or to no list at all.
\<close>

datatype list_ptr = NullPtr | ListPtr "sockaddr option list" | WildPtr
datatype gai = GaiOk "sockaddr option list" | GaiFail int list_ptr

definition EAI_BADFLAGS :: int where "EAI_BADFLAGS = -1"
definition EAI_NONAME :: int where "EAI_NONAME = -2"
definition EAI_AGAIN :: int where "EAI_AGAIN = -3"

definition entry_address :: "(u32 \<Rightarrow> string) \<Rightarrow> (bytes \<Rightarrow> string) \<Rightarrow> sockaddr option \<Rightarrow> inet_addr" where
  "entry_address ntop ntop6 e =
     (case e of None \<Rightarrow> nullAddress | Some sa \<Rightarrow> peer_address ntop ntop6 sa)"

text \<open>
  Nothing is found after the code -1 or when the pointer is null; after any other failure the code walks
  the list behind the pointer.
\<close>

definition getHostInfo :: "(u32 \<Rightarrow> string) \<Rightarrow> (bytes \<Rightarrow> string) \<Rightarrow> gai \<Rightarrow> inet_addr list res" where
  "getHostInfo ntop ntop6 r =
     (case r of
        GaiOk es \<Rightarrow> Inr (map (entry_address ntop ntop6) es)
      | GaiFail code res \<Rightarrow>
          if code = -1 then Inr []
          else (case res of
            NullPtr \<Rightarrow> Inr []
          | ListPtr es \<Rightarrow> Inr (map (entry_address ntop ntop6) es)
          | WildPtr \<Rightarrow> Inl OutOfBounds))"

text \<open>The attempts for a host: \<open>G host i\<close> is the answer to attempt \<open>i\<close>.\<close>

function attempts ::
  "(u32 \<Rightarrow> string) \<Rightarrow> (bytes \<Rightarrow> string) \<Rightarrow> (string \<Rightarrow> int \<Rightarrow> gai) \<Rightarrow> string \<Rightarrow> int \<Rightarrow> dns_service \<Rightarrow> dns_service res"
where
  "attempts ntop ntop6 G host i d =
     (if i < dn_retry d then
        bindr (getHostInfo ntop ntop6 (G host i)) (\<lambda>as.
          if 0 < length as then Inr (snd (updateHost host as d)) else attempts ntop ntop6 G host (i + 1) d)
      else Inr d)"
  by pat_completeness auto

termination
  by (relation "measure (\<lambda>(ntop, ntop6, G, host, i, d). nat (dn_retry d - i))") auto

declare attempts.simps [simp del]

fun dns_round ::
  "(u32 \<Rightarrow> string) \<Rightarrow> (bytes \<Rightarrow> string) \<Rightarrow> (string \<Rightarrow> int \<Rightarrow> gai) \<Rightarrow> string list \<Rightarrow> dns_service \<Rightarrow> dns_service res" where
  "dns_round ntop ntop6 G [] d = Inr d"
| "dns_round ntop ntop6 G (h # hs) d = bindr (attempts ntop ntop6 G h 0 d) (dns_round ntop ntop6 G hs)"

text \<open>The thread, over the answers of as many rounds as it makes before it is stopped.\<close>

fun onWork :: "(u32 \<Rightarrow> string) \<Rightarrow> (bytes \<Rightarrow> string) \<Rightarrow> (string \<Rightarrow> int \<Rightarrow> gai) list \<Rightarrow> dns_service \<Rightarrow> dns_service res" where
  "onWork ntop ntop6 [] d = Inr d"
| "onWork ntop ntop6 (G # Gs) d =
     (if dn_running d then bindr (dns_round ntop ntop6 G (map fst (getHosts d)) d) (onWork ntop ntop6 Gs) else Inr d)"

section \<open>What a round finds\<close>

text \<open>
  The reference for a round: a host's first lookup that finds addresses, else what it had. A lookup is
  answered when it does not walk a list that is not there; a host is safe when all lookups that are
  made for it, up to the first that finds addresses, are answered.
\<close>

fun answered :: "gai \<Rightarrow> bool" where
  "answered (GaiFail code WildPtr) = (code = -1)"
| "answered _ = True"

fun addresses :: "(u32 \<Rightarrow> string) \<Rightarrow> (bytes \<Rightarrow> string) \<Rightarrow> gai \<Rightarrow> inet_addr list" where
  "addresses ntop ntop6 (GaiOk es) = map (entry_address ntop ntop6) es"
| "addresses ntop ntop6 (GaiFail code (ListPtr es)) = (if code = -1 then [] else map (entry_address ntop ntop6) es)"
| "addresses ntop ntop6 (GaiFail code _) = []"

definition found :: "(u32 \<Rightarrow> string) \<Rightarrow> (bytes \<Rightarrow> string) \<Rightarrow> (int \<Rightarrow> gai) \<Rightarrow> int \<Rightarrow> inet_addr list option" where
  "found ntop ntop6 g n = find (\<lambda>as. as \<noteq> []) (map (\<lambda>i. addresses ntop ntop6 (g (int i))) [0..<nat n])"

fun answered_from :: "(u32 \<Rightarrow> string) \<Rightarrow> (bytes \<Rightarrow> string) \<Rightarrow> gai list \<Rightarrow> bool" where
  "answered_from ntop ntop6 [] = True"
| "answered_from ntop ntop6 (r # rs) =
     (answered r \<and> (addresses ntop ntop6 r = [] \<longrightarrow> answered_from ntop ntop6 rs))"

definition safe_host :: "(u32 \<Rightarrow> string) \<Rightarrow> (bytes \<Rightarrow> string) \<Rightarrow> (int \<Rightarrow> gai) \<Rightarrow> int \<Rightarrow> bool" where
  "safe_host ntop ntop6 g n = answered_from ntop ntop6 (map (\<lambda>i. g (int i)) [0..<nat n])"

lemma info_cases:
  "getHostInfo ntop ntop6 r = (if answered r then Inr (addresses ntop ntop6 r) else Inl OutOfBounds)"
proof (cases r)
  case (GaiFail code res)
  then show ?thesis by (cases res) (simp_all add: getHostInfo_def)
qed (simp add: getHostInfo_def)

definition set_host :: "string \<Rightarrow> inet_addr list option \<Rightarrow> (string \<times> inet_addr list) list \<Rightarrow> (string \<times> inet_addr list) list" where
  "set_host host new hs = (case new of None \<Rightarrow> hs | Some as \<Rightarrow> map (\<lambda>(h, bs). (h, if h = host then as else bs)) hs)"

lemma map_of_replaced:
  "map_of (map (\<lambda>(h, bs). (h, if h = host then as else bs)) hs) k =
    (if k = host then map_option (\<lambda>_. as) (map_of hs k) else map_of hs k)"
  by (induction hs) auto

lemma attempts_from:
  assumes "map_of (dn_hosts d) host \<noteq> None"
  shows "attempts ntop ntop6 G host (int i) d =
    (if answered_from ntop ntop6 (map (\<lambda>j. G host (int j)) [i..<nat (dn_retry d)]) then
       Inr (d\<lparr>dn_hosts := set_host host
         (find (\<lambda>as. as \<noteq> []) (map (\<lambda>j. addresses ntop ntop6 (G host (int j))) [i..<nat (dn_retry d)])) (dn_hosts d)\<rparr>)
     else Inl OutOfBounds)"
proof (induction "nat (dn_retry d) - i" arbitrary: i)
  case 0
  then have "\<not> int i < dn_retry d" by linarith
  then show ?case using 0 by (subst attempts.simps) (simp add: set_host_def)
next
  case (Suc n)
  then have lt: "int i < dn_retry d" "i < nat (dn_retry d)" "n = nat (dn_retry d) - Suc i" by linarith+
  show ?case
    using Suc.hyps(1) [OF lt(3)] lt(1,2) assms
    by (subst attempts.simps) (simp add: info_cases upt_conv_Cons set_host_def updateHost_def add.commute)
qed

definition refreshed :: "(u32 \<Rightarrow> string) \<Rightarrow> (bytes \<Rightarrow> string) \<Rightarrow> (int \<Rightarrow> gai) \<Rightarrow> int \<Rightarrow> inet_addr list \<Rightarrow> inet_addr list" where
  "refreshed ntop ntop6 g n old = (case found ntop ntop6 g n of None \<Rightarrow> old | Some as \<Rightarrow> as)"

lemma attempts_result:
  assumes "map_of (dn_hosts d) host = Some old"
  shows "if safe_host ntop ntop6 (G host) (dn_retry d) then
      \<exists>d1. attempts ntop ntop6 G host 0 d = Inr d1 \<and> dn_retry d1 = dn_retry d \<and> dn_running d1 = dn_running d \<and>
        map fst (dn_hosts d1) = map fst (dn_hosts d) \<and>
        map_of (dn_hosts d1) = (map_of (dn_hosts d))(host \<mapsto> refreshed ntop ntop6 (G host) (dn_retry d) old)
    else attempts ntop ntop6 G host 0 d = Inl OutOfBounds"
proof -
  have "map fst (set_host host new hs) = map fst hs" for new hs
    by (auto simp: set_host_def split: option.splits)
  moreover have "map_of (set_host host new hs) = (map_of hs)(host \<mapsto> case new of None \<Rightarrow> old | Some as \<Rightarrow> as)"
    if "map_of hs host = Some old" for new hs
    using that by (auto simp: set_host_def map_of_replaced fun_eq_iff split: option.splits)
  ultimately show ?thesis
    using attempts_from [of d host ntop ntop6 G 0] assms by (simp add: refreshed_def found_def safe_host_def)
qed

lemma round_result:
  assumes "set hs \<subseteq> dom (map_of (dn_hosts d))" "distinct hs"
  shows "if \<forall>h \<in> set hs. safe_host ntop ntop6 (G h) (dn_retry d) then
      \<exists>d1. dns_round ntop ntop6 G hs d = Inr d1 \<and> dn_retry d1 = dn_retry d \<and> dn_running d1 = dn_running d \<and>
        map fst (dn_hosts d1) = map fst (dn_hosts d) \<and>
        (\<forall>h. map_of (dn_hosts d1) h =
          (if h \<in> set hs then map_option (refreshed ntop ntop6 (G h) (dn_retry d)) (map_of (dn_hosts d) h)
           else map_of (dn_hosts d) h))
    else dns_round ntop ntop6 G hs d = Inl OutOfBounds"
  using assms
proof (induction hs arbitrary: d)
  case (Cons h hs)
  obtain old where old: "map_of (dn_hosts d) h = Some old" using Cons.prems(1) by auto
  note a = attempts_result [of d h old ntop ntop6 G, OF old]
  show ?case
  proof (cases "safe_host ntop ntop6 (G h) (dn_retry d)")
    case True
    then obtain d1 where d1: "attempts ntop ntop6 G h 0 d = Inr d1"
        "dn_retry d1 = dn_retry d" "dn_running d1 = dn_running d" "map fst (dn_hosts d1) = map fst (dn_hosts d)"
        "map_of (dn_hosts d1) = (map_of (dn_hosts d))(h \<mapsto> refreshed ntop ntop6 (G h) (dn_retry d) old)"
      using a by auto
    have "set hs \<subseteq> dom (map_of (dn_hosts d1))" using d1(5) Cons.prems(1) by auto
    note ih = Cons.IH [OF this]
    show ?thesis
    proof (cases "\<forall>k \<in> set hs. safe_host ntop ntop6 (G k) (dn_retry d)")
      case all: True
      then obtain d2 where d2: "dns_round ntop ntop6 G hs d1 = Inr d2" "dn_retry d2 = dn_retry d1"
          "dn_running d2 = dn_running d1" "map fst (dn_hosts d2) = map fst (dn_hosts d1)"
          "\<And>k. map_of (dn_hosts d2) k =
            (if k \<in> set hs then map_option (refreshed ntop ntop6 (G k) (dn_retry d1)) (map_of (dn_hosts d1) k)
             else map_of (dn_hosts d1) k)"
        using ih Cons.prems(2) d1(2) by auto
      show ?thesis using True all d1 d2 old Cons.prems(2) by auto
    next
      case False
      then show ?thesis using True ih d1(1,2) Cons.prems(2) by auto
    qed
  qed (use a in simp)
qed simp

section \<open>Properties\<close>

lemma all_known:
  "set (map fst (dn_hosts d)) \<subseteq> dom (map_of (dn_hosts d))"
  "h \<in> set (map fst (dn_hosts d)) \<longleftrightarrow> map_of (dn_hosts d) h \<noteq> None"
  by (auto simp: map_of_eq_None_iff dom_map_of_conv_image_fst)

text \<open>
  C28: a round of the DNS thread gives every host it knows the addresses of the first of its lookups
  that finds any, and leaves the host what it had when none of them does; no host comes or goes. This is
  so as long as no failed lookup leaves the result pointer, which the code does not initialise, pointing
  nowhere; after one that leaves it null the host keeps what it had.
\<close>

theorem round_refreshes_hosts:
  assumes "\<And>h. h \<in> set (map fst (dn_hosts d)) \<Longrightarrow> safe_host ntop ntop6 (G h) (dn_retry d)"
    and "distinct (map fst (dn_hosts d))" "dn_running d"
  shows "\<exists>d1. onWork ntop ntop6 [G] d = Inr d1 \<and>
    (\<forall>h. getHostAddresses h d1 =
      (if map_of (dn_hosts d) h = None then []
       else refreshed ntop ntop6 (G h) (dn_retry d) (getHostAddresses h d))) \<and>
    map fst (getHosts d1) = map fst (getHosts d)"
proof -
  have all: "\<forall>h \<in> set (map fst (dn_hosts d)). safe_host ntop ntop6 (G h) (dn_retry d)" using assms(1) by blast
  obtain d1 where d1: "dns_round ntop ntop6 G (map fst (dn_hosts d)) d = Inr d1"
      "map fst (dn_hosts d1) = map fst (dn_hosts d)"
      "\<And>h. map_of (dn_hosts d1) h = (if h \<in> set (map fst (dn_hosts d))
        then map_option (refreshed ntop ntop6 (G h) (dn_retry d)) (map_of (dn_hosts d) h) else map_of (dn_hosts d) h)"
    using round_result [OF all_known(1) assms(2), of ntop ntop6 G] unfolding if_P [OF all] by blast
  have "map_of (dn_hosts d1) h = map_option (refreshed ntop ntop6 (G h) (dn_retry d)) (map_of (dn_hosts d) h)" for h
    using d1(3) [of h] all_known(2) [of h d] by (cases "map_of (dn_hosts d) h") auto
  then show ?thesis using d1(1,2) assms(3) by (auto simp: getHosts_def getHostAddresses_def split: option.splits)
qed

text \<open>
  C38: one name that cannot be resolved can end the program, whatever the others do. A round ends in a
  walk along a list that is not there exactly when some host has a lookup that is made, because those before it found
  nothing, and fails with a code other than \<open>EAI_BADFLAGS\<close> while the result pointer, which the code does
  not initialise, points nowhere.
\<close>

theorem failed_lookup_crashes:
  assumes "distinct (map fst (dn_hosts d))" "dn_running d"
  shows "onWork ntop ntop6 [G] d = Inl OutOfBounds \<longleftrightarrow>
    (\<exists>h \<in> set (map fst (getHosts d)). \<exists>k code. int k < dn_retry d \<and> G h (int k) = GaiFail code WildPtr \<and>
      code \<noteq> EAI_BADFLAGS \<and> (\<forall>j < k. answered (G h (int j)) \<and> addresses ntop ntop6 (G h (int j)) = []))"
proof -
  have unsafe: "\<not> answered_from ntop ntop6 rs \<longleftrightarrow> (\<exists>k < length rs. \<not> answered (rs ! k) \<and>
      (\<forall>j < k. answered (rs ! j) \<and> addresses ntop ntop6 (rs ! j) = []))" for rs
  proof (induction rs)
    case (Cons r rs)
    then show ?case by (auto simp: Ex_less_Suc2 All_less_Suc2)
  qed simp
  have wild: "\<not> answered r \<longleftrightarrow> (\<exists>code. r = GaiFail code WildPtr \<and> code \<noteq> EAI_BADFLAGS)" for r
    by (cases r rule: answered.cases) (simp_all add: EAI_BADFLAGS_def)
  have host: "\<not> safe_host ntop ntop6 (G h) (dn_retry d) \<longleftrightarrow>
      (\<exists>k code. int k < dn_retry d \<and> G h (int k) = GaiFail code WildPtr \<and> code \<noteq> EAI_BADFLAGS \<and>
        (\<forall>j < k. answered (G h (int j)) \<and> addresses ntop ntop6 (G h (int j)) = []))" for h
  proof -
    have "(k < nat n \<and> \<not> answered (map g [0..<nat n] ! k) \<and>
        (\<forall>j < k. answered (map g [0..<nat n] ! j) \<and> addresses ntop ntop6 (map g [0..<nat n] ! j) = [])) \<longleftrightarrow>
      (\<exists>code. int k < n \<and> g k = GaiFail code WildPtr \<and> code \<noteq> EAI_BADFLAGS \<and>
        (\<forall>j < k. answered (g j) \<and> addresses ntop ntop6 (g j) = []))" for k n and g :: "nat \<Rightarrow> gai"
    proof (cases "k < nat n")
      case True
      then have "map g [0..<nat n] ! j = g j" if "j \<le> k" for j using that by simp
      then show ?thesis using True wild [of "g k"] by auto
    next
      case False
      then have "\<not> int k < n" by linarith
      then show ?thesis using False by simp
    qed
    then show ?thesis unfolding safe_host_def unsafe by simp
  qed
  note r = round_result [OF all_known(1) assms(1), of ntop ntop6 G]
  have "onWork ntop ntop6 [G] d = Inl OutOfBounds \<longleftrightarrow>
      (\<exists>h \<in> set (map fst (getHosts d)). \<not> safe_host ntop ntop6 (G h) (dn_retry d))"
  proof (cases "\<forall>h \<in> set (map fst (dn_hosts d)). safe_host ntop ntop6 (G h) (dn_retry d)")
    case True
    then obtain d1 where "dns_round ntop ntop6 G (map fst (dn_hosts d)) d = Inr d1"
      using r unfolding if_P [OF True] by blast
    then show ?thesis using True assms(2) by (simp add: getHosts_def)
  next
    case False
    then show ?thesis using r unfolding if_not_P [OF False] by (auto simp: getHosts_def assms(2))
  qed
  then show ?thesis unfolding host .
qed

definition demo_dns :: dns_service where
  "demo_dns = dns_start (addHost ''b'' (addHost ''a'' (newDnsService 180000 200 3)))"

lemma demo_dns_sel:
  "dn_hosts demo_dns = [(''a'', []), (''b'', [])]" "dn_running demo_dns" "dn_retry demo_dns = 3"
  "distinct (map fst (dn_hosts demo_dns))"
  by (simp_all add: demo_dns_def dns_start_def addHost_def newDnsService_def)

text \<open>The first name is found at the second attempt, the other one never.\<close>

definition demo_answers :: "string \<Rightarrow> int \<Rightarrow> gai" where
  "demo_answers h i = (if h = ''a'' \<and> i = 1 then GaiOk [Some (SockIn 0 7)] else GaiFail EAI_NONAME NullPtr)"

theorem failed_lookup_crashes_witness:
  "onWork (\<lambda>w. []) (\<lambda>b. []) [\<lambda>h i. if h = ''b'' \<and> i = 2 then GaiFail EAI_AGAIN WildPtr else GaiFail EAI_NONAME NullPtr]
     demo_dns = Inl OutOfBounds"
proof -
  let ?G = "\<lambda>h i. if h = ''b'' \<and> i = (2 :: int) then GaiFail EAI_AGAIN WildPtr else GaiFail EAI_NONAME NullPtr"
  have "EAI_AGAIN \<noteq> EAI_BADFLAGS" by (simp add: EAI_AGAIN_def EAI_BADFLAGS_def)
  then show ?thesis
    unfolding failed_lookup_crashes [OF demo_dns_sel(4,2), of "\<lambda>w. []" "\<lambda>b. []" ?G]
    by (intro bexI [of _ "''b''"] exI [of _ "2 :: nat"] exI [of _ EAI_AGAIN]) (simp_all add: demo_dns_sel getHosts_def)
qed

theorem round_refreshes_hosts_witness:
  "\<exists>d1. onWork (\<lambda>w. ''7'') (\<lambda>b. []) [demo_answers] demo_dns = Inr d1 \<and>
     map ia_addr (getHostAddresses ''a'' d1) = [''7''] \<and> getHostAddresses ''b'' d1 = []"
proof -
  have safe: "safe_host (\<lambda>w. ''7'') (\<lambda>b. []) (demo_answers h) (dn_retry demo_dns)" for h
    by (simp add: safe_host_def demo_answers_def demo_dns_sel upt_rec)
  obtain d1 where d1: "onWork (\<lambda>w. ''7'') (\<lambda>b. []) [demo_answers] demo_dns = Inr d1"
      "\<And>h. getHostAddresses h d1 = (if map_of (dn_hosts demo_dns) h = None then []
         else refreshed (\<lambda>w. ''7'') (\<lambda>b. []) (demo_answers h) (dn_retry demo_dns) (getHostAddresses h demo_dns))"
    using round_refreshes_hosts [of demo_dns "\<lambda>w. ''7''" "\<lambda>b. []" demo_answers, OF safe demo_dns_sel(4,2)] by blast
  have "map ia_addr (refreshed (\<lambda>w. ''7'') (\<lambda>b. []) (demo_answers ''a'') 3 []) = [''7'']"
    "refreshed (\<lambda>w. ''7'') (\<lambda>b. []) (demo_answers ''b'') 3 [] = []"
    by (simp_all add: refreshed_def found_def demo_answers_def upt_rec entry_address_def setIsIpv6_def setPort_def
        setAddr_def)
  then show ?thesis using d1 demo_dns_sel by (simp add: getHostAddresses_def)
qed

text \<open>The addresses of a host are handed out in turn, and its first one without an index.\<close>

lemma addresses_in_turn:
  assumes "map_of (dn_hosts d) host = Some as" "as \<noteq> []" "0 \<le> i" "i < 2 ^ 31"
  shows "getHostAddress host i d = Some (as ! (nat i mod length as))"
proof -
  have "unat (word_of_int i :: u64) = nat i" using assms(3,4) by (simp add: unat_eq_nat_uint uint_word_of_int)
  then show ?thesis using assms(1,2) by (simp add: getHostAddress_def)
qed

end
