(* ===== verification/Tasks.thy ===== *)
theory Tasks
  imports Prelude
begin

text \<open>
  \<open>LSSTask\<close> and \<open>LSSTaskMgr\<close> of \<open>src/utils/\<close>: tasks with a time at which they are due, and the manager
  the program's main thread polls. Tasks are numbered objects; what their callbacks do is a
  parameter, as are the readings of the clock, in milliseconds. The set of the manager is the list
  in which it is walked; a new task comes
  somewhere in it, in the model at the front. \<open>tm_ran\<close> is a history: the tasks that were run.

  The manager's mutex is held while callbacks run and is not recursive: a callback that adds or
  deletes a task waits for itself for ever.
\<close>

section \<open>Tasks\<close>

record timed =
  td_interval :: int
  td_when :: int
  td_cb :: "nat option"

definition newTask :: "int \<Rightarrow> nat option \<Rightarrow> int \<Rightarrow> timed" where
  "newTask now cb interval = \<lparr>td_interval = interval, td_when = now + interval, td_cb = cb\<rparr>"

record 'x tasks =
  tm_store :: "nat \<Rightarrow> timed"
  tm_tasks :: "nat list"
  tm_lock :: bool
  tm_ran :: "nat list"
  tm_rest :: 'x

type_synonym 'x task_step = "'x tasks \<Rightarrow> 'x tasks res"

text \<open>\<open>B cb t\<close> is what the callback \<open>cb\<close> does when it is called with the task \<open>t\<close>.\<close>

definition run :: "(nat \<Rightarrow> nat \<Rightarrow> 'x task_step) \<Rightarrow> nat \<Rightarrow> 'x task_step" where
  "run B t s =
     (let s1 = s\<lparr>tm_ran := tm_ran s @ [t]\<rparr>
      in case td_cb (tm_store s t) of None \<Rightarrow> Inr s1 | Some cb \<Rightarrow> B cb t s1)"

definition restart :: "int \<Rightarrow> nat \<Rightarrow> 'x tasks \<Rightarrow> 'x tasks" where
  "restart now t s =
     s\<lparr>tm_store := (tm_store s)(t := (tm_store s t)\<lparr>td_when := td_interval (tm_store s t) + now\<rparr>)\<rparr>"

definition task_when :: "nat \<Rightarrow> 'x tasks \<Rightarrow> int" where
  "task_when t s = td_when (tm_store s t)"

section \<open>The manager\<close>

text \<open>The loop of \<open>work\<close> over the tasks that are left; \<open>now\<close> is read once.\<close>

fun work_loop :: "(nat \<Rightarrow> nat \<Rightarrow> 'x task_step) \<Rightarrow> int \<Rightarrow> nat list \<Rightarrow> 'x task_step" where
  "work_loop B now [] s = Inr s"
| "work_loop B now (t # ts) s =
     (if task_when t s < now then
        bindr (run B t s) (\<lambda>s1.
          work_loop B now ts
            (if task_when t s1 < now then s1\<lparr>tm_tasks := filter (\<lambda>u. u \<noteq> t) (tm_tasks s1)\<rparr> else s1))
      else work_loop B now ts s)"

definition work :: "(nat \<Rightarrow> nat \<Rightarrow> 'x task_step) \<Rightarrow> int \<Rightarrow> 'x task_step" where
  "work B now s =
     (if tm_lock s then Inl Runaway
      else bindr (work_loop B now (tm_tasks s) (s\<lparr>tm_lock := True\<rparr>)) (\<lambda>s1. Inr (s1\<lparr>tm_lock := False\<rparr>)))"

definition task_add :: "nat \<Rightarrow> 'x tasks \<Rightarrow> (bool \<times> 'x tasks) res" where
  "task_add t s =
     (if tm_lock s then Inl Runaway
      else if t \<in> set (tm_tasks s) then Inr (False, s)
      else Inr (True, s\<lparr>tm_tasks := t # tm_tasks s\<rparr>))"

definition task_del :: "nat \<Rightarrow> 'x tasks \<Rightarrow> (bool \<times> 'x tasks) res" where
  "task_del t s =
     (if tm_lock s then Inl Runaway
      else Inr (True, s\<lparr>tm_tasks := filter (\<lambda>u. u \<noteq> t) (tm_tasks s)\<rparr>))"

section \<open>Callbacks that mind their own task\<close>

locale own_task =
  fixes B :: "nat \<Rightarrow> nat \<Rightarrow> 'x task_step"
  assumes own: "B cb t s = Inr s' \<Longrightarrow> tm_tasks s' = tm_tasks s \<and> tm_ran s' = tm_ran s \<and> tm_lock s' = tm_lock s \<and>
      (\<forall>u. u \<noteq> t \<longrightarrow> tm_store s' u = tm_store s u)"
begin

lemma run_own:
  "run B t s = Inr s' \<Longrightarrow> tm_tasks s' = tm_tasks s \<and> tm_ran s' = tm_ran s @ [t] \<and> tm_lock s' = tm_lock s \<and>
    (\<forall>u. u \<noteq> t \<longrightarrow> tm_store s' u = tm_store s u)"
  by (auto simp: run_def Let_def split: option.splits dest: own)

text \<open>The due tasks among those that are walked run, in order; those due again at once are dropped.\<close>

lemma loop_does:
  assumes "work_loop B now ts s = Inr s'" "distinct ts"
  shows "tm_ran s' = tm_ran s @ filter (\<lambda>t. task_when t s < now) ts \<and> tm_lock s' = tm_lock s \<and>
    (\<forall>u. u \<notin> set ts \<or> now \<le> task_when u s \<longrightarrow> tm_store s' u = tm_store s u) \<and>
    tm_tasks s' = filter (\<lambda>u. \<not> (u \<in> set ts \<and> task_when u s < now \<and> task_when u s' < now)) (tm_tasks s)"
  using assms
proof (induction ts arbitrary: s)
  case (Cons t ts)
  show ?case
  proof (cases "task_when t s < now")
    case True
    then obtain s1 where r: "run B t s = Inr s1" by (cases "run B t s") (use Cons.prems in auto)
    note o = run_own [OF r]
    define s2 where "s2 = (if task_when t s1 < now then s1\<lparr>tm_tasks := filter (\<lambda>u. u \<noteq> t) (tm_tasks s1)\<rparr> else s1)"
    have l: "work_loop B now ts s2 = Inr s'" using Cons.prems(1) True r by (simp add: s2_def)
    have w: "task_when u s2 = task_when u s1" "tm_store s2 u = tm_store s1 u" "tm_ran s2 = tm_ran s1" "tm_lock s2 = tm_lock s1" for u
      by (simp_all add: s2_def task_when_def)
    have other: "task_when u s2 = task_when u s" if "u \<in> set ts" for u
    proof -
      have "u \<noteq> t" using that Cons.prems(2) by auto
      then show ?thesis using o by (simp add: w(1)) (simp add: task_when_def)
    qed
    note ih = Cons.IH [OF l]
    have ih: "tm_ran s' = tm_ran s2 @ filter (\<lambda>t. task_when t s2 < now) ts" "tm_lock s' = tm_lock s2"
        "\<And>u. u \<notin> set ts \<or> now \<le> task_when u s2 \<Longrightarrow> tm_store s' u = tm_store s2 u"
        "tm_tasks s' = filter (\<lambda>u. \<not> (u \<in> set ts \<and> task_when u s2 < now \<and> task_when u s' < now)) (tm_tasks s2)"
      using ih Cons.prems(2) by auto
    have mine: "task_when t s' = task_when t s1" using ih(3) [of t] Cons.prems(2) w(2) by (simp add: task_when_def)
    have "filter (\<lambda>t. task_when t s2 < now) ts = filter (\<lambda>t. task_when t s < now) ts"
      using other by (intro filter_cong) simp_all
    moreover have "tm_tasks s' = filter (\<lambda>u. \<not> (u \<in> set (t # ts) \<and> task_when u s < now \<and> task_when u s' < now)) (tm_tasks s)"
      unfolding ih(4) using o other mine True Cons.prems(2)
      by (auto simp: s2_def intro!: filter_cong)
    moreover have "tm_store s' u = tm_store s u" if "u \<notin> set (t # ts) \<or> now \<le> task_when u s" for u
    proof -
      have "u \<noteq> t" using that True by auto
      then have "tm_store s2 u = tm_store s u" using o w(2) by simp
      then show ?thesis using ih(3) [of u] that by (auto simp: task_when_def)
    qed
    ultimately show ?thesis using ih(1,2) o w(3,4) True by simp
  next
    case False
    then have l: "work_loop B now ts s = Inr s'" using Cons.prems(1) by simp
    show ?thesis using Cons.IH [OF l] Cons.prems(2) False by (auto intro!: filter_cong)
  qed
qed simp

lemma work_does:
  assumes "work B now s = Inr s'" "distinct (tm_tasks s)"
  shows "tm_ran s' = tm_ran s @ filter (\<lambda>t. task_when t s < now) (tm_tasks s) \<and>
    tm_tasks s' = filter (\<lambda>t. now \<le> task_when t s \<or> now \<le> task_when t s') (tm_tasks s) \<and>
    (\<forall>t. now \<le> task_when t s \<longrightarrow> tm_store s' t = tm_store s t) \<and> \<not> tm_lock s'"
proof -
  obtain s1 where l: "work_loop B now (tm_tasks s) (s\<lparr>tm_lock := True\<rparr>) = Inr s1" "s' = s1\<lparr>tm_lock := False\<rparr>"
    using assms(1) by (auto simp: work_def bindr_eq_Inr split: if_splits)
  note d = loop_does [OF l(1) assms(2)]
  have w: "task_when t (s\<lparr>tm_lock := True\<rparr>) = task_when t s" "task_when t s' = task_when t s1" for t
    by (simp_all add: task_when_def l(2))
  show ?thesis using d unfolding w by (auto simp: l(2) w not_less intro!: filter_cong)
qed

end

section \<open>Callbacks that restart their task\<close>

locale restarting = own_task B for B :: "nat \<Rightarrow> nat \<Rightarrow> 'x task_step" +
  fixes later :: int
  assumes restarts: "B cb t s = Inr s' \<Longrightarrow>
      tm_store s' t = (tm_store s t)\<lparr>td_when := td_interval (tm_store s t) + later\<rparr>"
begin

lemma run_restarts:
  "run B t s = Inr s' \<Longrightarrow> td_cb (tm_store s t) \<noteq> None \<Longrightarrow>
    tm_store s' t = (tm_store s t)\<lparr>td_when := td_interval (tm_store s t) + later\<rparr>"
  using restarts [of _ t "s\<lparr>tm_ran := tm_ran s @ [t]\<rparr>" s'] by (auto simp: run_def Let_def)

lemma loop_restarts:
  assumes "work_loop B now ts s = Inr s'" "distinct ts" "t \<in> set ts" "task_when t s < now" "td_cb (tm_store s t) \<noteq> None"
  shows "tm_store s' t = (tm_store s t)\<lparr>td_when := td_interval (tm_store s t) + later\<rparr>"
  using assms
proof (induction ts arbitrary: s)
  case (Cons u ts)
  show ?case
  proof (cases "task_when u s < now")
    case True
    then obtain s1 where r: "run B u s = Inr s1" by (cases "run B u s") (use Cons.prems in auto)
    define s2 where "s2 = (if task_when u s1 < now then s1\<lparr>tm_tasks := filter (\<lambda>v. v \<noteq> u) (tm_tasks s1)\<rparr> else s1)"
    have l: "work_loop B now ts s2 = Inr s'" using Cons.prems(1) True r by (simp add: s2_def)
    have w: "tm_store s2 = tm_store s1" by (simp add: s2_def)
    show ?thesis
    proof (cases "u = t")
      case mine: True
      have "tm_store s' t = tm_store s2 t" using loop_does [OF l] Cons.prems(2) mine by simp
      then show ?thesis using run_restarts [OF r] mine Cons.prems(5) w by simp
    next
      case False
      then have "tm_store s2 t = tm_store s t" using run_own [OF r] w by simp
      then show ?thesis using Cons.IH [OF l] Cons.prems False by (simp add: task_when_def)
    qed
  next
    case False
    then show ?thesis using Cons by auto
  qed
qed simp

text \<open>A poll loses none of the tasks, and restarts those that were due.\<close>

lemma work_restarts:
  assumes "work B now s = Inr s'" "distinct (tm_tasks s)" "now \<le> later"
    and "\<And>t. t \<in> set (tm_tasks s) \<Longrightarrow> td_cb (tm_store s t) \<noteq> None \<and> 0 \<le> td_interval (tm_store s t)"
  shows "tm_tasks s' = tm_tasks s" "\<not> tm_lock s'"
    "t \<in> set (tm_tasks s) \<Longrightarrow> tm_store s' t =
      (if task_when t s < now then (tm_store s t)\<lparr>td_when := td_interval (tm_store s t) + later\<rparr> else tm_store s t)"
proof -
  note d = work_does [OF assms(1,2)]
  show st: "tm_store s' t =
      (if task_when t s < now then (tm_store s t)\<lparr>td_when := td_interval (tm_store s t) + later\<rparr> else tm_store s t)"
    if "t \<in> set (tm_tasks s)" for t
  proof (cases "task_when t s < now")
    case True
    obtain s1 where l: "work_loop B now (tm_tasks s) (s\<lparr>tm_lock := True\<rparr>) = Inr s1" "s' = s1\<lparr>tm_lock := False\<rparr>"
      using assms(1) by (auto simp: work_def bindr_eq_Inr split: if_splits)
    show ?thesis using loop_restarts [OF l(1) assms(2) that] True assms(4) [OF that] by (simp add: l(2) task_when_def)
  qed (use d in simp)
  have "now \<le> task_when t s \<or> now \<le> task_when t s'" if "t \<in> set (tm_tasks s)" for t
    using st [OF that] assms(3) assms(4) [OF that] by (auto simp: task_when_def)
  then show "tm_tasks s' = tm_tasks s" using d by simp
  show "\<not> tm_lock s'" using d by simp
qed

end

section \<open>What the callbacks work on\<close>

text \<open>A property of the rest of the state that every callback keeps, a poll keeps.\<close>

lemma work_loop_rest:
  assumes "\<And>cb t s s'. B cb t s = Inr s' \<Longrightarrow> P (tm_rest s) \<Longrightarrow> P (tm_rest s')"
  shows "work_loop B now ts s = Inr s' \<Longrightarrow> P (tm_rest s) \<Longrightarrow> P (tm_rest s')"
proof (induction ts arbitrary: s)
  case (Cons t ts)
  have run: "run B t s = Inr s1 \<Longrightarrow> P (tm_rest s1)" for s1
    using Cons.prems(2) assms by (auto simp: run_def Let_def split: option.splits)
  show ?case
  proof (cases "task_when t s < now")
    case True
    then obtain s1 where r: "run B t s = Inr s1" by (cases "run B t s") (use Cons.prems in auto)
    then show ?thesis using Cons True run [OF r] by (auto split: if_splits)
  qed (use Cons in auto)
qed simp

lemma work_rest:
  assumes "\<And>cb t s s'. B cb t s = Inr s' \<Longrightarrow> P (tm_rest s) \<Longrightarrow> P (tm_rest s')"
    and "work B now s = Inr s'" "P (tm_rest s)"
  shows "P (tm_rest s')"
proof -
  obtain s1 where "work_loop B now (tm_tasks s) (s\<lparr>tm_lock := True\<rparr>) = Inr s1" "s' = s1\<lparr>tm_lock := False\<rparr>"
    using assms(2) by (auto simp: work_def bindr_eq_Inr split: if_splits)
  then show ?thesis using work_loop_rest [of B P, OF assms(1)] assms(3) by fastforce
qed

end
