(* ===== verification/TimeCorrector.thy ===== *)
theory TimeCorrector
  imports Packet
begin

unbundle bit_operations_syntax

text \<open>
  The timestamp corrector of \<open>src/live/base/time_corrector.cpp\<close> and the looks at FLV tags of
  \<open>src/live/base/codec_utils.cpp\<close>. Times are 64-bit in the program and \<open>int\<close> here: a corrected
  time moves by less than 100 in a step, so it stays far below the limits. Every corrector
  returns \<open>uint32_t\<close>, the remainder of the time.
\<close>

section \<open>FLV tags\<close>

text \<open>\<open>pdata\<close> is the packet's bytes, \<open>getPacketSize\<close> of them.\<close>

definition isCodecHeader :: "packet \<Rightarrow> bool" where
  "isCodecHeader p = (case pdata p of a # b # r \<Rightarrow> b = 0 | _ \<Rightarrow> False)"

definition isKeyFrameTag :: "packet \<Rightarrow> bool" where
  "isKeyFrameTag p = (case pdata p of a # r \<Rightarrow> drop_bit 4 a AND 0x0F = 1 | [] \<Rightarrow> False)"

section \<open>The corrector\<close>

record corrector =
  video_original :: int
  video_corrected :: int
  audio_original :: int
  audio_corrected :: int
  audio_numbers :: int

definition newCorrector :: corrector where
  "newCorrector = \<lparr>video_original = -1, video_corrected = -1, audio_original = -1,
     audio_corrected = -1, audio_numbers = 0\<rparr>"

definition kMaxVideoDeltaTime :: int where "kMaxVideoDeltaTime = 100"
definition kMaxAudioDeltaTime :: int where "kMaxAudioDeltaTime = 100"
definition kDefaultVideoDeltaTime :: int where "kDefaultVideoDeltaTime = 40"
definition kDefaultAudioDeltaTime :: int where "kDefaultAudioDeltaTime = 20"

lemmas corrector_times = kMaxVideoDeltaTime_def kMaxAudioDeltaTime_def kDefaultVideoDeltaTime_def
  kDefaultAudioDeltaTime_def

definition fine_delta :: "int \<Rightarrow> int \<Rightarrow> int \<Rightarrow> int" where
  "fine_delta mx dflt delta = (if - mx < delta \<and> delta < mx then delta else dflt)"

definition clamp :: "int \<Rightarrow> int" where
  "clamp x = (if x < 0 then 0 else x)"

definition correctAudioTimestampByAudio :: "packet \<Rightarrow> corrector \<Rightarrow> int \<times> corrector" where
  "correctAudioTimestampByAudio p tc =
     (let time = ptimestamp p in
      if audio_original tc = -1 then
        (u32_int time, tc\<lparr>audio_original := time, audio_corrected := time\<rparr>)
      else
        let delta = fine_delta kMaxAudioDeltaTime kDefaultAudioDeltaTime (time - audio_original tc);
            c = clamp (audio_corrected tc + delta)
        in (u32_int c, tc\<lparr>audio_original := time, audio_corrected := c\<rparr>))"

definition correctAudioTimestampByVideo :: "packet \<Rightarrow> corrector \<Rightarrow> int \<times> corrector" where
  "correctAudioTimestampByVideo p tc0 =
     (let tc = tc0\<lparr>audio_numbers := audio_numbers tc0 + 1\<rparr>; time = ptimestamp p in
      if 1 < audio_numbers tc then correctAudioTimestampByAudio p tc
      else if video_original tc = -1 then
        (u32_int time, tc\<lparr>audio_original := time, audio_corrected := time\<rparr>)
      else
        let delta = fine_delta kMaxVideoDeltaTime kDefaultVideoDeltaTime (time - video_original tc);
            c = clamp (video_corrected tc + delta)
        in (u32_int c, tc\<lparr>audio_original := time, audio_corrected := c\<rparr>))"

text \<open>The first video frame: after audio that is far from it, video goes on from the audio.\<close>

definition first_video :: "int \<Rightarrow> corrector \<Rightarrow> corrector" where
  "first_video time tc =
     (if audio_original tc \<noteq> -1 \<and>
         (let delta = i32 (audio_original tc - time)
          in delta \<le> - kMaxVideoDeltaTime \<or> kMaxVideoDeltaTime \<le> delta)
      then tc\<lparr>video_original := audio_original tc, video_corrected := audio_corrected tc\<rparr>
      else tc\<lparr>video_original := time, video_corrected := time\<rparr>)"

definition correctVideoTimestampByVideo :: "packet \<Rightarrow> corrector \<Rightarrow> int \<times> corrector" where
  "correctVideoTimestampByVideo p tc0 =
     (let time = ptimestamp p; tc1 = tc0\<lparr>audio_numbers := 0\<rparr>;
          tc = (if video_original tc1 = -1 then first_video time tc1 else tc1);
          delta = fine_delta kMaxVideoDeltaTime kDefaultVideoDeltaTime (time - video_original tc);
          c = clamp (video_corrected tc + delta)
      in (u32_int c, tc\<lparr>video_original := time, video_corrected := c\<rparr>))"

definition correctTimestamp :: "packet \<Rightarrow> corrector \<Rightarrow> int \<times> corrector" where
  "correctTimestamp p tc =
     (if \<not> isCodecHeader p then
        if ptype p = kPacketTypeVideo then correctVideoTimestampByVideo p tc
        else if ptype p = kPacketTypeAudio then correctAudioTimestampByVideo p tc
        else (0, tc)
      else (0, tc))"

fun correct_all :: "packet list \<Rightarrow> corrector \<Rightarrow> int list" where
  "correct_all [] tc = []"
| "correct_all (p # ps) tc = (case correctTimestamp p tc of (t, tc1) \<Rightarrow> t # correct_all ps tc1)"

section \<open>Streams that need no correction\<close>

text \<open>
  A specification on the input alone: the times of the last video and the last audio frame, and
  whether the last frame was audio. A video frame is near the last video frame, the first one
  near the audio before it; an audio frame is near the frame before it.
\<close>

definition near :: "int option \<Rightarrow> int \<Rightarrow> bool" where
  "near r t \<longleftrightarrow> (case r of None \<Rightarrow> True | Some x \<Rightarrow> \<bar>t - x\<bar> < 100)"

definition media_frame :: "packet \<Rightarrow> bool" where
  "media_frame p \<longleftrightarrow> \<not> isCodecHeader p \<and> (ptype p = kPacketTypeVideo \<or> ptype p = kPacketTypeAudio)"

fun smooth :: "int option \<Rightarrow> int option \<Rightarrow> bool \<Rightarrow> packet list \<Rightarrow> bool" where
  "smooth v a cont [] \<longleftrightarrow> True"
| "smooth v a cont (p # ps) \<longleftrightarrow>
     (if media_frame p then
        0 \<le> ptimestamp p \<and> ptimestamp p < 2 ^ 31 \<and>
        (if ptype p = kPacketTypeVideo then
           near (if v = None then a else v) (ptimestamp p) \<and> smooth (Some (ptimestamp p)) a False ps
         else near (if cont then a else v) (ptimestamp p) \<and> smooth v (Some (ptimestamp p)) True ps)
      else smooth v a cont ps)"

definition opt_time :: "int option \<Rightarrow> int" where
  "opt_time t = (case t of None \<Rightarrow> -1 | Some x \<Rightarrow> x)"

text \<open>A corrector that has changed nothing so far.\<close>

definition aligned :: "int option \<Rightarrow> int option \<Rightarrow> bool \<Rightarrow> corrector \<Rightarrow> bool" where
  "aligned v a cont tc \<longleftrightarrow>
     video_original tc = opt_time v \<and> video_corrected tc = opt_time v \<and>
     audio_original tc = opt_time a \<and> audio_corrected tc = opt_time a \<and>
     (if cont then 1 \<le> audio_numbers tc \<and> a \<noteq> None else audio_numbers tc = 0) \<and>
     (\<forall>x \<in> set_option v. 0 \<le> x \<and> x < 2 ^ 31) \<and> (\<forall>x \<in> set_option a. 0 \<le> x \<and> x < 2 ^ 31)"

lemma aligned_new: "aligned None None False newCorrector"
  by (simp add: aligned_def newCorrector_def opt_time_def)

lemma fine_near: "\<bar>d\<bar> < 100 \<Longrightarrow> fine_delta 100 dflt d = d"
  by (auto simp: fine_delta_def)

lemma video_aligned:
  assumes "aligned v a cont tc" "near (if v = None then a else v) (ptimestamp p)"
    and "0 \<le> ptimestamp p" "ptimestamp p < 2 ^ 31"
  shows "\<exists>tc1. correctVideoTimestampByVideo p tc = (ptimestamp p, tc1)
    \<and> aligned (Some (ptimestamp p)) a False tc1"
proof -
  let ?t = "ptimestamp p"
  have u: "u32_int ?t = ?t" using assms(3,4) by (simp add: u32_int_id)
  have c: "clamp ?t = ?t" using assms(3) by (simp add: clamp_def)
  show ?thesis
  proof (cases v)
    case (Some x)
    then have "fine_delta 100 40 (?t - x) = ?t - x" "x \<noteq> -1"
      using assms(1,2) by (auto simp: near_def fine_near aligned_def)
    then show ?thesis
      using assms Some u c
      by (auto simp: correctVideoTimestampByVideo_def aligned_def opt_time_def corrector_times Let_def)
  next
    case None
    have i: "i32 (x - ?t) = x - ?t" if "0 \<le> x" "x < 2 ^ 31" for x
      using that assms(3,4) by (intro i32_id) simp_all
    have "first_video ?t (tc\<lparr>audio_numbers := 0\<rparr>)
        = tc\<lparr>audio_numbers := 0, video_original := ?t, video_corrected := ?t\<rparr>"
      using assms(1,2) None i
      by (cases a) (auto simp: first_video_def aligned_def opt_time_def near_def corrector_times Let_def)
    then show ?thesis
      using assms None u c
      by (auto simp: correctVideoTimestampByVideo_def aligned_def opt_time_def corrector_times
          Let_def fine_near)
  qed
qed

lemma audio_aligned:
  assumes "aligned v a cont tc" "near (if cont then a else v) (ptimestamp p)"
    and "0 \<le> ptimestamp p" "ptimestamp p < 2 ^ 31"
  shows "\<exists>tc1. correctAudioTimestampByVideo p tc = (ptimestamp p, tc1)
    \<and> aligned v (Some (ptimestamp p)) True tc1"
proof -
  let ?t = "ptimestamp p"
  have u: "u32_int ?t = ?t" using assms(3,4) by (simp add: u32_int_id)
  have c: "clamp ?t = ?t" using assms(3) by (simp add: clamp_def)
  show ?thesis
  proof (cases cont)
    case True
    then obtain x where x: "a = Some x" "x \<noteq> -1" "1 \<le> audio_numbers tc"
      using assms(1) by (auto simp: aligned_def)
    then have "fine_delta 100 20 (?t - x) = ?t - x"
      using assms(2) True by (simp add: near_def fine_near)
    then show ?thesis
      using assms x u c True
      by (auto simp: correctAudioTimestampByVideo_def correctAudioTimestampByAudio_def aligned_def
          opt_time_def corrector_times Let_def)
  next
    case False
    show ?thesis
    proof (cases v)
      case None
      then show ?thesis
        using assms False u
        by (auto simp: correctAudioTimestampByVideo_def aligned_def opt_time_def Let_def)
    next
      case (Some x)
      then have "fine_delta 100 40 (?t - x) = ?t - x" "x \<noteq> -1"
        using assms(1,2) False by (auto simp: near_def fine_near aligned_def)
      then show ?thesis
        using assms False Some u c
        by (auto simp: correctAudioTimestampByVideo_def aligned_def opt_time_def corrector_times Let_def)
    qed
  qed
qed

lemma smooth_unchanged:
  "smooth v a cont ps \<Longrightarrow> aligned v a cont tc \<Longrightarrow>
   correct_all ps tc = map (\<lambda>p. if media_frame p then ptimestamp p else 0) ps"
proof (induction ps arbitrary: v a cont tc)
  case (Cons p ps)
  consider (video) "media_frame p" "ptype p = kPacketTypeVideo"
    | (audio) "media_frame p" "ptype p \<noteq> kPacketTypeVideo" "ptype p = kPacketTypeAudio"
    | (other) "\<not> media_frame p"
    unfolding media_frame_def by blast
  then show ?case
  proof cases
    case video
    then obtain tc1 where "correctVideoTimestampByVideo p tc = (ptimestamp p, tc1)"
        "aligned (Some (ptimestamp p)) a False tc1"
      using video_aligned [OF Cons.prems(2), of p] Cons.prems(1) by auto
    then show ?thesis
      using Cons.IH [of "Some (ptimestamp p)" a False tc1] Cons.prems(1) video
      by (simp add: correctTimestamp_def media_frame_def)
  next
    case audio
    then obtain tc1 where "correctAudioTimestampByVideo p tc = (ptimestamp p, tc1)"
        "aligned v (Some (ptimestamp p)) True tc1"
      using audio_aligned [OF Cons.prems(2), of p] Cons.prems(1) by auto
    then show ?thesis
      using Cons.IH [of v "Some (ptimestamp p)" True tc1] Cons.prems(1) audio
      by (simp add: correctTimestamp_def media_frame_def)
  next
    case other
    then have "correctTimestamp p tc = (0, tc)"
      by (auto simp: correctTimestamp_def media_frame_def)
    then show ?thesis using Cons other by simp
  qed
qed simp

section \<open>Steps are small\<close>

lemma fine_delta_small: "0 \<le> d \<Longrightarrow> d < mx \<Longrightarrow> \<bar>fine_delta mx d x\<bar> < mx"
  by (auto simp: fine_delta_def)

lemma clamp_small: "0 \<le> c \<Longrightarrow> \<bar>d\<bar> < k \<Longrightarrow> \<bar>clamp (c + d) - c\<bar> < k \<and> 0 \<le> clamp (c + d)"
  by (auto simp: clamp_def)

lemma video_step_small:
  assumes "video_original tc \<noteq> -1" "0 \<le> video_corrected tc"
    and "correctVideoTimestampByVideo p tc = (t, tc1)"
  shows "\<bar>video_corrected tc1 - video_corrected tc\<bar> < 100 \<and> 0 \<le> video_corrected tc1
    \<and> video_original tc1 = ptimestamp p \<and> t = u32_int (video_corrected tc1)"
  using assms clamp_small [OF assms(2) fine_delta_small [of 40 100 "ptimestamp p - video_original tc"]]
  by (auto simp: correctVideoTimestampByVideo_def Let_def corrector_times)

text \<open>Video frames that follow a first one, whatever their times.\<close>

definition plain_video :: "packet \<Rightarrow> bool" where
  "plain_video p \<longleftrightarrow> \<not> isCodecHeader p \<and> ptype p = kPacketTypeVideo
     \<and> 0 \<le> ptimestamp p \<and> ptimestamp p < 2 ^ 31"

lemma video_run_small:
  "\<forall>p \<in> set ps. plain_video p \<Longrightarrow> video_original tc \<noteq> -1 \<Longrightarrow> 0 \<le> video_corrected tc \<Longrightarrow>
   video_corrected tc + 100 * int (length ps) < 2 ^ 32 \<Longrightarrow> i < length ps \<Longrightarrow>
   \<bar>(video_corrected tc # correct_all ps tc) ! Suc i - (video_corrected tc # correct_all ps tc) ! i\<bar> < 100"
proof (induction ps arbitrary: tc i)
  case (Cons p ps)
  obtain t tc1 where c: "correctVideoTimestampByVideo p tc = (t, tc1)" by fastforce
  note s = video_step_small [OF Cons.prems(2,3) c]
  have "video_corrected tc1 < 2 ^ 32" "video_corrected tc1 + 100 * int (length ps) < 2 ^ 32"
    using s Cons.prems(4) by auto
  then have t: "t = video_corrected tc1" using s by (simp add: u32_int_id)
  have p: "plain_video p" using Cons.prems(1) by simp
  then have step: "correct_all (p # ps) tc = t # correct_all ps tc1"
    using c by (simp add: correctTimestamp_def plain_video_def)
  show ?case
  proof (cases i)
    case 0
    then show ?thesis using s step t by simp
  next
    case (Suc j)
    have "\<bar>(video_corrected tc1 # correct_all ps tc1) ! Suc j
        - (video_corrected tc1 # correct_all ps tc1) ! j\<bar> < 100"
    proof (rule Cons.IH)
      show "video_original tc1 \<noteq> -1" using s p by (simp add: plain_video_def)
      show "video_corrected tc1 + 100 * int (length ps) < 2 ^ 32" by fact
    qed (use Cons.prems Suc s in auto)
    then show ?thesis using Suc step t by simp
  qed
qed simp

lemma first_video_new:
  "plain_video p \<Longrightarrow>
   correct_all (p # ps) newCorrector = ptimestamp p # correct_all ps
     (newCorrector\<lparr>video_original := ptimestamp p, video_corrected := ptimestamp p\<rparr>)"
  by (simp add: correctTimestamp_def plain_video_def correctVideoTimestampByVideo_def Let_def
      newCorrector_def first_video_def corrector_times fine_delta_def clamp_def u32_int_def)

section \<open>Properties\<close>

text \<open>
  C26: a stream whose times are in order is not touched. When every video frame is within 100 ms of
  the video frame before it (the first one of the audio before it), and every audio frame within
  100 ms of the frame before it, the corrector returns every frame's own time; only codec headers
  and packets that are neither plain video nor plain audio get the time 0, and they leave no trace.
\<close>

theorem smooth_stream_unchanged:
  assumes "smooth None None False ps"
  shows "correct_all ps newCorrector = map (\<lambda>p. if media_frame p then ptimestamp p else 0) ps"
  by (rule smooth_unchanged [OF assms aligned_new])

definition demo_video :: "int \<Rightarrow> packet" where
  "demo_video t = (newPacket 2)\<lparr>ptype := kPacketTypeVideo, psize := 2, pblock := [23, 1], ptimestamp := t\<rparr>"

theorem smooth_stream_unchanged_witness:
  "correct_all [demo_video 5, demo_video 60] newCorrector = [5, 60]"
  using smooth_stream_unchanged [of "[demo_video 5, demo_video 60]"]
  by (simp add: demo_video_def media_frame_def isCodecHeader_def pdata_def near_def)

text \<open>
  Whatever times a publisher puts on its video frames, the corrected times of consecutive
  frames differ by less than 100 ms: the corrector takes out every jump.
\<close>

theorem video_jumps_removed:
  assumes "\<forall>p \<in> set ps. plain_video p" "length ps < 2 ^ 20" "Suc i < length ps"
  shows "\<bar>correct_all ps newCorrector ! Suc i - correct_all ps newCorrector ! i\<bar> < 100"
proof -
  obtain p qs where ps: "ps = p # qs" using assms(3) by (cases ps) auto
  have p: "plain_video p" using assms(1) ps by simp
  let ?tc = "newCorrector\<lparr>video_original := ptimestamp p, video_corrected := ptimestamp p\<rparr>"
  have "\<bar>(video_corrected ?tc # correct_all qs ?tc) ! Suc i - (video_corrected ?tc # correct_all qs ?tc) ! i\<bar> < 100"
    by (rule video_run_small) (use p assms ps in \<open>auto simp: plain_video_def\<close>)
  then show ?thesis unfolding ps first_video_new [OF p] by simp
qed

theorem video_jumps_removed_witness:
  "\<bar>correct_all [demo_video 5, demo_video 100000] newCorrector ! 1
    - correct_all [demo_video 5, demo_video 100000] newCorrector ! 0\<bar> < 100"
  using video_jumps_removed [of "[demo_video 5, demo_video 100000]" 0]
  by (simp add: demo_video_def plain_video_def isCodecHeader_def pdata_def)

end
