(* ===== verification/LiveMedia.thy ===== *)
theory LiveMedia
  imports TimeCorrector Amf
begin

text \<open>
  What a live stream knows about its media: the groups of pictures of \<open>src/live/gop_mgr.cpp\<close> and
  the codec headers of \<open>src/live/codec_header.cpp\<close>. The counters of the program are 32-bit and
  count frames; they are integers here.
\<close>

section \<open>Groups of pictures\<close>

type_synonym gop_item = "int \<times> int"

record gop_mgr =
  gops :: "gop_item list"
  gop_length :: int
  max_gop_length :: int
  gop_numbers :: int
  total_gop_length :: int
  lastest_timestamp :: int

definition newGopMgr :: gop_mgr where
  "newGopMgr = \<lparr>gops = [], gop_length = 0, max_gop_length = 0, gop_numbers = 0,
     total_gop_length = 0, lastest_timestamp = 0\<rparr>"

definition addFrame :: "packet \<Rightarrow> gop_mgr \<Rightarrow> gop_mgr" where
  "addFrame p g =
     (let g1 = g\<lparr>lastest_timestamp := ptimestamp p\<rparr>;
          g2 = (if isKeyFrame p then
                  g1\<lparr>gops := gops g1 @ [(pindex p, ptimestamp p)],
                     max_gop_length := max (max_gop_length g1) (gop_length g1),
                     total_gop_length := total_gop_length g1 + gop_length g1,
                     gop_numbers := gop_numbers g1 + 1, gop_length := 0\<rparr>
                else g1)
      in g2\<lparr>gop_length := gop_length g2 + 1\<rparr>)"

definition getGopsSize :: "gop_mgr \<Rightarrow> nat" where
  "getGopsSize g = length (gops g)"

text \<open>From the newest group back, as long as the latency is small enough.\<close>

fun gop_back :: "int \<Rightarrow> int \<Rightarrow> gop_item list \<Rightarrow> int \<times> int \<Rightarrow> int \<times> int" where
  "gop_back latency newest [] r = r"
| "gop_back latency newest ((i, t) # items) r =
     (let item = i32 (newest - t) in
      if item \<le> latency then gop_back latency newest items (i, item) else r)"

definition getGopByLatency :: "int \<Rightarrow> gop_mgr \<Rightarrow> int \<times> int" where
  "getGopByLatency latency g = gop_back latency (lastest_timestamp g) (rev (gops g)) (-1, 0)"

definition clearExpiredGop :: "int \<Rightarrow> gop_mgr \<Rightarrow> gop_mgr" where
  "clearExpiredGop m g = g\<lparr>gops := filter (\<lambda>(i, t). \<not> i \<le> m) (gops g)\<rparr>"

lemma gop_back_takeWhile:
  "gop_back l n items r =
     (let ok = takeWhile (\<lambda>(i, t). i32 (n - t) \<le> l) items in
      if ok = [] then r else (fst (last ok), i32 (n - snd (last ok))))"
  by (induction l n items r rule: gop_back.induct) (auto simp: Let_def)

lemma gop_back_in:
  "gop_back l n items (-1, 0) = (i, lat) \<Longrightarrow> i \<noteq> -1 \<Longrightarrow> \<exists>t. (i, t) \<in> set items \<and> lat = i32 (n - t) \<and> lat \<le> l"
proof -
  assume a: "gop_back l n items (-1, 0) = (i, lat)" "i \<noteq> -1"
  let ?ok = "takeWhile (\<lambda>(i, t). i32 (n - t) \<le> l) items"
  have ne: "?ok \<noteq> []" "(i, lat) = (fst (last ?ok), i32 (n - snd (last ?ok)))"
    using a by (auto simp: gop_back_takeWhile Let_def split: if_splits)
  have "last ?ok \<in> set ?ok" using ne(1) by simp
  then have "last ?ok \<in> set items" "i32 (n - snd (last ?ok)) \<le> l"
    by (auto dest: set_takeWhileD)
  then show ?thesis using ne(2) by (intro exI [of _ "snd (last ?ok)"]) simp
qed

lemma getGopByLatency_in:
  "getGopByLatency l g = (i, lat) \<Longrightarrow> i \<noteq> -1 \<Longrightarrow>
   \<exists>t. (i, t) \<in> set (gops g) \<and> lat = i32 (lastest_timestamp g - t) \<and> lat \<le> l"
  using gop_back_in by (fastforce simp: getGopByLatency_def)

section \<open>Codec headers\<close>

record codec_header =
  video_header :: "packet option"
  audio_header :: "packet option"
  meta_header :: "packet option"
  meta_version :: int
  audio_version :: int
  video_version :: int
  video_header_packets :: "packet list"
  audio_header_packets :: "packet list"
  meta_packets :: "packet list"

definition newCodecHeader :: codec_header where
  "newCodecHeader = \<lparr>video_header = None, audio_header = None, meta_header = None,
     meta_version = 0, audio_version = 0, video_version = 0, video_header_packets = [],
     audio_header_packets = [], meta_packets = []\<rparr>"

text \<open>The search the three getters share: from the end, the first index that is not behind.\<close>

definition header_at :: "int \<Rightarrow> packet list \<Rightarrow> packet option \<Rightarrow> packet option" where
  "header_at index ps current =
     (if index \<le> 0 then current
      else case dropWhile (\<lambda>p. \<not> pindex p \<le> index) (rev ps) of p # r \<Rightarrow> Some p | [] \<Rightarrow> current)"

definition getMeta :: "int \<Rightarrow> codec_header \<Rightarrow> packet option" where
  "getMeta index h = header_at index (meta_packets h) (meta_header h)"

definition getVideoHeader :: "int \<Rightarrow> codec_header \<Rightarrow> packet option" where
  "getVideoHeader index h = header_at index (video_header_packets h) (video_header h)"

definition getAudioHeader :: "int \<Rightarrow> codec_header \<Rightarrow> packet option" where
  "getAudioHeader index h = header_at index (audio_header_packets h) (audio_header h)"

definition saveMeta :: "packet \<Rightarrow> codec_header \<Rightarrow> codec_header" where
  "saveMeta p h = h\<lparr>meta_header := Some p, meta_version := meta_version h + 1,
     meta_packets := meta_packets h @ [p]\<rparr>"

definition saveAudioHeader :: "packet \<Rightarrow> codec_header \<Rightarrow> codec_header" where
  "saveAudioHeader p h = h\<lparr>audio_header := Some p, audio_version := audio_version h + 1,
     audio_header_packets := audio_header_packets h @ [p]\<rparr>"

definition saveVideoHeader :: "packet \<Rightarrow> codec_header \<Rightarrow> codec_header" where
  "saveVideoHeader p h = h\<lparr>video_header := Some p, video_version := video_version h + 1,
     video_header_packets := video_header_packets h @ [p]\<rparr>"

text \<open>
  \<open>parseMeta\<close> decodes the packet and prints what it finds. It returns at once unless the decoder
  returns 0, that is unless nothing was decoded; what is left of it is the decoder's fault.
\<close>

definition parseMeta :: "packet \<Rightarrow> unit res" where
  "parseMeta p = bindr (object_decode (pblock p) (i32 (int (psize p))) False) (\<lambda>r. Inr ())"

definition parseCodecHeader :: "packet \<Rightarrow> codec_header \<Rightarrow> codec_header res" where
  "parseCodecHeader p h =
     (if isMeta p then bindr (parseMeta p) (\<lambda>u. Inr (saveMeta p h))
      else if isAudio p then Inr (saveAudioHeader p h)
      else if isVideo p then Inr (saveVideoHeader p h)
      else Inr h)"

text \<open>The packets of a list stand in the order of their indices.\<close>

definition by_index :: "packet list \<Rightarrow> bool" where
  "by_index ps \<longleftrightarrow> sorted_wrt (\<lambda>p q. pindex p < pindex q) ps"

lemma header_at_newest:
  assumes "by_index ps" "0 < index" "header_at index ps current = Some p" "\<exists>q \<in> set ps. pindex q \<le> index"
  shows "p \<in> set ps \<and> pindex p \<le> index \<and> (\<forall>q \<in> set ps. pindex q \<le> index \<longrightarrow> pindex q \<le> pindex p)"
proof -
  let ?far = "\<lambda>p. \<not> pindex p \<le> index"
  have ne: "dropWhile ?far (rev ps) \<noteq> []"
    using assms(4) by (auto simp: dropWhile_eq_Nil_conv)
  then obtain r where d: "dropWhile ?far (rev ps) = p # r"
    using assms(2,3) by (auto simp: header_at_def split: list.splits)
  have rs: "rev ps = takeWhile ?far (rev ps) @ p # r"
    using takeWhile_dropWhile_id [of ?far "rev ps"] unfolding d by (rule sym)
  have p: "pindex p \<le> index" using hd_dropWhile [OF ne] unfolding d by simp
  have "sorted_wrt (\<lambda>p q. pindex q < pindex p) (rev ps)"
    using assms(1) by (simp add: by_index_def sorted_wrt_rev)
  then have "\<forall>q \<in> set r. pindex q < pindex p"
    by (subst (asm) rs) (simp add: sorted_wrt_append)
  moreover have "\<forall>q \<in> set (takeWhile ?far (rev ps)). \<not> pindex q \<le> index"
    by (auto dest: set_takeWhileD)
  moreover have "set ps = set (takeWhile ?far (rev ps)) \<union> insert p (set r)"
    using arg_cong [OF rs, of set] by simp
  ultimately show ?thesis using p by force
qed

section \<open>Properties\<close>

text \<open>
  The group of pictures a player starts from. \<open>getGopByLatency\<close> returns a group's first frame
  whose latency is within the bound, and the oldest such that every newer group is within it too;
  it returns -1 exactly when there is no group or the newest one is already too old.
\<close>

theorem gop_by_latency:
  assumes "gops g = old @ recent" "\<forall>(i, t) \<in> set recent. i32 (lastest_timestamp g - t) \<le> latency"
    and "old \<noteq> [] \<longrightarrow> latency < i32 (lastest_timestamp g - snd (last old))"
  shows "getGopByLatency latency g =
    (case recent of [] \<Rightarrow> (-1, 0) | (i, t) # r \<Rightarrow> (i, i32 (lastest_timestamp g - t)))"
proof -
  let ?P = "\<lambda>(i, t). i32 (lastest_timestamp g - t) \<le> latency"
  have tw: "takeWhile ?P (rev (gops g)) = rev recent @ takeWhile ?P (rev old)"
    unfolding assms(1) rev_append
    by (rule takeWhile_append2) (use assms(2) in auto)
  have "takeWhile ?P (rev old) = []"
    using assms(3) by (cases old rule: rev_cases) (auto split: prod.splits)
  then have ok: "takeWhile ?P (rev (gops g)) = rev recent" using tw by simp
  show ?thesis
    by (cases recent) (auto simp: getGopByLatency_def gop_back_takeWhile ok Let_def)
qed

definition demo_gops :: gop_mgr where
  "demo_gops = newGopMgr\<lparr>gops := [(0, 0), (30, 1000), (60, 2000)], lastest_timestamp := 2500\<rparr>"

theorem gop_by_latency_witness: "getGopByLatency 1600 demo_gops = (30, 1500)"
  using gop_by_latency [of demo_gops "[(0, 0)]" "[(30, 1000), (60, 2000)]" 1600]
  by (simp add: demo_gops_def)

end
