(* ===== verification/LiveStream.thy ===== *)
theory LiveStream
  imports LiveMedia
begin

unbundle bit_operations_syntax

text \<open>
  The live stream of \<open>src/live/live_stream.cpp\<close> and the part of a player the stream works on
  (\<open>include/live/player_user.h\<close>): a ring of the last thousand packets, the groups of pictures and
  the codec headers on one side, the player's position and what it has to send on the other.
  The time of the call is a parameter. \<open>addPacket\<close> says whether it wakes the players, which is the
  session's \<open>activeAllPlayers\<close>.
\<close>

section \<open>The stream\<close>

record live_stream =
  data_coming_time :: int
  start_timestamp :: int
  ready_time :: int
  stream_time :: int
  frame_index :: int
  packet_buffer :: "packet option list"
  has_audio :: bool
  has_video :: bool
  has_meta :: bool
  stream_ready :: bool
  stream_version :: int
  ls_gops :: gop_mgr
  codec_headers :: codec_header
  ls_corrector :: corrector

definition packet_buffer_size :: int where "packet_buffer_size = 1000"
definition LIVE_TIMEOUT_SEC :: int where "LIVE_TIMEOUT_SEC = 20 * 1000"

definition newStream :: "int \<Rightarrow> live_stream" where
  "newStream now = \<lparr>data_coming_time = 0, start_timestamp = now, ready_time = 0, stream_time = now,
     frame_index = -1, packet_buffer = replicate (nat packet_buffer_size) None, has_audio = False,
     has_video = False, has_meta = False, stream_ready = False, stream_version = -1,
     ls_gops = newGopMgr, codec_headers = newCodecHeader, ls_corrector = newCorrector\<rparr>"

definition sinceStart :: "int \<Rightarrow> live_stream \<Rightarrow> int" where
  "sinceStart now s = now - start_timestamp s"

definition stream_isTimeout :: "int \<Rightarrow> live_stream \<Rightarrow> bool" where
  "stream_isTimeout now s \<longleftrightarrow> LIVE_TIMEOUT_SEC < now - stream_time s"

definition hasMedia :: "live_stream \<Rightarrow> bool" where
  "hasMedia s \<longleftrightarrow> has_audio s \<or> has_video s \<or> has_meta s"

definition setReady :: "int \<Rightarrow> live_stream \<Rightarrow> live_stream" where
  "setReady now s = s\<lparr>stream_ready := True, ready_time := now\<rparr>"

section \<open>Adding a packet\<close>

definition mark_key :: "packet \<Rightarrow> packet" where
  "mark_key p = (if isVideo p \<and> isKeyFrameTag p
     then p\<lparr>ptype := kPacketTypeVideo OR kFrameTypeKeyFrame\<rparr> else p)"

text \<open>The flags and the version a codec header changes; \<open>has_meta_\<close> is named but not set.\<close>

definition header_flags :: "packet \<Rightarrow> live_stream \<Rightarrow> live_stream" where
  "header_flags p s =
     (if isVideo p then s\<lparr>has_video := True, stream_version := stream_version s + 1\<rparr>
      else if isAudio p then s\<lparr>has_audio := True, stream_version := stream_version s + 1\<rparr>
      else if isMeta p then s\<lparr>stream_version := stream_version s + 1\<rparr>
      else s)"

definition save_header :: "packet \<Rightarrow> live_stream \<Rightarrow> live_stream res" where
  "save_header p s =
     (if isCodecHeader p then
        bindr (parseCodecHeader p (codec_headers s))
          (\<lambda>h. Inr (header_flags p (s\<lparr>codec_headers := h\<rparr>)))
      else Inr s)"

text \<open>The packet enters the groups and the ring; groups that left the ring are dropped.\<close>

definition slot :: "int \<Rightarrow> nat" where
  "slot i = nat (i mod packet_buffer_size)"

definition store_packet :: "packet \<Rightarrow> live_stream \<Rightarrow> live_stream" where
  "store_packet p s =
     (let s1 = s\<lparr>ls_gops := addFrame p (ls_gops s),
                 packet_buffer := (packet_buffer s)[slot (frame_index s) := Some p]\<rparr>;
          min_idx = frame_index s1 - packet_buffer_size
      in if 0 < min_idx then s1\<lparr>ls_gops := clearExpiredGop (i32 min_idx) (ls_gops s1)\<rparr> else s1)"

definition addPacket :: "int \<Rightarrow> packet \<Rightarrow> live_stream \<Rightarrow> (live_stream \<times> bool) res" where
  "addPacket now p0 s0 =
     (case correctTimestamp p0 (ls_corrector s0) of (t, tc) \<Rightarrow>
      let index = frame_index s0 + 1;
          p1 = (setTimestamp t p0)\<lparr>pindex := i32 index\<rparr>;
          s1 = s0\<lparr>ls_corrector := tc, frame_index := index\<rparr>;
          s2 = (if isVideo p1 \<and> isKeyFrameTag p1 then setReady now s1 else s1);
          p = mark_key p1
      in bindr (save_header p s2) (\<lambda>s3.
        let s4 = store_packet p s3;
            s5 = (if data_coming_time s4 = 0 then s4\<lparr>data_coming_time := now\<rparr> else s4);
            s6 = s5\<lparr>stream_time := now\<rparr>
        in Inr (s6, frame_index s6 < 300 \<or> frame_index s6 mod 5 = 0)))"

section \<open>What the stream knows of a player\<close>

record player =
  pl_video_header :: "packet option"
  pl_audio_header :: "packet option"
  pl_meta :: "packet option"
  wait_meta :: bool
  wait_audio :: bool
  wait_video :: bool
  video_header_index :: int
  audio_header_index :: int
  meta_index :: int
  pl_corrector :: corrector
  wait_timeout :: bool
  out_version :: int
  out_frame_timestamp :: int
  out_frames :: "packet list"
  out_index :: int
  content_latency :: int
  pl_start :: int

definition newPlayer :: "int \<Rightarrow> int \<Rightarrow> player" where
  "newPlayer latency now = \<lparr>pl_video_header = None, pl_audio_header = None, pl_meta = None,
     wait_meta = True, wait_audio = True, wait_video = True, video_header_index = 0,
     audio_header_index = 0, meta_index = 0, pl_corrector = newCorrector, wait_timeout = False,
     out_version = -1, out_frame_timestamp = 0, out_frames = [], out_index = -1,
     content_latency = latency, pl_start = now\<rparr>"

definition waited :: "int \<Rightarrow> player \<Rightarrow> player" where
  "waited now u = (if 1000 \<le> now - pl_start u \<and> \<not> wait_timeout u then u\<lparr>wait_timeout := True\<rparr> else u)"

text \<open>The three headers a player waits for, each taken when the stream has one.\<close>

definition take_meta :: "int \<Rightarrow> live_stream \<Rightarrow> player \<Rightarrow> player" where
  "take_meta index s u0 =
     (let u = u0\<lparr>wait_meta := wait_meta u0 \<and> has_meta s\<rparr> in
      if wait_meta u then
        case getMeta index (codec_headers s) of
          Some m \<Rightarrow> u\<lparr>wait_meta := False, pl_meta := Some m, meta_index := pindex m\<rparr>
        | None \<Rightarrow> u
      else u)"

definition take_audio :: "int \<Rightarrow> live_stream \<Rightarrow> player \<Rightarrow> player" where
  "take_audio index s u0 =
     (let u = u0\<lparr>wait_audio := wait_audio u0 \<and> has_audio s\<rparr> in
      if wait_audio u then
        case getAudioHeader index (codec_headers s) of
          Some m \<Rightarrow> u\<lparr>wait_audio := False, pl_audio_header := Some m, audio_header_index := pindex m\<rparr>
        | None \<Rightarrow> u
      else u)"

definition take_video :: "int \<Rightarrow> live_stream \<Rightarrow> player \<Rightarrow> player" where
  "take_video index s u0 =
     (let u = u0\<lparr>wait_video := wait_video u0 \<and> has_video s\<rparr> in
      if wait_video u then
        case getVideoHeader index (codec_headers s) of
          Some m \<Rightarrow> u\<lparr>wait_video := False, pl_video_header := Some m, video_header_index := pindex m\<rparr>
        | None \<Rightarrow> u
      else u)"

definition locateGop :: "int \<Rightarrow> live_stream \<Rightarrow> player \<Rightarrow> bool \<times> player" where
  "locateGop now s u0 =
     (case getGopByLatency (content_latency u0) (ls_gops s) of (index, latency) \<Rightarrow>
      if index = -1 then (False, waited now u0)
      else
        let u = take_video index s (take_audio index s (take_meta index s (u0\<lparr>out_index := index - 1\<rparr>)))
        in if wait_meta u \<or> wait_audio u \<or> wait_video u then (False, waited now u)
           else (True, u\<lparr>wait_meta := True, wait_audio := True, wait_video := True,
                         out_version := stream_version s\<rparr>))"

text \<open>A newer header replaces what the player has when it skips frames.\<close>

definition newer :: "packet option \<Rightarrow> int \<Rightarrow> bool" where
  "newer m i \<longleftrightarrow> (case m of None \<Rightarrow> False | Some p \<Rightarrow> i < pindex p)"

definition skipFrame :: "live_stream \<Rightarrow> player \<Rightarrow> player" where
  "skipFrame s u0 =
     (case getGopByLatency (content_latency u0) (ls_gops s) of (index, latency) \<Rightarrow>
      if index = -1 \<or> index \<le> out_index u0 then u0
      else
        let m = getMeta index (codec_headers s);
            a = getAudioHeader index (codec_headers s);
            v = getVideoHeader index (codec_headers s);
            u1 = (if newer m (meta_index u0)
                  then u0\<lparr>pl_meta := m, meta_index := pindex (the m)\<rparr> else u0);
            u2 = (if newer a (audio_header_index u1)
                  then u1\<lparr>pl_audio_header := a, audio_header_index := pindex (the a)\<rparr> else u1);
            u3 = (if newer v (video_header_index u2)
                  then u2\<lparr>pl_video_header := v, video_header_index := pindex (the v)\<rparr> else u2)
        in u3\<lparr>out_index := index - 1\<rparr>)"

text \<open>At most ten packets from the ring, each found at the slot after the one before it.\<close>

fun next_frames :: "nat \<Rightarrow> int \<Rightarrow> live_stream \<Rightarrow> player \<Rightarrow> player" where
  "next_frames 0 index s u = u"
| "next_frames (Suc n) index s u =
     (if frame_index s < index then u
      else case packet_buffer s ! slot index of
          Some p \<Rightarrow> next_frames n (pindex p + 1) s
            (u\<lparr>out_frames := out_frames u @ [p], out_index := pindex p,
               out_frame_timestamp := i32 (ptimestamp p)\<rparr>)
        | None \<Rightarrow> u)"

definition getNextFrame :: "live_stream \<Rightarrow> player \<Rightarrow> player" where
  "getNextFrame s u = next_frames 10 (out_index u + 1) s u"

definition has_pending :: "player \<Rightarrow> bool" where
  "has_pending u \<longleftrightarrow> pl_meta u \<noteq> None \<or> pl_audio_header u \<noteq> None \<or> pl_video_header u \<noteq> None
     \<or> out_frames u \<noteq> []"

definition getFrames :: "int \<Rightarrow> live_stream \<Rightarrow> player \<Rightarrow> player" where
  "getFrames now s u =
     (if \<not> hasMedia s \<or> has_pending u then u
      else if 0 \<le> out_index u then
        let min_index = i32 (frame_index s - packet_buffer_size) in
        getNextFrame s
          (if out_index u < min_index \<or>
              2 * content_latency u < lastest_timestamp (ls_gops s) - out_frame_timestamp u
           then skipFrame s u else u)
      else case locateGop now s u of (ok, u1) \<Rightarrow> if ok then getNextFrame s u1 else u1)"

section \<open>What a stream keeps\<close>

text \<open>
  The ring holds the newest thousand packets, each at the slot of its index. The groups stand in
  order, each at a key frame of the ring - except that when the newest index is exactly 1000 a
  group that starts at index 0 is kept, though its slot has been written again: the group is
  dropped only when the least index is above 0.
\<close>

definition window :: "int \<Rightarrow> int \<Rightarrow> bool" where
  "window f i \<longleftrightarrow> 0 \<le> i \<and> i \<le> f \<and> f - 1000 < i"

definition ring_all :: "(int \<Rightarrow> packet \<Rightarrow> bool) \<Rightarrow> int \<Rightarrow> packet option list \<Rightarrow> bool" where
  "ring_all Q f buf \<longleftrightarrow> length buf = 1000 \<and>
     (\<forall>i. window f i \<longrightarrow> (\<exists>p. buf ! slot i = Some p \<and> Q i p))"

abbreviation ring_inv :: "int \<Rightarrow> packet option list \<Rightarrow> bool" where
  "ring_inv \<equiv> ring_all (\<lambda>i p. pindex p = i)"

definition gop_inv :: "int \<Rightarrow> packet option list \<Rightarrow> gop_item list \<Rightarrow> bool" where
  "gop_inv f buf gs \<longleftrightarrow> sorted_wrt (\<lambda>g h. fst g < fst h) gs \<and>
     (\<forall>(i, t) \<in> set gs. (window f i \<or> (f = 1000 \<and> i = 0)) \<and>
        (window f i \<longrightarrow> (\<exists>p. buf ! slot i = Some p \<and> isKeyFrame p \<and> ptimestamp p = t)))"

definition stream_inv :: "live_stream \<Rightarrow> bool" where
  "stream_inv s \<longleftrightarrow> -1 \<le> frame_index s \<and> frame_index s < 2 ^ 31 \<and>
     ring_inv (frame_index s) (packet_buffer s) \<and>
     gop_inv (frame_index s) (packet_buffer s) (gops (ls_gops s)) \<and>
     (has_audio s \<longrightarrow> audio_header (codec_headers s) \<noteq> None) \<and>
     (has_video s \<longrightarrow> video_header (codec_headers s) \<noteq> None) \<and> \<not> has_meta s"

lemma newStream_inv: "stream_inv (newStream now)"
  by (auto simp: stream_inv_def newStream_def ring_all_def gop_inv_def window_def packet_buffer_size_def
      newGopMgr_def)

lemma slot_less: "slot i < 1000"
  by (simp add: slot_def packet_buffer_size_def nat_less_iff)

lemma slot_apart:
  assumes "window f i" "i \<noteq> f"
  shows "slot i \<noteq> slot f"
proof
  assume "slot i = slot f"
  then have "i mod 1000 = f mod 1000"
    by (simp add: slot_def packet_buffer_size_def eq_nat_nat_iff)
  then have "1000 dvd f - i" by (metis mod_eq_dvd_iff)
  moreover have "0 < f - i" "f - i < 1000" using assms by (auto simp: window_def)
  ultimately show False using zdvd_imp_le by fastforce
qed

lemma ring_step:
  assumes "ring_all Q (f - 1) buf" "Q f p"
  shows "ring_all Q f (buf[slot f := Some p])"
  unfolding ring_all_def
proof (intro conjI allI impI)
  show "length (buf[slot f := Some p]) = 1000" using assms(1) by (simp add: ring_all_def)
  fix i assume w: "window f i"
  show "\<exists>q. buf[slot f := Some p] ! slot i = Some q \<and> Q i q"
  proof (cases "i = f")
    case True
    then show ?thesis using assms slot_less [of f] by (simp add: ring_all_def)
  next
    case False
    then have "window (f - 1) i" using w by (auto simp: window_def)
    then show ?thesis using assms(1) slot_apart [OF w False] by (simp add: ring_all_def)
  qed
qed

lemma gop_kept:
  assumes "gop_inv (f - 1) buf gs" "0 \<le> f" "length buf = 1000"
  shows "gop_inv f (buf[slot f := Some p])
    (if 0 < f - 1000 then filter (\<lambda>(i, t). \<not> i \<le> f - 1000) gs else gs)"
proof -
  let ?gs = "if 0 < f - 1000 then filter (\<lambda>(i, t). \<not> i \<le> f - 1000) gs else gs"
  have "sorted_wrt (\<lambda>g h. fst g < fst h) ?gs"
    using assms(1) by (simp add: gop_inv_def sorted_wrt_filter)
  moreover have "(window f i \<or> (f = 1000 \<and> i = 0)) \<and>
      (window f i \<longrightarrow> (\<exists>q. buf[slot f := Some p] ! slot i = Some q \<and> isKeyFrame q \<and> ptimestamp q = t))"
    if m: "(i, t) \<in> set ?gs" for i t
  proof -
    have g: "(i, t) \<in> set gs" "0 < f - 1000 \<Longrightarrow> f - 1000 < i" using m by (auto split: if_splits)
    then have old: "window (f - 1) i \<or> (f - 1 = 1000 \<and> i = 0)"
      using assms(1) by (auto simp: gop_inv_def)
    have w: "window (f - 1) i" using old g(2) by (auto simp: window_def)
    then obtain q where q: "buf ! slot i = Some q" "isKeyFrame q" "ptimestamp q = t"
      using assms(1) g(1) by (auto simp: gop_inv_def)
    have ne: "i \<noteq> f" using w by (auto simp: window_def)
    have "f - 1000 < i \<or> (f = 1000 \<and> i = 0)"
      using w g(2) unfolding window_def by linarith
    then have "window f i \<or> (f = 1000 \<and> i = 0)" using w by (auto simp: window_def)
    then show ?thesis using q ne slot_apart [of f i] by auto
  qed
  ultimately show ?thesis unfolding gop_inv_def by blast
qed

lemma gop_added:
  assumes "gop_inv f buf gs" "\<forall>(i, t) \<in> set gs. i < f" "0 \<le> f" "buf ! slot f = Some p" "isKeyFrame p"
  shows "gop_inv f buf (gs @ [(f, ptimestamp p)])"
  using assms by (auto simp: gop_inv_def window_def sorted_wrt_append)

lemma store_packet_sel [simp]:
  "frame_index (store_packet p s) = frame_index s"
  "codec_headers (store_packet p s) = codec_headers s" "has_audio (store_packet p s) = has_audio s"
  "has_video (store_packet p s) = has_video s" "has_meta (store_packet p s) = has_meta s"
  "stream_ready (store_packet p s) = stream_ready s"
  "ls_corrector (store_packet p s) = ls_corrector s"
  "packet_buffer (store_packet p s) = (packet_buffer s)[slot (frame_index s) := Some p]"
  by (simp_all add: store_packet_def Let_def)

lemma store_packet_gops:
  assumes "-1 \<le> f - 1" "f < 2 ^ 31" "frame_index s = f" "pindex p = f"
  shows "gops (ls_gops (store_packet p s)) =
    (let gs = gops (ls_gops s);
         old = (if 0 < f - 1000 then filter (\<lambda>(i, t). \<not> i \<le> f - 1000) gs else gs)
     in if isKeyFrame p then old @ [(f, ptimestamp p)] else old)"
proof -
  have i: "i32 (f - 1000) = f - 1000" using assms(1,2) by simp
  show ?thesis
    using assms(3,4)
    by (simp add: store_packet_def Let_def addFrame_def clearExpiredGop_def packet_buffer_size_def i)
qed

lemma store_packet_inv:
  assumes inv: "ring_inv (f - 1) (packet_buffer s)" "gop_inv (f - 1) (packet_buffer s) (gops (ls_gops s))"
    and f: "0 \<le> f" "f < 2 ^ 31" "frame_index s = f" "pindex p = f"
  shows "ring_inv f (packet_buffer (store_packet p s)) \<and>
    gop_inv f (packet_buffer (store_packet p s)) (gops (ls_gops (store_packet p s)))"
proof
  show r: "ring_inv f (packet_buffer (store_packet p s))"
    using ring_step [OF inv(1), of p] f(4) by (simp add: f(3))
  let ?buf = "(packet_buffer s)[slot f := Some p]" and ?gs = "gops (ls_gops s)"
  let ?old = "if 0 < f - 1000 then filter (\<lambda>(i, t). \<not> i \<le> f - 1000) ?gs else ?gs"
  have len: "length (packet_buffer s) = 1000" using inv(1) by (simp add: ring_all_def)
  have old: "gop_inv f ?buf ?old" by (rule gop_kept [OF inv(2) f(1) len])
  have lt: "\<forall>(i, t) \<in> set ?old. i < f"
    using inv(2) by (fastforce simp: gop_inv_def window_def split: if_splits)
  have "?buf ! slot f = Some p" using slot_less [of f] len by simp
  then have "isKeyFrame p \<Longrightarrow> gop_inv f ?buf (?old @ [(f, ptimestamp p)])"
    using gop_added [OF old lt f(1)] by blast
  then show "gop_inv f (packet_buffer (store_packet p s)) (gops (ls_gops (store_packet p s)))"
    using old store_packet_gops [of f s p] f by (simp add: Let_def)
qed

text \<open>What a codec header changes.\<close>

lemma save_header_frame:
  assumes "save_header p s = Inr s1"
  shows "frame_index s1 = frame_index s" "packet_buffer s1 = packet_buffer s" "ls_gops s1 = ls_gops s"
    "has_meta s1 = has_meta s" "stream_ready s1 = stream_ready s"
  using assms by (auto simp: save_header_def header_flags_def res_simps split: if_splits)

lemma save_header_headers:
  assumes "save_header p s = Inr s1"
    and "has_audio s \<longrightarrow> audio_header (codec_headers s) \<noteq> None"
    and "has_video s \<longrightarrow> video_header (codec_headers s) \<noteq> None"
  shows "(has_audio s1 \<longrightarrow> audio_header (codec_headers s1) \<noteq> None) \<and>
    (has_video s1 \<longrightarrow> video_header (codec_headers s1) \<noteq> None)"
proof -
  have vm: "isVideo p \<Longrightarrow> \<not> isMeta p" "isVideo p \<Longrightarrow> \<not> isAudio p" "isAudio p \<Longrightarrow> \<not> isMeta p"
    by (auto simp: isVideo_def isMeta_def isAudio_def packet_types)
  show ?thesis
    using assms vm
    by (auto simp: save_header_def header_flags_def parseCodecHeader_def saveMeta_def
        saveAudioHeader_def saveVideoHeader_def res_simps split: if_splits)
qed

lemma mark_key_sel [simp]:
  "pindex (mark_key p) = pindex p" "ptimestamp (mark_key p) = ptimestamp p" "pdata (mark_key p) = pdata p"
  by (simp_all add: mark_key_def pdata_def)

lemma addPacket_shape:
  assumes "addPacket now p0 s0 = Inr (s, b)"
  obtains t tc p s2 s3 where "correctTimestamp p0 (ls_corrector s0) = (t, tc)"
    "p = mark_key ((setTimestamp t p0)\<lparr>pindex := i32 (frame_index s0 + 1)\<rparr>)"
    "save_header p s2 = Inr s3" "frame_index s2 = frame_index s0 + 1"
    "packet_buffer s2 = packet_buffer s0" "ls_gops s2 = ls_gops s0" "codec_headers s2 = codec_headers s0"
    "has_audio s2 = has_audio s0" "has_video s2 = has_video s0" "has_meta s2 = has_meta s0"
    "frame_index s = frame_index s3" "packet_buffer s = packet_buffer (store_packet p s3)"
    "ls_gops s = ls_gops (store_packet p s3)" "codec_headers s = codec_headers s3"
    "has_audio s = has_audio s3" "has_video s = has_video s3" "has_meta s = has_meta s3"
    "ls_corrector s2 = tc" "ls_corrector s = ls_corrector s3"
proof -
  obtain t tc where c: "correctTimestamp p0 (ls_corrector s0) = (t, tc)" by fastforce
  let ?p1 = "(setTimestamp t p0)\<lparr>pindex := i32 (frame_index s0 + 1)\<rparr>"
  let ?s1 = "s0\<lparr>ls_corrector := tc, frame_index := frame_index s0 + 1\<rparr>"
  let ?s2 = "if isVideo ?p1 \<and> isKeyFrameTag ?p1 then setReady now ?s1 else ?s1"
  obtain s3 where "save_header (mark_key ?p1) ?s2 = Inr s3"
      "s = (if data_coming_time (store_packet (mark_key ?p1) s3) = 0
            then (store_packet (mark_key ?p1) s3)\<lparr>data_coming_time := now\<rparr>
            else store_packet (mark_key ?p1) s3)\<lparr>stream_time := now\<rparr>"
    using assms by (auto simp: addPacket_def c Let_def res_simps)
  then show thesis by (intro that [OF c refl, of ?s2 s3]) (simp_all add: setReady_def)
qed

lemma addPacket_inv:
  assumes inv: "stream_inv s0" and step: "addPacket now p0 s0 = Inr (s, b)"
    and room: "frame_index s0 + 1 < 2 ^ 31"
  shows "stream_inv s \<and> frame_index s = frame_index s0 + 1"
proof -
  let ?f = "frame_index s0 + 1"
  obtain t tc p s2 s3 where a: "p = mark_key ((setTimestamp t p0)\<lparr>pindex := i32 ?f\<rparr>)"
    "save_header p s2 = Inr s3" "frame_index s2 = ?f"
    "packet_buffer s2 = packet_buffer s0" "ls_gops s2 = ls_gops s0" "codec_headers s2 = codec_headers s0"
    "has_audio s2 = has_audio s0" "has_video s2 = has_video s0" "has_meta s2 = has_meta s0"
    "frame_index s = frame_index s3" "packet_buffer s = packet_buffer (store_packet p s3)"
    "ls_gops s = ls_gops (store_packet p s3)" "codec_headers s = codec_headers s3"
    "has_audio s = has_audio s3" "has_video s = has_video s3" "has_meta s = has_meta s3"
    using addPacket_shape [OF step] by metis
  note fr = save_header_frame [OF a(2)]
  have p: "pindex p = ?f" using inv room by (simp add: a(1) stream_inv_def)
  have "ring_inv ?f (packet_buffer (store_packet p s3)) \<and>
      gop_inv ?f (packet_buffer (store_packet p s3)) (gops (ls_gops (store_packet p s3)))"
    by (rule store_packet_inv) (use inv room p a fr in \<open>simp_all add: stream_inv_def\<close>)
  moreover have "(has_audio s3 \<longrightarrow> audio_header (codec_headers s3) \<noteq> None) \<and>
      (has_video s3 \<longrightarrow> video_header (codec_headers s3) \<noteq> None)"
    by (rule save_header_headers [OF a(2)]) (use inv a in \<open>simp_all add: stream_inv_def\<close>)
  ultimately show ?thesis
    using inv room a fr by (simp add: stream_inv_def)
qed

section \<open>A run of the stream\<close>

fun add_all :: "(int \<times> packet) list \<Rightarrow> live_stream \<Rightarrow> live_stream res" where
  "add_all [] s = Inr s"
| "add_all ((now, p) # ps) s = bindr (addPacket now p s) (\<lambda>(s1, b). add_all ps s1)"

lemma add_all_snoc:
  "add_all (ps @ [(now, p)]) s = bindr (add_all ps s) (\<lambda>s1. bindr (addPacket now p s1) (\<lambda>(s2, b). Inr s2))"
  by (induction ps arbitrary: s) (simp_all add: bindr_assoc case_prod_unfold split_paired_all)

text \<open>A packet in the ring is the one that was added, but for its type, index and time.\<close>

definition same_media :: "packet \<Rightarrow> packet \<Rightarrow> bool" where
  "same_media q p \<longleftrightarrow> pblock q = pblock p \<and> psize q = psize p \<and> phdr q = phdr p \<and> pcap q = pcap p"

lemma addPacket_ring:
  assumes step: "addPacket now p0 s0 = Inr (s, b)"
    and ring: "ring_all Q (frame_index s0) (packet_buffer s0)"
    and Q: "\<And>p. same_media p p0 \<Longrightarrow> Q (frame_index s0 + 1) p"
  shows "ring_all Q (frame_index s) (packet_buffer s)"
proof -
  obtain t p s2 s3 where a: "p = mark_key ((setTimestamp t p0)\<lparr>pindex := i32 (frame_index s0 + 1)\<rparr>)"
      "save_header p s2 = Inr s3" "frame_index s2 = frame_index s0 + 1"
      "packet_buffer s2 = packet_buffer s0" "frame_index s = frame_index s3"
      "packet_buffer s = packet_buffer (store_packet p s3)"
    using addPacket_shape [OF step] by metis
  have "same_media p p0" by (simp add: a(1) same_media_def mark_key_def setTimestamp_def)
  then have "ring_all Q (frame_index s0 + 1) ((packet_buffer s0)[slot (frame_index s0 + 1) := Some p])"
    using ring_step [of Q "frame_index s0 + 1" _ p] ring Q by simp
  then show ?thesis using a save_header_frame [OF a(2)] by simp
qed

lemma add_all_inv:
  "add_all ps (newStream t0) = Inr s \<Longrightarrow> length ps < 2 ^ 31 \<Longrightarrow>
   stream_inv s \<and> frame_index s = int (length ps) - 1
   \<and> ring_all (\<lambda>i p. same_media p (snd (ps ! nat i))) (frame_index s) (packet_buffer s)"
proof (induction ps arbitrary: s rule: rev_induct)
  case Nil
  then show ?case
    using newStream_inv [of t0]
    by (auto simp: newStream_def ring_all_def window_def packet_buffer_size_def)
next
  case (snoc x ps)
  obtain now p where x: "x = (now, p)" by (cases x) auto
  obtain s1 b where s1: "add_all ps (newStream t0) = Inr s1" "addPacket now p s1 = Inr (s, b)"
    using snoc.prems(1) by (auto simp: x add_all_snoc res_simps)
  have IH: "stream_inv s1" "frame_index s1 = int (length ps) - 1"
      "ring_all (\<lambda>i p. same_media p (snd (ps ! nat i))) (frame_index s1) (packet_buffer s1)"
    using snoc.IH [OF s1(1)] snoc.prems(2) by auto
  have lt: "frame_index s1 + 1 < 2 ^ 31" using snoc.prems(2) IH(2) by simp
  have "ring_all (\<lambda>i p. same_media p (snd ((ps @ [x]) ! nat i))) (frame_index s1) (packet_buffer s1)"
    using IH(2,3) by (auto simp: ring_all_def window_def nth_append)
  then have "ring_all (\<lambda>i p. same_media p (snd ((ps @ [x]) ! nat i))) (frame_index s) (packet_buffer s)"
    by (rule addPacket_ring [OF s1(2)]) (simp add: IH(2) x)
  then show ?case using addPacket_inv [OF IH(1) s1(2) lt] IH(2) by simp
qed

section \<open>Frames for a player\<close>

text \<open>From a position inside the ring the frames come without a gap.\<close>

lemma next_frames_window:
  assumes "ring_inv (frame_index s) (packet_buffer s)" "0 \<le> index" "frame_index s - 1000 < index"
  shows "\<exists>qs. out_frames (next_frames n index s u) = out_frames u @ qs
    \<and> map pindex qs = [index..min (index + int n - 1) (frame_index s)]
    \<and> (qs \<noteq> [] \<longrightarrow> packet_buffer s ! slot index = Some (hd qs))"
  using assms(2,3)
proof (induction n arbitrary: index u)
  case (Suc n)
  show ?case
  proof (cases "frame_index s < index")
    case True
    then show ?thesis by simp
  next
    case False
    then have "window (frame_index s) index" using Suc.prems by (simp add: window_def)
    then obtain p where p: "packet_buffer s ! slot index = Some p" "pindex p = index"
      using assms(1) by (auto simp: ring_all_def)
    let ?u = "u\<lparr>out_frames := out_frames u @ [p], out_index := pindex p,
                out_frame_timestamp := i32 (ptimestamp p)\<rparr>"
    obtain qs where qs: "out_frames (next_frames n (index + 1) s ?u) = out_frames ?u @ qs"
        "map pindex qs = [index + 1..min (index + 1 + int n - 1) (frame_index s)]"
      using Suc.IH [of "index + 1" ?u] Suc.prems by auto
    have "[index..min (index + int (Suc n) - 1) (frame_index s)]
        = index # [index + 1..min (index + 1 + int n - 1) (frame_index s)]"
      using False by (simp add: upto_rec1 algebra_simps)
    then show ?thesis
      using False p qs by (intro exI [of _ "p # qs"]) simp
  qed
qed simp

lemma next_frames_headers [simp]:
  "pl_audio_header (next_frames n i s u) = pl_audio_header u"
  "pl_video_header (next_frames n i s u) = pl_video_header u"
  "pl_meta (next_frames n i s u) = pl_meta u"
  by (induction n i s u rule: next_frames.induct) (auto split: option.splits)

lemma header_at_some: "current \<noteq> None \<Longrightarrow> header_at i ps current \<noteq> None"
  by (auto simp: header_at_def split: list.splits)

lemma take_headers:
  "out_index (take_meta i s u) = out_index u" "out_index (take_audio i s u) = out_index u"
  "out_index (take_video i s u) = out_index u"
  "out_frames (take_meta i s u) = out_frames u" "out_frames (take_audio i s u) = out_frames u"
  "out_frames (take_video i s u) = out_frames u"
  by (auto simp: take_meta_def take_audio_def take_video_def Let_def split: option.splits)

text \<open>A stream that has a group in the player's latency is located at once.\<close>

lemma locateGop_succeeds:
  assumes inv: "stream_inv s" and got: "getGopByLatency (content_latency u) (ls_gops s) = (i, lat)" "i \<noteq> -1"
  shows "\<exists>u1. locateGop now s u = (True, u1) \<and> out_index u1 = i - 1 \<and> out_frames u1 = out_frames u
    \<and> pl_meta u1 = pl_meta u
    \<and> (wait_audio u \<longrightarrow> has_audio s \<longrightarrow> pl_audio_header u1 \<noteq> None)
    \<and> (wait_video u \<longrightarrow> has_video s \<longrightarrow> pl_video_header u1 \<noteq> None)"
proof -
  let ?u1 = "take_meta i s (u\<lparr>out_index := i - 1\<rparr>)"
  let ?u2 = "take_audio i s ?u1"
  let ?u3 = "take_video i s ?u2"
  have m: "wait_meta ?u1 = False" "pl_meta ?u1 = pl_meta u" "wait_audio ?u1 = wait_audio u"
      "wait_video ?u1 = wait_video u"
    using inv by (simp_all add: take_meta_def stream_inv_def)
  have a: "wait_audio ?u2 = False" "wait_meta ?u2 = False" "pl_meta ?u2 = pl_meta u"
      "wait_video ?u2 = wait_video u" "wait_audio u \<longrightarrow> has_audio s \<longrightarrow> pl_audio_header ?u2 \<noteq> None"
    using inv m header_at_some [of "audio_header (codec_headers s)" i "audio_header_packets (codec_headers s)"]
    by (auto simp: take_audio_def getAudioHeader_def stream_inv_def Let_def split: option.splits)
  have v: "wait_video ?u3 = False" "wait_audio ?u3 = False" "wait_meta ?u3 = False" "pl_meta ?u3 = pl_meta u"
      "pl_audio_header ?u3 = pl_audio_header ?u2"
      "wait_video u \<longrightarrow> has_video s \<longrightarrow> pl_video_header ?u3 \<noteq> None"
    using inv a header_at_some [of "video_header (codec_headers s)" i "video_header_packets (codec_headers s)"]
    by (auto simp: take_video_def getVideoHeader_def stream_inv_def Let_def split: option.splits)
  show ?thesis
    using a(5) v got(2) by (simp add: locateGop_def got(1) Let_def take_headers)
qed

section \<open>Properties\<close>

text \<open>
  C17: the ring holds exactly what was added last. After any packets, however many, the slot of
  every index of the last thousand holds the packet that was added as the one with that index,
  with its bytes and its header, and no other: \<open>index % 1000\<close> never gives a player a wrong frame
  inside that window.
\<close>

theorem stream_keeps_last_thousand:
  assumes "add_all ps (newStream t0) = Inr s" "length ps < 2 ^ 31"
    and "i < length ps" "length ps - 1000 \<le> i"
  shows "\<exists>p. packet_buffer s ! slot (int i) = Some p \<and> pindex p = int i \<and> same_media p (snd (ps ! i))"
proof -
  have inv: "stream_inv s" "frame_index s = int (length ps) - 1"
      "ring_all (\<lambda>i p. same_media p (snd (ps ! nat i))) (frame_index s) (packet_buffer s)"
    using add_all_inv [OF assms(1,2)] by auto
  have "int (length ps) - 1000 \<le> int i" using assms(4) by linarith
  then have w: "window (frame_index s) (int i)" using assms(3) by (simp add: window_def inv(2))
  have r: "ring_inv (frame_index s) (packet_buffer s)" using inv(1) by (simp add: stream_inv_def)
  obtain p where "packet_buffer s ! slot (int i) = Some p" "pindex p = int i"
    using r w by (auto simp: ring_all_def)
  moreover obtain q where "packet_buffer s ! slot (int i) = Some q" "same_media q (snd (ps ! nat (int i)))"
    using inv(3) w unfolding ring_all_def by blast
  ultimately show ?thesis by auto
qed

definition demo_audio :: packet where
  "demo_audio = (newPacket 2)\<lparr>ptype := kPacketTypeAudio, psize := 2, pblock := [0xAF, 1]\<rparr>"

definition demo_video_header :: packet where
  "demo_video_header = (newPacket 2)\<lparr>ptype := kPacketTypeVideo, psize := 2, pblock := [0x17, 0]\<rparr>"

lemma demo_added: "\<exists>s. add_all [(0, demo_audio)] (newStream 0) = Inr s"
  by (simp add: addPacket_def Let_def save_header_def demo_audio_def isCodecHeader_def pdata_def
      mark_key_def isVideo_def packet_types setTimestamp_def case_prod_unfold)

theorem stream_keeps_last_thousand_witness:
  "\<exists>s p. add_all [(0, demo_audio)] (newStream 0) = Inr s \<and> packet_buffer s ! slot 0 = Some p
     \<and> pblock p = [0xAF, 1]"
proof -
  obtain s where s: "add_all [(0, demo_audio)] (newStream 0) = Inr s" using demo_added by blast
  show ?thesis
    using s stream_keeps_last_thousand [OF s, of 0] by (auto simp: same_media_def demo_audio_def)
qed

text \<open>
  Playback starts at a key frame. In a stream that has media, a player that has no position
  yet and for whom a group of pictures is recent enough gets, in one call, up to ten frames
  without a gap from the group's first frame on, which is a key frame, together with the audio
  and video headers the stream has. The one exception is a stream whose newest index is 1000.
\<close>

theorem playback_starts_at_key_frame:
  assumes "add_all ps (newStream t0) = Inr s" "length ps < 2 ^ 31" "hasMedia s" "frame_index s \<noteq> 1000"
    and "u = newPlayer latency t1" "getGopByLatency latency (ls_gops s) = (i, lat)" "i \<noteq> -1"
  shows "\<exists>q qs. out_frames (getFrames now s u) = q # qs \<and> isKeyFrame q \<and>
    map pindex (q # qs) = [i..min (i + 9) (frame_index s)] \<and>
    (has_audio s \<longrightarrow> pl_audio_header (getFrames now s u) \<noteq> None) \<and>
    (has_video s \<longrightarrow> pl_video_header (getFrames now s u) \<noteq> None)"
proof -
  have inv: "stream_inv s" using add_all_inv [OF assms(1,2)] by simp
  obtain t where t: "(i, t) \<in> set (gops (ls_gops s))"
    using getGopByLatency_in [OF assms(6,7)] by blast
  have w: "window (frame_index s) i"
      and k: "\<exists>p. packet_buffer s ! slot i = Some p \<and> isKeyFrame p \<and> ptimestamp p = t"
    using inv t assms(4) by (auto simp: stream_inv_def gop_inv_def)
  have cl: "content_latency u = latency" by (simp add: assms(5) newPlayer_def)
  obtain u1 where u1: "locateGop now s u = (True, u1)" "out_index u1 = i - 1" "out_frames u1 = []"
      "has_audio s \<longrightarrow> pl_audio_header u1 \<noteq> None" "has_video s \<longrightarrow> pl_video_header u1 \<noteq> None"
    using locateGop_succeeds [OF inv, of u i lat now] assms(6,7) cl
    by (auto simp: assms(5) newPlayer_def)
  have get: "getFrames now s u = next_frames 10 i s u1"
    using assms(3,5) u1(1,2) by (simp add: getFrames_def has_pending_def newPlayer_def getNextFrame_def)
  obtain qs where qs: "out_frames (next_frames 10 i s u1) = qs"
      "map pindex qs = [i..min (i + int 10 - 1) (frame_index s)]"
      "qs \<noteq> [] \<longrightarrow> packet_buffer s ! slot i = Some (hd qs)"
    using next_frames_window [of s i 10 u1] inv w u1(3) by (auto simp: stream_inv_def window_def)
  have "i \<le> min (i + int 10 - 1) (frame_index s)" using w by (simp add: window_def)
  then have "qs \<noteq> []" using qs(2) by auto
  then obtain q qs' where "qs = q # qs'" by (cases qs) auto
  then show ?thesis using qs k u1(4,5) get by (auto simp: add.commute)
qed

lemma newStream_sel [simp]:
  "frame_index (newStream t) = -1" "ls_corrector (newStream t) = newCorrector"
  "ls_gops (newStream t) = newGopMgr" "codec_headers (newStream t) = newCodecHeader"
  "has_audio (newStream t) = False" "has_video (newStream t) = False" "has_meta (newStream t) = False"
  by (simp_all add: newStream_def)

text \<open>A stream that starts with a video header.\<close>

lemma first_header:
  "\<exists>s. add_all [(0, demo_video_header)] (newStream 0) = Inr s \<and> has_video s \<and> \<not> has_audio s
     \<and> frame_index s = 0 \<and> gops (ls_gops s) = [(0, 0)] \<and> lastest_timestamp (ls_gops s) = 0
     \<and> ls_corrector s = newCorrector"
proof -
  let ?p = "demo_video_header\<lparr>pindex := 0, ptype := 17\<rparr>"
  have h: "correctTimestamp demo_video_header newCorrector = (0, newCorrector)"
    by (simp add: correctTimestamp_def demo_video_header_def isCodecHeader_def pdata_def)
  have m: "mark_key ((setTimestamp 0 demo_video_header)\<lparr>pindex := 0\<rparr>) = ?p"
    by (simp add: mark_key_def isVideo_def isKeyFrameTag_def demo_video_header_def setTimestamp_def
        pdata_def packet_types newPacket_def)
  have p: "isCodecHeader ?p" "isVideo ?p" "\<not> isMeta ?p" "\<not> isAudio ?p" "isKeyFrame ?p" "pindex ?p = 0"
      "ptimestamp ?p = 0"
    by (simp_all add: isCodecHeader_def isVideo_def isMeta_def isAudio_def isKeyFrame_def packet_types
        demo_video_header_def pdata_def newPacket_def)
  have sh: "save_header ?p s
      = Inr (s\<lparr>codec_headers := saveVideoHeader ?p (codec_headers s), has_video := True,
               stream_version := stream_version s + 1\<rparr>)" for s
    by (simp add: save_header_def parseCodecHeader_def header_flags_def p)
  have g: "gops (ls_gops (store_packet ?p s)) = gops (ls_gops s) @ [(0, 0)]"
      "lastest_timestamp (ls_gops (store_packet ?p s)) = 0" if "frame_index s = 0" for s
    using that p by (simp_all add: store_packet_def Let_def addFrame_def packet_buffer_size_def)
  have c: "ls_corrector (store_packet q s) = ls_corrector s" for q s
    by (simp add: store_packet_def Let_def)
  show ?thesis
    by (simp add: addPacket_def h m sh Let_def setReady_def c g newGopMgr_def)
qed

theorem playback_starts_at_key_frame_witness:
  "\<exists>s q qs. add_all [(0, demo_video_header)] (newStream 0) = Inr s
     \<and> out_frames (getFrames 5 s (newPlayer 3000 5)) = q # qs \<and> isKeyFrame q"
proof -
  obtain s where s: "add_all [(0, demo_video_header)] (newStream 0) = Inr s" "has_video s"
      "frame_index s = 0" "gops (ls_gops s) = [(0, 0)]" "lastest_timestamp (ls_gops s) = 0"
    using first_header by blast
  have "getGopByLatency 3000 (ls_gops s) = (0, 0)"
    by (simp add: getGopByLatency_def s(4,5))
  moreover have "hasMedia s" "frame_index s \<noteq> 1000" using s(2,3) by (simp_all add: hasMedia_def)
  ultimately show ?thesis
    using playback_starts_at_key_frame [OF s(1), of "newPlayer 3000 5" 3000 5 0 0 5] s(1) by auto
qed

lemma zero_audio:
  assumes "video_original c = -1" "audio_original c \<noteq> -1 \<longrightarrow> audio_original c = 0 \<and> audio_corrected c = 0"
  shows "\<exists>tc. correctTimestamp demo_audio c = (0, tc) \<and> video_original tc = -1
    \<and> audio_original tc = 0 \<and> audio_corrected tc = 0"
proof -
  have a: "\<not> isCodecHeader demo_audio" "ptype demo_audio = kPacketTypeAudio"
      "kPacketTypeAudio \<noteq> kPacketTypeVideo" "ptimestamp demo_audio = 0"
    by (simp_all add: demo_audio_def isCodecHeader_def pdata_def packet_types newPacket_def)
  show ?thesis
    using assms by (simp add: correctTimestamp_def a correctAudioTimestampByVideo_def
        correctAudioTimestampByAudio_def Let_def u32_int_def fine_delta_def corrector_times clamp_def)
      (auto simp: fine_delta_def)
qed

text \<open>Audio frames with the same time, after the header.\<close>

lemma audio_added:
  assumes "add_all ps (newStream 0) = Inr s" "frame_index s < 1000" "video_original (ls_corrector s) = -1"
    and "audio_original (ls_corrector s) \<noteq> -1 \<longrightarrow> audio_original (ls_corrector s) = 0 \<and> audio_corrected (ls_corrector s) = 0"
    and "0 \<le> frame_index s"
  shows "\<exists>s1. add_all (ps @ [(0, demo_audio)]) (newStream 0) = Inr s1 \<and> frame_index s1 = frame_index s + 1
    \<and> video_original (ls_corrector s1) = -1
    \<and> (audio_original (ls_corrector s1) \<noteq> -1 \<longrightarrow>
         audio_original (ls_corrector s1) = 0 \<and> audio_corrected (ls_corrector s1) = 0)
    \<and> gops (ls_gops s1) = gops (ls_gops s) \<and> lastest_timestamp (ls_gops s1) = 0
    \<and> has_video s1 = has_video s
    \<and> packet_buffer s1 = (packet_buffer s)[slot (frame_index s1) := Some (demo_audio\<lparr>pindex := frame_index s1\<rparr>)]"
proof -
  obtain tc where tc: "correctTimestamp demo_audio (ls_corrector s) = (0, tc)" "video_original tc = -1"
      "audio_original tc = 0 \<and> audio_corrected tc = 0"
    using zero_audio [OF assms(3,4)] by blast
  let ?p = "demo_audio\<lparr>pindex := frame_index s + 1\<rparr>"
  have p: "mark_key ((setTimestamp 0 demo_audio)\<lparr>pindex := i32 (frame_index s + 1)\<rparr>) = ?p"
      "\<not> isCodecHeader ?p" "\<not> isKeyFrame ?p" "ptimestamp ?p = 0"
    using assms(2,5) by (simp_all add: mark_key_def isVideo_def demo_audio_def setTimestamp_def packet_types
        isCodecHeader_def pdata_def isKeyFrame_def newPacket_def)
  have sh: "save_header ?p x = Inr x" for x by (simp add: save_header_def p(2))
  have "\<exists>r. addPacket 0 demo_audio s = Inr r"
    by (simp add: addPacket_def tc(1) Let_def p(1) sh)
  then obtain s1 b where s1: "addPacket 0 demo_audio s = Inr (s1, b)" by auto
  obtain s2 where s2: "frame_index s2 = frame_index s + 1" "packet_buffer s2 = packet_buffer s"
      "ls_gops s2 = ls_gops s" "has_video s2 = has_video s" "ls_corrector s2 = tc"
      "frame_index s1 = frame_index s2" "packet_buffer s1 = packet_buffer (store_packet ?p s2)"
      "ls_gops s1 = ls_gops (store_packet ?p s2)" "has_video s1 = has_video s2"
      "ls_corrector s1 = ls_corrector s2"
    using addPacket_shape [OF s1] tc(1) p(1) sh by (metis Pair_inject sum.inject(2))
  have "ls_gops (store_packet ?p s2) = (ls_gops s)\<lparr>lastest_timestamp := 0, gop_length := gop_length (ls_gops s) + 1\<rparr>"
    using s2(1,3) assms(2) p(3,4) by (simp add: store_packet_def Let_def addFrame_def packet_buffer_size_def)
  then show ?thesis
    using s1 s2 tc by (simp add: add_all_snoc assms(1))
qed

definition thousand_frames :: "nat \<Rightarrow> (int \<times> packet) list" where
  "thousand_frames n = (0, demo_video_header) # replicate n (0, demo_audio)"

lemma thousand_frames_run:
  "n \<le> 1000 \<Longrightarrow> \<exists>s. add_all (thousand_frames n) (newStream 0) = Inr s \<and> frame_index s = int n
    \<and> video_original (ls_corrector s) = -1
    \<and> (audio_original (ls_corrector s) \<noteq> -1 \<longrightarrow>
         audio_original (ls_corrector s) = 0 \<and> audio_corrected (ls_corrector s) = 0)
    \<and> gops (ls_gops s) = [(0, 0)] \<and> lastest_timestamp (ls_gops s) = 0 \<and> has_video s
    \<and> length (packet_buffer s) = 1000
    \<and> (0 < n \<longrightarrow> packet_buffer s ! slot (int n) = Some (demo_audio\<lparr>pindex := int n\<rparr>))"
proof (induction n)
  case 0
  obtain s where s: "add_all [(0, demo_video_header)] (newStream 0) = Inr s" "has_video s"
      "frame_index s = 0" "gops (ls_gops s) = [(0, 0)]" "lastest_timestamp (ls_gops s) = 0"
      "ls_corrector s = newCorrector"
    using first_header by blast
  have "stream_inv s" using add_all_inv [OF s(1)] by simp
  then have "length (packet_buffer s) = 1000" by (simp add: stream_inv_def ring_all_def)
  then show ?case using s by (simp add: thousand_frames_def newCorrector_def)
next
  case (Suc n)
  then obtain s where s: "add_all (thousand_frames n) (newStream 0) = Inr s" "frame_index s = int n"
      "video_original (ls_corrector s) = -1"
      "audio_original (ls_corrector s) \<noteq> -1 \<longrightarrow>
         audio_original (ls_corrector s) = 0 \<and> audio_corrected (ls_corrector s) = 0"
      "gops (ls_gops s) = [(0, 0)]" "has_video s" "length (packet_buffer s) = 1000"
    by auto
  have snoc: "thousand_frames (Suc n) = thousand_frames n @ [(0, demo_audio)]"
    by (simp add: thousand_frames_def replicate_append_same)
  have lt: "frame_index s < 1000" "0 \<le> frame_index s" using s(2) Suc.prems by simp_all
  show ?case
    using audio_added [OF s(1) lt(1) s(3,4) lt(2)] s slot_less [of "int n + 1"]
    unfolding snoc by (auto simp: add.commute)
qed

text \<open>
  At index 1000 the guarantee of the last property fails. A thousand frames after a video
  header the slot of the header's group is written again, but the group is only dropped when
  \<open>frame_index - 1000\<close> is above 0: a player that comes now is located at the group of index 0 and
  gets the frame with index 1000, which is no key frame.
\<close>

theorem stale_group_at_thousand:
  "\<exists>s q. add_all (thousand_frames 1000) (newStream 0) = Inr s \<and> frame_index s = 1000
    \<and> fst (getGopByLatency 3000 (ls_gops s)) = 0
    \<and> out_frames (getFrames 5 s (newPlayer 3000 5)) = [q] \<and> pindex q = 1000 \<and> \<not> isKeyFrame q"
proof -
  obtain s where s: "add_all (thousand_frames 1000) (newStream 0) = Inr s" "frame_index s = 1000"
      "gops (ls_gops s) = [(0, 0)]" "lastest_timestamp (ls_gops s) = 0" "has_video s"
      "packet_buffer s ! slot 1000 = Some (demo_audio\<lparr>pindex := 1000\<rparr>)"
    using thousand_frames_run [of 1000] by auto
  have "length (thousand_frames 1000) < 2 ^ 31" by (simp add: thousand_frames_def)
  then have inv: "stream_inv s" using add_all_inv [OF s(1)] by simp
  have g: "getGopByLatency 3000 (ls_gops s) = (0, 0)" by (simp add: getGopByLatency_def s(3,4))
  have cl: "content_latency (newPlayer 3000 5) = 3000" by (simp add: newPlayer_def)
  obtain u1 where u1: "locateGop 5 s (newPlayer 3000 5) = (True, u1)" "out_index u1 = -1"
      "out_frames u1 = []"
    using locateGop_succeeds [OF inv, of "newPlayer 3000 5" 0 0 5] g cl by (auto simp: newPlayer_def)
  have "slot 0 = slot 1000" by (simp add: slot_def packet_buffer_size_def)
  then have nf: "next_frames (Suc (Suc n)) 0 s u1 = u1\<lparr>out_frames := [demo_audio\<lparr>pindex := 1000\<rparr>],
      out_index := 1000, out_frame_timestamp := i32 (ptimestamp demo_audio)\<rparr>" for n
    using s(2,6) u1(3) by simp
  have nf: "next_frames 10 0 s u1 = u1\<lparr>out_frames := [demo_audio\<lparr>pindex := 1000\<rparr>],
      out_index := 1000, out_frame_timestamp := i32 (ptimestamp demo_audio)\<rparr>"
    using nf [of 8] by simp
  have "out_frames (getFrames 5 s (newPlayer 3000 5)) = [demo_audio\<lparr>pindex := 1000\<rparr>]"
    using nf u1 s(5) by (simp add: getFrames_def has_pending_def newPlayer_def hasMedia_def getNextFrame_def)
  then show ?thesis
    using s(1,2) g by (auto simp: isKeyFrame_def demo_audio_def packet_types newPacket_def)
qed

text \<open>
  The metadata is saved but not given to a player that starts. The stream never says it has
  metadata, whatever was published - the statement that should set the flag has no effect - so
  \<open>locateGop\<close> leaves the player's metadata as it is.
\<close>

theorem start_without_metadata:
  assumes "add_all ps (newStream t0) = Inr s" "length ps < 2 ^ 31"
  shows "\<not> has_meta s \<and> pl_meta (snd (locateGop now s u)) = pl_meta u"
proof -
  have inv: "stream_inv s" using add_all_inv [OF assms] by simp
  obtain i lat where g: "getGopByLatency (content_latency u) (ls_gops s) = (i, lat)" by fastforce
  have "pl_meta (snd (locateGop now s u)) = pl_meta u"
  proof (cases "i = -1")
    case True
    then show ?thesis by (simp add: locateGop_def g waited_def)
  next
    case False
    then show ?thesis using locateGop_succeeds [OF inv g, of now] by auto
  qed
  then show ?thesis using inv by (simp add: stream_inv_def)
qed

theorem start_without_metadata_witness:
  "\<exists>s. add_all [(0, demo_audio)] (newStream 0) = Inr s \<and> \<not> has_meta s"
proof -
  obtain s where s: "add_all [(0, demo_audio)] (newStream 0) = Inr s" using demo_added by blast
  show ?thesis using s start_without_metadata [OF s, of 0 undefined] by auto
qed

end
