(* ===== verification/LivePlayer.thy ===== *)
theory LivePlayer
  imports RtmpContext LiveStream
begin

text \<open>
  The RTMP player of \<open>src/live/rtmp_playeruser.cpp\<close>: it asks the stream for headers and frames
  and hands them to the RTMP connection. \<open>pu_cx\<close> is the RTMP context of the player's connection,
  \<open>pu_active\<close> the connection's \<open>active_\<close> flag.
\<close>

section \<open>The player\<close>

record rtmp_player =
  pu :: player
  pu_cx :: "ctx option"
  pu_active :: bool

definition deactive :: "rtmp_player \<Rightarrow> rtmp_player" where
  "deactive u = u\<lparr>pu_active := False\<rparr>"

definition pushFrame :: "packet \<Rightarrow> bool \<Rightarrow> rtmp_player \<Rightarrow> (bool \<times> rtmp_player) res" where
  "pushFrame p is_header u =
     (case pu_cx u of
        None \<Rightarrow> Inr (False, u)
      | Some c \<Rightarrow>
          if \<not> ready c then Inr (False, u)
          else
            let (ts, tc) = (if is_header then (0, pl_corrector (pu u))
                            else correctTimestamp p (pl_corrector (pu u)))
            in bindr (ctx_buildChunk p (word_of_int ts) is_header c) (\<lambda>(b, c1).
               bindr (send c1) (\<lambda>c2.
                 Inr (True, u\<lparr>pu := (pu u)\<lparr>pl_corrector := tc\<rparr>, pu_cx := Some c2\<rparr>))))"

text \<open>The loop of \<open>pushFrames\<close>.\<close>

fun build_frames :: "packet list \<Rightarrow> corrector \<Rightarrow> ctx \<Rightarrow> (corrector \<times> ctx) res" where
  "build_frames [] tc c = Inr (tc, c)"
| "build_frames (p # ps) tc c =
     (case correctTimestamp p tc of (ts, tc1) \<Rightarrow>
        bindr (ctx_buildChunk p (word_of_int ts) False c) (\<lambda>(b, c1). build_frames ps tc1 c1))"

definition pushFrames :: "packet list \<Rightarrow> rtmp_player \<Rightarrow> (bool \<times> rtmp_player) res" where
  "pushFrames ps u =
     (case pu_cx u of
        None \<Rightarrow> Inr (False, u)
      | Some c \<Rightarrow>
          if \<not> ready c then Inr (False, u)
          else bindr (build_frames ps (pl_corrector (pu u)) c) (\<lambda>(tc, c1).
               bindr (send c1) (\<lambda>c2.
                 Inr (True, u\<lparr>pu := (pu u)\<lparr>pl_corrector := tc\<rparr>, pu_cx := Some c2\<rparr>))))"

definition postFrames :: "int \<Rightarrow> live_stream \<Rightarrow> rtmp_player \<Rightarrow> (bool \<times> rtmp_player) res" where
  "postFrames now s u0 =
     (if \<not> stream_ready s \<or> \<not> hasMedia s then Inr (False, u0)
      else
        let u = u0\<lparr>pu := getFrames now s (pu u0)\<rparr> in
        case pl_meta (pu u) of
          Some p \<Rightarrow> bindr (pushFrame p True u) (\<lambda>(ret, u1).
            Inr (True, if ret then u1\<lparr>pu := (pu u1)\<lparr>pl_meta := None\<rparr>\<rparr> else u1))
        | None \<Rightarrow>
        (case pl_audio_header (pu u) of
          Some p \<Rightarrow> bindr (pushFrame p True u) (\<lambda>(ret, u1).
            Inr (True, if ret then u1\<lparr>pu := (pu u1)\<lparr>pl_audio_header := None\<rparr>\<rparr> else u1))
        | None \<Rightarrow>
        (case pl_video_header (pu u) of
          Some p \<Rightarrow> bindr (pushFrame p True u) (\<lambda>(ret, u1).
            Inr (True, if ret then u1\<lparr>pu := (pu u1)\<lparr>pl_video_header := None\<rparr>\<rparr> else u1))
        | None \<Rightarrow>
          if out_frames (pu u) \<noteq> [] then
            bindr (pushFrames (out_frames (pu u)) u) (\<lambda>(ret, u1).
              Inr (True, if ret then u1\<lparr>pu := (pu u1)\<lparr>out_frames := []\<rparr>\<rparr> else u1))
          else Inr (True, deactive u))))"

section \<open>What is handed to the connection\<close>

text \<open>The corrector after a list of frames, and the messages the loop builds of them.\<close>

fun corrector_after :: "packet list \<Rightarrow> corrector \<Rightarrow> corrector" where
  "corrector_after [] tc = tc"
| "corrector_after (p # ps) tc = corrector_after ps (snd (correctTimestamp p tc))"

definition frame_messages :: "packet list \<Rightarrow> corrector \<Rightarrow> message list" where
  "frame_messages ps tc = map2 (\<lambda>p t. (p, the (phdr p), word_of_int t, False)) ps (correct_all ps tc)"

lemma correct_all_length [simp]: "length (correct_all ps tc) = length ps"
  by (induction ps arbitrary: tc) (auto split: prod.splits)

lemma correct_all_Cons:
  "correct_all (p # ps) tc = fst (correctTimestamp p tc) # correct_all ps (snd (correctTimestamp p tc))"
  by (simp add: case_prod_unfold)

lemma build_frames_build_all:
  "build_frames ps tc c =
   bindr (build_all (map (\<lambda>(p, h, ts, f). (p, ts, f)) (frame_messages ps tc)) (cx_out c))
     (\<lambda>s. Inr (corrector_after ps tc, c\<lparr>cx_out := s\<rparr>))"
proof (induction ps arbitrary: tc c)
  case (Cons p ps)
  show ?case
    by (simp add: ctx_buildChunk_def bindr_assoc case_prod_unfold Cons.IH correct_all_Cons
        frame_messages_def del: correct_all.simps)
qed (simp add: frame_messages_def)

lemma build_all_frame:
  "build_all ms s = Inr s1 \<Longrightarrow> out_waiting_queue s1 = out_waiting_queue s \<and> sending s1 = sending s"
proof (induction ms arbitrary: s)
  case (Cons m ms)
  obtain p ts f where m: "m = (p, ts, f)" by (cases m) auto
  obtain b s2 where 1: "buildChunk p ts f s = Inr (b, s2)" "build_all ms s2 = Inr s1"
    using Cons.prems by (auto simp: m res_simps)
  show ?case using buildChunk_frame [OF 1(1)] Cons.IH [OF 1(2)] by simp
qed simp

lemma send_built:
  "\<not> sending (cx_out c) \<Longrightarrow> out_waiting_queue (cx_out c) = [] \<Longrightarrow>
   send c = Inr (emit (SendNodes (sending_buffers (cx_out c))) (c\<lparr>cx_out := (cx_out c)\<lparr>sending := True\<rparr>\<rparr>))"
  by (simp add: send_def build_waiting_empty)

text \<open>An idle connection hands the frames over in one list of buffers.\<close>

lemma pushFrames_delivers:
  assumes cx: "pu_cx u = Some c" "idle c"
    and peer: "in_ok st" "in_sync (cx_out c) st"
    and fits: "\<forall>m \<in> set (frame_messages ps (pl_corrector (pu u))). message_fits st m"
    and room: "sum_list (map header_room (frame_messages ps (pl_corrector (pu u)))) \<le> RTMP_BUFFER_SIZE"
  shows "\<exists>u1 c1 ns st1. pushFrames ps u = Inr (True, u1) \<and> pu_cx u1 = Some c1
    \<and> pl_corrector (pu u1) = corrector_after ps (pl_corrector (pu u)) \<and> pu_active u1 = pu_active u
    \<and> cx_effects c1 = cx_effects c @ [SendNodes ns] \<and> \<not> ready c1 \<and> in_sync (cx_out c1) st1
    \<and> (length (concat ns) < 2 ^ 31 \<longrightarrow> (\<exists>qs. messages_in st (concat ns)
         = Inr ((st1, qs), length (concat ns))
         \<and> list_all2 arrives_as (frame_messages ps (pl_corrector (pu u))) qs))"
proof -
  let ?ms = "frame_messages ps (pl_corrector (pu u))"
  have room': "out_used (cx_out c) + sum_list (map header_room ?ms) \<le> RTMP_BUFFER_SIZE"
    using room cx(2) by (simp add: idle_def)
  obtain s1 ns st1 where 1: "build_all (map (\<lambda>(p, h, ts, f). (p, ts, f)) ?ms) (cx_out c) = Inr s1"
      "sending_buffers s1 = sending_buffers (cx_out c) @ ns" "in_sync s1 st1"
      "length (concat ns) < 2 ^ 31 \<longrightarrow> (\<forall>acc. \<exists>qs. list_all2 arrives_as ?ms qs \<and>
         parse_loop fst set_in collect (st, acc) (concat ns) = Inr ((st1, acc @ qs), length (concat ns)))"
    using many_messages [OF peer fits room'] by blast
  let ?c1 = "emit (SendNodes ns) (c\<lparr>cx_out := s1\<lparr>sending := True\<rparr>\<rparr>)"
  have "send (c\<lparr>cx_out := s1\<rparr>) = Inr ?c1"
    using build_all_frame [OF 1(1)] 1(2) cx(2) by (simp add: send_built idle_def)
  then have "pushFrames ps u = Inr (True, u\<lparr>pu := (pu u)\<lparr>pl_corrector
      := corrector_after ps (pl_corrector (pu u))\<rparr>, pu_cx := Some ?c1\<rparr>)"
    using cx 1(1) by (simp add: pushFrames_def build_frames_build_all ready_def idle_def)
  moreover have "\<exists>qs. messages_in st (concat ns) = Inr ((st1, qs), length (concat ns))
      \<and> list_all2 arrives_as ?ms qs" if "length (concat ns) < 2 ^ 31"
    using 1(4) that unfolding messages_in_def by (metis append_Nil)
  moreover have "in_sync (s1\<lparr>sending := True\<rparr>) st1" using 1(3) by (simp add: in_sync_def)
  ultimately show ?thesis
    by (intro exI [of _ "u\<lparr>pu := (pu u)\<lparr>pl_corrector := corrector_after ps (pl_corrector (pu u))\<rparr>, pu_cx := Some ?c1\<rparr>"]
        exI [of _ ?c1] exI [of _ ns] exI [of _ st1]) (simp add: emit_def ready_def)
qed

section \<open>Key frames in players\<close>

text \<open>A stored key frame carries the type 17, for which the corrector has no case.\<close>

lemma key_frame_time: "ptype p = kPacketTypeVideo OR kFrameTypeKeyFrame \<Longrightarrow> correctTimestamp p tc = (0, tc)"
  by (simp add: correctTimestamp_def packet_types)

lemma key_frames_at_zero_list:
  "i < length ps \<Longrightarrow> ptype (ps ! i) = kPacketTypeVideo OR kFrameTypeKeyFrame \<Longrightarrow> correct_all ps tc ! i = 0"
proof (induction ps arbitrary: tc i)
  case (Cons p ps)
  then show ?case
    by (cases i) (simp_all add: correct_all_Cons key_frame_time del: correct_all.simps)
qed simp

section \<open>Properties\<close>

text \<open>
  Frames reach the player. An idle connection given any list of frames by \<open>pushFrames\<close> hands
  all of them over at once: the player's own parser reads them back complete and in order, each
  with its bytes and the timestamp the player's corrector gave it, and the two ends stay in step.
  Further frames are refused until the write is done.
\<close>

theorem player_frames_arrive:
  assumes "pu_cx u = Some c" "idle c" "in_ok st" "in_sync (cx_out c) st"
    and "\<forall>m \<in> set (frame_messages ps (pl_corrector (pu u))). message_fits st m"
    and "sum_list (map header_room (frame_messages ps (pl_corrector (pu u)))) \<le> RTMP_BUFFER_SIZE"
  shows "\<exists>u1 c1 ns st1. pushFrames ps u = Inr (True, u1) \<and> pu_cx u1 = Some c1
    \<and> cx_effects c1 = cx_effects c @ [SendNodes ns] \<and> in_sync (cx_out c1) st1
    \<and> pushFrames qs u1 = Inr (False, u1)
    \<and> (length (concat ns) < 2 ^ 31 \<longrightarrow> (\<exists>ms. messages_in st (concat ns)
         = Inr ((st1, ms), length (concat ns))
         \<and> list_all2 arrives_as (frame_messages ps (pl_corrector (pu u))) ms))"
proof -
  obtain u1 c1 ns st1 where 1: "pushFrames ps u = Inr (True, u1)" "pu_cx u1 = Some c1" "\<not> ready c1"
      "cx_effects c1 = cx_effects c @ [SendNodes ns]" "in_sync (cx_out c1) st1"
      "length (concat ns) < 2 ^ 31 \<longrightarrow> (\<exists>ms. messages_in st (concat ns)
         = Inr ((st1, ms), length (concat ns))
         \<and> list_all2 arrives_as (frame_messages ps (pl_corrector (pu u))) ms)"
    using pushFrames_delivers [OF assms] by blast
  moreover have "pushFrames qs u1 = Inr (False, u1)" using 1(2,3) by (simp add: pushFrames_def)
  ultimately show ?thesis by blast
qed

definition demo_frame :: packet where
  "demo_frame = (setExt demo_header (newPacket 5))\<lparr>ptype := kPacketTypeVideo, ptimestamp := 40, psize := 5\<rparr>"

definition demo_player :: rtmp_player where
  "demo_player = \<lparr>pu = newPlayer 3000 0, pu_cx = Some (newContext True False), pu_active = True\<rparr>"

lemma demo_frame_messages: "frame_messages [demo_frame] newCorrector = [(demo_frame, demo_header, 0, False)]"
  by (simp add: frame_messages_def demo_frame_def setExt_def newPacket_def correctTimestamp_def
      isCodecHeader_def pdata_def packet_types numeral_eq_Suc)

theorem player_frames_arrive_witness:
  "\<exists>u1 c1 ns. pushFrames [demo_frame] demo_player = Inr (True, u1) \<and> pu_cx u1 = Some c1
     \<and> cx_effects c1 = [SendNodes ns]"
proof -
  have c: "pl_corrector (pu demo_player) = newCorrector" "pu_cx demo_player = Some (newContext True False)"
    by (simp_all add: demo_player_def newPlayer_def)
  have i: "idle (newContext True False)" by (simp add: idle_def newContext_def newOutState_def)
  have s: "in_sync (cx_out (newContext True False)) newInState" by (simp add: newContext_def)
  have "sendable demo_frame demo_header 0"
    by (simp add: sendable_def demo_frame_def) (simp add: demo_header_def setExt_def)
  then have f: "\<forall>m \<in> set (frame_messages [demo_frame] (pl_corrector (pu demo_player))). message_fits newInState m"
    by (simp add: c demo_frame_messages message_fits_def chunk_size_agrees_def newInState_def demo_header_def)
  have r: "sum_list (map header_room (frame_messages [demo_frame] (pl_corrector (pu demo_player)))) \<le> RTMP_BUFFER_SIZE"
    by (simp add: c demo_frame_messages header_room_def demo_header_def RTMP_BUFFER_SIZE_def)
  show ?thesis
    using player_frames_arrive [OF c(2) i newInState_ok s f r, of "[]"]
    by (auto simp: newContext_def)
qed

text \<open>
  C34: key frames lose their time on the way to a player. The stream marks a video key frame with
  the type 17; a player's corrector knows the types 1 and 2 only, so whatever its state it gives
  the frame the timestamp 0 and learns nothing of its time, while the frames around it keep theirs.
\<close>

theorem key_frames_sent_at_zero:
  assumes "addPacket now p s = Inr (s1, w)" "isVideo p" "isKeyFrameTag p"
    and "length (packet_buffer s) = 1000"
  shows "\<exists>q. packet_buffer s1 ! slot (frame_index s1) = Some q \<and> pblock q = pblock p
    \<and> correct_all [q] tc = [0] \<and> corrector_after [q] tc = tc"
proof -
  obtain t tc1 q s2 s3 where q: "q = mark_key ((setTimestamp t p)\<lparr>pindex := i32 (frame_index s + 1)\<rparr>)"
      and s2: "save_header q s2 = Inr s3" "packet_buffer s2 = packet_buffer s"
      "frame_index s1 = frame_index s3" "packet_buffer s1 = packet_buffer (store_packet q s3)"
    by (rule addPacket_shape [OF assms(1)])
  have t: "ptype q = kPacketTypeVideo OR kFrameTypeKeyFrame" "pblock q = pblock p"
    using assms(2,3) by (simp_all add: q mark_key_def setTimestamp_def isVideo_def isKeyFrameTag_def pdata_def)
  have "packet_buffer s3 = packet_buffer s" using save_header_frame [OF s2(1)] s2(2) by simp
  then have "packet_buffer s1 ! slot (frame_index s1) = Some q"
    using s2(3,4) assms(4) slot_less [of "frame_index s3"] by (simp add: store_packet_def Let_def)
  then show ?thesis using t key_frame_time [OF t(1)] by (intro exI [of _ q]) simp
qed

definition demo_key_frame :: packet where
  "demo_key_frame = (newPacket 2)\<lparr>ptype := kPacketTypeVideo, psize := 2, pblock := [0x17, 1], ptimestamp := 40\<rparr>"

theorem key_frames_sent_at_zero_witness:
  "\<exists>s1 w q. addPacket 0 demo_key_frame (newStream 0) = Inr (s1, w)
     \<and> packet_buffer s1 ! slot (frame_index s1) = Some q \<and> correct_all [q] newCorrector = [0]"
proof -
  have k: "isVideo demo_key_frame" "isKeyFrameTag demo_key_frame" "\<not> isCodecHeader demo_key_frame"
    by (simp_all add: demo_key_frame_def isVideo_def isKeyFrameTag_def isCodecHeader_def pdata_def packet_types)
  have c: "\<not> isCodecHeader (mark_key ((setTimestamp t demo_key_frame)\<lparr>pindex := i\<rparr>))" for t i
    using k by (simp add: mark_key_def setTimestamp_def isCodecHeader_def pdata_def)
  have "\<exists>r. addPacket 0 demo_key_frame (newStream 0) = Inr r"
    by (simp add: addPacket_def Let_def case_prod_unfold save_header_def c)
  then obtain s1 w where a: "addPacket 0 demo_key_frame (newStream 0) = Inr (s1, w)" by auto
  have "length (packet_buffer (newStream 0)) = 1000" by (simp add: newStream_def packet_buffer_size_def)
  then show ?thesis using a key_frames_sent_at_zero [OF a k(1,2)] by blast
qed

end
