(* ===== verification/LiveSession.thy ===== *)
theory LiveSession
  imports LivePlayer Config LssString
begin

text \<open>
  Users and sessions: \<open>src/live/live_user.cpp\<close> and \<open>src/live/live_session.cpp\<close>. Users are shared
  between their session, their connection and the service, so they live in a heap; a connection is
  a number, what is asked of it (close, wake, let sleep) is recorded in order. A set of players is
  kept as a list in which nobody is twice.
\<close>

section \<open>Users\<close>

datatype user_type =
    kUserTypePublishRtmp | kUserTypePublishMpegts | kUserTypePublishPav | kUserTypePublishWebRTC
  | kUserTypePlayerPav | kUserTypePlayerFlv | kUserTypePlayerHls | kUserTypePlayerRtmp
  | kUserTypePlayerWebRTC | kUserTypeUnknown

fun type_code :: "user_type \<Rightarrow> nat" where
  "type_code kUserTypePublishRtmp = 0"
| "type_code kUserTypePublishMpegts = 1"
| "type_code kUserTypePublishPav = 2"
| "type_code kUserTypePublishWebRTC = 3"
| "type_code kUserTypePlayerPav = 4"
| "type_code kUserTypePlayerFlv = 5"
| "type_code kUserTypePlayerHls = 6"
| "type_code kUserTypePlayerRtmp = 7"
| "type_code kUserTypePlayerWebRTC = 8"
| "type_code kUserTypeUnknown = 255"

lemma type_code_inj: "type_code a = type_code b \<longleftrightarrow> a = b"
  by (cases a; cases b) simp_all

text \<open>The order of the enumeration, by which the code tells publishers from players.\<close>

instantiation user_type :: linorder
begin

definition less_eq_user_type :: "user_type \<Rightarrow> user_type \<Rightarrow> bool" where
  "less_eq_user_type a b \<longleftrightarrow> type_code a \<le> type_code b"

definition less_user_type :: "user_type \<Rightarrow> user_type \<Rightarrow> bool" where
  "less_user_type a b \<longleftrightarrow> type_code a < type_code b"

instance
  by standard (auto simp: less_eq_user_type_def less_user_type_def type_code_inj)

end

lemmas user_order = less_eq_user_type_def less_user_type_def

datatype user_protocol =
    kUserProtocolHttp | kUserProtocolHttps | kUserProtocolQuic | kUserProtocolRtsp
  | kUserProtocolWebRTC | kUserProtocolUdp | kUserProtocolUnknown

record live_user =
  lu_conn :: "nat option"
  lu_session :: nat
  lu_domain :: string
  lu_app :: string
  lu_stream_name :: string
  lu_param :: string
  lu_app_info :: "app_info option"
  lu_start :: int
  lu_type :: user_type
  lu_protocol :: user_protocol
  lu_destroyed :: bool
  lu_player :: "player option"

definition newUser :: "nat \<Rightarrow> nat \<Rightarrow> int \<Rightarrow> live_user" where
  "newUser conn sid now = \<lparr>lu_conn = Some conn, lu_session = sid, lu_domain = [], lu_app = [],
     lu_stream_name = [], lu_param = [], lu_app_info = None, lu_start = now,
     lu_type = kUserTypeUnknown, lu_protocol = kUserProtocolUnknown, lu_destroyed = False,
     lu_player = None\<rparr>"

text \<open>\<open>getUserType\<close> is virtual: an RTMP player's type is fixed.\<close>

definition getUserType :: "live_user \<Rightarrow> user_type" where
  "getUserType u = (if lu_player u \<noteq> None then kUserTypePlayerRtmp else lu_type u)"

definition elapsedTime :: "int \<Rightarrow> live_user \<Rightarrow> int" where
  "elapsedTime now u = (now - lu_start u) mod 2 ^ 64"

section \<open>The heap\<close>

datatype conn_event = ForceClosed nat | Activated nat | Deactivated nat

record heap =
  hp_users :: "nat \<Rightarrow> live_user"
  hp_next :: nat
  hp_context :: "nat \<Rightarrow> nat option"
  hp_events :: "conn_event list"

definition newHeap :: heap where
  "newHeap = \<lparr>hp_users = (\<lambda>_. newUser 0 0 0), hp_next = 0, hp_context = Map.empty, hp_events = []\<rparr>"

definition on_conn :: "(nat \<Rightarrow> conn_event) \<Rightarrow> nat \<Rightarrow> heap \<Rightarrow> heap" where
  "on_conn e u h =
     (case lu_conn (hp_users h u) of None \<Rightarrow> h | Some c \<Rightarrow> h\<lparr>hp_events := hp_events h @ [e c]\<rparr>)"

definition user_close :: "nat \<Rightarrow> heap \<Rightarrow> heap" where
  "user_close u h = on_conn ForceClosed u h"

definition user_active :: "nat \<Rightarrow> heap \<Rightarrow> heap" where
  "user_active u h = on_conn Activated u h"

definition user_deactive :: "nat \<Rightarrow> heap \<Rightarrow> heap" where
  "user_deactive u h = on_conn Deactivated u h"

definition mark_destroyed :: "nat \<Rightarrow> heap \<Rightarrow> heap" where
  "mark_destroyed u h = h\<lparr>hp_users := (hp_users h)(u := (hp_users h u)\<lparr>lu_destroyed := True\<rparr>)\<rparr>"

text \<open>A new user is put into the heap and becomes the connection's user context.\<close>

definition add_user :: "nat \<Rightarrow> live_user \<Rightarrow> heap \<Rightarrow> nat \<times> heap" where
  "add_user conn u h =
     (hp_next h, h\<lparr>hp_users := (hp_users h)(hp_next h := u), hp_next := hp_next h + 1,
                   hp_context := (hp_context h)(conn \<mapsto> hp_next h)\<rparr>)"

section \<open>Sessions\<close>

record session =
  ses_name :: string
  players :: "nat list"
  ses_app_info :: "app_info option"
  ses_stream :: live_stream
  publisher :: "nat option"
  player_live_time :: int

definition newSession :: "string \<Rightarrow> int \<Rightarrow> session" where
  "newSession name now = \<lparr>ses_name = name, players = [], ses_app_info = None,
     ses_stream = newStream now, publisher = None, player_live_time = now\<rparr>"

definition readyTime :: "session \<Rightarrow> int" where
  "readyTime s = i32 (ready_time (ses_stream s))"

definition isPublishing :: "session \<Rightarrow> bool" where
  "isPublishing s \<longleftrightarrow> publisher s \<noteq> None"

definition isTimeout :: "int \<Rightarrow> session \<Rightarrow> bool res" where
  "isTimeout now s =
     (if stream_isTimeout now (ses_stream s) then Inr True
      else if players s = [] then
        bindr (deref (ses_app_info s)) (\<lambda>a. Inr (stream_idle_time a < now - player_live_time s))
      else Inr False)"

text \<open>What both kinds of users get from the session and its name.\<close>

definition fill_user :: "string list \<Rightarrow> string \<Rightarrow> user_type \<Rightarrow> session \<Rightarrow> live_user \<Rightarrow> live_user" where
  "fill_user parts prm ty s u =
     u\<lparr>lu_app_info := ses_app_info s, lu_domain := parts ! 0, lu_app := parts ! 1,
       lu_stream_name := parts ! 2, lu_param := prm, lu_type := ty\<rparr>"

definition createPublisher ::
  "nat \<Rightarrow> string \<Rightarrow> string \<Rightarrow> user_type \<Rightarrow> int \<Rightarrow> nat \<Rightarrow> session \<Rightarrow> heap \<Rightarrow> nat option \<times> heap" where
  "createPublisher conn name prm ty now sid s h =
     (if name \<noteq> ses_name s then (None, h)
      else let parts = split name ''/'' False in
        if length parts \<noteq> 3 then (None, h)
        else case add_user conn (fill_user parts prm ty s (newUser conn sid now)) h of
          (u, h1) \<Rightarrow> (Some u, h1))"

text \<open>Only RTMP players can be made; for another type the code uses the pointer it has not set.\<close>

definition createPlayerUser ::
  "nat \<Rightarrow> string \<Rightarrow> string \<Rightarrow> user_type \<Rightarrow> int \<Rightarrow> nat \<Rightarrow> session \<Rightarrow> heap \<Rightarrow> (nat option \<times> heap) res" where
  "createPlayerUser conn name prm ty now sid s h =
     (if name \<noteq> ses_name s then Inr (None, h)
      else let parts = split name ''/'' False in
        if length parts \<noteq> 3 then Inr (None, h)
        else if ty \<noteq> kUserTypePlayerRtmp then Inl NullDeref
        else
          let latency = (case ses_app_info s of None \<Rightarrow> 0 | Some a \<Rightarrow> i32 (content_latency_time a));
              u0 = (newUser conn sid now)\<lparr>lu_player := Some (newPlayer latency now)\<rparr>
          in case add_user conn (fill_user parts prm ty s u0) h of (u, h1) \<Rightarrow> Inr (Some u, h1))"

definition closeUser :: "int \<Rightarrow> nat \<Rightarrow> session \<times> heap \<Rightarrow> session \<times> heap" where
  "closeUser now u st =
     (case st of (s, h) \<Rightarrow>
        if lu_destroyed (hp_users h u) then (s, h)
        else
          let h1 = mark_destroyed u h;
              s1 = (if getUserType (hp_users h1 u) \<le> kUserTypePlayerWebRTC then
                      if publisher s \<noteq> None then s\<lparr>publisher := None\<rparr> else s
                    else s\<lparr>players := remove1 u (players s), player_live_time := now\<rparr>)
          in (s1, user_close u h1))"

definition closeUserNoLock :: "int \<Rightarrow> nat \<Rightarrow> session \<times> heap \<Rightarrow> session \<times> heap" where
  "closeUserNoLock now u st =
     (case st of (s, h) \<Rightarrow>
        if lu_destroyed (hp_users h u) then (s, h)
        else
          let h1 = mark_destroyed u h in
          if getUserType (hp_users h1 u) \<le> kUserTypePlayerWebRTC then
            if publisher s \<noteq> None then (s\<lparr>publisher := None\<rparr>, user_close u h1) else (s, h1)
          else (s\<lparr>players := remove1 u (players s), player_live_time := now\<rparr>, user_close u h1))"

definition activeAllPlayers :: "session \<Rightarrow> heap \<Rightarrow> heap" where
  "activeAllPlayers s h = fold user_active (players s) h"

definition addPlayer :: "nat \<Rightarrow> session \<times> heap \<Rightarrow> session \<times> heap" where
  "addPlayer u st =
     (case st of (s, h) \<Rightarrow>
        (if u \<in> set (players s) then s else s\<lparr>players := players s @ [u]\<rparr>, user_active u h))"

text \<open>
  The session's lock is held while the old publisher is closed. When that one is a user of the same
  connection, the close is done at once and ends in \<open>onConnectionDestroy\<close>, where the connection's user
  is by then the new one: \<open>closeUser\<close> waits for the lock, which is not recursive, and never returns.
  A connection of the same loop that has become another user of the session since blocks in the same
  way; which loop a connection belongs to is not part of this state, and its close is left to an
  \<open>onConnectionDestroy\<close> of its own.
\<close>

definition setPublisher :: "nat \<Rightarrow> session \<times> heap \<Rightarrow> (session \<times> heap) res" where
  "setPublisher u st =
     (case st of (s, h) \<Rightarrow>
        if publisher s = Some u then Inr (s, h)
        else
          bindr (case publisher s of
                   None \<Rightarrow> Inr h
                 | Some p \<Rightarrow>
                     if lu_destroyed (hp_users h p) then Inr h
                     else if lu_conn (hp_users h p) = lu_conn (hp_users h u) then Inl Runaway
                     else Inr (user_close p (mark_destroyed p h)))
            (\<lambda>h1. Inr (s\<lparr>publisher := Some u\<rparr>, h1)))"

text \<open>
  The players are closed one after the other while the set is walked. A player's type is never
  above \<open>kUserTypePlayerWebRTC\<close>, so none of the calls takes its own element out of the set.
\<close>

definition clear :: "int \<Rightarrow> session \<times> heap \<Rightarrow> session \<times> heap" where
  "clear now st =
     (let st1 = (case publisher (fst st) of None \<Rightarrow> st | Some p \<Rightarrow> closeUserNoLock now p st);
          st2 = fold (closeUserNoLock now) (players (fst st1)) st1
      in ((fst st2)\<lparr>players := []\<rparr>, snd st2))"

section \<open>What holds of a session\<close>

text \<open>
  The invariant of session \<open>sid\<close>: the players are player users of the session, none twice, the
  publisher is a publishing user of the session that is not destroyed, and every destroyed
  publishing user has had its connection closed.
\<close>

definition conn_closed :: "nat \<Rightarrow> heap \<Rightarrow> bool" where
  "conn_closed u h \<longleftrightarrow> (\<exists>c. lu_conn (hp_users h u) = Some c \<and> ForceClosed c \<in> set (hp_events h))"

definition member_of :: "nat \<Rightarrow> heap \<Rightarrow> nat \<Rightarrow> bool" where
  "member_of sid h u \<longleftrightarrow> u < hp_next h \<and> lu_session (hp_users h u) = sid"

definition publishes :: "nat \<Rightarrow> heap \<Rightarrow> bool" where
  "publishes u h \<longleftrightarrow> lu_player (hp_users h u) = None"

definition session_inv :: "nat \<Rightarrow> session \<times> heap \<Rightarrow> bool" where
  "session_inv sid st \<longleftrightarrow> (case st of (s, h) \<Rightarrow>
     distinct (players s) \<and> (\<forall>p \<in> set (players s). member_of sid h p \<and> \<not> publishes p h) \<and>
     (\<forall>p \<in> set_option (publisher s). member_of sid h p \<and> publishes p h \<and> \<not> lu_destroyed (hp_users h p)) \<and>
     (\<forall>u. member_of sid h u \<and> publishes u h \<longrightarrow> lu_type (hp_users h u) = kUserTypePublishRtmp
        \<and> lu_conn (hp_users h u) \<noteq> None \<and> (lu_destroyed (hp_users h u) \<longrightarrow> conn_closed u h)))"

text \<open>No publishing user of the session is alive but the session's publisher.\<close>

definition single_publisher :: "nat \<Rightarrow> session \<times> heap \<Rightarrow> bool" where
  "single_publisher sid st \<longleftrightarrow> (case st of (s, h) \<Rightarrow>
     \<forall>u. member_of sid h u \<and> publishes u h \<and> \<not> lu_destroyed (hp_users h u) \<longrightarrow> publisher s = Some u)"

text \<open>What an operation on session \<open>sid\<close> leaves alone: the users of all other sessions.\<close>

definition heap_frame :: "nat \<Rightarrow> heap \<Rightarrow> heap \<Rightarrow> bool" where
  "heap_frame sid h h1 \<longleftrightarrow> hp_next h \<le> hp_next h1 \<and> set (hp_events h) \<subseteq> set (hp_events h1) \<and>
     (\<forall>u. u < hp_next h \<longrightarrow> lu_session (hp_users h1 u) = lu_session (hp_users h u)) \<and>
     (\<forall>u. u < hp_next h \<longrightarrow> lu_session (hp_users h u) \<noteq> sid \<longrightarrow> hp_users h1 u = hp_users h u) \<and>
     (\<forall>u. hp_next h \<le> u \<longrightarrow> u < hp_next h1 \<longrightarrow> lu_session (hp_users h1 u) = sid)"

lemma heap_frame_refl [simp]: "heap_frame sid h h"
  by (simp add: heap_frame_def)

lemma heap_frame_trans: "heap_frame sid h h1 \<Longrightarrow> heap_frame sid h1 h2 \<Longrightarrow> heap_frame sid h h2"
  unfolding heap_frame_def
proof (elim conjE, intro conjI allI impI)
  fix u assume a: "\<forall>u\<ge>hp_next h. u < hp_next h1 \<longrightarrow> lu_session (hp_users h1 u) = sid"
    "\<forall>u<hp_next h1. lu_session (hp_users h2 u) = lu_session (hp_users h1 u)"
    "\<forall>u\<ge>hp_next h1. u < hp_next h2 \<longrightarrow> lu_session (hp_users h2 u) = sid"
    "hp_next h \<le> u" "u < hp_next h2"
  then show "lu_session (hp_users h2 u) = sid" by (cases "u < hp_next h1") auto
qed auto

lemma frame_members:
  "heap_frame sid h h1 \<Longrightarrow> sid' \<noteq> sid \<Longrightarrow> member_of sid' h1 u = member_of sid' h u"
  by (cases "u < hp_next h"; cases "u < hp_next h1") (auto simp: heap_frame_def member_of_def)

lemma frame_user: "heap_frame sid h h1 \<Longrightarrow> sid' \<noteq> sid \<Longrightarrow> member_of sid' h u \<Longrightarrow> hp_users h1 u = hp_users h u"
  by (auto simp: heap_frame_def member_of_def)

lemma frame_closed:
  "heap_frame sid h h1 \<Longrightarrow> sid' \<noteq> sid \<Longrightarrow> member_of sid' h u \<Longrightarrow> conn_closed u h \<Longrightarrow> conn_closed u h1"
  using frame_user [of sid h h1 sid' u] by (auto simp: heap_frame_def conn_closed_def)

text \<open>So what holds of another session still does.\<close>

lemma frame_inv:
  assumes "heap_frame sid h h1" "sid' \<noteq> sid"
  shows "session_inv sid' (s, h) \<Longrightarrow> session_inv sid' (s, h1)"
    and "single_publisher sid' (s, h) \<Longrightarrow> single_publisher sid' (s, h1)"
  using frame_members [OF assms] frame_user [OF assms] frame_closed [OF assms]
  by (auto simp: session_inv_def single_publisher_def publishes_def)

section \<open>The operations keep it\<close>

lemmas heap_ops = user_close_def user_active_def user_deactive_def on_conn_def mark_destroyed_def

lemma on_conn_sel [simp]:
  "hp_users (on_conn e u h) = hp_users h" "hp_next (on_conn e u h) = hp_next h"
  "hp_context (on_conn e u h) = hp_context h" "set (hp_events h) \<subseteq> set (hp_events (on_conn e u h))"
  by (auto simp: on_conn_def split: option.split)

lemma on_conn_inv [simp]:
  "member_of sid (on_conn e u h) = member_of sid h" "publishes v (on_conn e u h) = publishes v h"
  "conn_closed v h \<Longrightarrow> conn_closed v (on_conn e u h)"
  by (auto simp: member_of_def publishes_def conn_closed_def fun_eq_iff dest: subsetD [OF on_conn_sel(4)])

lemma on_conn_keeps:
  "session_inv sid (s, h) \<Longrightarrow> session_inv sid (s, on_conn e u h)"
  "single_publisher sid (s, h) \<Longrightarrow> single_publisher sid (s, on_conn e u h)"
  "heap_frame sid h (on_conn e u h)"
  by (auto simp: session_inv_def single_publisher_def heap_frame_def)

text \<open>A destroyed publishing user whose connection was closed.\<close>

definition shut :: "nat \<Rightarrow> heap \<Rightarrow> heap" where
  "shut u h = user_close u (mark_destroyed u h)"

lemma shut_sel:
  "hp_next (shut u h) = hp_next h" "hp_context (shut u h) = hp_context h"
  "hp_users (shut u h) = (hp_users h)(u := (hp_users h u)\<lparr>lu_destroyed := True\<rparr>)"
  "set (hp_events h) \<subseteq> set (hp_events (shut u h))"
  "lu_conn (hp_users h u) = Some c \<Longrightarrow> ForceClosed c \<in> set (hp_events (shut u h))"
  using on_conn_sel(4) [of "mark_destroyed u h" ForceClosed u]
  by (simp_all add: shut_def user_close_def mark_destroyed_def) (simp add: on_conn_def)

lemma shut_inv:
  "member_of sid (shut u h) = member_of sid h" "publishes v (shut u h) = publishes v h"
  "conn_closed v h \<Longrightarrow> conn_closed v (shut u h)"
  "lu_conn (hp_users h u) \<noteq> None \<Longrightarrow> conn_closed u (shut u h)"
  using shut_sel(5) [of h u]
  by (auto simp: member_of_def publishes_def conn_closed_def shut_sel fun_eq_iff dest: subsetD [OF shut_sel(4)])

lemma shut_frame: "member_of sid h u \<Longrightarrow> heap_frame sid h (shut u h)"
  by (auto simp: heap_frame_def shut_sel member_of_def)

text \<open>A user that is shut: the session may lose its publisher, but keeps no dead one.\<close>

lemma shut_keeps:
  assumes "session_inv sid (s, h)" "member_of sid h u" "publisher s1 \<in> {None, publisher s}"
    and "publisher s1 \<noteq> Some u" "distinct (players s1)" "set (players s1) \<subseteq> set (players s)"
  shows "session_inv sid (s1, shut u h)"
  using assms shut_inv(4) [of h u]
  by (auto simp: session_inv_def shut_inv(1,2,3) shut_sel publishes_def)

lemma player_type: "\<not> publishes u h \<Longrightarrow> getUserType (hp_users h u) \<le> kUserTypePlayerWebRTC"
  by (simp add: getUserType_def publishes_def user_order)

lemma user_type_le:
  "session_inv sid (s, h) \<Longrightarrow> member_of sid h u \<Longrightarrow> getUserType (hp_users h u) \<le> kUserTypePlayerWebRTC"
  by (auto simp: session_inv_def publishes_def getUserType_def user_order)

lemma marked_type [simp]: "getUserType (hp_users (mark_destroyed u h) v) = getUserType (hp_users h v)"
  by (auto simp: mark_destroyed_def getUserType_def)

text \<open>On every user of a session, player or not, \<open>closeUser\<close> drops the publisher.\<close>

lemma closeUser_eq:
  assumes "session_inv sid (s, h)" "member_of sid h u"
  shows "closeUser now u (s, h) =
    (if lu_destroyed (hp_users h u) then (s, h) else (s\<lparr>publisher := None\<rparr>, shut u h))"
  using user_type_le [OF assms] by (simp add: closeUser_def Let_def shut_def)

lemma closeUser_keeps:
  assumes "session_inv sid (s, h)" "member_of sid h u" "closeUser now u (s, h) = (s1, h1)"
  shows "session_inv sid (s1, h1)" "heap_frame sid h h1"
proof -
  show "session_inv sid (s1, h1)"
    using assms closeUser_eq [OF assms(1,2), of now] shut_keeps [OF assms(1,2), of "s\<lparr>publisher := None\<rparr>"]
    by (auto simp: session_inv_def split: if_splits)
  show "heap_frame sid h h1"
    using assms closeUser_eq [OF assms(1,2), of now] shut_frame [OF assms(2)] by (auto split: if_splits)
qed

lemma closeUser_single:
  assumes "session_inv sid (s, h)" "member_of sid h u" "publishes u h" "single_publisher sid (s, h)"
    and "closeUser now u (s, h) = (s1, h1)"
  shows "single_publisher sid (s1, h1)"
proof (cases "lu_destroyed (hp_users h u)")
  case False
  then have only: "v = u" if "member_of sid h v" "publishes v h" "\<not> lu_destroyed (hp_users h v)" for v
    using assms(2,3,4) that False unfolding single_publisher_def prod.case
    by (metis option.inject)
  have e: "s1 = s\<lparr>publisher := None\<rparr>" "h1 = shut u h"
    using assms(5) closeUser_eq [OF assms(1,2), of now] False by simp_all
  have "\<not> (member_of sid h1 v \<and> publishes v h1 \<and> \<not> lu_destroyed (hp_users h1 v))" for v
    using only [of v] by (cases "v = u") (auto simp: e(2) shut_inv(1,2) shut_sel)
  then show ?thesis unfolding single_publisher_def prod.case by blast
qed (use assms closeUser_eq [OF assms(1,2), of now] in auto)

text \<open>A new publisher shuts the one before it.\<close>

lemma setPublisher_eq:
  assumes "session_inv sid (s, h)" "setPublisher u (s, h) = Inr (s1, h1)"
  shows "s1 = s\<lparr>publisher := Some u\<rparr>"
    "h1 = (case publisher s of None \<Rightarrow> h | Some p \<Rightarrow> if p = u then h else shut p h)"
  using assms by (auto simp: setPublisher_def session_inv_def shut_def bindr_eq_Inr split: option.splits if_splits)

lemma setPublisher_keeps:
  assumes inv: "session_inv sid (s, h)" and u: "member_of sid h u" "publishes u h" "\<not> lu_destroyed (hp_users h u)"
    and eq: "setPublisher u (s, h) = Inr (s1, h1)"
  shows "session_inv sid (s1, h1)" "heap_frame sid h h1"
proof -
  note e = setPublisher_eq [OF inv eq]
  show "session_inv sid (s1, h1)"
  proof (cases "publisher s")
    case (Some p)
    have p: "member_of sid h p" using inv Some by (simp add: session_inv_def)
    have "session_inv sid (s\<lparr>publisher := None\<rparr>, shut p h)"
      by (rule shut_keeps [OF inv p]) (use inv in \<open>auto simp: session_inv_def\<close>)
    then show ?thesis
      using e eq inv u Some by (auto simp: session_inv_def shut_inv shut_sel split: if_splits)
  qed (use e eq inv u in \<open>auto simp: session_inv_def\<close>)
  show "heap_frame sid h h1"
    using e eq inv shut_frame by (auto simp: session_inv_def split: option.splits if_splits)
qed

lemma setPublisher_single:
  assumes inv: "session_inv sid (s, h)" and new: "\<forall>v. member_of sid h v \<and> publishes v h
      \<and> \<not> lu_destroyed (hp_users h v) \<longrightarrow> v = u \<or> publisher s = Some v"
    and eq: "setPublisher u (s, h) = Inr (s1, h1)"
  shows "single_publisher sid (s1, h1)"
  using setPublisher_eq [OF inv eq] new
  by (auto simp: single_publisher_def shut_inv(1,2) shut_sel split: option.splits if_splits)

text \<open>New users.\<close>

lemma add_user_sel:
  assumes "add_user conn x h = (u, h1)"
  shows "u = hp_next h" "hp_next h1 = hp_next h + 1" "hp_users h1 = (hp_users h)(u := x)"
    "hp_events h1 = hp_events h" "hp_context h1 = (hp_context h)(conn \<mapsto> u)"
  using assms by (auto simp: add_user_def)

lemma add_user_keeps:
  assumes "add_user conn x h = (u, h1)" "lu_session x = sid" "session_inv sid (s, h)"
    and "lu_player x = None \<Longrightarrow> lu_type x = kUserTypePublishRtmp \<and> lu_conn x \<noteq> None \<and> \<not> lu_destroyed x"
  shows "session_inv sid (s, h1)" "heap_frame sid h h1" "member_of sid h1 u"
    "member_of sid h1 v \<longleftrightarrow> v = u \<or> member_of sid h v" "\<not> member_of sid h u"
    "publishes u h1 \<longleftrightarrow> lu_player x = None" "hp_users h1 u = x"
    "v \<noteq> u \<Longrightarrow> hp_users h1 v = hp_users h v"
  using assms add_user_sel [OF assms(1)]
  by (auto simp: session_inv_def heap_frame_def member_of_def publishes_def conn_closed_def less_Suc_eq)

lemma createPublisher_user:
  assumes "createPublisher conn name prm ty now sid s h = (Some u, h1)"
  shows "\<exists>x. add_user conn x h = (u, h1) \<and> lu_session x = sid \<and> lu_player x = None \<and> lu_type x = ty
    \<and> lu_conn x = Some conn \<and> \<not> lu_destroyed x"
  using assms by (auto simp: createPublisher_def Let_def fill_user_def newUser_def split: if_splits prod.splits)

lemma createPlayerUser_user:
  assumes "createPlayerUser conn name prm ty now sid s h = Inr (Some u, h1)"
  shows "\<exists>x. add_user conn x h = (u, h1) \<and> lu_session x = sid \<and> lu_player x \<noteq> None
    \<and> lu_conn x = Some conn \<and> \<not> lu_destroyed x"
  using assms by (auto simp: createPlayerUser_def Let_def fill_user_def newUser_def split: if_splits prod.splits)

text \<open>A connection that publishes.\<close>

lemma publish_keeps:
  assumes inv: "session_inv sid (s, h)"
    and c: "createPublisher conn name prm kUserTypePublishRtmp now sid s h = (Some u, h1)"
    and p: "setPublisher u (s, h1) = Inr (s2, h2)"
  shows "session_inv sid (s2, h2)" "heap_frame sid h h2"
    "single_publisher sid (s, h) \<Longrightarrow> single_publisher sid (s2, h2)"
proof -
  obtain x where x: "add_user conn x h = (u, h1)" "lu_session x = sid" "lu_player x = None"
      "lu_type x = kUserTypePublishRtmp" "lu_conn x = Some conn" "\<not> lu_destroyed x"
    using createPublisher_user [OF c] by blast
  have n: "session_inv sid (s, h1)" "heap_frame sid h h1" "member_of sid h1 u" "publishes u h1"
      "\<not> lu_destroyed (hp_users h1 u)"
    using add_user_keeps [OF x(1,2) inv] x(3-6) by auto
  show "session_inv sid (s2, h2)" "heap_frame sid h h2"
    using setPublisher_keeps [OF n(1,3-5) p] heap_frame_trans [OF n(2)] by auto
  assume single: "single_publisher sid (s, h)"
  show "single_publisher sid (s2, h2)"
  proof (rule setPublisher_single [OF n(1) _ p], intro allI impI)
    fix v assume "member_of sid h1 v \<and> publishes v h1 \<and> \<not> lu_destroyed (hp_users h1 v)"
    then show "v = u \<or> publisher s = Some v"
      using add_user_keeps(4,8) [OF x(1,2) inv, of v] x(3-6) single
      by (auto simp: single_publisher_def publishes_def)
  qed
qed

text \<open>A connection that plays.\<close>

lemma play_keeps:
  assumes inv: "session_inv sid (s, h)"
    and c: "createPlayerUser conn name prm ty now sid s h = Inr (Some u, h1)"
    and p: "addPlayer u (s, h1) = (s2, h2)"
  shows "session_inv sid (s2, h2)" "heap_frame sid h h2"
    "single_publisher sid (s, h) \<Longrightarrow> single_publisher sid (s2, h2)"
proof -
  obtain x where x: "add_user conn x h = (u, h1)" "lu_session x = sid" "lu_player x \<noteq> None"
    using createPlayerUser_user [OF c] by blast
  note k = add_user_keeps [OF x(1,2) inv]
  have n: "session_inv sid (s, h1)" "heap_frame sid h h1" "member_of sid h1 u" "\<not> publishes u h1"
    using k x(3) by auto
  have e: "s2 = (if u \<in> set (players s) then s else s\<lparr>players := players s @ [u]\<rparr>)"
      "h2 = on_conn Activated u h1"
    using p by (auto simp: addPlayer_def user_active_def)
  show "session_inv sid (s2, h2)"
    using n(1,3,4) by (auto simp: e session_inv_def)
  show "heap_frame sid h h2"
    using heap_frame_trans [OF n(2) on_conn_keeps(3)] e by simp
  assume single: "single_publisher sid (s, h)"
  show "single_publisher sid (s2, h2)"
    unfolding single_publisher_def prod.case e
  proof (intro allI impI)
    fix v assume "member_of sid (on_conn Activated u h1) v \<and> publishes v (on_conn Activated u h1)
      \<and> \<not> lu_destroyed (hp_users (on_conn Activated u h1) v)"
    then have v: "member_of sid h1 v" "publishes v h1" "\<not> lu_destroyed (hp_users h1 v)" by simp_all
    then have "v \<noteq> u" using n(4) by auto
    then have "member_of sid h v" "hp_users h1 v = hp_users h v" using v(1) k(4,8) [of v] x(3) by auto
    then have "publisher s = Some v"
      using v single by (simp add: single_publisher_def publishes_def)
    then show "publisher (if u \<in> set (players s) then s else s\<lparr>players := players s @ [u]\<rparr>) = Some v"
      by simp
  qed
qed

text \<open>Clearing a session: the publisher is shut, every player is only marked.\<close>

lemma mark_sel [simp]:
  "hp_next (mark_destroyed u h) = hp_next h" "hp_events (mark_destroyed u h) = hp_events h"
  "hp_context (mark_destroyed u h) = hp_context h"
  by (simp_all add: mark_destroyed_def)

lemma marks_sel:
  "hp_next (fold mark_destroyed ps h) = hp_next h" "hp_events (fold mark_destroyed ps h) = hp_events h"
  "hp_users (fold mark_destroyed ps h) v =
     (if v \<in> set ps then (hp_users h v)\<lparr>lu_destroyed := True\<rparr> else hp_users h v)"
  by (induction ps arbitrary: h) (auto simp: mark_destroyed_def)

lemma close_marks:
  "publisher s = None \<Longrightarrow> \<forall>p \<in> set ps. getUserType (hp_users h p) \<le> kUserTypePlayerWebRTC \<Longrightarrow>
   fold (closeUserNoLock now) ps (s, h) = (s, fold mark_destroyed ps h)"
proof (induction ps arbitrary: h)
  case (Cons p ps)
  have "mark_destroyed p h = h" if "lu_destroyed (hp_users h p)"
  proof -
    have "(hp_users h p)\<lparr>lu_destroyed := True\<rparr> = hp_users h p"
      using that by (cases "hp_users h p") simp
    then show ?thesis by (simp add: mark_destroyed_def)
  qed
  then have "closeUserNoLock now p (s, h) = (s, mark_destroyed p h)"
    using Cons.prems by (auto simp: closeUserNoLock_def Let_def)
  then show ?case using Cons.IH [of "mark_destroyed p h"] Cons.prems by simp
qed simp

lemma clear_eq:
  assumes inv: "session_inv sid (s, h)"
  shows "clear now (s, h) = (s\<lparr>publisher := None, players := []\<rparr>, fold mark_destroyed (players s)
    (case publisher s of None \<Rightarrow> h | Some p \<Rightarrow> shut p h))"
proof -
  have types: "\<forall>p \<in> set (players s). getUserType (hp_users h p) \<le> kUserTypePlayerWebRTC"
    using inv player_type by (auto simp: session_inv_def)
  show ?thesis
  proof (cases "publisher s")
    case None
    then show ?thesis using close_marks [of s "players s" h now] types by (simp add: clear_def Let_def)
  next
    case (Some p)
    have p: "member_of sid h p" "\<not> lu_destroyed (hp_users h p)" using inv Some by (auto simp: session_inv_def)
    have "closeUserNoLock now p (s, h) = (s\<lparr>publisher := None\<rparr>, shut p h)"
      using user_type_le [OF inv p(1)] p(2) Some by (simp add: closeUserNoLock_def Let_def shut_def)
    moreover have "\<forall>q \<in> set (players s). getUserType (hp_users (shut p h) q) \<le> kUserTypePlayerWebRTC"
      using types by (auto simp: shut_sel getUserType_def)
    ultimately show ?thesis
      using close_marks [of "s\<lparr>publisher := None\<rparr>" "players s" "shut p h" now] Some
      by (simp add: clear_def Let_def)
  qed
qed

lemma marks_keep:
  assumes "session_inv sid (s, h)" "\<forall>p \<in> set ps. member_of sid h p \<and> \<not> publishes p h"
  shows "session_inv sid (s, fold mark_destroyed ps h)" "heap_frame sid h (fold mark_destroyed ps h)"
proof -
  have "publishes u (fold mark_destroyed ps h) = publishes u h"
      "conn_closed u (fold mark_destroyed ps h) = conn_closed u h"
      "member_of sid (fold mark_destroyed ps h) u = member_of sid h u" for u
    by (auto simp: publishes_def conn_closed_def member_of_def marks_sel)
  then show "session_inv sid (s, fold mark_destroyed ps h)"
    using assms by (auto simp: session_inv_def marks_sel)
  show "heap_frame sid h (fold mark_destroyed ps h)"
    using assms(2) by (auto simp: heap_frame_def marks_sel member_of_def)
qed

lemma clear_keeps:
  assumes inv: "session_inv sid (s, h)" and eq: "clear now (s, h) = (s1, h1)"
  shows "session_inv sid (s1, h1)" "heap_frame sid h h1"
    "single_publisher sid (s, h) \<Longrightarrow> single_publisher sid (s1, h1)"
proof -
  let ?h = "case publisher s of None \<Rightarrow> h | Some p \<Rightarrow> shut p h"
  have e: "s1 = s\<lparr>publisher := None, players := []\<rparr>" "h1 = fold mark_destroyed (players s) ?h"
    using clear_eq [OF inv, of now] eq by simp_all
  have h: "session_inv sid (s1, ?h) \<and> heap_frame sid h ?h
      \<and> (\<forall>p \<in> set (players s). member_of sid ?h p \<and> \<not> publishes p ?h)"
  proof (cases "publisher s")
    case (Some p)
    have p: "member_of sid h p" using inv Some by (simp add: session_inv_def)
    have "session_inv sid (s1, shut p h)"
      by (rule shut_keeps [OF inv p]) (simp_all add: e(1))
    then show ?thesis
      using shut_frame [OF p] inv Some by (simp add: session_inv_def shut_inv)
  qed (use inv e in \<open>auto simp: session_inv_def\<close>)
  show "session_inv sid (s1, h1)" "heap_frame sid h h1"
    using h marks_keep [of sid s1 ?h "players s"] heap_frame_trans [of sid h ?h h1] e(2) by auto
  assume single: "single_publisher sid (s, h)"
  have "lu_destroyed (hp_users h1 v)" if v: "member_of sid h1 v" "publishes v h1" for v
  proof -
    have m: "member_of sid h v" "publishes v h"
      using v by (auto simp: e(2) member_of_def publishes_def marks_sel shut_sel split: option.splits if_splits)
    then show ?thesis
      using single by (cases "lu_destroyed (hp_users h v)")
        (auto simp: single_publisher_def e(2) marks_sel shut_sel split: option.splits)
  qed
  then show "single_publisher sid (s1, h1)" unfolding single_publisher_def prod.case by blast
qed

lemma wakes_keep:
  "session_inv sid (s, h) \<Longrightarrow> session_inv sid (s, fold user_active ps h)"
  "single_publisher sid (s, h) \<Longrightarrow> single_publisher sid (s, fold user_active ps h)"
  "heap_frame sid h (fold user_active ps h)"
  by (induction ps arbitrary: h)
    (auto simp: user_active_def on_conn_keeps(1,2) intro: heap_frame_trans [OF on_conn_keeps(3)])

lemma activeAllPlayers_keeps:
  shows "session_inv sid (s, h) \<Longrightarrow> session_inv sid (s, activeAllPlayers t h)"
    and "single_publisher sid (s, h) \<Longrightarrow> single_publisher sid (s, activeAllPlayers t h)"
    and "heap_frame sid h (activeAllPlayers t h)"
  unfolding activeAllPlayers_def by (simp_all add: wakes_keep)

section \<open>Properties\<close>

definition demo_session :: session where
  "demo_session = (newSession ''d/a/s'' 0)\<lparr>ses_app_info := Some newAppInfo\<rparr>"

text \<open>A publisher on connection 1 and a player on connection 2.\<close>

definition demo_heap :: heap where
  "demo_heap = newHeap\<lparr>hp_users := (hp_users newHeap)
     (0 := (newUser 1 7 0)\<lparr>lu_type := kUserTypePublishRtmp\<rparr>,
      1 := (newUser 2 7 0)\<lparr>lu_type := kUserTypePlayerRtmp, lu_player := Some (newPlayer 3000 0)\<rparr>),
     hp_next := 2\<rparr>"

definition demo_joined :: session where
  "demo_joined = demo_session\<lparr>publisher := Some 0, players := [1]\<rparr>"

lemma demo_inv: "session_inv 7 (demo_joined, demo_heap)"
  by (auto simp: session_inv_def demo_joined_def demo_heap_def demo_session_def newSession_def
      member_of_def publishes_def newUser_def less_Suc_eq numeral_2_eq_2)

text \<open>
  Closing a player ends the publishing and leaves the player. The test by which \<open>closeUser\<close>
  tells publishers from players compares with the last player type, so it holds for players too:
  the session forgets its publisher, which is not destroyed and not closed, while the closed
  player stays in the set of players and is still woken with the others.
\<close>

theorem closing_player_drops_publisher:
  assumes "session_inv sid (s, h)" "u \<in> set (players s)" "\<not> lu_destroyed (hp_users h u)"
    and "publisher s = Some p" "closeUser now u (s, h) = (s1, h1)"
  shows "publisher s1 = None \<and> \<not> lu_destroyed (hp_users h1 p) \<and> publishes p h1
    \<and> u \<in> set (players s1) \<and> lu_destroyed (hp_users h1 u) \<and> activeAllPlayers s1 = activeAllPlayers s"
proof -
  have "member_of sid h u" "p \<noteq> u" using assms(1,2,4) by (auto simp: session_inv_def)
  then have "s1 = s\<lparr>publisher := None\<rparr>" "h1 = shut u h"
    using closeUser_eq [OF assms(1), of u now] assms(3,5) by auto
  then show ?thesis
    using assms(1,2,4) \<open>p \<noteq> u\<close>
    by (auto simp: shut_sel shut_inv session_inv_def activeAllPlayers_def fun_eq_iff)
qed

theorem closing_player_drops_publisher_witness:
  "\<exists>s1 h1. closeUser 5 1 (demo_joined, demo_heap) = (s1, h1) \<and> publisher s1 = None
     \<and> \<not> lu_destroyed (hp_users h1 0) \<and> 1 \<in> set (players s1)"
proof -
  obtain s1 h1 where c: "closeUser 5 1 (demo_joined, demo_heap) = (s1, h1)" by fastforce
  have "1 \<in> set (players demo_joined)" "\<not> lu_destroyed (hp_users demo_heap 1)" "publisher demo_joined = Some 0"
    by (simp_all add: demo_joined_def demo_heap_def newUser_def)
  then show ?thesis using closing_player_drops_publisher [OF demo_inv _ _ _ c] c by auto
qed

text \<open>
  Clearing a session closes its publisher only. The players are marked as destroyed, but as
  the session has no publisher any more when their turn comes, the branch that closes a user is
  not taken: no player's connection is closed, and because of the mark no later \<open>closeUser\<close> closes
  it either.
\<close>

theorem clear_leaves_players_open:
  assumes "session_inv sid (s, h)" "clear now (s, h) = (s1, h1)"
  shows "players s1 = [] \<and> publisher s1 = None
    \<and> hp_events h1 = hp_events h @ (case publisher s of None \<Rightarrow> []
         | Some p \<Rightarrow> [ForceClosed (the (lu_conn (hp_users h p)))])
    \<and> (\<forall>u \<in> set (players s). closeUser later u (t, h1) = (t, h1))"
proof -
  have e: "s1 = s\<lparr>publisher := None, players := []\<rparr>" "h1 = fold mark_destroyed (players s)
      (case publisher s of None \<Rightarrow> h | Some p \<Rightarrow> shut p h)"
    using clear_eq [OF assms(1), of now] assms(2) by simp_all
  have "hp_events (shut p h) = hp_events h @ [ForceClosed (the (lu_conn (hp_users h p)))]"
    if "publisher s = Some p" for p
    using assms(1) that by (auto simp: session_inv_def shut_def user_close_def on_conn_def mark_destroyed_def)
  then show ?thesis by (auto simp: e closeUser_def marks_sel split: option.split)
qed

theorem clear_leaves_players_open_witness:
  "\<exists>s1 h1. clear 5 (demo_joined, demo_heap) = (s1, h1) \<and> hp_events h1 = [ForceClosed 1]
     \<and> closeUser 6 1 (s1, h1) = (s1, h1)"
proof -
  obtain s1 h1 where c: "clear 5 (demo_joined, demo_heap) = (s1, h1)" by fastforce
  have "players demo_joined = [1]" "publisher demo_joined = Some 0" "hp_events demo_heap = []"
      "lu_conn (hp_users demo_heap 0) = Some 1"
    by (simp_all add: demo_joined_def demo_heap_def newUser_def newHeap_def)
  then show ?thesis using clear_leaves_players_open [OF demo_inv c, of 6 s1] c by auto
qed

end
