(* ===== verification/LiveService.thy ===== *)
theory LiveService
  imports LiveSession
begin

text \<open>
  The service of \<open>src/live/live_service.cpp\<close>, which answers the RTMP connections: it finds or makes
  the session of a name, joins publishers and players to it, passes packets to its stream, has
  players post frames and drops idle sessions. Sessions stay alive while users hold them, so they
  live in a store; \<open>sv_cx\<close> is the RTMP context of a connection. The configuration is a parameter.
\<close>

section \<open>The service\<close>

record service =
  sv_sessions :: "(string \<times> nat) list"
  sv_store :: "nat \<Rightarrow> session"
  sv_next :: nat
  sv_heap :: heap
  sv_cx :: "nat \<Rightarrow> ctx option"

definition newService :: service where
  "newService = \<lparr>sv_sessions = [], sv_store = (\<lambda>_. newSession [] 0), sv_next = 0, sv_heap = newHeap,
     sv_cx = Map.empty\<rparr>"

definition on_session :: "nat \<Rightarrow> (session \<times> heap \<Rightarrow> session \<times> heap) \<Rightarrow> service \<Rightarrow> service" where
  "on_session i f sv =
     (case f (sv_store sv i, sv_heap sv) of
        (s, h) \<Rightarrow> sv\<lparr>sv_store := (sv_store sv)(i := s), sv_heap := h\<rparr>)"

definition createSession :: "config \<Rightarrow> int \<Rightarrow> string \<Rightarrow> service \<Rightarrow> nat option \<times> service" where
  "createSession cfg now name sv =
     (case map_of (sv_sessions sv) name of
        Some i \<Rightarrow> (Some i, sv)
      | None \<Rightarrow>
          let parts = split name ''/'' False in
          if length parts \<noteq> 3 then (None, sv)
          else case getAppInfo (parts ! 0) (parts ! 1) cfg of
            None \<Rightarrow> (None, sv)
          | Some a \<Rightarrow>
              let i = sv_next sv; s = (newSession name now)\<lparr>ses_app_info := Some a\<rparr> in
              (Some i, sv\<lparr>sv_sessions := sv_sessions sv @ [(name, i)],
                          sv_store := (sv_store sv)(i := s), sv_next := i + 1\<rparr>))"

definition findSession :: "string \<Rightarrow> service \<Rightarrow> nat option" where
  "findSession name sv = map_of (sv_sessions sv) name"

definition closeSession :: "int \<Rightarrow> string \<Rightarrow> service \<Rightarrow> service" where
  "closeSession now name sv =
     (case map_of (sv_sessions sv) name of
        None \<Rightarrow> sv
      | Some i \<Rightarrow> on_session i (clear now)
          (sv\<lparr>sv_sessions := filter (\<lambda>e. fst e \<noteq> name) (sv_sessions sv)\<rparr>))"

text \<open>The timer's loop returns the sessions that stay.\<close>

fun timer_loop :: "int \<Rightarrow> (string \<times> nat) list \<Rightarrow> service \<Rightarrow> ((string \<times> nat) list \<times> service) res" where
  "timer_loop now [] sv = Inr ([], sv)"
| "timer_loop now ((name, i) # ss) sv =
     bindr (isTimeout now (sv_store sv i)) (\<lambda>expired.
       if expired then timer_loop now ss (on_session i (clear now) sv)
       else bindr (timer_loop now ss sv) (\<lambda>(kept, sv1). Inr ((name, i) # kept, sv1)))"

definition onTimer :: "int \<Rightarrow> service \<Rightarrow> service res" where
  "onTimer now sv =
     bindr (timer_loop now (sv_sessions sv) sv) (\<lambda>(kept, sv1). Inr (sv1\<lparr>sv_sessions := kept\<rparr>))"

section \<open>The connections' callbacks\<close>

definition force_close :: "nat \<Rightarrow> service \<Rightarrow> service" where
  "force_close conn sv = sv\<lparr>sv_heap := (sv_heap sv)\<lparr>hp_events := hp_events (sv_heap sv) @ [ForceClosed conn]\<rparr>\<rparr>"

definition set_user :: "nat \<Rightarrow> nat \<Rightarrow> heap \<Rightarrow> heap" where
  "set_user conn u h = h\<lparr>hp_context := (hp_context h)(conn \<mapsto> u)\<rparr>"

definition onConnectionDestroy :: "int \<Rightarrow> nat \<Rightarrow> service \<Rightarrow> service" where
  "onConnectionDestroy now conn sv =
     (case hp_context (sv_heap sv) conn of
        None \<Rightarrow> sv
      | Some u \<Rightarrow> on_session (lu_session (hp_users (sv_heap sv) u)) (closeUser now u) sv)"

definition onPlay :: "config \<Rightarrow> int \<Rightarrow> nat \<Rightarrow> string \<Rightarrow> string \<Rightarrow> service \<Rightarrow> (bool \<times> service) res" where
  "onPlay cfg now conn name prm sv =
     (case createSession cfg now name sv of
        (None, sv1) \<Rightarrow> Inr (False, force_close conn sv1)
      | (Some i, sv1) \<Rightarrow>
          bindr (createPlayerUser conn name prm kUserTypePlayerRtmp now i (sv_store sv1 i) (sv_heap sv1))
            (\<lambda>(r, h1). case r of
               None \<Rightarrow> Inr (False, force_close conn (sv1\<lparr>sv_heap := h1\<rparr>))
             | Some u \<Rightarrow> Inr (True, on_session i (addPlayer u) (sv1\<lparr>sv_heap := set_user conn u h1\<rparr>))))"

definition onPublish :: "config \<Rightarrow> int \<Rightarrow> nat \<Rightarrow> string \<Rightarrow> string \<Rightarrow> service \<Rightarrow> (bool \<times> service) res" where
  "onPublish cfg now conn name prm sv =
     (case createSession cfg now name sv of
        (None, sv1) \<Rightarrow> Inr (False, force_close conn sv1)
      | (Some i, sv1) \<Rightarrow>
          (case createPublisher conn name prm kUserTypePublishRtmp now i (sv_store sv1 i) (sv_heap sv1) of
             (None, h1) \<Rightarrow> Inr (False, force_close conn (sv1\<lparr>sv_heap := h1\<rparr>))
           | (Some u, h1) \<Rightarrow>
               bindr (setPublisher u (sv_store sv1 i, set_user conn u h1)) (\<lambda>r.
                 Inr (True, on_session i (\<lambda>_. r) sv1))))"

text \<open>A packet of the connection's user goes to the stream, which may wake the players.\<close>

definition onRecv :: "int \<Rightarrow> nat \<Rightarrow> packet \<Rightarrow> service \<Rightarrow> service res" where
  "onRecv now conn p sv =
     (case hp_context (sv_heap sv) conn of
        None \<Rightarrow> Inr (force_close conn sv)
      | Some u \<Rightarrow>
          let i = lu_session (hp_users (sv_heap sv) u) in
          bindr (addPacket now p (ses_stream (sv_store sv i))) (\<lambda>(st, wake).
            Inr (on_session i (\<lambda>(s, h). (s\<lparr>ses_stream := st\<rparr>, if wake then activeAllPlayers s h else h)) sv)))"

definition set_player :: "nat \<Rightarrow> player \<Rightarrow> heap \<Rightarrow> heap" where
  "set_player u p h = h\<lparr>hp_users := (hp_users h)(u := (hp_users h u)\<lparr>lu_player := Some p\<rparr>)\<rparr>"

text \<open>What a player's \<open>postFrames\<close> leaves behind.\<close>

definition posted :: "nat \<Rightarrow> nat \<Rightarrow> rtmp_player \<Rightarrow> service \<Rightarrow> service" where
  "posted conn u y sv =
     (let h = set_player u (pu y) (sv_heap sv) in
      sv\<lparr>sv_heap := (if pu_active y then h else user_deactive u h), sv_cx := (sv_cx sv)(conn := pu_cx y)\<rparr>)"

definition onActive :: "int \<Rightarrow> nat \<Rightarrow> service \<Rightarrow> service res" where
  "onActive now conn sv =
     (case hp_context (sv_heap sv) conn of
        None \<Rightarrow> Inr sv
      | Some u \<Rightarrow>
          let x = hp_users (sv_heap sv) u in
          if kUserTypePlayerPav \<le> getUserType x then
            bindr (deref (lu_player x)) (\<lambda>pl.
            bindr (postFrames now (ses_stream (sv_store sv (lu_session x)))
                     \<lparr>pu = pl, pu_cx = sv_cx sv conn, pu_active = True\<rparr>) (\<lambda>(r, y).
              Inr (posted conn u y sv)))
          else Inr sv)"

section \<open>Runs of the service\<close>

datatype service_event =
    Plays nat string string
  | Publishes nat string string
  | Receives nat packet
  | Wakes nat
  | Gone nat
  | Tick
  | Closes string

text \<open>
  A step is a callback that returns. Between the callbacks the connections' RTMP contexts change
  on their own: a context is given and taken by the server and written by the connection.
\<close>

inductive service_step :: "config \<Rightarrow> service_event \<Rightarrow> service \<Rightarrow> service \<Rightarrow> bool" for cfg where
  plays: "onPlay cfg now c name prm sv = Inr (r, sv1) \<Longrightarrow> service_step cfg (Plays c name prm) sv sv1"
| publishes: "onPublish cfg now c name prm sv = Inr (r, sv1) \<Longrightarrow> service_step cfg (Publishes c name prm) sv sv1"
| receives: "onRecv now c p sv = Inr sv1 \<Longrightarrow> service_step cfg (Receives c p) sv sv1"
| wakes: "onActive now c sv = Inr sv1 \<Longrightarrow> service_step cfg (Wakes c) sv sv1"
| gone: "service_step cfg (Gone c) sv (onConnectionDestroy now c sv)"
| tick: "onTimer now sv = Inr sv1 \<Longrightarrow> service_step cfg Tick sv sv1"
| closes: "service_step cfg (Closes name) sv (closeSession now name sv)"

inductive_cases service_step_elim: "service_step cfg e sv sv1"

inductive service_reach :: "config \<Rightarrow> (service_event \<Rightarrow> service \<Rightarrow> bool) \<Rightarrow> service \<Rightarrow> bool" for cfg P where
  start: "service_reach cfg P newService"
| step: "service_reach cfg P sv \<Longrightarrow> P e sv \<Longrightarrow> service_step cfg e sv sv1 \<Longrightarrow> service_reach cfg P sv1"
| contexts: "service_reach cfg P sv \<Longrightarrow> service_reach cfg P (sv\<lparr>sv_cx := cx\<rparr>)"

section \<open>The invariant\<close>

definition contexts_ok :: "heap \<Rightarrow> bool" where
  "contexts_ok h \<longleftrightarrow> (\<forall>c u. hp_context h c = Some u \<longrightarrow> u < hp_next h \<and> lu_conn (hp_users h u) = Some c)"

definition service_inv :: "service \<Rightarrow> bool" where
  "service_inv sv \<longleftrightarrow>
     distinct (map fst (sv_sessions sv)) \<and> distinct (map snd (sv_sessions sv)) \<and>
     (\<forall>e \<in> set (sv_sessions sv). snd e < sv_next sv \<and> ses_name (sv_store sv (snd e)) = fst e) \<and>
     (\<forall>i < sv_next sv. session_inv i (sv_store sv i, sv_heap sv)) \<and>
     (\<forall>u < hp_next (sv_heap sv). lu_session (hp_users (sv_heap sv) u) < sv_next sv) \<and>
     contexts_ok (sv_heap sv)"

definition service_single :: "service \<Rightarrow> bool" where
  "service_single sv \<longleftrightarrow> (\<forall>i < sv_next sv. single_publisher i (sv_store sv i, sv_heap sv))"

lemma service_inv_sel:
  assumes "service_inv sv"
  shows "i < sv_next sv \<Longrightarrow> session_inv i (sv_store sv i, sv_heap sv)"
    and "map_of (sv_sessions sv) name = Some i \<Longrightarrow> i < sv_next sv \<and> ses_name (sv_store sv i) = name"
    and "hp_context (sv_heap sv) c = Some u \<Longrightarrow> u < hp_next (sv_heap sv)
      \<and> lu_conn (hp_users (sv_heap sv) u) = Some c \<and> lu_session (hp_users (sv_heap sv) u) < sv_next sv"
  using assms by (auto simp: service_inv_def contexts_ok_def dest!: map_of_SomeD)

text \<open>An operation on one session.\<close>

lemma session_update:
  assumes inv: "service_inv sv" and i: "i < sv_next sv"
    and s1: "session_inv i (s1, h1)" "heap_frame i (sv_heap sv) h1" "contexts_ok h1"
      "ses_name s1 = ses_name (sv_store sv i)"
  shows "service_inv (sv\<lparr>sv_store := (sv_store sv)(i := s1), sv_heap := h1\<rparr>)"
    and "service_single sv \<Longrightarrow> single_publisher i (s1, h1) \<Longrightarrow>
      service_single (sv\<lparr>sv_store := (sv_store sv)(i := s1), sv_heap := h1\<rparr>)"
proof -
  have "lu_session (hp_users h1 u) < sv_next sv" if "u < hp_next h1" for u
    using inv i s1(2) that by (cases "u < hp_next (sv_heap sv)") (auto simp: service_inv_def heap_frame_def)
  then show "service_inv (sv\<lparr>sv_store := (sv_store sv)(i := s1), sv_heap := h1\<rparr>)"
    using inv s1 frame_inv(1) [OF s1(2)] by (auto simp: service_inv_def)
  show "service_single sv \<Longrightarrow> single_publisher i (s1, h1) \<Longrightarrow>
      service_single (sv\<lparr>sv_store := (sv_store sv)(i := s1), sv_heap := h1\<rparr>)"
    using frame_inv(2) [OF s1(2)] by (auto simp: service_single_def)
qed

text \<open>The operations of the session do not touch contexts or names.\<close>

lemma contexts_ok_conn [simp]: "contexts_ok (on_conn e u h) = contexts_ok h"
  by (simp add: contexts_ok_def)

lemma contexts_ok_shut [simp]: "contexts_ok (shut u h) = contexts_ok h"
  by (auto simp: contexts_ok_def shut_sel)

lemma contexts_ok_mark [simp]: "contexts_ok (mark_destroyed u h) = contexts_ok h"
  by (auto simp: contexts_ok_def mark_destroyed_def)

lemma contexts_ok_fold:
  "contexts_ok (fold mark_destroyed ps h) = contexts_ok h" "contexts_ok (fold user_active ps h) = contexts_ok h"
  by (induction ps arbitrary: h) (simp_all add: user_active_def)

lemma session_ops_rest:
  assumes "session_inv i (s, h)" "contexts_ok h"
  shows "closeUser now u (s, h) = (s1, h1) \<Longrightarrow> member_of i h u \<Longrightarrow> contexts_ok h1 \<and> ses_name s1 = ses_name s"
    and "setPublisher u (s, h) = Inr (s1, h1) \<Longrightarrow> contexts_ok h1 \<and> ses_name s1 = ses_name s"
    and "addPlayer u (s, h) = (s1, h1) \<Longrightarrow> contexts_ok h1 \<and> ses_name s1 = ses_name s"
    and "clear now (s, h) = (s1, h1) \<Longrightarrow> contexts_ok h1 \<and> ses_name s1 = ses_name s"
  using assms setPublisher_eq [OF assms(1), of u s1 h1]
  by (auto simp: closeUser_eq [OF assms(1)] clear_eq [OF assms(1)] addPlayer_def user_active_def contexts_ok_fold
      split: if_splits option.splits)

lemma add_user_contexts:
  "add_user conn x h = (u, h1) \<Longrightarrow> contexts_ok h \<Longrightarrow> lu_conn x = Some conn \<Longrightarrow> contexts_ok h1 \<and> set_user conn u h1 = h1"
proof
  assume a: "add_user conn x h = (u, h1)" "contexts_ok h" "lu_conn x = Some conn"
  note n = add_user_sel [OF a(1)]
  show "set_user conn u h1 = h1" using n(5) by (cases h1) (simp add: set_user_def)
  show "contexts_ok h1"
    unfolding contexts_ok_def
  proof (intro allI impI)
    fix c v assume c: "hp_context h1 c = Some v"
    show "v < hp_next h1 \<and> lu_conn (hp_users h1 v) = Some c"
    proof (cases "c = conn")
      case False
      then have "v < hp_next h" "lu_conn (hp_users h v) = Some c" using a(2) c n by (auto simp: contexts_ok_def)
      then show ?thesis using n by simp
    qed (use c n a(3) in auto)
  qed
qed

section \<open>Every callback keeps it\<close>

lemma force_close_keeps:
  assumes "service_inv sv"
  shows "service_inv (force_close c sv)" "service_single sv \<Longrightarrow> service_single (force_close c sv)"
proof -
  have "heap_frame (sv_next sv) (sv_heap sv) (sv_heap (force_close c sv))"
    by (auto simp: heap_frame_def force_close_def)
  from frame_inv [OF this]
  show "service_inv (force_close c sv)" "service_single sv \<Longrightarrow> service_single (force_close c sv)"
    using assms by (auto simp: service_inv_def service_single_def force_close_def contexts_ok_def)
qed

lemma createSession_keeps:
  assumes inv: "service_inv sv" and eq: "createSession cfg now name sv = (r, sv1)"
  shows "service_inv sv1" "service_single sv \<Longrightarrow> service_single sv1" "sv_heap sv1 = sv_heap sv"
    "r = Some i \<Longrightarrow> i < sv_next sv1 \<and> map_of (sv_sessions sv1) name = Some i \<and> ses_name (sv_store sv1 i) = name"
proof -
  have cases: "(r = map_of (sv_sessions sv) name \<and> sv1 = sv) \<or> (r = None \<and> sv1 = sv) \<or>
    (\<exists>a. map_of (sv_sessions sv) name = None \<and> r = Some (sv_next sv) \<and>
      sv1 = sv\<lparr>sv_sessions := sv_sessions sv @ [(name, sv_next sv)],
        sv_store := (sv_store sv)(sv_next sv := (newSession name now)\<lparr>ses_app_info := Some a\<rparr>),
        sv_next := sv_next sv + 1\<rparr>)"
    using eq by (auto simp: createSession_def Let_def split: option.splits if_splits)
  have fresh: "session_inv (sv_next sv) ((newSession name now)\<lparr>ses_app_info := Some a\<rparr>, sv_heap sv)
      \<and> single_publisher (sv_next sv) ((newSession name now)\<lparr>ses_app_info := Some a\<rparr>, sv_heap sv)" for a
  proof -
    have "\<not> member_of (sv_next sv) (sv_heap sv) u" for u
      using inv unfolding service_inv_def member_of_def by (metis less_irrefl)
    then show ?thesis by (simp add: session_inv_def single_publisher_def newSession_def)
  qed
  have names: "name \<notin> fst ` set (sv_sessions sv)" if "map_of (sv_sessions sv) name = None"
    using that by (simp add: map_of_eq_None_iff)
  show "service_inv sv1"
  proof (cases "sv1 = sv")
    case False
    then obtain a where new: "map_of (sv_sessions sv) name = None"
        "sv1 = sv\<lparr>sv_sessions := sv_sessions sv @ [(name, sv_next sv)],
          sv_store := (sv_store sv)(sv_next sv := (newSession name now)\<lparr>ses_app_info := Some a\<rparr>),
          sv_next := sv_next sv + 1\<rparr>"
      using cases by auto
    have ids: "snd e < sv_next sv \<and> ses_name (sv_store sv (snd e)) = fst e" if "e \<in> set (sv_sessions sv)" for e
      using inv that by (simp add: service_inv_def)
    have "sv_next sv \<notin> snd ` set (sv_sessions sv)" using ids by fastforce
    then have "distinct (map fst (sv_sessions sv1)) \<and> distinct (map snd (sv_sessions sv1))"
      using inv names [OF new(1)] by (simp add: new(2) service_inv_def)
    moreover have "\<forall>e \<in> set (sv_sessions sv1). snd e < sv_next sv1 \<and> ses_name (sv_store sv1 (snd e)) = fst e"
      using ids by (fastforce simp: new(2) newSession_def)
    moreover have "\<forall>i < sv_next sv1. session_inv i (sv_store sv1 i, sv_heap sv1)"
      using fresh inv by (auto simp: new(2) less_Suc_eq service_inv_def)
    moreover have "\<forall>u < hp_next (sv_heap sv1). lu_session (hp_users (sv_heap sv1) u) < sv_next sv1"
      using inv by (auto simp: new(2) less_Suc_eq service_inv_def)
    ultimately show ?thesis using inv by (simp add: service_inv_def new(2))
  qed (use inv in simp)
  show "service_single sv \<Longrightarrow> service_single sv1"
    using cases fresh by (auto simp: service_single_def less_Suc_eq)
  show "sv_heap sv1 = sv_heap sv" using cases by auto
  show "r = Some i \<Longrightarrow> i < sv_next sv1 \<and> map_of (sv_sessions sv1) name = Some i \<and> ses_name (sv_store sv1 i) = name"
    using cases service_inv_sel(2) [OF inv, of name i] by (auto simp: newSession_def map_add_def)
qed

text \<open>A connection that publishes or plays joins the session of its name.\<close>

lemma publish_joins:
  assumes inv: "service_inv sv" and eq: "onPublish cfg now c name prm sv = Inr (True, sv1)"
  obtains i u svc h1 s2 h2 where "createSession cfg now name sv = (Some i, svc)" "service_inv svc"
    "i < sv_next svc" "sv_heap svc = sv_heap sv"
    "createPublisher c name prm kUserTypePublishRtmp now i (sv_store svc i) (sv_heap svc) = (Some u, h1)"
    "setPublisher u (sv_store svc i, h1) = Inr (s2, h2)" "contexts_ok h1" "hp_context h1 c = Some u"
    "sv1 = svc\<lparr>sv_store := (sv_store svc)(i := s2), sv_heap := h2\<rparr>"
proof -
  obtain i svc where cs: "createSession cfg now name sv = (Some i, svc)"
    using eq by (auto simp: onPublish_def split: prod.splits option.splits)
  note k = createSession_keeps [OF inv cs]
  obtain u h1 where cp: "createPublisher c name prm kUserTypePublishRtmp now i (sv_store svc i) (sv_heap svc) = (Some u, h1)"
      "bindr (setPublisher u (sv_store svc i, set_user c u h1)) (\<lambda>r. Inr (True, on_session i (\<lambda>_. r) svc)) = Inr (True, sv1)"
    using eq cs by (auto simp: onPublish_def split: prod.splits option.splits)
  obtain x where x: "add_user c x (sv_heap svc) = (u, h1)" "lu_conn x = Some c"
    using createPublisher_user [OF cp(1)] by blast
  have ctx: "contexts_ok (sv_heap svc)" using k(1) by (simp add: service_inv_def)
  have ux: "set_user c u h1 = h1" using add_user_contexts [OF x(1) ctx x(2)] by simp
  obtain s2 h2 where p: "setPublisher u (sv_store svc i, h1) = Inr (s2, h2)" "sv1 = on_session i (\<lambda>_. (s2, h2)) svc"
    using cp(2) unfolding ux bindr_eq_Inr by auto
  show thesis
    by (rule that [OF cs k(1) _ k(3) cp(1) p(1)])
      (use p(2) k(4) add_user_contexts [OF x(1) ctx x(2)] add_user_sel(5) [OF x(1)] in \<open>simp_all add: on_session_def\<close>)
qed

lemma play_joins:
  assumes inv: "service_inv sv" and eq: "onPlay cfg now c name prm sv = Inr (True, sv1)"
  obtains i u svc h1 s2 h2 where "createSession cfg now name sv = (Some i, svc)" "service_inv svc"
    "i < sv_next svc" "sv_heap svc = sv_heap sv"
    "createPlayerUser c name prm kUserTypePlayerRtmp now i (sv_store svc i) (sv_heap svc) = Inr (Some u, h1)"
    "addPlayer u (sv_store svc i, h1) = (s2, h2)" "contexts_ok h1" "hp_context h1 c = Some u"
    "sv1 = svc\<lparr>sv_store := (sv_store svc)(i := s2), sv_heap := h2\<rparr>"
proof -
  obtain i svc where cs: "createSession cfg now name sv = (Some i, svc)"
    using eq by (auto simp: onPlay_def split: prod.splits option.splits)
  note k = createSession_keeps [OF inv cs]
  obtain u h1 where cp: "createPlayerUser c name prm kUserTypePlayerRtmp now i (sv_store svc i) (sv_heap svc) = Inr (Some u, h1)"
      "sv1 = on_session i (addPlayer u) (svc\<lparr>sv_heap := set_user c u h1\<rparr>)"
    using eq cs by (auto simp: onPlay_def res_simps split: prod.splits option.splits)
  obtain x where x: "add_user c x (sv_heap svc) = (u, h1)" "lu_conn x = Some c"
    using createPlayerUser_user [OF cp(1)] by blast
  have ctx: "contexts_ok (sv_heap svc)" using k(1) by (simp add: service_inv_def)
  obtain s2 h2 where p: "addPlayer u (sv_store svc i, h1) = (s2, h2)" by fastforce
  show thesis
    by (rule that [OF cs k(1) _ k(3) cp(1) p])
      (use cp(2) k(4) p add_user_contexts [OF x(1) ctx x(2)] add_user_sel(5) [OF x(1)] in \<open>simp_all add: on_session_def\<close>)
qed

lemma publish_keeps_service:
  assumes inv: "service_inv sv" and eq: "onPublish cfg now c name prm sv = Inr (r, sv1)"
  shows "service_inv sv1" "service_single sv \<Longrightarrow> service_single sv1"
proof -
  have "service_inv sv1 \<and> (service_single sv \<longrightarrow> service_single sv1)"
  proof (cases r)
    case True
    then obtain i u svc h1 s2 h2 where j: "createSession cfg now name sv = (Some i, svc)" "service_inv svc"
        "i < sv_next svc" "sv_heap svc = sv_heap sv"
        "createPublisher c name prm kUserTypePublishRtmp now i (sv_store svc i) (sv_heap svc) = (Some u, h1)"
        "setPublisher u (sv_store svc i, h1) = Inr (s2, h2)" "contexts_ok h1"
        "sv1 = svc\<lparr>sv_store := (sv_store svc)(i := s2), sv_heap := h2\<rparr>"
      using publish_joins [OF inv] eq by metis
    have s: "session_inv i (sv_store svc i, sv_heap svc)" using service_inv_sel(1) [OF j(2,3)] .
    note p = publish_keeps [OF s j(5,6)]
    obtain x where x: "add_user c x (sv_heap svc) = (u, h1)" "lu_session x = i" "lu_player x = None"
        "lu_type x = kUserTypePublishRtmp" "lu_conn x = Some c" "\<not> lu_destroyed x"
      using createPublisher_user [OF j(5)] by blast
    have s1: "session_inv i (sv_store svc i, h1)"
      using add_user_keeps(1) [OF x(1,2) s] x(3-6) by auto
    have rest: "contexts_ok h2 \<and> ses_name s2 = ses_name (sv_store svc i)"
      using session_ops_rest(2) [OF s1 j(7,6)] .
    note u = session_update [OF j(2,3) p(1,2)]
    show ?thesis
      using u(1) u(2) p(3) rest j(3,8) createSession_keeps(2) [OF inv j(1)]
      by (auto simp: service_single_def)
  next
    case False
    then consider svc where "createSession cfg now name sv = (None, svc)" "sv1 = force_close c svc"
      | i svc where "createSession cfg now name sv = (Some i, svc)" "sv1 = force_close c svc"
      using eq by (auto simp: onPublish_def createPublisher_def bindr_eq_Inr Let_def split: prod.splits option.splits if_splits)
    then show ?thesis
      using createSession_keeps(1,2) [OF inv] force_close_keeps by cases blast+
  qed
  then show "service_inv sv1" "service_single sv \<Longrightarrow> service_single sv1" by auto
qed

lemma play_keeps_service:
  assumes inv: "service_inv sv" and eq: "onPlay cfg now c name prm sv = Inr (r, sv1)"
  shows "service_inv sv1" "service_single sv \<Longrightarrow> service_single sv1"
proof -
  have "service_inv sv1 \<and> (service_single sv \<longrightarrow> service_single sv1)"
  proof (cases r)
    case True
    then obtain i u svc h1 s2 h2 where j: "createSession cfg now name sv = (Some i, svc)" "service_inv svc"
        "i < sv_next svc" "sv_heap svc = sv_heap sv"
        "createPlayerUser c name prm kUserTypePlayerRtmp now i (sv_store svc i) (sv_heap svc) = Inr (Some u, h1)"
        "addPlayer u (sv_store svc i, h1) = (s2, h2)" "contexts_ok h1"
        "sv1 = svc\<lparr>sv_store := (sv_store svc)(i := s2), sv_heap := h2\<rparr>"
      using play_joins [OF inv] eq by metis
    have s: "session_inv i (sv_store svc i, sv_heap svc)" using service_inv_sel(1) [OF j(2,3)] .
    note p = play_keeps [OF s j(5,6)]
    have rest: "contexts_ok h2 \<and> ses_name s2 = ses_name (sv_store svc i)"
      using j(6,7) by (auto simp: addPlayer_def user_active_def)
    note u = session_update [OF j(2,3) p(1,2)]
    show ?thesis
      using u(1) u(2) p(3) rest j(3,8) createSession_keeps(2) [OF inv j(1)]
      by (auto simp: service_single_def)
  next
    case False
    then consider svc where "createSession cfg now name sv = (None, svc)" "sv1 = force_close c svc"
      | i svc where "createSession cfg now name sv = (Some i, svc)" "sv1 = force_close c svc"
      using eq by (auto simp: onPlay_def createPlayerUser_def Let_def res_simps
          split: prod.splits option.splits if_splits)
    then show ?thesis
      using createSession_keeps(1,2) [OF inv] force_close_keeps by cases blast+
  qed
  then show "service_inv sv1" "service_single sv \<Longrightarrow> service_single sv1" by auto
qed

text \<open>A connection that goes away; a player that goes may take the publisher with it.\<close>

definition leaves_player :: "service_event \<Rightarrow> service \<Rightarrow> bool" where
  "leaves_player e sv \<longleftrightarrow> (case e of
     Gone c \<Rightarrow> (case hp_context (sv_heap sv) c of None \<Rightarrow> False | Some u \<Rightarrow> \<not> publishes u (sv_heap sv))
   | _ \<Rightarrow> False)"

lemma gone_keeps:
  assumes inv: "service_inv sv"
  shows "service_inv (onConnectionDestroy now c sv)"
    "service_single sv \<Longrightarrow> \<not> leaves_player (Gone c) sv \<Longrightarrow> service_single (onConnectionDestroy now c sv)"
proof -
  have "service_inv (onConnectionDestroy now c sv) \<and>
    (service_single sv \<and> \<not> leaves_player (Gone c) sv \<longrightarrow> service_single (onConnectionDestroy now c sv))"
  proof (cases "hp_context (sv_heap sv) c")
    case (Some u)
    let ?i = "lu_session (hp_users (sv_heap sv) u)"
    have u: "u < hp_next (sv_heap sv)" "?i < sv_next sv"
      using service_inv_sel(3) [OF inv Some] by auto
    have m: "member_of ?i (sv_heap sv) u" using u(1) by (simp add: member_of_def)
    have s: "session_inv ?i (sv_store sv ?i, sv_heap sv)" using service_inv_sel(1) [OF inv u(2)] .
    have ctx: "contexts_ok (sv_heap sv)" using inv by (simp add: service_inv_def)
    obtain s1 h1 where c1: "closeUser now u (sv_store sv ?i, sv_heap sv) = (s1, h1)" by fastforce
    note k = closeUser_keeps [OF s m c1] and r = session_ops_rest(1) [OF s ctx c1 m]
    note upd = session_update [OF inv u(2) k]
    have "single_publisher ?i (s1, h1)" if "service_single sv" "\<not> leaves_player (Gone c) sv"
      using closeUser_single [OF s m _ _ c1] that u(2) Some by (auto simp: leaves_player_def service_single_def)
    then show ?thesis
      using upd r Some c1 by (auto simp: onConnectionDestroy_def on_session_def)
  qed (use inv in \<open>auto simp: onConnectionDestroy_def\<close>)
  then show "service_inv (onConnectionDestroy now c sv)"
    "service_single sv \<Longrightarrow> \<not> leaves_player (Gone c) sv \<Longrightarrow> service_single (onConnectionDestroy now c sv)" by auto
qed

text \<open>Sessions that are cleared and dropped.\<close>

lemma cleared_keeps:
  assumes inv: "service_inv sv" and i: "i < sv_next sv"
  shows "service_inv (on_session i (clear now) sv)"
    "service_single sv \<Longrightarrow> service_single (on_session i (clear now) sv)"
    "sv_sessions (on_session i (clear now) sv) = sv_sessions sv" "sv_next (on_session i (clear now) sv) = sv_next sv"
    "j \<noteq> i \<Longrightarrow> sv_store (on_session i (clear now) sv) j = sv_store sv j"
proof -
  have s: "session_inv i (sv_store sv i, sv_heap sv)" using service_inv_sel(1) [OF inv i] .
  have ctx: "contexts_ok (sv_heap sv)" using inv by (simp add: service_inv_def)
  obtain s1 h1 where c: "clear now (sv_store sv i, sv_heap sv) = (s1, h1)" by fastforce
  note k = clear_keeps [OF s c] and r = session_ops_rest(4) [OF s ctx c]
  have e: "on_session i (clear now) sv = sv\<lparr>sv_store := (sv_store sv)(i := s1), sv_heap := h1\<rparr>"
    by (simp add: on_session_def c)
  show "service_inv (on_session i (clear now) sv)"
    "service_single sv \<Longrightarrow> service_single (on_session i (clear now) sv)"
    using session_update [OF inv i k(1,2)] r k(3) i by (auto simp: e service_single_def)
  show "sv_sessions (on_session i (clear now) sv) = sv_sessions sv" "sv_next (on_session i (clear now) sv) = sv_next sv"
    "j \<noteq> i \<Longrightarrow> sv_store (on_session i (clear now) sv) j = sv_store sv j" by (simp_all add: e)
qed

lemma fewer_sessions:
  assumes "service_inv sv" "ss = filter P (sv_sessions sv)"
  shows "service_inv (sv\<lparr>sv_sessions := ss\<rparr>)" "service_single (sv\<lparr>sv_sessions := ss\<rparr>) = service_single sv"
  using assms by (auto simp: service_inv_def service_single_def distinct_map_filter)

definition stays :: "int \<Rightarrow> (nat \<Rightarrow> session) \<Rightarrow> string \<times> nat \<Rightarrow> bool" where
  "stays now store e \<longleftrightarrow> isTimeout now (store (snd e)) = Inr False"

lemma timer_loop_keeps:
  "timer_loop now ss sv = Inr (kept, sv1) \<Longrightarrow> service_inv sv \<Longrightarrow> \<forall>e \<in> set ss. snd e < sv_next sv \<Longrightarrow>
   distinct (map snd ss) \<Longrightarrow>
   service_inv sv1 \<and> (service_single sv \<longrightarrow> service_single sv1) \<and> sv_sessions sv1 = sv_sessions sv
   \<and> kept = filter (stays now (sv_store sv)) ss
   \<and> (\<forall>i. i \<notin> snd ` set ss \<or> (\<exists>e \<in> set kept. snd e = i) \<longrightarrow> sv_store sv1 i = sv_store sv i)"
proof (induction ss arbitrary: sv kept)
  case (Cons e ss)
  obtain name i where e: "e = (name, i)" by fastforce
  obtain b where b: "isTimeout now (sv_store sv i) = Inr b" using Cons.prems(1) by (auto simp: e res_simps)
  have i: "i < sv_next sv" "i \<notin> snd ` set ss" using Cons.prems(3,4) by (auto simp: e)
  show ?case
  proof (cases b)
    case True
    note k = cleared_keeps [OF Cons.prems(2) i(1), where now = now]
    have l: "timer_loop now ss (on_session i (clear now) sv) = Inr (kept, sv1)"
      using Cons.prems(1) b True by (simp add: e)
    have f: "filter (stays now (sv_store (on_session i (clear now) sv))) ss = filter (stays now (sv_store sv)) ss"
      using i(2) k(5) by (intro filter_cong) (auto simp: stays_def image_iff)
    have "\<not> stays now (sv_store sv) e" using b True by (simp add: stays_def e)
    have p: "\<forall>e \<in> set ss. snd e < sv_next (on_session i (clear now) sv)" "distinct (map snd ss)"
      using Cons.prems(3,4) k(4) by auto
    note r = Cons.IH [OF l k(1) p]
    have kept: "kept = filter (stays now (sv_store sv)) (e # ss)" using r f \<open>\<not> stays now (sv_store sv) e\<close> by simp
    have "sv_store sv1 j = sv_store sv j" if j: "j \<notin> snd ` set (e # ss) \<or> (\<exists>e \<in> set kept. snd e = j)" for j
    proof -
      have "j \<noteq> i" using j i(2) kept \<open>\<not> stays now (sv_store sv) e\<close> by (auto simp: e image_iff)
      moreover have "j \<notin> snd ` set ss \<or> (\<exists>e \<in> set kept. snd e = j)" using j by auto
      ultimately show ?thesis using r k(5) by simp
    qed
    then show ?thesis using r k(2,3) kept by simp
  next
    case False
    obtain ks where l: "timer_loop now ss sv = Inr (ks, sv1)" "kept = (name, i) # ks"
      using Cons.prems(1) b False by (auto simp: e res_simps)
    have "stays now (sv_store sv) e" using b False by (simp add: stays_def e)
    then show ?thesis
      using Cons.IH [OF l(1) Cons.prems(2)] Cons.prems(3,4) l(2) i(2) by (auto simp: e)
  qed
qed simp

lemma timer_keeps:
  assumes inv: "service_inv sv" and eq: "onTimer now sv = Inr sv1"
  shows "service_inv sv1" "service_single sv \<Longrightarrow> service_single sv1"
    "sv_sessions sv1 = filter (stays now (sv_store sv)) (sv_sessions sv)"
    "e \<in> set (sv_sessions sv1) \<Longrightarrow> sv_store sv1 (snd e) = sv_store sv (snd e)"
proof -
  obtain kept sv2 where l: "timer_loop now (sv_sessions sv) sv = Inr (kept, sv2)" "sv1 = sv2\<lparr>sv_sessions := kept\<rparr>"
    using eq by (auto simp: onTimer_def res_simps)
  have s: "\<forall>e \<in> set (sv_sessions sv). snd e < sv_next sv" "distinct (map snd (sv_sessions sv))"
    using inv by (auto simp: service_inv_def)
  note k = timer_loop_keeps [OF l(1) inv s]
  have f: "kept = filter (stays now (sv_store sv)) (sv_sessions sv2)" using k by simp
  show "service_inv sv1" "service_single sv \<Longrightarrow> service_single sv1"
    using fewer_sessions [OF _ f] k l(2) by auto
  show "sv_sessions sv1 = filter (stays now (sv_store sv)) (sv_sessions sv)" using k l(2) by simp
  show "e \<in> set (sv_sessions sv1) \<Longrightarrow> sv_store sv1 (snd e) = sv_store sv (snd e)"
    using k l(2) by (metis service.select_convs(1,2) service.surjective service.update_convs(1))
qed

lemma close_session_keeps:
  assumes inv: "service_inv sv"
  shows "service_inv (closeSession now name sv)" "service_single sv \<Longrightarrow> service_single (closeSession now name sv)"
proof -
  have "service_inv (closeSession now name sv) \<and> (service_single sv \<longrightarrow> service_single (closeSession now name sv))"
  proof (cases "map_of (sv_sessions sv) name")
    case (Some i)
    note f = fewer_sessions [OF inv refl, of "\<lambda>e. fst e \<noteq> name"]
    have "i < sv_next sv" using service_inv_sel(2) [OF inv Some] by simp
    then show ?thesis using cleared_keeps(1,2) [OF f(1), of i] f(2) Some by (simp add: closeSession_def)
  qed (use inv in \<open>simp add: closeSession_def\<close>)
  then show "service_inv (closeSession now name sv)"
    "service_single sv \<Longrightarrow> service_single (closeSession now name sv)" by auto
qed

text \<open>Packets and frames change streams and players only.\<close>

lemma with_stream:
  "session_inv i (s\<lparr>ses_stream := st\<rparr>, h) = session_inv i (s, h)"
  "single_publisher i (s\<lparr>ses_stream := st\<rparr>, h) = single_publisher i (s, h)"
  "activeAllPlayers (s\<lparr>ses_stream := st\<rparr>) h = activeAllPlayers s h"
  by (simp_all add: session_inv_def single_publisher_def activeAllPlayers_def)

lemma recv_user:
  assumes "onRecv now c p sv = Inr sv1" "hp_context (sv_heap sv) c = Some u" "i = lu_session (hp_users (sv_heap sv) u)"
  shows "\<exists>st wake. addPacket now p (ses_stream (sv_store sv i)) = Inr (st, wake) \<and>
    sv1 = sv\<lparr>sv_store := (sv_store sv)(i := (sv_store sv i)\<lparr>ses_stream := st\<rparr>),
      sv_heap := if wake then activeAllPlayers (sv_store sv i) (sv_heap sv) else sv_heap sv\<rparr>"
proof -
  obtain st wake where a: "addPacket now p (ses_stream (sv_store sv i)) = Inr (st, wake)"
      "sv1 = on_session i (\<lambda>(s, h). (s\<lparr>ses_stream := st\<rparr>, if wake then activeAllPlayers s h else h)) sv"
    using assms(1) unfolding onRecv_def assms(2) option.case Let_def assms(3) [symmetric] bindr_eq_Inr
    by (metis (no_types, lifting) old.sum.inject(2) prod.case prod.exhaust)
  then show ?thesis by (simp add: on_session_def)
qed

lemma recv_keeps:
  assumes inv: "service_inv sv" and eq: "onRecv now c p sv = Inr sv1"
  shows "service_inv sv1" "service_single sv \<Longrightarrow> service_single sv1"
proof -
  have "service_inv sv1 \<and> (service_single sv \<longrightarrow> service_single sv1)"
  proof (cases "hp_context (sv_heap sv) c")
    case (Some u)
    let ?i = "lu_session (hp_users (sv_heap sv) u)"
    obtain st wake where r: "sv1 = sv\<lparr>sv_store := (sv_store sv)(?i := (sv_store sv ?i)\<lparr>ses_stream := st\<rparr>),
        sv_heap := if wake then activeAllPlayers (sv_store sv ?i) (sv_heap sv) else sv_heap sv\<rparr>"
      using recv_user [OF eq Some refl] by blast
    have i: "?i < sv_next sv" using service_inv_sel(3) [OF inv Some] by simp
    have s: "session_inv ?i (sv_store sv ?i, sv_heap sv)" using service_inv_sel(1) [OF inv i] .
    let ?h = "if wake then activeAllPlayers (sv_store sv ?i) (sv_heap sv) else sv_heap sv"
    have k: "session_inv ?i ((sv_store sv ?i)\<lparr>ses_stream := st\<rparr>, ?h)" "heap_frame ?i (sv_heap sv) ?h" "contexts_ok ?h"
        "single_publisher ?i (sv_store sv ?i, sv_heap sv) \<Longrightarrow> single_publisher ?i ((sv_store sv ?i)\<lparr>ses_stream := st\<rparr>, ?h)"
    proof -
      show "session_inv ?i ((sv_store sv ?i)\<lparr>ses_stream := st\<rparr>, ?h)"
        using s by (simp add: with_stream activeAllPlayers_keeps(1))
      show "heap_frame ?i (sv_heap sv) ?h" by (simp add: activeAllPlayers_keeps(3))
      have "contexts_ok (sv_heap sv)" using inv by (simp add: service_inv_def)
      then show "contexts_ok ?h" by (simp add: activeAllPlayers_def contexts_ok_fold)
      show "single_publisher ?i (sv_store sv ?i, sv_heap sv) \<Longrightarrow> single_publisher ?i ((sv_store sv ?i)\<lparr>ses_stream := st\<rparr>, ?h)"
        by (simp add: with_stream activeAllPlayers_keeps(2))
    qed
    show ?thesis
      using session_update [OF inv i k(1-3)] k(4) i unfolding r by (auto simp: service_single_def)
  qed (use inv force_close_keeps eq in \<open>auto simp: onRecv_def\<close>)
  then show "service_inv sv1" "service_single sv \<Longrightarrow> service_single sv1" by auto
qed

lemma set_player_keeps:
  assumes "\<not> publishes u h" "hp_users h u = x"
  shows "session_inv i (s, set_player u pl h) = session_inv i (s, h)"
    "single_publisher i (s, set_player u pl h) = single_publisher i (s, h)"
    "contexts_ok (set_player u pl h) = contexts_ok h" "hp_next (set_player u pl h) = hp_next h"
    "lu_session (hp_users (set_player u pl h) v) = lu_session (hp_users h v)"
proof -
  have a: "member_of i (set_player u pl h) v = member_of i h v" "publishes v (set_player u pl h) = publishes v h"
      "lu_destroyed (hp_users (set_player u pl h) v) = lu_destroyed (hp_users h v)"
      "lu_type (hp_users (set_player u pl h) v) = lu_type (hp_users h v)"
      "lu_conn (hp_users (set_player u pl h) v) = lu_conn (hp_users h v)"
      "conn_closed v (set_player u pl h) = conn_closed v h" for i v
    using assms(1) by (auto simp: set_player_def member_of_def publishes_def conn_closed_def)
  show "session_inv i (s, set_player u pl h) = session_inv i (s, h)"
    "single_publisher i (s, set_player u pl h) = single_publisher i (s, h)"
    by (simp_all add: session_inv_def single_publisher_def a)
  show "contexts_ok (set_player u pl h) = contexts_ok h" "hp_next (set_player u pl h) = hp_next h"
    "lu_session (hp_users (set_player u pl h) v) = lu_session (hp_users h v)"
    by (simp_all add: contexts_ok_def a(5)) (simp_all add: set_player_def)
qed

lemma active_user:
  assumes "onActive now c sv = Inr sv1"
  shows "sv1 = sv \<or> (\<exists>u pl r y. hp_context (sv_heap sv) c = Some u
    \<and> lu_player (hp_users (sv_heap sv) u) = Some pl
    \<and> postFrames now (ses_stream (sv_store sv (lu_session (hp_users (sv_heap sv) u))))
        \<lparr>pu = pl, pu_cx = sv_cx sv c, pu_active = True\<rparr> = Inr (r, y)
    \<and> sv1 = posted c u y sv)"
proof (cases "hp_context (sv_heap sv) c")
  case (Some u)
  show ?thesis
  proof (cases "kUserTypePlayerPav \<le> getUserType (hp_users (sv_heap sv) u)")
    case True
    show ?thesis
      using assms unfolding onActive_def Some option.case Let_def if_P [OF True] bindr_eq_Inr deref_eq_Inr
      by (elim exE conjE) (clarsimp split: prod.splits; blast)
  qed (use assms Some in \<open>simp add: onActive_def\<close>)
qed (use assms in \<open>simp add: onActive_def\<close>)

lemma active_keeps:
  assumes inv: "service_inv sv" and eq: "onActive now c sv = Inr sv1"
  shows "service_inv sv1" "service_single sv \<Longrightarrow> service_single sv1"
proof -
  consider "sv1 = sv" | u pl y where "lu_player (hp_users (sv_heap sv) u) = Some pl" "sv1 = posted c u y sv"
    using active_user [OF eq] by blast
  then have "service_inv sv1 \<and> (service_single sv \<longrightarrow> service_single sv1)"
  proof cases
    case (2 u pl y)
    have p: "\<not> publishes u (sv_heap sv)" using 2(1) by (simp add: publishes_def)
    note k = set_player_keeps [OF p refl]
    show ?thesis
      using inv unfolding 2(2) posted_def Let_def
      by (auto simp: service_inv_def service_single_def user_deactive_def k on_conn_keeps(1,2))
  qed (use inv in simp)
  then show "service_inv sv1" "service_single sv \<Longrightarrow> service_single sv1" by auto
qed

lemma step_keeps:
  assumes "service_step cfg e sv sv1" "service_inv sv"
  shows "service_inv sv1 \<and> (service_single sv \<longrightarrow> \<not> leaves_player e sv \<longrightarrow> service_single sv1)"
  using assms
proof cases
  case (plays now c name prm r)
  then show ?thesis using play_keeps_service [OF assms(2)] by blast
next
  case (publishes now c name prm r)
  then show ?thesis using publish_keeps_service [OF assms(2)] by blast
next
  case (receives now c p)
  then show ?thesis using recv_keeps [OF assms(2)] by blast
next
  case (wakes now c)
  then show ?thesis using active_keeps [OF assms(2)] by blast
next
  case (gone c now)
  then show ?thesis using gone_keeps [OF assms(2)] by blast
next
  case (tick now)
  then show ?thesis using timer_keeps [OF assms(2)] by blast
next
  case (closes name now)
  then show ?thesis using close_session_keeps [OF assms(2)] by blast
qed

lemma new_service_inv: "service_inv newService" "service_single newService"
  by (simp_all add: service_inv_def service_single_def newService_def newHeap_def contexts_ok_def)

lemma contexts_change:
  "service_inv (sv\<lparr>sv_cx := cx\<rparr>) = service_inv sv" "service_single (sv\<lparr>sv_cx := cx\<rparr>) = service_single sv"
  by (simp_all add: service_inv_def service_single_def)

lemma reach_inv: "service_reach cfg P sv \<Longrightarrow> service_inv sv"
  by (induction rule: service_reach.induct) (auto simp: new_service_inv contexts_change dest: step_keeps)

lemma reach_single:
  "service_reach cfg P sv \<Longrightarrow> (\<And>e sv. P e sv \<Longrightarrow> \<not> leaves_player e sv) \<Longrightarrow> service_single sv"
  by (induction rule: service_reach.induct)
    (auto simp: new_service_inv contexts_change dest: step_keeps [OF _ reach_inv])

section \<open>What joining a session does\<close>

lemma publish_result:
  assumes inv: "service_inv sv" and eq: "onPublish cfg now c name prm sv = Inr (True, sv1)"
  shows "\<exists>i u. findSession name sv1 = Some i \<and> hp_context (sv_heap sv1) c = Some u
    \<and> member_of i (sv_heap sv1) u \<and> publishes u (sv_heap sv1) \<and> \<not> lu_destroyed (hp_users (sv_heap sv1) u)
    \<and> publisher (sv_store sv1 i) = Some u \<and> hp_next (sv_heap sv) \<le> u
    \<and> (findSession name sv \<noteq> None \<longrightarrow> findSession name sv = Some i)
    \<and> (\<forall>c'. c' \<noteq> c \<longrightarrow> hp_context (sv_heap sv1) c' = hp_context (sv_heap sv) c')
    \<and> (\<forall>v < hp_next (sv_heap sv). findSession name sv = Some i \<longrightarrow> publisher (sv_store sv i) = None
         \<longrightarrow> hp_users (sv_heap sv1) v = hp_users (sv_heap sv) v)"
proof -
  obtain i u svc h1 s2 h2 where j: "createSession cfg now name sv = (Some i, svc)" "service_inv svc"
      "i < sv_next svc" "sv_heap svc = sv_heap sv"
      "createPublisher c name prm kUserTypePublishRtmp now i (sv_store svc i) (sv_heap svc) = (Some u, h1)"
      "setPublisher u (sv_store svc i, h1) = Inr (s2, h2)" "contexts_ok h1" "hp_context h1 c = Some u"
      "sv1 = svc\<lparr>sv_store := (sv_store svc)(i := s2), sv_heap := h2\<rparr>"
    by (rule publish_joins [OF inv eq])
  obtain x where x: "add_user c x (sv_heap svc) = (u, h1)" "lu_session x = i" "lu_player x = None"
      "lu_type x = kUserTypePublishRtmp" "lu_conn x = Some c" "\<not> lu_destroyed x"
    using createPublisher_user [OF j(5)] by blast
  note a = add_user_sel [OF x(1)]
  have s: "session_inv i (sv_store svc i, sv_heap svc)" using service_inv_sel(1) [OF j(2,3)] .
  note k = add_user_keeps [OF x(1,2) s]
  have s1: "session_inv i (sv_store svc i, h1)" using k(1) x(3-6) by auto
  have e: "s2 = (sv_store svc i)\<lparr>publisher := Some u\<rparr>"
      "h2 = (case publisher (sv_store svc i) of None \<Rightarrow> h1 | Some p \<Rightarrow> if p = u then h1 else shut p h1)"
    using setPublisher_eq [OF s1 j(6)] by simp_all
  have ctx: "hp_context h2 = hp_context h1" and nxt: "hp_next h2 = hp_next h1"
      and self: "hp_users h2 u = x"
    using e(2) a(3) by (auto simp: shut_sel split: option.splits)
  have find: "findSession name sv1 = Some i"
    using createSession_keeps(4) [OF inv j(1) refl] by (simp add: findSession_def j(9))
  have old: "svc = sv \<and> findSession name sv = Some i" if known: "findSession name sv \<noteq> None"
  proof -
    obtain k where "map_of (sv_sessions sv) name = Some k" using known by (auto simp: findSession_def)
    then show ?thesis using j(1) by (simp add: createSession_def findSession_def)
  qed
  have rest: "hp_context h2 c' = hp_context (sv_heap sv) c'" if "c' \<noteq> c" for c'
    using that a(5) ctx j(4) by simp
  have same: "hp_users h2 v = hp_users (sv_heap sv) v"
    if v: "v < hp_next (sv_heap sv)" "findSession name sv = Some i" "publisher (sv_store sv i) = None" for v
  proof -
    have "svc = sv" using old v(2) by blast
    then have "h2 = h1" using e(2) v(3) by (simp only: option.case)
    then show ?thesis using a(1,3) v(1) unfolding j(4) by auto
  qed
  have p: "publisher (sv_store sv1 i) = Some u" "sv_heap sv1 = h2" by (simp_all add: j(9) e(1))
  have m: "member_of i h2 u \<and> publishes u h2 \<and> \<not> lu_destroyed (hp_users h2 u)"
  proof -
    have "u < hp_next h2" using nxt a(1,2) by simp
    then show ?thesis unfolding member_of_def publishes_def self using x(2,3,6) by simp
  qed
  have "hp_next (sv_heap sv) \<le> u" "hp_context h2 c = Some u" using a(1) j(4,8) ctx by simp_all
  moreover have "findSession name sv \<noteq> None \<longrightarrow> findSession name sv = Some i" using old by blast
  ultimately show ?thesis
    unfolding p(2) using find p(1) m rest same by blast
qed

lemma play_result:
  assumes inv: "service_inv sv" and eq: "onPlay cfg now c name prm sv = Inr (True, sv1)"
    and known: "findSession name sv = Some i"
  shows "\<exists>v. findSession name sv1 = Some i \<and> hp_context (sv_heap sv1) c = Some v
    \<and> member_of i (sv_heap sv1) v \<and> \<not> publishes v (sv_heap sv1) \<and> \<not> lu_destroyed (hp_users (sv_heap sv1) v)
    \<and> lu_conn (hp_users (sv_heap sv1) v) = Some c
    \<and> v \<in> set (players (sv_store sv1 i)) \<and> publisher (sv_store sv1 i) = publisher (sv_store sv i)
    \<and> (\<forall>c'. c' \<noteq> c \<longrightarrow> hp_context (sv_heap sv1) c' = hp_context (sv_heap sv) c')
    \<and> hp_next (sv_heap sv1) = hp_next (sv_heap sv) + 1
    \<and> (\<forall>w < hp_next (sv_heap sv). hp_users (sv_heap sv1) w = hp_users (sv_heap sv) w)"
proof -
  obtain i' u svc h1 s2 h2 where j: "createSession cfg now name sv = (Some i', svc)" "service_inv svc"
      "i' < sv_next svc" "sv_heap svc = sv_heap sv"
      "createPlayerUser c name prm kUserTypePlayerRtmp now i' (sv_store svc i') (sv_heap svc) = Inr (Some u, h1)"
      "addPlayer u (sv_store svc i', h1) = (s2, h2)" "contexts_ok h1" "hp_context h1 c = Some u"
      "sv1 = svc\<lparr>sv_store := (sv_store svc)(i' := s2), sv_heap := h2\<rparr>"
    by (rule play_joins [OF inv eq])
  have i: "i' = i" "svc = sv" using j(1) known by (auto simp: createSession_def findSession_def)
  obtain x where x: "add_user c x (sv_heap svc) = (u, h1)" "lu_session x = i'" "lu_player x \<noteq> None"
      "lu_conn x = Some c" "\<not> lu_destroyed x"
    using createPlayerUser_user [OF j(5)] by blast
  note a = add_user_sel [OF x(1)]
  have e: "s2 = (if u \<in> set (players (sv_store svc i')) then sv_store svc i'
      else (sv_store svc i')\<lparr>players := players (sv_store svc i') @ [u]\<rparr>)" "h2 = on_conn Activated u h1"
    using j(6) by (auto simp: addPlayer_def user_active_def)
  show ?thesis
    using known a x j(8) e i
    by (intro exI [of _ u]) (auto simp: j(9) findSession_def member_of_def publishes_def)
qed

lemma player_gone_result:
  fixes now :: int
  assumes inv: "service_inv sv" and u: "hp_context (sv_heap sv) c = Some v" "\<not> publishes v (sv_heap sv)"
      "\<not> lu_destroyed (hp_users (sv_heap sv) v)" "lu_session (hp_users (sv_heap sv) v) = i"
  defines "sv1 \<equiv> onConnectionDestroy now c sv"
  shows "sv_sessions sv1 = sv_sessions sv" "publisher (sv_store sv1 i) = None"
    "hp_context (sv_heap sv1) = hp_context (sv_heap sv)" "hp_next (sv_heap sv1) = hp_next (sv_heap sv)"
    "w \<noteq> v \<Longrightarrow> hp_users (sv_heap sv1) w = hp_users (sv_heap sv) w"
proof -
  have i: "i < sv_next sv" "v < hp_next (sv_heap sv)" using service_inv_sel(3) [OF inv u(1)] u(4) by auto
  have s: "session_inv i (sv_store sv i, sv_heap sv)" using service_inv_sel(1) [OF inv i(1)] .
  have m: "member_of i (sv_heap sv) v" using i(2) u(4) by (simp add: member_of_def)
  have "sv1 = sv\<lparr>sv_store := (sv_store sv)(i := (sv_store sv i)\<lparr>publisher := None\<rparr>), sv_heap := shut v (sv_heap sv)\<rparr>"
    using u closeUser_eq [OF s m, of now] by (simp add: sv1_def onConnectionDestroy_def on_session_def)
  then show "sv_sessions sv1 = sv_sessions sv" "publisher (sv_store sv1 i) = None"
    "hp_context (sv_heap sv1) = hp_context (sv_heap sv)" "hp_next (sv_heap sv1) = hp_next (sv_heap sv)"
    "w \<noteq> v \<Longrightarrow> hp_users (sv_heap sv1) w = hp_users (sv_heap sv) w"
    by (simp_all add: shut_sel)
qed

lemma wakes_sel: "hp_users (fold user_active ps h) = hp_users h" "hp_context (fold user_active ps h) = hp_context h"
  by (induction ps arbitrary: h) (simp_all add: user_active_def)

text \<open>The connections of some users, as they are woken in turn.\<close>

definition wake_events :: "nat list \<Rightarrow> heap \<Rightarrow> conn_event list" where
  "wake_events us h = List.map_filter (\<lambda>u. map_option Activated (lu_conn (hp_users h u))) us"

lemma wakes_events: "hp_events (fold user_active us h) = hp_events h @ wake_events us h"
proof (induction us arbitrary: h)
  case (Cons u us)
  have "wake_events us (user_active u h) = wake_events us h"
    using wakes_sel(1) [of "[u]" h] by (simp add: wake_events_def)
  then show ?case
    using Cons.IH [of "user_active u h"]
    by (simp add: wake_events_def List.map_filter_simps user_active_def on_conn_def split: option.split)
qed (simp add: wake_events_def List.map_filter_simps)

lemma wake_events_member: "u \<in> set us \<Longrightarrow> lu_conn (hp_users h u) = Some c \<Longrightarrow> Activated c \<in> set (wake_events us h)"
  unfolding wake_events_def by (force simp: List.map_filter_def)

text \<open>When a packet wakes the players: one in five, and all of the first three hundred.\<close>

lemma addPacket_wakes:
  assumes "addPacket now p s = Inr (s1, wake)"
  shows "frame_index s1 = frame_index s + 1 \<and> (wake \<longleftrightarrow> frame_index s1 < 300 \<or> frame_index s1 mod 5 = 0)"
proof
  show "frame_index s1 = frame_index s + 1" using assms by (rule addPacket_shape) (simp add: save_header_frame(1))
  obtain t tc where "correctTimestamp p (ls_corrector s) = (t, tc)" by fastforce
  with assms show "wake \<longleftrightarrow> frame_index s1 < 300 \<or> frame_index s1 mod 5 = 0"
    unfolding addPacket_def Let_def by (simp only: prod.case bindr_eq_Inr) (elim exE conjE, simp only: sum.inject prod.inject, elim conjE, simp)
qed

text \<open>Whoever names a configured application as domain/app/stream can publish and play.\<close>

definition configured :: "config \<Rightarrow> string \<Rightarrow> bool" where
  "configured cfg name \<longleftrightarrow> length (split name ''/'' False) = 3
     \<and> getAppInfo (split name ''/'' False ! 0) (split name ''/'' False ! 1) cfg \<noteq> None"

definition published_by :: "nat \<Rightarrow> string \<Rightarrow> service \<Rightarrow> bool" where
  "published_by c name sv \<longleftrightarrow> (\<exists>i p. findSession name sv = Some i \<and> publisher (sv_store sv i) = Some p \<and>
     lu_conn (hp_users (sv_heap sv) p) = Some c)"

lemma configured_joins:
  assumes "service_inv sv" "configured cfg name"
  shows "\<not> published_by c name sv \<Longrightarrow> \<exists>sv1. onPublish cfg now c name prm sv = Inr (True, sv1)"
    "\<exists>sv1. onPlay cfg now c name prm sv = Inr (True, sv1)"
proof -
  have "\<exists>i svc. createSession cfg now name sv = (Some i, svc)"
    using assms(2) by (cases "map_of (sv_sessions sv) name") (auto simp: createSession_def configured_def Let_def)
  then obtain i svc where c: "createSession cfg now name sv = (Some i, svc)" by blast
  have n: "ses_name (sv_store svc i) = name" using createSession_keeps(4) [OF assms(1) c refl] by simp
  show "\<exists>sv1. onPlay cfg now c name prm sv = Inr (True, sv1)"
    using c n assms(2) by (auto simp: onPlay_def createPlayerUser_def configured_def Let_def add_user_def)
  assume new: "\<not> published_by c name sv"
  obtain u h1 where u: "createPublisher c name prm kUserTypePublishRtmp now i (sv_store svc i) (sv_heap svc) = (Some u, h1)"
    using n assms(2) by (auto simp: createPublisher_def configured_def Let_def add_user_def)
  obtain x where x: "add_user c x (sv_heap svc) = (u, h1)" "lu_conn x = Some c" using createPublisher_user [OF u] by blast
  have other: "p = u \<or> lu_conn (hp_users (sv_heap svc) p) \<noteq> Some c" if p: "publisher (sv_store svc i) = Some p" for p
  proof (cases "map_of (sv_sessions sv) name")
    case None
    then have "publisher (sv_store svc i) = None"
      using c by (auto simp: createSession_def Let_def newSession_def split: if_splits option.splits)
    then show ?thesis using p by simp
  next
    case (Some k)
    then have "svc = sv" "findSession name sv = Some i" using c by (auto simp: createSession_def findSession_def)
    then show ?thesis using new p by (simp add: published_by_def)
  qed
  have "\<exists>r. setPublisher u (sv_store svc i, set_user c u h1) = Inr r"
    using other add_user_sel(3) [OF x(1)] x(2) by (auto simp: setPublisher_def set_user_def split: option.splits)
  then show "\<exists>sv1. onPublish cfg now c name prm sv = Inr (True, sv1)"
    using c u by (auto simp: onPublish_def)
qed

section \<open>Properties\<close>

text \<open>
  C7: the service is consistent in every state it can reach, whatever the order of connections
  that publish, play, send, wake and go away, of timer ticks and of sessions that are closed.
  No name has two sessions; a session's publisher is a publishing user of that session that is not
  destroyed; its players are player users of that session and none is in it twice; a destroyed
  publishing user's connection has been closed; and a connection's user is one of that connection.
\<close>

theorem service_consistent:
  assumes "service_reach cfg (\<lambda>_ _. True) sv"
  shows "distinct (map fst (sv_sessions sv)) \<and>
    (\<forall>i < sv_next sv.
      (\<forall>p. publisher (sv_store sv i) = Some p \<longrightarrow> member_of i (sv_heap sv) p \<and> publishes p (sv_heap sv)
         \<and> \<not> lu_destroyed (hp_users (sv_heap sv) p)) \<and>
      distinct (players (sv_store sv i)) \<and>
      (\<forall>p \<in> set (players (sv_store sv i)). member_of i (sv_heap sv) p \<and> \<not> publishes p (sv_heap sv)) \<and>
      (\<forall>u. member_of i (sv_heap sv) u \<and> publishes u (sv_heap sv) \<and> lu_destroyed (hp_users (sv_heap sv) u)
         \<longrightarrow> conn_closed u (sv_heap sv))) \<and>
    (\<forall>c u. hp_context (sv_heap sv) c = Some u \<longrightarrow> lu_conn (hp_users (sv_heap sv) u) = Some c)"
  using reach_inv [OF assms] by (simp add: service_inv_def session_inv_def contexts_ok_def)

definition demo_cfg :: config where
  "demo_cfg = newConfig\<lparr>domaininfos := [''d'' \<mapsto> newDomainInfo\<lparr>appinfos := [''a'' \<mapsto> newAppInfo]\<rparr>]\<rparr>"

lemma demo_configured: "configured demo_cfg ''d/a/s''"
proof -
  have "split ''d/a/s'' ''/'' False = [''d'', ''a'', ''s'']" by code_simp
  then show ?thesis by (simp add: configured_def getAppInfo_def dom_getAppInfo_def demo_cfg_def)
qed

lemma demo_publish:
  assumes "service_inv sv0" "\<not> published_by c ''d/a/s'' sv0"
  shows "\<exists>sv. onPublish demo_cfg t c ''d/a/s'' [] sv0 = Inr (True, sv) \<and> service_inv sv"
  using configured_joins(1) [OF assms(1) demo_configured assms(2), of t "[]"] publish_keeps_service(1) [OF assms(1)] by blast

lemma published_by_other:
  assumes "service_inv sv0" "onPublish cfg t c name prm sv0 = Inr (True, sv)" "c' \<noteq> c"
  shows "\<not> published_by c' name sv"
proof -
  obtain i u where u: "findSession name sv = Some i" "hp_context (sv_heap sv) c = Some u" "publisher (sv_store sv i) = Some u"
    using publish_result [OF assms(1,2)] by blast
  have "contexts_ok (sv_heap sv)" using publish_keeps_service(1) [OF assms(1,2)] by (simp add: service_inv_def)
  then have "lu_conn (hp_users (sv_heap sv) u) = Some c" using u(2) by (simp add: contexts_ok_def)
  then show ?thesis using u(1,3) assms(3) by (simp add: published_by_def)
qed

text \<open>
  A connection that publishes the same name twice: the second call never returns, whatever happened
  to other connections in between, as long as the first user is the session's publisher.
\<close>

lemma publish_twice_blocks:
  assumes "service_inv sv" "configured cfg name" "findSession name sv = Some i" "publisher (sv_store sv i) = Some p"
    and "lu_conn (hp_users (sv_heap sv) p) = Some c" "i < sv_next sv"
  shows "onPublish cfg now c name prm sv = Inl Runaway"
proof -
  have s: "createSession cfg now name sv = (Some i, sv)"
    using assms(3) by (simp add: createSession_def findSession_def)
  have n: "ses_name (sv_store sv i) = name" using createSession_keeps(4) [OF assms(1) s refl] by simp
  obtain u h1 where u: "createPublisher c name prm kUserTypePublishRtmp now i (sv_store sv i) (sv_heap sv) = (Some u, h1)"
    using n assms(2) by (auto simp: createPublisher_def configured_def Let_def add_user_def)
  obtain x where x: "add_user c x (sv_heap sv) = (u, h1)" "lu_conn x = Some c" using createPublisher_user [OF u] by blast
  have "session_inv i (sv_store sv i, sv_heap sv)" using service_inv_sel(1) [OF assms(1,6)] .
  then have p: "p < hp_next (sv_heap sv)" "\<not> lu_destroyed (hp_users (sv_heap sv) p)"
    using assms(4) by (auto simp: session_inv_def member_of_def)
  then have "setPublisher u (sv_store sv i, set_user c u h1) = Inl Runaway"
    using assms(4,5) add_user_sel(1,3) [OF x(1)] x(2) by (simp add: setPublisher_def set_user_def)
  then show ?thesis using s u by (simp add: onPublish_def)
qed

lemma demo_publish_first: "\<exists>sv. onPublish demo_cfg t c ''d/a/s'' [] newService = Inr (True, sv) \<and> service_inv sv"
  by (rule demo_publish [OF new_service_inv(1)]) (simp add: published_by_def findSession_def newService_def)

lemma demo_play:
  assumes "service_inv sv0"
  shows "\<exists>sv. onPlay demo_cfg t c ''d/a/s'' [] sv0 = Inr (True, sv) \<and> service_inv sv"
  using configured_joins(2) [OF assms demo_configured, of t c "[]"] play_keeps_service(1) [OF assms] by blast

theorem service_consistent_witness:
  "\<exists>sv p. onPublish demo_cfg 0 1 ''d/a/s'' [] newService = Inr (True, sv) \<and> distinct (map fst (sv_sessions sv))
     \<and> hp_context (sv_heap sv) 1 = Some p \<and> lu_conn (hp_users (sv_heap sv) p) = Some 1"
proof -
  obtain sv where sv: "onPublish demo_cfg 0 1 ''d/a/s'' [] newService = Inr (True, sv)"
    using demo_publish_first by metis
  have r: "service_reach demo_cfg (\<lambda>_ _. True) sv"
    using service_reach.step [OF service_reach.start _ service_step.publishes [OF sv]] by simp
  obtain p where "hp_context (sv_heap sv) 1 = Some p" using publish_result [OF new_service_inv(1) sv] by blast
  then show ?thesis using service_consistent [OF r] sv by blast
qed

text \<open>
  C16: at most one connection publishes into a stream, as long as no player leaves. In every run in
  which no connection of a player goes away, a session has at most one publishing user that is not
  destroyed, and it is the session's publisher; all others have been closed.
\<close>

theorem one_publisher:
  assumes "service_reach cfg (\<lambda>e sv. \<not> leaves_player e sv) sv"
    and "member_of i (sv_heap sv) u" "publishes u (sv_heap sv)"
  shows "publisher (sv_store sv i) = Some u \<and> \<not> lu_destroyed (hp_users (sv_heap sv) u)
    \<or> publisher (sv_store sv i) \<noteq> Some u \<and> conn_closed u (sv_heap sv)"
proof -
  have inv: "service_inv sv" "service_single sv" using reach_inv [OF assms(1)] reach_single [OF assms(1)] by auto
  have "i < sv_next sv" using inv(1) assms(2) by (auto simp: service_inv_def member_of_def)
  then have s: "session_inv i (sv_store sv i, sv_heap sv)" "single_publisher i (sv_store sv i, sv_heap sv)"
    using inv by (auto simp: service_inv_def service_single_def)
  show ?thesis
  proof (cases "lu_destroyed (hp_users (sv_heap sv) u)")
    case True
    then show ?thesis using s(1) assms(2,3) by (auto simp: session_inv_def)
  next
    case False
    then show ?thesis using s(2) assms(2,3) by (auto simp: single_publisher_def)
  qed
qed

theorem one_publisher_witness:
  "\<exists>sv sv1 u w. onPublish demo_cfg 0 1 ''d/a/s'' [] newService = Inr (True, sv)
     \<and> onPublish demo_cfg 5 2 ''d/a/s'' [] sv = Inr (True, sv1)
     \<and> hp_context (sv_heap sv1) 1 = Some u \<and> hp_context (sv_heap sv1) 2 = Some w
     \<and> (lu_destroyed (hp_users (sv_heap sv1) w) \<longrightarrow> conn_closed w (sv_heap sv1))"
proof -
  obtain sv where sv: "onPublish demo_cfg 0 1 ''d/a/s'' [] newService = Inr (True, sv)" "service_inv sv"
    using demo_publish_first by metis
  have "(2 :: nat) \<noteq> 1" by simp
  note unpublished = published_by_other [OF new_service_inv(1) sv(1) this]
  obtain sv1 where sv1: "onPublish demo_cfg 5 2 ''d/a/s'' [] sv = Inr (True, sv1)" "service_inv sv1"
    using demo_publish [OF sv(2) unpublished] by metis
  have "service_reach demo_cfg (\<lambda>e sv. \<not> leaves_player e sv) sv"
    using service_reach.step [OF service_reach.start _ service_step.publishes [OF sv(1)]]
    by (simp add: leaves_player_def)
  then have r: "service_reach demo_cfg (\<lambda>e sv. \<not> leaves_player e sv) sv1"
    using service_reach.step [OF _ _ service_step.publishes [OF sv1(1)]] by (simp add: leaves_player_def)
  obtain i w where w: "hp_context (sv_heap sv1) 2 = Some w" "member_of i (sv_heap sv1) w" "publishes w (sv_heap sv1)"
      "\<forall>c'. c' \<noteq> 2 \<longrightarrow> hp_context (sv_heap sv1) c' = hp_context (sv_heap sv) c'"
    using publish_result [OF sv(2) sv1(1)] by blast
  obtain u where "hp_context (sv_heap sv) 1 = Some u" using publish_result [OF new_service_inv(1) sv(1)] by blast
  then have "hp_context (sv_heap sv1) 1 = Some u" using w(4) by simp
  then show ?thesis using one_publisher [OF r w(2,3)] sv(1) sv1(1) w(1) by auto
qed

text \<open>A publisher whose session loses a player is still there, but the session has forgotten it.\<close>

lemma publisher_forgotten:
  fixes t3 :: int
  assumes inv: "service_inv sv" and ne: "c1 \<noteq> c2" and p: "onPublish cfg t1 c1 name prm1 sv = Inr (True, sv1)"
    and q: "onPlay cfg t2 c2 name prm2 sv1 = Inr (True, sv2)"
  defines "sv3 \<equiv> onConnectionDestroy t3 c2 sv2"
  obtains i u where "service_inv sv3" "findSession name sv3 = Some i" "publisher (sv_store sv3 i) = None"
    "hp_context (sv_heap sv3) c1 = Some u" "u < hp_next (sv_heap sv3)" "lu_session (hp_users (sv_heap sv3) u) = i"
    "publishes u (sv_heap sv3)" "\<not> lu_destroyed (hp_users (sv_heap sv3) u)"
proof -
  obtain i u where 1: "findSession name sv1 = Some i" "hp_context (sv_heap sv1) c1 = Some u"
      "member_of i (sv_heap sv1) u" "publishes u (sv_heap sv1)" "\<not> lu_destroyed (hp_users (sv_heap sv1) u)"
    using publish_result [OF inv p] by blast
  have inv1: "service_inv sv1" using publish_keeps_service [OF inv p] by simp
  obtain v where 2: "findSession name sv2 = Some i" "hp_context (sv_heap sv2) c2 = Some v"
      "member_of i (sv_heap sv2) v" "\<not> publishes v (sv_heap sv2)" "\<not> lu_destroyed (hp_users (sv_heap sv2) v)"
      "\<forall>c'. c' \<noteq> c2 \<longrightarrow> hp_context (sv_heap sv2) c' = hp_context (sv_heap sv1) c'"
      "hp_next (sv_heap sv2) = hp_next (sv_heap sv1) + 1"
      "\<forall>w < hp_next (sv_heap sv1). hp_users (sv_heap sv2) w = hp_users (sv_heap sv1) w"
    using play_result [OF inv1 q 1(1)] by blast
  have inv2: "service_inv sv2" using play_keeps_service [OF inv1 q] by simp
  have u2: "hp_users (sv_heap sv2) u = hp_users (sv_heap sv1) u" "u < hp_next (sv_heap sv1)"
    using 1(3) 2(8) by (auto simp: member_of_def)
  have uv: "u \<noteq> v" using u2(1) 1(4) 2(4) by (auto simp: publishes_def)
  have "lu_session (hp_users (sv_heap sv2) v) = i" using 2(3) by (simp add: member_of_def)
  note 3 = player_gone_result [OF inv2 2(2,4,5) this, where now = t3, folded sv3_def]
  have "service_inv sv3" using gone_keeps [OF inv2] by (simp add: sv3_def)
  then show thesis
    using that [of i u] 1 2 3 u2 uv ne
    by (simp add: findSession_def member_of_def publishes_def)
qed

text \<open>
  C35: when a player leaves, a second connection can publish beside the first. One connection
  publishes, another plays and goes away, a third publishes the same name: the first publisher is
  then still not destroyed, and it and the third connection's user are publishing users of the same
  session, so that \<open>onRecv\<close> puts the packets of both into the one stream.
\<close>

theorem two_publishers_after_player_leaves:
  assumes "service_reach cfg P sv" "c1 \<noteq> c2" "c2 \<noteq> c3" "c1 \<noteq> c3"
    and "onPublish cfg t1 c1 name prm1 sv = Inr (True, sv1)"
    and "onPlay cfg t2 c2 name prm2 sv1 = Inr (True, sv2)"
    and "onPublish cfg t4 c3 name prm3 (onConnectionDestroy t3 c2 sv2) = Inr (True, sv4)"
  shows "\<exists>i u w. hp_context (sv_heap sv4) c1 = Some u \<and> hp_context (sv_heap sv4) c3 = Some w \<and> u \<noteq> w
    \<and> lu_session (hp_users (sv_heap sv4) u) = i \<and> lu_session (hp_users (sv_heap sv4) w) = i
    \<and> publishes u (sv_heap sv4) \<and> publishes w (sv_heap sv4)
    \<and> \<not> lu_destroyed (hp_users (sv_heap sv4) u) \<and> \<not> lu_destroyed (hp_users (sv_heap sv4) w)
    \<and> findSession name sv4 = Some i \<and> publisher (sv_store sv4 i) = Some w"
proof -
  let ?sv3 = "onConnectionDestroy t3 c2 sv2"
  obtain i u where 3: "service_inv ?sv3" "findSession name ?sv3 = Some i" "publisher (sv_store ?sv3 i) = None"
      "hp_context (sv_heap ?sv3) c1 = Some u" "u < hp_next (sv_heap ?sv3)" "lu_session (hp_users (sv_heap ?sv3) u) = i"
      "publishes u (sv_heap ?sv3)" "\<not> lu_destroyed (hp_users (sv_heap ?sv3) u)"
    by (rule publisher_forgotten [OF reach_inv [OF assms(1)] assms(2,5,6), where ?t3.0 = t3])
  obtain i' w where 4: "findSession name sv4 = Some i'" "hp_context (sv_heap sv4) c3 = Some w"
      "member_of i' (sv_heap sv4) w" "publishes w (sv_heap sv4)" "\<not> lu_destroyed (hp_users (sv_heap sv4) w)"
      "publisher (sv_store sv4 i') = Some w" "hp_next (sv_heap ?sv3) \<le> w"
      "findSession name ?sv3 \<noteq> None \<longrightarrow> findSession name ?sv3 = Some i'"
      "\<forall>c'. c' \<noteq> c3 \<longrightarrow> hp_context (sv_heap sv4) c' = hp_context (sv_heap ?sv3) c'"
      "\<forall>v < hp_next (sv_heap ?sv3). findSession name ?sv3 = Some i' \<longrightarrow> publisher (sv_store ?sv3 i') = None
         \<longrightarrow> hp_users (sv_heap sv4) v = hp_users (sv_heap ?sv3) v"
    using publish_result [OF 3(1) assms(7)] by blast
  have i': "i' = i" using 4(8) 3(2) by simp
  moreover have "hp_users (sv_heap sv4) u = hp_users (sv_heap ?sv3) u" using 4(10) 3(2,3,5) i' by simp
  moreover have "hp_context (sv_heap sv4) c1 = Some u" "u \<noteq> w" using 4(7,9) 3(4,5) assms(4) by auto
  ultimately show ?thesis
    using 3 4(1-6) by (intro exI [of _ i] exI [of _ u] exI [of _ w]) (simp add: member_of_def publishes_def)
qed

theorem two_publishers_after_player_leaves_witness:
  "\<exists>(sv4 :: service) u w. hp_context (sv_heap sv4) 1 = Some u \<and> hp_context (sv_heap sv4) 3 = Some w \<and> u \<noteq> w
     \<and> lu_session (hp_users (sv_heap sv4) u) = lu_session (hp_users (sv_heap sv4) w)
     \<and> \<not> lu_destroyed (hp_users (sv_heap sv4) u) \<and> \<not> lu_destroyed (hp_users (sv_heap sv4) w)"
proof -
  obtain sv1 where 1: "onPublish demo_cfg 0 1 ''d/a/s'' [] newService = Inr (True, sv1)" "service_inv sv1"
    using demo_publish_first by metis
  obtain sv2 where 2: "onPlay demo_cfg 1 2 ''d/a/s'' [] sv1 = Inr (True, sv2)" "service_inv sv2"
    using demo_play [OF 1(2)] by metis
  obtain i where "findSession ''d/a/s'' (onConnectionDestroy 2 2 sv2) = Some i"
      "publisher (sv_store (onConnectionDestroy 2 2 sv2) i) = None"
    by (rule publisher_forgotten [OF new_service_inv(1) _ 1(1) 2(1), where ?t3.0 = 2]) simp_all
  then have unpublished: "\<not> published_by 3 ''d/a/s'' (onConnectionDestroy 2 2 sv2)" by (simp add: published_by_def)
  have inv3: "service_inv (onConnectionDestroy 2 2 sv2)" using gone_keeps [OF 2(2)] by simp
  obtain sv4 where 4: "onPublish demo_cfg 3 3 ''d/a/s'' [] (onConnectionDestroy 2 2 sv2) = Inr (True, sv4)"
    using demo_publish [OF inv3 unpublished] by metis
  have r: "service_reach demo_cfg (\<lambda>_ _. True) newService" by (rule service_reach.start)
  show ?thesis
  proof -
    have ne: "(1::nat) \<noteq> 2" "(2::nat) \<noteq> 3" "(1::nat) \<noteq> 3" by simp_all
    obtain i u w where "hp_context (sv_heap sv4) 1 = Some u" "hp_context (sv_heap sv4) 3 = Some w" "u \<noteq> w"
        "lu_session (hp_users (sv_heap sv4) u) = i" "lu_session (hp_users (sv_heap sv4) w) = i"
        "\<not> lu_destroyed (hp_users (sv_heap sv4) u)" "\<not> lu_destroyed (hp_users (sv_heap sv4) w)"
      using two_publishers_after_player_leaves [OF r ne 1(1) 2(1) 4] by blast
    then show ?thesis by (intro exI [of _ sv4] exI [of _ u] exI [of _ w]) simp
  qed
qed

text \<open>
  C10: what one connection publishes, another that plays the same name gets. After a connection has
  published a name and another plays it, both belong to the session of that name, one as its
  publisher, the other among its players. A packet of the publisher is added to the stream of that
  session, which is the stream the player's \<open>postFrames\<close> reads; and when it is among the first
  three hundred or the fifth of five, all players of the session are woken after all that was asked of
  connections before, each once, this player's connection among them; otherwise nobody is.
\<close>

theorem published_packets_reach_players:
  assumes "service_reach cfg P sv" "c1 \<noteq> c2"
    and "onPublish cfg t1 c1 name prm1 sv = Inr (True, sv1)" "onPlay cfg t2 c2 name prm2 sv1 = Inr (True, sv2)"
    and "onRecv t3 c1 p sv2 = Inr sv3"
  shows "\<exists>i u v wake. hp_context (sv_heap sv3) c1 = Some u \<and> hp_context (sv_heap sv3) c2 = Some v
    \<and> lu_session (hp_users (sv_heap sv3) v) = i \<and> findSession name sv3 = Some i
    \<and> publisher (sv_store sv3 i) = Some u \<and> v \<in> set (players (sv_store sv3 i))
    \<and> addPacket t3 p (ses_stream (sv_store sv2 i)) = Inr (ses_stream (sv_store sv3 i), wake)
    \<and> hp_events (sv_heap sv3) = hp_events (sv_heap sv2) @
        (if wake then wake_events (players (sv_store sv3 i)) (sv_heap sv3) else [])
    \<and> Activated c2 \<in> set (wake_events (players (sv_store sv3 i)) (sv_heap sv3))
    \<and> (wake \<longleftrightarrow> frame_index (ses_stream (sv_store sv3 i)) < 300 \<or> frame_index (ses_stream (sv_store sv3 i)) mod 5 = 0)"
proof -
  have inv: "service_inv sv" using reach_inv [OF assms(1)] .
  obtain i u where 1: "findSession name sv1 = Some i" "hp_context (sv_heap sv1) c1 = Some u"
      "member_of i (sv_heap sv1) u" "publisher (sv_store sv1 i) = Some u"
    using publish_result [OF inv assms(3)] by blast
  have inv1: "service_inv sv1" using publish_keeps_service [OF inv assms(3)] by simp
  obtain v where 2: "findSession name sv2 = Some i" "hp_context (sv_heap sv2) c2 = Some v"
      "member_of i (sv_heap sv2) v" "lu_conn (hp_users (sv_heap sv2) v) = Some c2"
      "v \<in> set (players (sv_store sv2 i))" "publisher (sv_store sv2 i) = publisher (sv_store sv1 i)"
      "\<forall>c'. c' \<noteq> c2 \<longrightarrow> hp_context (sv_heap sv2) c' = hp_context (sv_heap sv1) c'"
      "\<forall>w < hp_next (sv_heap sv1). hp_users (sv_heap sv2) w = hp_users (sv_heap sv1) w"
    using play_result [OF inv1 assms(4) 1(1)] by blast
  have c1: "hp_context (sv_heap sv2) c1 = Some u" "lu_session (hp_users (sv_heap sv2) u) = i"
    using 2(7,8) 1(2,3) assms(2) by (auto simp: member_of_def)
  obtain st wake where 3: "addPacket t3 p (ses_stream (sv_store sv2 i)) = Inr (st, wake)"
      "sv3 = sv2\<lparr>sv_store := (sv_store sv2)(i := (sv_store sv2 i)\<lparr>ses_stream := st\<rparr>),
        sv_heap := if wake then activeAllPlayers (sv_store sv2 i) (sv_heap sv2) else sv_heap sv2\<rparr>"
    using recv_user [OF assms(5) c1(1) c1(2) [symmetric]] by blast
  have users: "hp_context (sv_heap sv3) = hp_context (sv_heap sv2)" "hp_users (sv_heap sv3) = hp_users (sv_heap sv2)"
    by (simp_all add: 3(2) activeAllPlayers_def wakes_sel)
  then have woken: "wake_events us (sv_heap sv3) = wake_events us (sv_heap sv2)" for us by (simp add: wake_events_def)
  have "hp_events (sv_heap sv3) = hp_events (sv_heap sv2) @
      (if wake then wake_events (players (sv_store sv3 i)) (sv_heap sv3) else [])"
    unfolding woken by (simp add: 3(2) activeAllPlayers_def wakes_events)
  moreover have "Activated c2 \<in> set (wake_events (players (sv_store sv3 i)) (sv_heap sv3))"
    unfolding woken using wake_events_member [OF 2(5,4)] by (simp add: 3(2))
  moreover have "findSession name sv3 = Some i" "publisher (sv_store sv3 i) = Some u" "v \<in> set (players (sv_store sv3 i))"
      "ses_stream (sv_store sv3 i) = st" "lu_session (hp_users (sv_heap sv2) v) = i"
    using 1(4) 2(1,3,5,6) by (simp_all add: 3(2) findSession_def member_of_def)
  ultimately show ?thesis
    unfolding users using c1(1) 2(2) 3(1) addPacket_wakes [OF 3(1)]
    by (intro exI [of _ i] exI [of _ u] exI [of _ v] exI [of _ wake]) simp
qed

lemma demo_audio_added: "\<exists>st wake. addPacket t demo_audio s = Inr (st, wake)"
  by (simp add: addPacket_def Let_def save_header_def demo_audio_def isCodecHeader_def pdata_def
      mark_key_def isVideo_def packet_types setTimestamp_def case_prod_unfold)

theorem published_packets_reach_players_witness:
  "\<exists>sv1 sv2 sv3 i v. onPublish demo_cfg 0 1 ''d/a/s'' [] newService = Inr (True, sv1)
     \<and> onPlay demo_cfg 1 2 ''d/a/s'' [] sv1 = Inr (True, sv2) \<and> onRecv 2 1 demo_audio sv2 = Inr sv3
     \<and> findSession ''d/a/s'' sv3 = Some i \<and> hp_context (sv_heap sv3) 2 = Some v
     \<and> v \<in> set (players (sv_store sv3 i))
     \<and> (\<exists>es. hp_events (sv_heap sv3) = hp_events (sv_heap sv2) @ es)"
proof -
  obtain sv1 where 1: "onPublish demo_cfg 0 1 ''d/a/s'' [] newService = Inr (True, sv1)" "service_inv sv1"
    using demo_publish_first by metis
  obtain sv2 where 2: "onPlay demo_cfg 1 2 ''d/a/s'' [] sv1 = Inr (True, sv2)"
    using demo_play [OF 1(2)] by metis
  have "\<exists>sv3. onRecv 2 1 demo_audio sv2 = Inr sv3"
  proof (cases "hp_context (sv_heap sv2) 1")
    case (Some u)
    then show ?thesis
      using demo_audio_added [of 2 "ses_stream (sv_store sv2 (lu_session (hp_users (sv_heap sv2) u)))"]
      by (auto simp: onRecv_def Let_def)
  qed (simp add: onRecv_def)
  then obtain sv3 where 3: "onRecv 2 1 demo_audio sv2 = Inr sv3" by blast
  have r: "service_reach demo_cfg (\<lambda>_ _. True) newService" by (rule service_reach.start)
  have ne: "(1::nat) \<noteq> 2" by simp
  show ?thesis using published_packets_reach_players [OF r ne 1(1) 2 3] 1(1) 2 3 by blast
qed

text \<open>
  C27: the timer drops exactly the sessions whose time is over. After a tick a name has the session
  it had, unchanged, when that one is not timed out, and none otherwise; no other name appears.
\<close>

theorem timer_drops_idle_sessions:
  assumes "service_reach cfg P sv" "onTimer now sv = Inr sv1"
  shows "findSession name sv1 = (case findSession name sv of None \<Rightarrow> None
      | Some i \<Rightarrow> if isTimeout now (sv_store sv i) = Inr False then Some i else None)
    \<and> (findSession name sv1 = Some i \<longrightarrow> sv_store sv1 i = sv_store sv i)"
proof -
  have inv: "service_inv sv" using reach_inv [OF assms(1)] .
  note k = timer_keeps(3,4) [OF inv assms(2)]
  have m: "map_of (filter (stays now s) es) name = (case map_of es name of None \<Rightarrow> None
      | Some i \<Rightarrow> if isTimeout now (s i) = Inr False then Some i else None)"
    if "distinct (map fst es)" for s and es :: "(string \<times> nat) list"
    using that
  proof (induction es)
    case (Cons e es)
    then show ?case
      by (cases e) (auto simp: stays_def map_of_eq_None_iff split: option.splits dest!: map_of_SomeD; force)
  qed simp
  have "distinct (map fst (sv_sessions sv))" using inv by (simp add: service_inv_def)
  moreover have "sv_store sv1 i = sv_store sv i" if "findSession name sv1 = Some i"
    using k(2) [of "(name, i)"] that by (simp add: findSession_def map_of_SomeD)
  ultimately show ?thesis using m by (simp add: findSession_def k(1))
qed

lemma demo_published:
  assumes "onPublish demo_cfg 0 1 ''d/a/s'' [] newService = Inr (True, sv)"
  shows "sv_sessions sv = [(''d/a/s'', 0)]" "isTimeout 10 (sv_store sv 0) = Inr False"
proof -
  have "split ''d/a/s'' ''/'' False = [''d'', ''a'', ''s'']" by code_simp
  moreover have "getAppInfo ''d'' ''a'' demo_cfg = Some newAppInfo"
    by (simp add: getAppInfo_def dom_getAppInfo_def demo_cfg_def)
  moreover have "\<not> stream_isTimeout 10 (newStream 0)"
    by (simp add: stream_isTimeout_def newStream_def LIVE_TIMEOUT_SEC_def)
  ultimately show "sv_sessions sv = [(''d/a/s'', 0)]" "isTimeout 10 (sv_store sv 0) = Inr False"
    using assms by (auto simp: onPublish_def createSession_def newService_def createPublisher_def
        newSession_def add_user_def on_session_def setPublisher_def isTimeout_def newAppInfo_def)
qed

theorem timer_drops_idle_sessions_witness:
  "\<exists>sv sv1. onPublish demo_cfg 0 1 ''d/a/s'' [] newService = Inr (True, sv) \<and> onTimer 10 sv = Inr sv1
     \<and> findSession ''d/a/s'' sv1 = Some 0"
proof -
  obtain sv where sv: "onPublish demo_cfg 0 1 ''d/a/s'' [] newService = Inr (True, sv)"
    using demo_publish_first by metis
  have r: "service_reach demo_cfg (\<lambda>_ _. True) sv"
    using service_reach.step [OF service_reach.start _ service_step.publishes [OF sv]] by simp
  note d = demo_published [OF sv]
  obtain sv1 where t: "onTimer 10 sv = Inr sv1" by (simp add: onTimer_def d)
  show ?thesis
    using timer_drops_idle_sessions [OF r t, of "''d/a/s''"] sv t d by (auto simp: findSession_def)
qed

end
