(* ===== verification/Startup.thy ===== *)
theory Startup
  imports Tasks LiveService LogFiles InetAddress
begin

text \<open>
  How the program starts and what its main thread does then: \<open>LSSEventLoopThread\<close> and
  \<open>LSSEventLoopThreadPool\<close> of \<open>src/network/net/\<close>, \<open>LiveService::start\<close>, and the loop of \<open>app/main.cpp\<close>,
  which polls the task manager. The loop a thread runs is named by the thread's index. Binding
  threads to processors is recorded as the pairs it is asked for.
\<close>

section \<open>Threads with a loop\<close>

record loop_thread =
  lt_once :: bool
  lt_running :: bool
  lt_loop :: "nat option"

definition newThread :: loop_thread where
  "newThread = \<lparr>lt_once = False, lt_running = False, lt_loop = None\<rparr>"

text \<open>
  Only the first call does something: it lets the thread go on and waits until the thread has made
  its loop.
\<close>

definition thread_run :: "nat \<Rightarrow> loop_thread \<Rightarrow> loop_thread" where
  "thread_run i t = (if lt_once t then t else \<lparr>lt_once = True, lt_running = True, lt_loop = Some i\<rparr>)"

text \<open>The destructor starts a thread that was not started, stops the loop and waits for its end.\<close>

definition thread_end :: "nat \<Rightarrow> loop_thread \<Rightarrow> loop_thread" where
  "thread_end i t = (thread_run i t)\<lparr>lt_loop := None\<rparr>"

section \<open>The pool\<close>

record pool =
  pl_threads :: "loop_thread list"
  pl_index :: u32

text \<open>The remainder of C++ has the sign of the dividend.\<close>

definition remainder :: "int \<Rightarrow> int \<Rightarrow> int" where
  "remainder a b = sgn a * (\<bar>a\<bar> mod \<bar>b\<bar>)"

definition newPool :: "int \<Rightarrow> int \<Rightarrow> int \<Rightarrow> pool \<times> (nat \<times> int) list" where
  "newPool thread_num cpu k =
     (let n = (if thread_num \<le> 0 then 1 else nat thread_num)
      in (\<lparr>pl_threads = replicate n newThread, pl_index = 0\<rparr>,
          if 0 < k then map (\<lambda>i. (i, remainder (cpu + int i) k)) [0..<n] else []))"

definition pool_size :: "pool \<Rightarrow> nat" where
  "pool_size p = length (pl_threads p)"

definition getLoops :: "pool \<Rightarrow> nat option list" where
  "getLoops p = map lt_loop (pl_threads p)"

text \<open>The index is signed and wraps; the division converts it to 64 bits without a sign.\<close>

definition getNextLoop :: "pool \<Rightarrow> nat option \<times> pool" where
  "getNextLoop p =
     (lt_loop (pl_threads p ! (unat (scast (pl_index p) :: u64) mod pool_size p)), p\<lparr>pl_index := pl_index p + 1\<rparr>)"

definition pool_start :: "pool \<Rightarrow> pool" where
  "pool_start p = p\<lparr>pl_threads := map (\<lambda>i. thread_run i (pl_threads p ! i)) [0..<pool_size p]\<rparr>"

fun next_loops :: "nat \<Rightarrow> pool \<Rightarrow> nat option list" where
  "next_loops 0 p = []"
| "next_loops (Suc k) p = (case getNextLoop p of (l, p1) \<Rightarrow> l # next_loops k p1)"

section \<open>Starting the service\<close>

text \<open>An RTMP server in every loop for every such service, in this order.\<close>

definition rtmp_servers :: "nat option list \<Rightarrow> service_info list \<Rightarrow> (nat option \<times> inet_addr) list" where
  "rtmp_servers loops ss =
     concat (map (\<lambda>e. map (\<lambda>s. (e, newInetAddress (si_addr s) (si_port s) False))
       (filter (\<lambda>s. si_protocol s = ''rtmp'' \<or> si_protocol s = ''RTMP'') ss)) loops)"

definition kSessionTimer :: nat where "kSessionTimer = 0"
definition kLogUpdate :: nat where "kLogUpdate = 1"

definition start_timer :: "int \<Rightarrow> 'x tasks \<Rightarrow> 'x tasks res" where
  "start_timer now s =
     bindr (task_add kSessionTimer
       (s\<lparr>tm_store := (tm_store s)(kSessionTimer := newTask now (Some kSessionTimer) 5000)\<rparr>)) (\<lambda>(r, s1). Inr s1)"

definition live_start :: "config \<Rightarrow> int \<Rightarrow> 'x tasks \<Rightarrow> (pool \<times> (nat option \<times> inet_addr) list \<times> 'x tasks) res" where
  "live_start cfg now s =
     (case newPool (thread_nums cfg) (cpu_start cfg) (cpus cfg) of
        (p, _) \<Rightarrow>
          let p1 = pool_start p
          in bindr (start_timer now s) (\<lambda>s1. Inr (p1, rtmp_servers (getLoops p1) (services cfg), s1)))"

section \<open>The main thread\<close>

record program =
  pg_service :: service
  pg_files :: file_mgr
  pg_calls :: "file_call list"

text \<open>
  One poll: \<open>now\<close> is the time in milliseconds at which it starts, \<open>later\<close> that at which tasks are
  restarted; \<open>secs\<close> and \<open>ck\<close> are the clock as the service and as the log files read it.
\<close>

record poll =
  po_now :: int
  po_later :: int
  po_secs :: int
  po_clock :: clock

definition program_cb :: "posix \<Rightarrow> poll \<Rightarrow> nat \<Rightarrow> nat \<Rightarrow> program task_step" where
  "program_cb X q cb t s =
     (if cb = kSessionTimer then
        bindr (onTimer (po_secs q) (pg_service (tm_rest s))) (\<lambda>sv.
          Inr (restart (po_later q) t (s\<lparr>tm_rest := (tm_rest s)\<lparr>pg_service := sv\<rparr>\<rparr>)))
      else if cb = kLogUpdate then
        (case update X (po_clock q) (pg_files (tm_rest s)) of
           (m, calls) \<Rightarrow>
             Inr (restart (po_later q) t (s\<lparr>tm_rest := (tm_rest s)\<lparr>pg_files := m, pg_calls := pg_calls (tm_rest s) @ calls\<rparr>\<rparr>)))
      else Inr (restart (po_later q) t s))"

definition newTaskMgr :: "'x \<Rightarrow> 'x tasks" where
  "newTaskMgr x = \<lparr>tm_store = (\<lambda>_. newTask 0 None 0), tm_tasks = [], tm_lock = False, tm_ran = [], tm_rest = x\<rparr>"

text \<open>
  What \<open>main\<close> does before its loop once the configuration is loaded: it opens the log file the
  configuration names and sets its rotation, adds the task for the log files, and starts the service.
  Without a section for the log in the configuration it follows a null pointer; it ends, here with
  \<open>None\<close>, when the file cannot be opened.
\<close>

definition set_log_rotate :: "string \<Rightarrow> rotate_type \<Rightarrow> file_mgr \<Rightarrow> file_mgr" where
  "set_log_rotate name ty m =
     m\<lparr>fm_logs := map (\<lambda>(f, l). (f, if f = name then setRotate ty l else l)) (fm_logs m)\<rparr>"

definition open_log :: "posix \<Rightarrow> config \<Rightarrow> program \<Rightarrow> program option res" where
  "open_log X cfg g =
     bindr (deref (cfg_log cfg)) (\<lambda>info.
       let name = li_path info @ li_name info in
       case getFileLog X name (pg_files g) of
         (None, m, calls) \<Rightarrow> Inr None
       | (Some l, m, calls) \<Rightarrow>
           Inr (Some (g\<lparr>pg_files := set_log_rotate name (li_rotate info) m, pg_calls := pg_calls g @ calls\<rparr>)))"

definition main_start ::
  "posix \<Rightarrow> config \<Rightarrow> int \<Rightarrow> program \<Rightarrow> (pool \<times> (nat option \<times> inet_addr) list \<times> program tasks) option res"
where
  "main_start X cfg now g =
     bindr (open_log X cfg g) (\<lambda>opened.
       case opened of
         None \<Rightarrow> Inr None
       | Some g1 \<Rightarrow>
           let s = newTaskMgr g1
           in bindr (task_add kLogUpdate (s\<lparr>tm_store := (tm_store s)(kLogUpdate := newTask now (Some kLogUpdate) 1000)\<rparr>))
                (\<lambda>(r, s1). bindr (live_start cfg now s1) (\<lambda>started. Inr (Some started))))"

text \<open>
  The runs of the program after that: the main thread polls, at times that do not decrease, and in
  between the loops' threads call the service. \<open>time\<close> is that of the last poll.
\<close>

definition on_service :: "(service \<Rightarrow> service) \<Rightarrow> program tasks \<Rightarrow> program tasks" where
  "on_service f s = s\<lparr>tm_rest := (tm_rest s)\<lparr>pg_service := f (pg_service (tm_rest s))\<rparr>\<rparr>"

definition newProgram :: program where
  "newProgram = \<lparr>pg_service = newService, pg_files = newFileMgr, pg_calls = []\<rparr>"

inductive main_run :: "config \<Rightarrow> posix \<Rightarrow> int \<Rightarrow> program tasks \<Rightarrow> bool" for cfg X where
  starts: "main_start X cfg now newProgram = Inr (Some (p, servers, s)) \<Longrightarrow> main_run cfg X now s"
| polls: "main_run cfg X time s \<Longrightarrow> time \<le> po_now q \<Longrightarrow> po_now q \<le> po_later q \<Longrightarrow>
    work (program_cb X q) (po_now q) s = Inr s1 \<Longrightarrow> main_run cfg X (po_later q) s1"
| serves: "main_run cfg X time s \<Longrightarrow> service_step cfg e (pg_service (tm_rest s)) sv \<Longrightarrow>
    main_run cfg X time (on_service (\<lambda>_. sv) s)"
| rtmp: "main_run cfg X time s \<Longrightarrow> main_run cfg X time (on_service (\<lambda>sv. sv\<lparr>sv_cx := cx\<rparr>) s)"

section \<open>Properties of the pool\<close>

lemma started_threads:
  "pl_threads (pool_start (fst (newPool n c k))) = map (\<lambda>i. thread_run i newThread) [0..<if n \<le> 0 then 1 else nat n]"
  by (auto simp: pool_start_def newPool_def pool_size_def Let_def simp del: upt_Suc)

lemma small_index: "k < 2 ^ 31 \<Longrightarrow> unat (scast (word_of_nat k :: u32) :: u64) = k"
proof -
  assume k: "k < 2 ^ 31"
  then have "int k < 2 ^ 31" by simp
  then have "sint (word_of_nat k :: u32) = int k" by (simp add: signed_of_nat signed_take_bit_int_eq_self)
  then have "scast (word_of_nat k :: u32) = (word_of_nat k :: u64)" by (simp add: scast_eq)
  then show ?thesis using k by (simp add: unat_of_nat)
qed

lemma next_loops_from:
  assumes "i + k \<le> 2 ^ 31" "pl_index p = word_of_nat i"
  shows "next_loops k p = map (\<lambda>j. lt_loop (pl_threads p ! (j mod pool_size p))) [i..<i + k]"
  using assms
proof (induction k arbitrary: i p)
  case (Suc k)
  let ?p = "p\<lparr>pl_index := pl_index p + 1\<rparr>"
  have "next_loops k ?p = map (\<lambda>j. lt_loop (pl_threads ?p ! (j mod pool_size ?p))) [Suc i..<Suc i + k]"
    using Suc.prems by (intro Suc.IH) (simp_all add: add.commute)
  moreover have "unat (scast (pl_index p) :: u64) = i" using small_index [of i] Suc.prems by simp
  ultimately show ?case by (simp add: getNextLoop_def pool_size_def upt_conv_Cons del: upt_Suc)
qed simp

text \<open>
  C32: once the pool is started, its loops are handed out in turn: the first \<open>k\<close> calls of
  \<open>getNextLoop\<close> give the loops of the threads 0, 1, 2 and so on, and after the last the first again,
  for as many calls as the signed index can count, and with at least one thread whatever the number
  asked for.
\<close>

theorem loops_in_turn:
  assumes "k \<le> 2 ^ 31"
  shows "next_loops k (pool_start (fst (newPool n first cpu))) =
    map (\<lambda>j. Some (j mod (if n \<le> 0 then 1 else nat n))) [0..<k]"
proof -
  let ?p = "pool_start (fst (newPool n first cpu))" and ?n = "if n \<le> 0 then 1 else nat n"
  have size: "pool_size ?p = ?n" by (simp add: pool_size_def started_threads)
  have "pl_index ?p = word_of_nat 0" by (simp add: pool_start_def newPool_def Let_def)
  then have "next_loops k ?p = map (\<lambda>j. lt_loop (pl_threads ?p ! (j mod ?n))) [0..<k]"
    using next_loops_from [of 0 k ?p] assms size by simp
  moreover have "lt_loop (pl_threads ?p ! (j mod ?n)) = Some (j mod ?n)" for j
    by (simp add: started_threads thread_run_def newThread_def del: upt_Suc)
  ultimately show ?thesis by simp
qed

theorem loops_in_turn_witness:
  "next_loops 7 (pool_start (fst (newPool 3 0 4))) = [Some 0, Some 1, Some 2, Some 0, Some 1, Some 2, Some 0]"
  using loops_in_turn [of 7 3 0 4] by (simp add: upt_rec)

section \<open>The tasks of the main thread\<close>

interpretation prog: restarting "program_cb X q" "po_later q" for X q
proof
  show "tm_tasks s' = tm_tasks s \<and> tm_ran s' = tm_ran s \<and> tm_lock s' = tm_lock s \<and>
      (\<forall>u. u \<noteq> t \<longrightarrow> tm_store s' u = tm_store s u)" if "program_cb X q cb t s = Inr s'" for cb t s s'
    using that by (auto simp: program_cb_def restart_def bindr_eq_Inr split: if_splits prod.splits)
  show "tm_store s' t = (tm_store s t)\<lparr>td_when := td_interval (tm_store s t) + po_later q\<rparr>"
    if "program_cb X q cb t s = Inr s'" for cb t s s'
    using that by (auto simp: program_cb_def restart_def bindr_eq_Inr split: if_splits prod.splits)
qed

lemma program_keeps_service:
  "program_cb X q cb t s = Inr s' \<Longrightarrow> service_inv (pg_service (tm_rest s)) \<Longrightarrow> service_inv (pg_service (tm_rest s'))"
  by (auto simp: program_cb_def restart_def bindr_eq_Inr split: if_splits prod.splits dest: timer_keeps(1))

text \<open>
  What holds while the main thread polls: both tasks are there, with their callbacks and intervals,
  and are due again no later than their interval after the last poll.
\<close>

definition polling :: "int \<Rightarrow> program tasks \<Rightarrow> bool" where
  "polling time s \<longleftrightarrow> tm_tasks s = [kSessionTimer, kLogUpdate] \<and> \<not> tm_lock s \<and>
     (\<forall>(t, d) \<in> {(kSessionTimer, 5000), (kLogUpdate, 1000)}.
        td_cb (tm_store s t) = Some t \<and> td_interval (tm_store s t) = d \<and> task_when t s \<le> time + d) \<and>
     service_inv (pg_service (tm_rest s))"

lemma poll_keeps:
  assumes "work (program_cb X q) (po_now q) s = Inr s'" "polling time s" "time \<le> po_now q" "po_now q \<le> po_later q"
  shows "polling (po_later q) s'"
proof -
  have p: "tm_tasks s = [kSessionTimer, kLogUpdate]" "td_cb (tm_store s t) = Some t" "0 \<le> td_interval (tm_store s t)"
      "task_when t s \<le> time + td_interval (tm_store s t)" if "t \<in> {kSessionTimer, kLogUpdate}" for t
    using assms(2) that by (auto simp: polling_def)
  have d: "distinct (tm_tasks s)" "set (tm_tasks s) = {kSessionTimer, kLogUpdate}"
    using assms(2) by (simp_all add: polling_def kSessionTimer_def kLogUpdate_def)
  note w = prog.work_restarts [OF assms(1) d(1) assms(4)]
  have st: "tm_store s' t = (if task_when t s < po_now q
      then (tm_store s t)\<lparr>td_when := td_interval (tm_store s t) + po_later q\<rparr> else tm_store s t)"
    if "t \<in> {kSessionTimer, kLogUpdate}" for t
    using w(3) [of t] p that unfolding d(2) by simp
  have "service_inv (pg_service (tm_rest s'))"
    using work_rest [of _ "\<lambda>g. service_inv (pg_service g)", OF program_keeps_service assms(1)] assms(2)
    by (simp add: polling_def)
  then show ?thesis using w(1,2) p st assms(2-4) unfolding d(2) by (auto simp: polling_def task_when_def)
qed

text \<open>The task manager after the start.\<close>

lemma main_start_eq:
  "main_start X cfg now g = bindr (open_log X cfg g) (\<lambda>opened. Inr (map_option (\<lambda>g1.
     (pool_start (fst (newPool (thread_nums cfg) (cpu_start cfg) (cpus cfg))),
      rtmp_servers (getLoops (pool_start (fst (newPool (thread_nums cfg) (cpu_start cfg) (cpus cfg))))) (services cfg),
      (newTaskMgr g1)\<lparr>tm_tasks := [kSessionTimer, kLogUpdate],
        tm_store := (tm_store (newTaskMgr g1))(kLogUpdate := newTask now (Some kLogUpdate) 1000,
          kSessionTimer := newTask now (Some kSessionTimer) 5000)\<rparr>)) opened))"
proof (cases "open_log X cfg g")
  case (Inr opened)
  then show ?thesis
    by (cases opened) (simp_all add: main_start_def live_start_def start_timer_def task_add_def newTaskMgr_def Let_def
      kSessionTimer_def kLogUpdate_def split: prod.splits)
qed (simp add: main_start_def)

lemma open_log_service: "open_log X cfg g = Inr (Some g1) \<Longrightarrow> pg_service g1 = pg_service g"
  by (auto simp: open_log_def bindr_eq_Inr Let_def case_prod_unfold split: option.splits)

lemma main_start_polling:
  assumes "main_start X cfg now newProgram = Inr (Some (p, servers, s))"
  shows "polling now s"
proof -
  obtain g1 where g1: "open_log X cfg newProgram = Inr (Some g1)"
      "s = (newTaskMgr g1)\<lparr>tm_tasks := [kSessionTimer, kLogUpdate],
        tm_store := (tm_store (newTaskMgr g1))(kLogUpdate := newTask now (Some kLogUpdate) 1000,
          kSessionTimer := newTask now (Some kSessionTimer) 5000)\<rparr>"
    using assms by (auto simp: main_start_eq bindr_eq_Inr)
  then show ?thesis
    using open_log_service [OF g1(1)]
    by (simp add: polling_def newTaskMgr_def newTask_def task_when_def kSessionTimer_def kLogUpdate_def
        newProgram_def new_service_inv)
qed

lemma polling_service: "polling time s \<Longrightarrow> service_inv (f (pg_service (tm_rest s))) \<Longrightarrow> polling time (on_service f s)"
  by (simp add: polling_def on_service_def task_when_def)

lemma main_run_polling: "main_run cfg X time s \<Longrightarrow> polling time s"
proof (induction rule: main_run.induct)
  case (serves time s e sv)
  then have "service_inv sv" by (auto simp: polling_def dest: step_keeps)
  then show ?case using polling_service [OF serves.IH] by simp
next
  case (rtmp time s cx)
  then have "service_inv ((pg_service (tm_rest s))\<lparr>sv_cx := cx\<rparr>)" by (simp add: polling_def contexts_change)
  then show ?case using polling_service [OF rtmp.IH] by simp
qed (auto intro: main_start_polling poll_keeps)

text \<open>
  C18: the main thread never loses a timer. However long the program runs and whatever the connections
  do meanwhile, the task manager holds the session timer and the update of the log files, the sessions
  are consistent, and a poll more than five seconds after the one before runs both.
\<close>

theorem timers_never_lost:
  assumes "main_run cfg X time s"
  shows "tm_tasks s = [kSessionTimer, kLogUpdate] \<and> service_inv (pg_service (tm_rest s)) \<and>
    (\<forall>q s1. time + 5000 < po_now q \<and> work (program_cb X q) (po_now q) s = Inr s1 \<longrightarrow>
      tm_ran s1 = tm_ran s @ [kSessionTimer, kLogUpdate])"
proof -
  have p: "polling time s" using main_run_polling [OF assms] .
  moreover have "tm_ran s1 = tm_ran s @ [kSessionTimer, kLogUpdate]"
    if "time + 5000 < po_now q" "work (program_cb X q) (po_now q) s = Inr s1" for q s1
  proof -
    have d: "distinct (tm_tasks s)" using p by (simp add: polling_def kSessionTimer_def kLogUpdate_def)
    show ?thesis using prog.work_does [OF that(2) d] p that(1) by (auto simp: polling_def)
  qed
  ultimately show ?thesis by (auto simp: polling_def)
qed

definition demo_poll :: "int \<Rightarrow> poll" where
  "demo_poll now = \<lparr>po_now = now, po_later = now, po_secs = now div 1000,
     po_clock = \<lparr>ck_year = 2024, ck_month = 1, ck_day = 1, ck_hour = 0, ck_minute = 0\<rparr>\<rparr>"

definition demo_posix :: posix where
  "demo_posix = \<lparr>px_open = \<lambda>_. 3, px_rename = \<lambda>_ _. 0, px_size = \<lambda>_. 1\<rparr>"

definition demo_config :: config where
  "demo_config = newConfig\<lparr>cfg_log := Some \<lparr>li_level = kWarn, li_path = ''log/'', li_name = ''a.txt'', li_rotate = kRotateDay\<rparr>\<rparr>"

theorem timers_never_lost_witness:
  "\<exists>s s1. main_run demo_config demo_posix 0 s \<and> map fst (fm_logs (pg_files (tm_rest s))) = [''log/a.txt''] \<and>
     work (program_cb demo_posix (demo_poll 5001)) 5001 s = Inr s1 \<and>
     tm_ran s1 = tm_ran s @ [kSessionTimer, kLogUpdate]"
proof -
  obtain g1 where g1: "open_log demo_posix demo_config newProgram = Inr (Some g1)" "pg_service g1 = newService"
      "map fst (fm_logs (pg_files g1)) = [''log/a.txt'']"
    by (simp add: open_log_def demo_config_def newProgram_def getFileLog_def newFileMgr_def log_open_def demo_posix_def
        set_log_rotate_def Let_def)
  let ?s = "(newTaskMgr g1)\<lparr>tm_tasks := [kSessionTimer, kLogUpdate],
       tm_store := (tm_store (newTaskMgr g1))(kLogUpdate := newTask 0 (Some kLogUpdate) 1000,
         kSessionTimer := newTask 0 (Some kSessionTimer) 5000)\<rparr>"
  obtain p servers where st: "main_start demo_posix demo_config 0 newProgram = Inr (Some (p, servers, ?s))"
    using g1(1) by (simp add: main_start_eq)
  note run = main_run.starts [OF st]
  obtain s1 where "work (program_cb demo_posix (demo_poll 5001)) 5001 ?s = Inr s1"
    using g1(2)
    by (cases "update demo_posix (po_clock (demo_poll 5001)) (pg_files g1)")
      (simp add: work_def run_def program_cb_def restart_def onTimer_def newService_def newTaskMgr_def
        newTask_def task_when_def kSessionTimer_def kLogUpdate_def demo_poll_def)
  moreover have "po_now (demo_poll 5001) = 5001" by (simp add: demo_poll_def)
  ultimately show ?thesis
    using run g1(3) conjunct2 [OF conjunct2 [OF timers_never_lost [OF run]], rule_format, of "demo_poll 5001" s1]
    by (intro exI [of _ ?s] exI [of _ s1]) (simp add: newTaskMgr_def)
qed

end
