(* ===== verification/Udp.thy ===== *)
theory Udp
  imports EventLoop MsgBuffer SocketOpt
begin

text \<open>
  \<open>LSSUdpSocket\<close> of \<open>src/network/net/lssvc_udp_socket.cpp\<close> with \<open>UdpServer\<close> and \<open>UdpClient\<close> of
  \<open>src/network/\<close>: sockets that exchange datagrams, in an event loop. They are objects of the record
  \<open>unet\<close>, which extends the loop; callbacks are parameters that act on the whole state.

  What the kernel answers to a socket is part of its state, as for TCP: a list of datagrams to be
  received, and a list of answers to \<open>sendto\<close>, at whose end it would block. A datagram is taken whole.

  A datagram that has to wait is not copied: a node of the list keeps the caller's pointers to the data
  and to the address, and a list that is sent is itself passed by reference. The memory they point
  into is part of the state: the application's blocks and address variables, the receive buffers and
  the address each client has of its server. It is read when the kernel takes the datagram, and what is
  no longer there is a fault. \<open>us_sent\<close> is what the kernel took, each node with the datagram read from
  it, and \<open>us_asked\<close> a history: all nodes that were to be sent.
\<close>

section \<open>State\<close>

datatype urx = Datagram bytes sockaddr | RecvFail
datatype utx = Sent | SendFail

datatype udp_kind = UdpServer | UdpClient

type_synonym datagram = "bytes \<times> sockaddr"

text \<open>
  A pointer to data is an offset in the receive buffer of a socket or in a block of the application. A
  pointer to an address is the \<open>sock_addr_\<close> of a client or a variable of the application. The length of
  an address is always that of its type.
\<close>

datatype data_ptr = InBuffer nat nat | InBlock nat nat
datatype addr_ptr = OwnAddr nat | AddrVar nat

record udp_node =
  nd_data :: data_ptr
  nd_size :: nat
  nd_addr :: addr_ptr

text \<open>The application's memory; \<open>None\<close> is what is not allocated, or not any more.\<close>

record memory =
  m_blocks :: "nat \<Rightarrow> bytes option"
  m_addrs :: "nat \<Rightarrow> sockaddr option"

record udp_socket = event +
  us_kind :: udp_kind
  us_connected :: bool
  us_closed :: bool
  us_buf :: msgbuf
  us_list :: "udp_node list"
  us_idle :: int
  us_entry :: "nat option"
  us_addr :: sockaddr
  us_rx :: "urx list"
  us_tx :: "utx list"
  us_sent :: "(udp_node \<times> datagram) list"
  us_asked :: "udp_node list"

definition MESSAGE_BUFFER_SIZE :: nat where
  "MESSAGE_BUFFER_SIZE = 65535"

definition newUdpSocket :: "udp_kind \<Rightarrow> sockaddr \<Rightarrow> udp_socket" where
  "newUdpSocket k sa = \<lparr>ev_fd = -1, ev_mask = 0, us_kind = k, us_connected = False, us_closed = False,
     us_buf = newMsgBuffer MESSAGE_BUFFER_SIZE, us_list = [], us_idle = 30, us_entry = None, us_addr = sa,
     us_rx = [], us_tx = [], us_sent = [], us_asked = []\<rparr>"

datatype uobj = UPipe | Udp nat

datatype utask =
    UClose nat
  | UOpen nat
  | UStop nat
  | UConnect nat
  | USendList nat nat
  | USend nat udp_node

record 'a unet = "(uobj, utask) event_loop" +
  un_socks :: "nat \<Rightarrow> udp_socket"
  un_next :: nat
  un_entries :: "nat list"
  un_fds :: "int list"
  un_mem :: memory
  un_lists :: "nat \<Rightarrow> udp_node list option"
  un_app :: 'a

type_synonym 'a ustep = "'a unet \<Rightarrow> 'a unet res"

text \<open>\<open>uc_ntop\<close> and \<open>uc_ntop6\<close> are what \<open>inet_ntop\<close> prints.\<close>

record 'a ucallbacks =
  uc_message :: "(nat \<Rightarrow> inet_addr \<Rightarrow> 'a ustep) option"
  uc_complete :: "(nat \<Rightarrow> 'a ustep) option"
  uc_close :: "(nat \<Rightarrow> 'a ustep) option"
  uc_connected :: "(nat \<Rightarrow> bool \<Rightarrow> 'a ustep) option"
  uc_ntop :: "u32 \<Rightarrow> string"
  uc_ntop6 :: "bytes \<Rightarrow> string"

definition ucall :: "(nat \<Rightarrow> 'a ustep) option \<Rightarrow> nat \<Rightarrow> 'a ustep" where
  "ucall cb c s = (case cb of None \<Rightarrow> Inr s | Some f \<Rightarrow> f c s)"

definition on_udp :: "nat \<Rightarrow> (udp_socket \<Rightarrow> udp_socket) \<Rightarrow> 'a unet \<Rightarrow> 'a unet" where
  "on_udp c f s = s\<lparr>un_socks := (un_socks s)(c := f (un_socks s c))\<rparr>"

definition set_udp :: "nat \<Rightarrow> udp_socket \<times> 'a unet \<Rightarrow> 'a unet" where
  "set_udp c r = on_udp c (\<lambda>_. fst r) (snd r)"

definition udp_enableWriting :: "nat \<Rightarrow> bool \<Rightarrow> 'a unet \<Rightarrow> 'a unet" where
  "udp_enableWriting c en s = set_udp c (snd (enableWriting en (un_socks s c) s))"

section \<open>Memory\<close>

definition cut :: "nat \<Rightarrow> nat \<Rightarrow> bytes \<Rightarrow> bytes option" where
  "cut off n xs = (if off + n \<le> length xs then Some (take n (drop off xs)) else None)"

fun data_in :: "memory \<Rightarrow> data_ptr \<Rightarrow> nat \<Rightarrow> bytes option" where
  "data_in m (InBuffer c off) n = None"
| "data_in m (InBlock i off) n = Option.bind (m_blocks m i) (cut off n)"

fun addr_in :: "memory \<Rightarrow> addr_ptr \<Rightarrow> sockaddr option" where
  "addr_in m (OwnAddr c) = None"
| "addr_in m (AddrVar i) = m_addrs m i"

fun data_at :: "'a unet \<Rightarrow> data_ptr \<Rightarrow> nat \<Rightarrow> bytes option" where
  "data_at s (InBuffer c off) n = cut off n (buffer (us_buf (un_socks s c)))"
| "data_at s (InBlock i off) n = data_in (un_mem s) (InBlock i off) n"

fun addr_at :: "'a unet \<Rightarrow> addr_ptr \<Rightarrow> sockaddr option" where
  "addr_at s (OwnAddr c) = Some (us_addr (un_socks s c))"
| "addr_at s (AddrVar i) = addr_in (un_mem s) (AddrVar i)"

text \<open>What \<open>sendto\<close> reads when the kernel takes a datagram.\<close>

definition read_node :: "'a unet \<Rightarrow> udp_node \<Rightarrow> datagram res" where
  "read_node s nd =
     (case (data_at s (nd_data nd) (nd_size nd), addr_at s (nd_addr nd)) of
        (Some xs, Some sa) \<Rightarrow> Inr (xs, sa)
      | _ \<Rightarrow> Inl OutOfBounds)"

definition set_block :: "nat \<Rightarrow> bytes option \<Rightarrow> 'a unet \<Rightarrow> 'a unet" where
  "set_block i x s = s\<lparr>un_mem := (un_mem s)\<lparr>m_blocks := (m_blocks (un_mem s))(i := x)\<rparr>\<rparr>"

definition set_addr :: "nat \<Rightarrow> sockaddr option \<Rightarrow> 'a unet \<Rightarrow> 'a unet" where
  "set_addr i x s = s\<lparr>un_mem := (un_mem s)\<lparr>m_addrs := (m_addrs (un_mem s))(i := x)\<rparr>\<rparr>"

section \<open>Closing\<close>

definition udp_base_close :: "'a ucallbacks \<Rightarrow> nat \<Rightarrow> 'a ustep" where
  "udp_base_close K c s =
     (if us_closed (un_socks s c) then Inr s
      else bindr (ucall (uc_close K) c (on_udp c (\<lambda>t. t\<lparr>us_closed := True\<rparr>) s)) (\<lambda>s1.
        Inr (set_udp c (event_close (un_socks s1 c) s1))))"

text \<open>\<open>UdpClient::onClose\<close>, which is empty while it is not connected.\<close>

definition udp_client_close :: "'a ucallbacks \<Rightarrow> nat \<Rightarrow> 'a ustep" where
  "udp_client_close K c s =
     (if us_connected (un_socks s c) then
        let s1 = on_udp c (\<lambda>t. t\<lparr>us_connected := False\<rparr>) s
        in udp_base_close K c (delEvent (un_socks s1 c) s1)
      else Inr s)"

definition udp_onClose :: "'a ucallbacks \<Rightarrow> nat \<Rightarrow> 'a ustep" where
  "udp_onClose K c s =
     (case us_kind (un_socks s c) of UdpServer \<Rightarrow> udp_base_close K c s | UdpClient \<Rightarrow> udp_client_close K c s)"

definition udp_onError :: "'a ucallbacks \<Rightarrow> nat \<Rightarrow> 'a ustep" where
  "udp_onError K c s = udp_onClose K c s"

definition udp_onTimeout :: "'a ucallbacks \<Rightarrow> nat \<Rightarrow> 'a ustep" where
  "udp_onTimeout K c s = udp_onClose K c s"

section \<open>Idle time\<close>

definition udp_enableCheckIdleTimeout :: "'a ucallbacks \<Rightarrow> int \<Rightarrow> nat \<Rightarrow> 'a ustep" where
  "udp_enableCheckIdleTimeout K max_time c s =
     (let e = length (un_entries s);
          s1 = on_udp c (\<lambda>t. t\<lparr>us_idle := max_time, us_entry := Some e\<rparr>) (s\<lparr>un_entries := un_entries s @ [c]\<rparr>)
      in bindr (loop_insertEntry max_time (Idle e) s1) (\<lambda>(stored, s2).
           if stored then Inr s2 else udp_onTimeout K c s2))"

definition udp_extendLife :: "nat \<Rightarrow> 'a ustep" where
  "udp_extendLife c s =
     (case us_entry (un_socks s c) of
        None \<Rightarrow> Inr s
      | Some e \<Rightarrow>
          if held (Idle e) (wheel_items (el_wheel s))
          then bindr (loop_insertEntry (us_idle (un_socks s c)) (Idle e) s) (\<lambda>(stored, s1). Inr s1)
          else Inr s)"

section \<open>Receiving\<close>

text \<open>
  The kernel writes up to \<open>MESSAGE_BUFFER_SIZE\<close> bytes behind the buffer's tail, whether they fit or
  not. An empty datagram is received and nothing else happens. After a close a read fails.
\<close>

fun udp_read_loop :: "'a ucallbacks \<Rightarrow> nat \<Rightarrow> urx list \<Rightarrow> 'a ustep" where
  "udp_read_loop K c [] s = (if ev_fd (un_socks s c) < 0 then udp_onClose K c s else Inr s)"
| "udp_read_loop K c (r # rs) s =
     (if ev_fd (un_socks s c) < 0 then udp_onClose K c s
      else case r of
        RecvFail \<Rightarrow> udp_onClose K c s
      | Datagram xs sa \<Rightarrow>
          if xs = [] then udp_read_loop K c rs s
          else
            let ys = take MESSAGE_BUFFER_SIZE xs; b = us_buf (un_socks s c) in
            if writableBytes b < length ys then Inl OutOfBounds
            else
              bindr (ucall (map_option (\<lambda>f d. f d (peer_address (uc_ntop K) (uc_ntop6 K) sa)) (uc_message K)) c
                       (on_udp c (\<lambda>t. t\<lparr>us_buf := store_at_tail b ys\<rparr>) s)) (\<lambda>s1.
              udp_read_loop K c rs (on_udp c (\<lambda>t. t\<lparr>us_buf := retrieveAll (us_buf t)\<rparr>) s1)))"

definition udp_onRead :: "'a ucallbacks \<Rightarrow> nat \<Rightarrow> 'a ustep" where
  "udp_onRead K c s =
     (if us_closed (un_socks s c) then Inr s
      else bindr (udp_extendLife c s) (\<lambda>s1.
        udp_read_loop K c (us_rx (un_socks s1 c)) (on_udp c (\<lambda>t. t\<lparr>us_rx := []\<rparr>) s1)))"

section \<open>Sending\<close>

text \<open>\<open>sendto\<close> returns 0 for an empty datagram, which it has sent: it stays in the list.\<close>

fun udp_write_loop :: "'a ucallbacks \<Rightarrow> nat \<Rightarrow> utx list \<Rightarrow> 'a ustep" where
  "udp_write_loop K c [] s = (if us_list (un_socks s c) = [] then ucall (uc_complete K) c s else Inr s)"
| "udp_write_loop K c (a # as) s =
     (if us_list (un_socks s c) = [] then ucall (uc_complete K) c s
      else
        let s1 = on_udp c (\<lambda>t. t\<lparr>us_tx := as\<rparr>) s; nd = hd (us_list (un_socks s c)) in
        case a of
          SendFail \<Rightarrow> udp_onClose K c s1
        | Sent \<Rightarrow>
            bindr (read_node s nd) (\<lambda>d.
              udp_write_loop K c as
                (on_udp c (\<lambda>t. t\<lparr>us_sent := us_sent t @ [(nd, d)],
                                  us_list := (if nd_size nd = 0 then us_list t else tl (us_list t))\<rparr>) s1)))"

definition udp_onWrite :: "'a ucallbacks \<Rightarrow> nat \<Rightarrow> 'a ustep" where
  "udp_onWrite K c s =
     (if us_closed (un_socks s c) then Inr s
      else bindr (udp_extendLife c s) (\<lambda>s1. udp_write_loop K c (us_tx (un_socks s1 c)) s1))"

text \<open>The list is looked up when the loop sends it; its nodes are shared and stay.\<close>

definition udp_sendInLoop_list :: "nat \<Rightarrow> nat \<Rightarrow> 'a ustep" where
  "udp_sendInLoop_list l c s =
     (case un_lists s l of
        None \<Rightarrow> Inl OutOfBounds
      | Some nds \<Rightarrow>
          let s1 = on_udp c (\<lambda>t. t\<lparr>us_list := us_list t @ nds, us_asked := us_asked t @ nds\<rparr>) s
          in Inr (if us_list (un_socks s1 c) \<noteq> [] then udp_enableWriting c True s1 else s1))"

definition udp_queue :: "udp_node \<Rightarrow> nat \<Rightarrow> 'a unet \<Rightarrow> 'a unet" where
  "udp_queue nd c s = udp_enableWriting c True (on_udp c (\<lambda>t. t\<lparr>us_list := us_list t @ [nd]\<rparr>) s)"

text \<open>A descriptor that is closed takes nothing; every result but a positive one means queueing.\<close>

definition udp_sendInLoop :: "udp_node \<Rightarrow> nat \<Rightarrow> 'a ustep" where
  "udp_sendInLoop nd c s0 =
     (let s = on_udp c (\<lambda>t. t\<lparr>us_asked := us_asked t @ [nd]\<rparr>) s0 in
      if us_list (un_socks s c) = [] \<and> 0 \<le> ev_fd (un_socks s c) then
        case us_tx (un_socks s c) of
          [] \<Rightarrow> Inr (udp_queue nd c s)
        | SendFail # as \<Rightarrow> Inr (udp_queue nd c (on_udp c (\<lambda>t. t\<lparr>us_tx := as\<rparr>) s))
        | Sent # as \<Rightarrow>
            bindr (read_node s nd) (\<lambda>d.
              let s1 = on_udp c (\<lambda>t. t\<lparr>us_tx := as, us_sent := us_sent t @ [(nd, d)]\<rparr>) s
              in Inr (if 0 < nd_size nd then s1 else udp_queue nd c s1))
      else Inr (udp_queue nd c s))"

section \<open>Servers and clients\<close>

text \<open>\<open>UdpServer::open\<close>: the next answer of \<open>socket\<close> becomes the descriptor; it is then bound.\<close>

definition udp_open :: "'a ucallbacks \<Rightarrow> nat \<Rightarrow> 'a ustep" where
  "udp_open K c s =
     (case un_fds s of
        [] \<Rightarrow> udp_onClose K c (on_udp c (\<lambda>t. t\<lparr>ev_fd := -1\<rparr>) s)
      | fd # fds \<Rightarrow>
          let s1 = on_udp c (\<lambda>t. t\<lparr>ev_fd := fd\<rparr>) (s\<lparr>un_fds := fds\<rparr>)
          in Inr (set_udp c (addEvent (Udp c) (un_socks s1 c) s1)))"

definition udp_stop :: "'a ucallbacks \<Rightarrow> nat \<Rightarrow> 'a ustep" where
  "udp_stop K c s = udp_onClose K c (delEvent (un_socks s c) s)"

text \<open>
  The connect of a client. \<open>us_addr\<close> is the address it was made with, which is copied to \<open>sock_addr_\<close>
  here, before anything can be sent.
\<close>

definition udp_connectInLoop :: "'a ucallbacks \<Rightarrow> nat \<Rightarrow> 'a ustep" where
  "udp_connectInLoop K c s =
     (case un_fds s of
        [] \<Rightarrow> udp_onClose K c (on_udp c (\<lambda>t. t\<lparr>ev_fd := -1\<rparr>) s)
      | fd # fds \<Rightarrow>
          let s1 = on_udp c (\<lambda>t. t\<lparr>ev_fd := fd, us_connected := True\<rparr>) (s\<lparr>un_fds := fds\<rparr>);
              s2 = set_udp c (addEvent (Udp c) (un_socks s1 c) s1)
          in ucall (map_option (\<lambda>f d. f d True) (uc_connected K)) c s2)"

fun udp_task :: "'a ucallbacks \<Rightarrow> utask \<Rightarrow> 'a ustep" where
  "udp_task K (UClose c) s = udp_onClose K c s"
| "udp_task K (UOpen c) s = udp_open K c s"
| "udp_task K (UStop c) s = udp_stop K c s"
| "udp_task K (UConnect c) s = udp_connectInLoop K c s"
| "udp_task K (USendList c l) s = udp_sendInLoop_list l c s"
| "udp_task K (USend c nd) s = udp_sendInLoop nd c s"

text \<open>The public operations; \<open>q\<close> is \<open>enqueueTask\<close> for the calling thread.\<close>

definition udp_forceClose :: "(utask \<Rightarrow> 'a ustep) \<Rightarrow> nat \<Rightarrow> 'a ustep" where
  "udp_forceClose q c s = q (UClose c) s"

definition udp_start :: "(utask \<Rightarrow> 'a ustep) \<Rightarrow> nat \<Rightarrow> 'a ustep" where
  "udp_start q c s = q (UOpen c) s"

definition udp_server_stop :: "(utask \<Rightarrow> 'a ustep) \<Rightarrow> nat \<Rightarrow> 'a ustep" where
  "udp_server_stop q c s = q (UStop c) s"

definition udp_connect :: "(utask \<Rightarrow> 'a ustep) \<Rightarrow> nat \<Rightarrow> 'a ustep" where
  "udp_connect q c s = q (UConnect c) s"

definition udp_send_list :: "(utask \<Rightarrow> 'a ustep) \<Rightarrow> nat \<Rightarrow> nat \<Rightarrow> 'a ustep" where
  "udp_send_list q l c s = q (USendList c l) s"

definition udp_send :: "(utask \<Rightarrow> 'a ustep) \<Rightarrow> data_ptr \<Rightarrow> nat \<Rightarrow> addr_ptr \<Rightarrow> nat \<Rightarrow> 'a ustep" where
  "udp_send q p n ad c s = q (USend c \<lparr>nd_data = p, nd_size = n, nd_addr = ad\<rparr>) s"

definition udp_client_send_list :: "(utask \<Rightarrow> 'a ustep) \<Rightarrow> nat \<Rightarrow> nat \<Rightarrow> 'a ustep" where
  "udp_client_send_list q l c s = (if us_connected (un_socks s c) then udp_send_list q l c s else Inr s)"

definition udp_client_send :: "(utask \<Rightarrow> 'a ustep) \<Rightarrow> data_ptr \<Rightarrow> nat \<Rightarrow> nat \<Rightarrow> 'a ustep" where
  "udp_client_send q p n c s = (if us_connected (un_socks s c) then udp_send q p n (OwnAddr c) c s else Inr s)"

text \<open>A send in the loop's own thread runs at once.\<close>

fun send_now :: "utask \<Rightarrow> 'a ustep" where
  "send_now (USendList c l) s = udp_sendInLoop_list l c s"
| "send_now (USend c nd) s = udp_sendInLoop nd c s"
| "send_now t s = Inr s"

section \<open>Runs\<close>

fun udp_handle :: "'a ucallbacks \<Rightarrow> uobj \<Rightarrow> handler \<Rightarrow> 'a ustep" where
  "udp_handle K (Udp c) HError s = udp_onError K c s"
| "udp_handle K (Udp c) HClose s = udp_onClose K c s"
| "udp_handle K (Udp c) HRead s = udp_onRead K c s"
| "udp_handle K (Udp c) HWrite s = udp_onWrite K c s"
| "udp_handle K UPipe HRead s = Inr (s\<lparr>el_pipe := map_option pipe_onRead (el_pipe s)\<rparr>)"
| "udp_handle K UPipe HClose s = Inr (s\<lparr>el_pipe := map_option pipe_onClose (el_pipe s)\<rparr>)"
| "udp_handle K UPipe h s = Inr s"

text \<open>The timers of the application are \<open>after\<close>.\<close>

fun udp_fire :: "'a ucallbacks \<Rightarrow> (nat \<Rightarrow> 'a ustep) \<Rightarrow> timer \<Rightarrow> 'a ustep" where
  "udp_fire K after (After n) s = after n s"
| "udp_fire K after (Every n i) s = after n s"
| "udp_fire K after (Idle e) s = (if e < length (un_entries s) then udp_onTimeout K (un_entries s ! e) s else Inr s)"

datatype udp_event =
    MakeSocket udp_kind sockaddr
  | GiveFds "int list"
  | Delivered nat "urx list" "utx list"
  | CheckIdle nat int
  | InLoop utask
  | FromThread utask "int \<times> int"
  | TurnLoop wait
  | SetBlock nat "bytes option"
  | SetAddr nat "sockaddr option"
  | SetList nat "udp_node list option"

fun udp_step :: "'a ucallbacks \<Rightarrow> (nat \<Rightarrow> 'a ustep) \<Rightarrow> udp_event \<Rightarrow> 'a ustep" where
  "udp_step K after (MakeSocket k sa) s =
     Inr (on_udp (un_next s) (\<lambda>_. newUdpSocket k sa) (s\<lparr>un_next := Suc (un_next s)\<rparr>))"
| "udp_step K after (GiveFds fds) s = Inr (s\<lparr>un_fds := un_fds s @ fds\<rparr>)"
| "udp_step K after (Delivered c rs ts) s = Inr (on_udp c (\<lambda>t. t\<lparr>us_rx := us_rx t @ rs, us_tx := us_tx t @ ts\<rparr>) s)"
| "udp_step K after (CheckIdle c d) s = udp_enableCheckIdleTimeout K d c s"
| "udp_step K after (InLoop t) s = enqueueTask True (udp_task K) UPipe (-1, -1) t s"
| "udp_step K after (FromThread t fds) s = enqueueTask False (udp_task K) UPipe fds t s"
| "udp_step K after (TurnLoop w) s = loop_turn (udp_handle K) (udp_task K) (udp_fire K after) w s"
| "udp_step K after (SetBlock i x) s = Inr (set_block i x s)"
| "udp_step K after (SetAddr i x) s = Inr (set_addr i x s)"
| "udp_step K after (SetList l x) s = Inr (s\<lparr>un_lists := (un_lists s)(l := x)\<rparr>)"

fun udp_run :: "'a ucallbacks \<Rightarrow> (nat \<Rightarrow> 'a ustep) \<Rightarrow> udp_event list \<Rightarrow> 'a ustep" where
  "udp_run K after [] s = Inr s"
| "udp_run K after (e # es) s = bindr (udp_step K after e s) (udp_run K after es)"

definition newUdpNet :: "memory \<Rightarrow> 'a \<Rightarrow> 'a unet" where
  "newUdpNet m a = event_loop.extend newEventLoop \<lparr>un_socks = (\<lambda>_. newUdpSocket UdpServer (SockIn 0 0)), un_next = 0,
     un_entries = [], un_fds = [], un_mem = m, un_lists = (\<lambda>_. None), un_app = a\<rparr>"

section \<open>The invariant\<close>

text \<open>
  What is sent and what waits is what was to be sent, in order, as long as no datagram is empty. The
  receive buffer has room for the largest datagram and is empty, but for the sockets \<open>D\<close> that are in
  their callback. Memory the application keeps as it is in \<open>m\<close> is what was sent from there, and a
  client's datagrams go to its server.
\<close>

definition sent_right :: "memory \<Rightarrow> nat \<Rightarrow> sockaddr \<Rightarrow> udp_node \<times> datagram \<Rightarrow> bool" where
  "sent_right m c own x \<longleftrightarrow>
     (\<forall>ys. data_in m (nd_data (fst x)) (nd_size (fst x)) = Some ys \<longrightarrow> fst (snd x) = ys) \<and>
     (\<forall>sa. addr_in m (nd_addr (fst x)) = Some sa \<longrightarrow> snd (snd x) = sa) \<and>
     (nd_addr (fst x) = OwnAddr c \<longrightarrow> snd (snd x) = own) \<and>
     length (fst (snd x)) = nd_size (fst x)"

definition sock_ok :: "memory \<Rightarrow> nat \<Rightarrow> udp_socket \<Rightarrow> bool" where
  "sock_ok m c t \<longleftrightarrow> buf_ok (us_buf t) \<and> MESSAGE_BUFFER_SIZE \<le> mcap (us_buf t) \<and>
     ((\<forall>nd \<in> set (us_asked t). nd_size nd \<noteq> 0) \<longrightarrow> us_asked t = map fst (us_sent t) @ us_list t) \<and>
     (\<forall>x \<in> set (us_sent t). sent_right m c (us_addr t) x)"

definition no_input :: "udp_socket \<Rightarrow> bool" where
  "no_input t \<longleftrightarrow> tail (us_buf t) = kBufferOffset"

definition mem_kept :: "memory \<Rightarrow> memory \<Rightarrow> bool" where
  "mem_kept m m' \<longleftrightarrow> m_blocks m \<subseteq>\<^sub>m m_blocks m' \<and> m_addrs m \<subseteq>\<^sub>m m_addrs m'"

definition udp_ok :: "memory \<Rightarrow> nat set \<Rightarrow> 'a unet \<Rightarrow> bool" where
  "udp_ok m D s \<longleftrightarrow> mem_kept m (un_mem s) \<and> (\<forall>c. sock_ok m c (un_socks s c) \<and> (c \<notin> D \<longrightarrow> no_input (un_socks s c)))"

text \<open>Changes of a socket that keep its part of the invariant.\<close>

definition sock_step :: "memory \<Rightarrow> nat \<Rightarrow> (udp_socket \<Rightarrow> udp_socket) \<Rightarrow> udp_socket \<Rightarrow> bool" where
  "sock_step m c f t \<longleftrightarrow> (sock_ok m c t \<longrightarrow> sock_ok m c (f t)) \<and> us_buf (f t) = us_buf t"

lemma socks_on_udp [simp]: "un_socks (on_udp c f s) d = (if d = c then f (un_socks s c) else un_socks s d)"
  by (simp add: on_udp_def)

lemma mem_on_udp [simp]: "un_mem (on_udp c f s) = un_mem s"
  by (simp add: on_udp_def)

lemma mem_set_udp [simp]: "un_mem (set_udp c r) = un_mem (snd r)"
  by (simp add: set_udp_def)

lemma udp_ok_cong: "un_socks s' = un_socks s \<Longrightarrow> un_mem s' = un_mem s \<Longrightarrow> udp_ok m D s' = udp_ok m D s"
  by (simp add: udp_ok_def)

lemma udp_ok_step: "udp_ok m D s \<Longrightarrow> sock_step m c f (un_socks s c) \<Longrightarrow> udp_ok m D (on_udp c f s)"
  by (auto simp: udp_ok_def sock_step_def no_input_def)

lemma sock_steps [simp]: "sock_step m c (\<lambda>t. t) t"
  "sock_step m c (\<lambda>t. t\<lparr>us_closed := b\<rparr>) t" "sock_step m c (\<lambda>t. t\<lparr>us_connected := b\<rparr>) t"
  "sock_step m c (\<lambda>t. t\<lparr>us_idle := d, us_entry := e\<rparr>) t" "sock_step m c (\<lambda>t. t\<lparr>us_rx := rs\<rparr>) t"
  "sock_step m c (\<lambda>t. t\<lparr>us_tx := ts\<rparr>) t" "sock_step m c (\<lambda>t. t\<lparr>us_rx := us_rx t @ rs, us_tx := us_tx t @ ts\<rparr>) t"
  "sock_step m c (\<lambda>t. t\<lparr>ev_fd := fd\<rparr>) t" "sock_step m c (\<lambda>t. t\<lparr>ev_fd := fd, us_connected := b\<rparr>) t"
  "sock_step m c (\<lambda>t. t\<lparr>us_list := us_list t @ ds, us_asked := us_asked t @ ds\<rparr>) t"
  by (auto simp: sock_step_def sock_ok_def)

lemma udp_ok_set_udp:
  assumes "udp_ok m D s" "un_socks (snd r) = un_socks s" "un_mem (snd r) = un_mem s"
    "fst r = (un_socks s c)\<lparr>ev_fd := x, ev_mask := y\<rparr>"
  shows "udp_ok m D (set_udp c r)"
  using assms by (auto simp: udp_ok_def set_udp_def sock_ok_def no_input_def)

lemma read_in:
  assumes "read_node s nd = Inr d" "mem_kept m (un_mem s)"
  shows "sent_right m c (us_addr (un_socks s c)) (nd, d)"
proof -
  have cut: "cut off n xs = Some ys \<Longrightarrow> length ys = n" for off n xs and ys :: bytes
    by (auto simp: cut_def split: if_splits)
  have d: "data_at s (nd_data nd) (nd_size nd) = Some (fst d)" "addr_at s (nd_addr nd) = Some (snd d)"
    using assms(1) by (auto simp: read_node_def split: option.splits)
  have k: "m_blocks m i = Some x \<Longrightarrow> m_blocks (un_mem s) i = Some x" "m_addrs m i = Some y \<Longrightarrow> m_addrs (un_mem s) i = Some y"
    for i x y using assms(2) by (auto simp: mem_kept_def map_le_def dom_def)
  have "length (fst d) = nd_size nd" using d(1) cut by (cases "nd_data nd") (auto split: Option.bind_splits)
  moreover have "\<forall>ys. data_in m (nd_data nd) (nd_size nd) = Some ys \<longrightarrow> fst d = ys"
    using d(1) k(1) by (cases "nd_data nd") (auto split: Option.bind_splits)
  moreover have "(\<forall>sa. addr_in m (nd_addr nd) = Some sa \<longrightarrow> snd d = sa) \<and>
      (nd_addr nd = OwnAddr c \<longrightarrow> snd d = us_addr (un_socks s c))"
    using d(2) k(2) by (cases "nd_addr nd") auto
  ultimately show ?thesis by (simp add: sent_right_def)
qed

lemma udp_ok_enable: "udp_ok m D s \<Longrightarrow> udp_ok m D (udp_enableWriting c en s)"
  unfolding udp_enableWriting_def
  by (rule udp_ok_set_udp [where s = s and x = "ev_fd (un_socks s c)"
        and y = "ev_mask (fst (snd (enableWriting en (un_socks s c) s)))"])
    (simp_all add: enableWriting_def enable_def Let_def)

lemma udp_ok_add: "udp_ok m D s \<Longrightarrow> udp_ok m D (set_udp c (addEvent ob (un_socks s c) s))"
  by (rule udp_ok_set_udp [where s = s and x = "ev_fd (un_socks s c)" and y = "ev_mask (fst (addEvent ob (un_socks s c) s))"])
    (simp_all add: addEvent_def Let_def)

lemma udp_ok_event_close: "udp_ok m D s \<Longrightarrow> udp_ok m D (set_udp c (event_close (un_socks s c) s))"
  by (rule udp_ok_set_udp [where s = s and x = "ev_fd (fst (event_close (un_socks s c) s))" and y = "ev_mask (un_socks s c)"])
    (simp_all add: event_close_def)

lemma udp_ok_del: "udp_ok m D s \<Longrightarrow> udp_ok m D (delEvent e s)"
  by (simp add: udp_ok_def delEvent_def)

lemma udp_ok_wheel: "udp_ok m D (s\<lparr>el_wheel := w\<rparr>) = udp_ok m D s"
  by (simp add: udp_ok_def)

lemma udp_ok_queue:
  "udp_ok m D (on_udp c (\<lambda>t. t\<lparr>us_list := us_list t @ [d]\<rparr>) s) \<Longrightarrow> udp_ok m D (udp_queue d c s)"
  by (simp add: udp_queue_def udp_ok_enable)

lemma udp_ok_extend: "udp_extendLife c s = Inr s' \<Longrightarrow> un_socks s' = un_socks s \<and> un_mem s' = un_mem s"
  by (auto simp: udp_extendLife_def loop_insertEntry_def bindr_eq_Inr split: option.splits if_splits)

lemma new_udp_net_ok: "udp_ok m D (newUdpNet m a)"
  by (simp add: udp_ok_def newUdpNet_def newEventLoop_def event_loop.defs newUdpSocket_def sock_ok_def no_input_def
      mem_kept_def MESSAGE_BUFFER_SIZE_def) (simp add: newMsgBuffer_def)

lemma socks_wakeUp [simp]: "un_socks (wakeUp po fds s) = un_socks s"
  by (simp add: wakeUp_def initPipe_def addEvent_def Let_def split: option.splits)

lemma mem_wakeUp [simp]: "un_mem (wakeUp po fds s) = un_mem s"
  by (simp add: wakeUp_def initPipe_def addEvent_def Let_def split: option.splits)

text \<open>After its callback a socket's buffer is empty again.\<close>

lemma udp_ok_emptied:
  assumes "udp_ok m (insert c D) s"
  shows "udp_ok m D (on_udp c (\<lambda>t. t\<lparr>us_buf := retrieveAll (us_buf t)\<rparr>) s)"
proof -
  have b: "buf_ok (us_buf (un_socks s c))" using assms by (simp add: udp_ok_def sock_ok_def)
  then have "buf_ok (retrieveAll (us_buf (un_socks s c)))" unfolding retrieveAll_eq [OF b] by (simp add: buf_ok_def)
  then show ?thesis
    using assms retrieveAll_eq [OF b] by (auto simp: udp_ok_def sock_ok_def no_input_def)
qed

text \<open>A datagram the kernel may deliver fits.\<close>

lemma fits_whole:
  assumes "udp_ok m D s" "c \<notin> D" "length ys \<le> MESSAGE_BUFFER_SIZE"
  shows "length ys \<le> writableBytes (us_buf (un_socks s c))"
    "udp_ok m (insert c D) (on_udp c (\<lambda>t. t\<lparr>us_buf := store_at_tail (us_buf (un_socks s c)) ys\<rparr>) s)"
    "contents (store_at_tail (us_buf (un_socks s c)) ys) = ys"
proof -
  have b: "buf_ok (us_buf (un_socks s c))" "MESSAGE_BUFFER_SIZE \<le> mcap (us_buf (un_socks s c))"
      "tail (us_buf (un_socks s c)) = kBufferOffset"
    using assms(1,2) by (auto simp: udp_ok_def sock_ok_def no_input_def)
  show fits: "length ys \<le> writableBytes (us_buf (un_socks s c))"
    using b assms(3) by (simp add: writableBytes_def buf_ok_def)
  then show "udp_ok m (insert c D) (on_udp c (\<lambda>t. t\<lparr>us_buf := store_at_tail (us_buf (un_socks s c)) ys\<rparr>) s)"
    using assms(1) b by (auto simp: udp_ok_def sock_ok_def store_at_tail_ok) (simp_all add: store_at_tail_def)
  have "contents (us_buf (un_socks s c)) = []" using b by (simp add: contents_def buf_ok_def)
  then show "contents (store_at_tail (us_buf (un_socks s c)) ys) = ys" using store_at_tail_contents [OF b(1) fits] by simp
qed

text \<open>The application may use memory that is not part of \<open>m\<close> as it likes.\<close>

fun keeps_memory :: "memory \<Rightarrow> udp_event \<Rightarrow> bool" where
  "keeps_memory m (SetBlock i x) = (m_blocks m i = None \<or> m_blocks m i = x)"
| "keeps_memory m (SetAddr i x) = (m_addrs m i = None \<or> m_addrs m i = x)"
| "keeps_memory m e = True"

lemma udp_ok_set_block: "udp_ok m D s \<Longrightarrow> m_blocks m i = None \<or> m_blocks m i = x \<Longrightarrow> udp_ok m D (set_block i x s)"
  by (auto simp: udp_ok_def set_block_def mem_kept_def map_le_def dom_def)

lemma udp_ok_set_addr: "udp_ok m D s \<Longrightarrow> m_addrs m i = None \<or> m_addrs m i = x \<Longrightarrow> udp_ok m D (set_addr i x s)"
  by (auto simp: udp_ok_def set_addr_def mem_kept_def map_le_def dom_def)

text \<open>Sending keeps it, whatever the kernel answers.\<close>

lemma sendInLoop_list_keeps: "udp_sendInLoop_list l c s = Inr s' \<Longrightarrow> udp_ok m D s \<Longrightarrow> udp_ok m D s'"
  by (auto simp: udp_sendInLoop_list_def Let_def split: option.splits if_splits intro!: udp_ok_enable udp_ok_step)

lemma udp_sendInLoop_keeps:
  assumes "udp_sendInLoop nd c s = Inr s'" "udp_ok m D s"
  shows "udp_ok m D s'"
proof -
  have twice: "on_udp c g (on_udp c f s) = on_udp c (\<lambda>t. g (f t)) s" for f g by (simp add: on_udp_def)
  have queued: "udp_ok m D (on_udp c (\<lambda>t. t\<lparr>us_asked := us_asked t @ [nd], us_list := us_list t @ [nd]\<rparr>) s)"
    "udp_ok m D (on_udp c (\<lambda>t. t\<lparr>us_asked := us_asked t @ [nd], us_tx := as, us_list := us_list t @ [nd]\<rparr>) s)" for as
    using assms(2) by (auto simp: sock_step_def sock_ok_def intro!: udp_ok_step)
  have taken: "udp_ok m D (on_udp c (\<lambda>t. t\<lparr>us_asked := us_asked t @ [nd], us_tx := as, us_sent := us_sent t @ [(nd, d)]\<rparr>) s)"
    "nd_size nd = 0 \<Longrightarrow> udp_ok m D (on_udp c (\<lambda>t. t\<lparr>us_asked := us_asked t @ [nd], us_tx := as,
       us_sent := us_sent t @ [(nd, d)], us_list := us_list t @ [nd]\<rparr>) s)"
    if "us_list (un_socks s c) = []" "read_node (on_udp c (\<lambda>t. t\<lparr>us_asked := us_asked t @ [nd]\<rparr>) s) nd = Inr d" for as d
  proof -
    have "mem_kept m (un_mem s)" using assms(2) by (simp add: udp_ok_def)
    then have "sent_right m c (us_addr (un_socks s c)) (nd, d)" using read_in [OF that(2), of m c] by simp
    then have "sock_step m c (\<lambda>t. t\<lparr>us_asked := us_asked t @ [nd], us_tx := as, us_sent := us_sent t @ [(nd, d)]\<rparr>) (un_socks s c)"
      "nd_size nd = 0 \<Longrightarrow> sock_step m c (\<lambda>t. t\<lparr>us_asked := us_asked t @ [nd], us_tx := as,
         us_sent := us_sent t @ [(nd, d)], us_list := us_list t @ [nd]\<rparr>) (un_socks s c)"
      using that(1) by (auto simp: sock_step_def sock_ok_def)
    then show "udp_ok m D (on_udp c (\<lambda>t. t\<lparr>us_asked := us_asked t @ [nd], us_tx := as, us_sent := us_sent t @ [(nd, d)]\<rparr>) s)"
      "nd_size nd = 0 \<Longrightarrow> udp_ok m D (on_udp c (\<lambda>t. t\<lparr>us_asked := us_asked t @ [nd], us_tx := as,
         us_sent := us_sent t @ [(nd, d)], us_list := us_list t @ [nd]\<rparr>) s)"
      using assms(2) by (auto intro: udp_ok_step)
  qed
  show ?thesis
    using assms(1) queued taken
    by (auto simp: udp_sendInLoop_def Let_def twice bindr_eq_Inr intro!: udp_ok_queue split: list.splits utx.splits if_splits)
qed

section \<open>What uses the sockets\<close>

text \<open>Callbacks and timers of an application that keep the invariant, whichever sockets are in one.\<close>

locale udp_user =
  fixes m :: memory and K :: "'a ucallbacks" and after :: "nat \<Rightarrow> 'a ustep"
  assumes message_keeps: "uc_message K = Some f \<Longrightarrow> udp_ok m D s \<Longrightarrow> f c ad s = Inr s' \<Longrightarrow> udp_ok m D s'"
    and notify_keeps: "cb = uc_complete K \<or> cb = uc_close K \<Longrightarrow> udp_ok m D s \<Longrightarrow> ucall cb c s = Inr s' \<Longrightarrow> udp_ok m D s'"
    and connected_keeps: "uc_connected K = Some g \<Longrightarrow> udp_ok m D s \<Longrightarrow> g c b s = Inr s' \<Longrightarrow> udp_ok m D s'"
    and after_keeps: "udp_ok m D s \<Longrightarrow> after n s = Inr s' \<Longrightarrow> udp_ok m D s'"
begin

lemma base_close_keeps:
  assumes "udp_base_close K c s = Inr s'" "udp_ok m D s"
  shows "udp_ok m D s'"
proof (cases "us_closed (un_socks s c)")
  case False
  let ?s = "on_udp c (\<lambda>t. t\<lparr>us_closed := True\<rparr>) s"
  obtain s1 where s1: "ucall (uc_close K) c ?s = Inr s1" "s' = set_udp c (event_close (un_socks s1 c) s1)"
    using assms(1) False by (auto simp: udp_base_close_def bindr_eq_Inr)
  have "udp_ok m D ?s" using assms(2) by (intro udp_ok_step) simp_all
  then have "udp_ok m D s1" using s1(1) notify_keeps by blast
  then show ?thesis unfolding s1(2) by (rule udp_ok_event_close)
qed (use assms in \<open>simp add: udp_base_close_def\<close>)

lemma udp_close_keeps:
  assumes "udp_onClose K c s = Inr s'" "udp_ok m D s"
  shows "udp_ok m D s'"
proof -
  let ?s = "on_udp c (\<lambda>t. t\<lparr>us_connected := False\<rparr>) s"
  have "udp_ok m D ?s" using assms(2) by (intro udp_ok_step) simp_all
  then have "udp_ok m D (delEvent (un_socks ?s c) ?s)" by (rule udp_ok_del)
  then show ?thesis
    using assms base_close_keeps by (auto simp: udp_onClose_def udp_client_close_def Let_def split: udp_kind.splits if_splits)
qed

lemma idle_keeps:
  assumes "udp_enableCheckIdleTimeout K d c s = Inr s'" "udp_ok m D s"
  shows "udp_ok m D s'"
proof -
  let ?s1 = "on_udp c (\<lambda>t. t\<lparr>us_idle := d, us_entry := Some (length (un_entries s))\<rparr>) (s\<lparr>un_entries := un_entries s @ [c]\<rparr>)"
  have ok: "udp_ok m D ?s1" using assms(2) by (intro udp_ok_step) (simp_all add: udp_ok_def)
  obtain w where "s' = ?s1\<lparr>el_wheel := w\<rparr> \<or> udp_onClose K c (?s1\<lparr>el_wheel := w\<rparr>) = Inr s'"
    using assms(1)
    by (auto simp: udp_enableCheckIdleTimeout_def loop_insertEntry_def udp_onTimeout_def Let_def bindr_eq_Inr
        split: if_splits)
  then show ?thesis using udp_close_keeps ok udp_ok_wheel by blast
qed

lemma read_loop_keeps:
  "udp_read_loop K c rs s = Inr s' \<Longrightarrow> udp_ok m D s \<Longrightarrow> c \<notin> D \<Longrightarrow> udp_ok m D s'"
proof (induction rs arbitrary: s)
  case (Cons r rs)
  show ?case
  proof (cases "ev_fd (un_socks s c) < 0 \<or> r = RecvFail")
    case False
    then obtain xs sa where r: "r = Datagram xs sa" by (cases r) auto
    let ?ys = "take MESSAGE_BUFFER_SIZE xs"
    show ?thesis
    proof (cases "xs = []")
      case ne: False
      let ?s1 = "on_udp c (\<lambda>t. t\<lparr>us_buf := store_at_tail (us_buf (un_socks s c)) ?ys\<rparr>) s"
      note st = fits_whole [OF Cons.prems(2,3), of ?ys]
      obtain s2 where s2: "ucall (map_option (\<lambda>f d. f d (peer_address (uc_ntop K) (uc_ntop6 K) sa)) (uc_message K)) c ?s1 = Inr s2"
          "udp_read_loop K c rs (on_udp c (\<lambda>t. t\<lparr>us_buf := retrieveAll (us_buf t)\<rparr>) s2) = Inr s'"
        using Cons.prems(1) False r ne by (auto simp: Let_def bindr_eq_Inr split: if_splits)
      have "udp_ok m (insert c D) s2"
        using s2(1) st(2) message_keeps by (auto simp: ucall_def split: option.splits)
      then show ?thesis using Cons.IH [OF s2(2) udp_ok_emptied] Cons.prems(3) by blast
    qed (use Cons False r in auto)
  qed (use Cons.prems udp_close_keeps in \<open>auto split: if_splits\<close>)
qed (use udp_close_keeps in \<open>auto split: if_splits\<close>)

lemma write_loop_keeps: "udp_write_loop K c as s = Inr s' \<Longrightarrow> udp_ok m D s \<Longrightarrow> udp_ok m D s'"
proof (induction as arbitrary: s)
  case (Cons a as)
  show ?case
  proof (cases "us_list (un_socks s c) = [] \<or> a = SendFail")
    case False
    then have a: "a = Sent" "us_list (un_socks s c) \<noteq> []" by (cases a; simp)+
    let ?nd = "hd (us_list (un_socks s c))" and ?f = "\<lambda>t. t\<lparr>us_tx := as\<rparr>"
    let ?g = "\<lambda>d t. t\<lparr>us_sent := us_sent t @ [(?nd, d)], us_list := (if nd_size ?nd = 0 then us_list t else tl (us_list t))\<rparr>"
    obtain d where d: "read_node s ?nd = Inr d" "udp_write_loop K c as (on_udp c (?g d) (on_udp c ?f s)) = Inr s'"
      using Cons.prems(1) a by (auto simp: Let_def bindr_eq_Inr)
    have "mem_kept m (un_mem s)" using Cons.prems(2) by (simp add: udp_ok_def)
    then have right: "sent_right m c (us_addr (un_socks s c)) (?nd, d)" using read_in [OF d(1)] by blast
    have "udp_ok m D (on_udp c ?f s)" using Cons.prems(2) by (intro udp_ok_step) simp_all
    moreover have "sock_step m c (?g d) (un_socks (on_udp c ?f s) c)"
    proof (cases "\<forall>nd \<in> set (us_asked (un_socks s c)). nd_size nd \<noteq> 0")
      case True
      then have "sock_ok m c (un_socks s c) \<Longrightarrow> us_asked (un_socks s c) = map fst (us_sent (un_socks s c)) @ us_list (un_socks s c)"
        by (simp add: sock_ok_def)
      then show ?thesis using a(2) right True by (cases "us_list (un_socks s c)") (auto simp: sock_step_def sock_ok_def)
    qed (use right in \<open>auto simp: sock_step_def sock_ok_def\<close>)
    ultimately have "udp_ok m D (on_udp c (?g d) (on_udp c ?f s))" by (rule udp_ok_step)
    then show ?thesis using Cons.IH d(2) by blast
  next
    case True
    have "udp_ok m D (on_udp c (\<lambda>t. t\<lparr>us_tx := as\<rparr>) s)" using Cons.prems(2) by (intro udp_ok_step) simp_all
    moreover have "ucall (uc_complete K) c s = Inr s' \<or> udp_onClose K c (on_udp c (\<lambda>t. t\<lparr>us_tx := as\<rparr>) s) = Inr s'"
      using Cons.prems(1) True by (auto simp: Let_def split: if_splits)
    ultimately show ?thesis using udp_close_keeps notify_keeps [OF disjI1 [OF refl] Cons.prems(2)] by blast
  qed
next
  case Nil
  then show ?case using notify_keeps [OF disjI1 [OF refl] Nil.prems(2)] by (simp split: if_splits)
qed

lemma task_keeps: "udp_task K t s = Inr s' \<Longrightarrow> udp_ok m D s \<Longrightarrow> udp_ok m D s'"
proof (cases t)
  case (UConnect c)
  assume a: "udp_task K t s = Inr s'" "udp_ok m D s"
  show ?thesis
  proof (cases "un_fds s")
    case (Cons fd fds)
    let ?s1 = "on_udp c (\<lambda>t. t\<lparr>ev_fd := fd, us_connected := True\<rparr>) (s\<lparr>un_fds := fds\<rparr>)"
    have "udp_ok m D ?s1" using a(2) by (intro udp_ok_step) (simp_all add: udp_ok_def)
    then have "udp_ok m D (set_udp c (addEvent (Udp c) (un_socks ?s1 c) ?s1))" by (rule udp_ok_add)
    then show ?thesis
      using a(1) UConnect Cons connected_keeps by (auto simp: udp_connectInLoop_def Let_def ucall_def split: option.splits)
  next
    case Nil
    have "udp_ok m D (on_udp c (\<lambda>t. t\<lparr>ev_fd := -1\<rparr>) s)" using a(2) by (intro udp_ok_step) simp_all
    then show ?thesis using a(1) UConnect Nil udp_close_keeps by (auto simp: udp_connectInLoop_def)
  qed
next
  case (UOpen c)
  assume a: "udp_task K t s = Inr s'" "udp_ok m D s"
  show ?thesis
  proof (cases "un_fds s")
    case (Cons fd fds)
    let ?s1 = "on_udp c (\<lambda>t. t\<lparr>ev_fd := fd\<rparr>) (s\<lparr>un_fds := fds\<rparr>)"
    have "udp_ok m D ?s1" using a(2) by (intro udp_ok_step) (simp_all add: udp_ok_def)
    then have "udp_ok m D (set_udp c (addEvent (Udp c) (un_socks ?s1 c) ?s1))" by (rule udp_ok_add)
    then show ?thesis using a(1) UOpen Cons by (auto simp: udp_open_def Let_def)
  next
    case Nil
    have "udp_ok m D (on_udp c (\<lambda>t. t\<lparr>ev_fd := -1\<rparr>) s)" using a(2) by (intro udp_ok_step) simp_all
    then show ?thesis using a(1) UOpen Nil udp_close_keeps by (auto simp: udp_open_def)
  qed
qed (auto simp: udp_stop_def intro: udp_close_keeps udp_ok_del udp_sendInLoop_keeps sendInLoop_list_keeps)

sublocale progress: loop_client "udp_ok m {}" "udp_handle K" "udp_task K" "udp_fire K after"
proof
  show "udp_ok m {} s'" if "udp_ok m {} s" "udp_handle K ob h s = Inr s'" for s ob h s'
  proof (cases ob)
    case (Udp c)
    have "udp_ok m {} s1" if "udp_extendLife c s = Inr s1" for s1
      using udp_ok_extend [OF that] \<open>udp_ok m {} s\<close> udp_ok_cong by blast
    moreover from this have "udp_ok m {} (on_udp c (\<lambda>t. t\<lparr>us_rx := []\<rparr>) s1)" if "udp_extendLife c s = Inr s1" for s1
      using that by (intro udp_ok_step) simp_all
    ultimately show ?thesis
      using that Udp
      by (cases h) (auto simp: udp_onError_def udp_onRead_def udp_onWrite_def bindr_eq_Inr split: if_splits
          intro: udp_close_keeps dest: read_loop_keeps write_loop_keeps)
  qed (use that in \<open>cases h; auto simp: udp_ok_def\<close>)
  show "udp_ok m {} s'" if "udp_ok m {} s" "udp_fire K after tm s = Inr s'" for s tm s'
    using that by (cases tm) (auto simp: udp_onTimeout_def split: if_splits intro: after_keeps udp_close_keeps)
  show "udp_ok m {} s'" if "udp_ok m {} s" "udp_task K t s = Inr s'" for s t s' using task_keeps that by blast
qed (simp_all add: udp_ok_def)

lemma udp_step_keeps:
  "udp_step K after e s = Inr s' \<Longrightarrow> udp_ok m {} s \<Longrightarrow> keeps_memory m e \<Longrightarrow> udp_ok m {} s'"
proof (cases e)
  case (MakeSocket k sa)
  assume "udp_step K after e s = Inr s'" "udp_ok m {} s"
  moreover have "sock_ok m (un_next s) (newUdpSocket k sa) \<and> no_input (newUdpSocket k sa)"
    by (simp add: newUdpSocket_def sock_ok_def no_input_def MESSAGE_BUFFER_SIZE_def) (simp add: newMsgBuffer_def)
  ultimately show ?thesis using MakeSocket by (auto simp: udp_ok_def)
next
  case (FromThread t fds)
  then show "udp_step K after e s = Inr s' \<Longrightarrow> udp_ok m {} s \<Longrightarrow> udp_ok m {} s'"
    by (auto simp: enqueueTask_def udp_ok_def)
next
  case (SetBlock i x)
  then show "udp_step K after e s = Inr s' \<Longrightarrow> udp_ok m {} s \<Longrightarrow> keeps_memory m e \<Longrightarrow> udp_ok m {} s'"
    by (auto simp: udp_ok_set_block)
next
  case (SetAddr i x)
  then show "udp_step K after e s = Inr s' \<Longrightarrow> udp_ok m {} s \<Longrightarrow> keeps_memory m e \<Longrightarrow> udp_ok m {} s'"
    by (auto simp: udp_ok_set_addr)
next
  case (SetList l x)
  then show "udp_step K after e s = Inr s' \<Longrightarrow> udp_ok m {} s \<Longrightarrow> udp_ok m {} s'" by (auto simp: udp_ok_def)
next
  case (GiveFds fds)
  then show "udp_step K after e s = Inr s' \<Longrightarrow> udp_ok m {} s \<Longrightarrow> udp_ok m {} s'" by (auto simp: udp_ok_def)
qed (auto simp: enqueueTask_def simp del: loop_turn.simps dest: idle_keeps task_keeps progress.turn_keeps intro: udp_ok_step)

lemma udp_run_keeps:
  "udp_run K after es s = Inr s' \<Longrightarrow> udp_ok m {} s \<Longrightarrow> \<forall>e \<in> set es. keeps_memory m e \<Longrightarrow> udp_ok m {} s'"
  by (induction es arbitrary: s) (auto simp: bindr_eq_Inr dest: udp_step_keeps)

end

section \<open>An echo server and a client\<close>

text \<open>
  The callback of \<open>test/network/test_udpserver.cpp\<close>: it sends back what it received, from the receive
  buffer itself, to an address in a variable \<open>slot\<close> of its own, which is gone when it returns.
\<close>

definition echo_message ::
  "nat \<Rightarrow> (string \<Rightarrow> u32 option) \<Rightarrow> (string \<Rightarrow> bytes option) \<Rightarrow> nat \<Rightarrow> inet_addr \<Rightarrow> 'a ustep" where
  "echo_message slot pton pton6 c ad s =
     (let s1 = set_addr slot (Some (getSockAddr pton pton6 ad)) s; b = us_buf (un_socks s1 c) in
      bindr (udp_send send_now (InBuffer c (head b)) (readableBytes b) (AddrVar slot) c s1) (\<lambda>s2.
        Inr (set_addr slot None (on_udp c (\<lambda>t. t\<lparr>us_buf := retrieveAll (us_buf t)\<rparr>) s2))))"

definition echo_server ::
  "nat \<Rightarrow> (string \<Rightarrow> u32 option) \<Rightarrow> (string \<Rightarrow> bytes option) \<Rightarrow> (u32 \<Rightarrow> string) \<Rightarrow> (bytes \<Rightarrow> string) \<Rightarrow> 'a ucallbacks" where
  "echo_server slot pton pton6 ntop ntop6 = \<lparr>uc_message = Some (echo_message slot pton pton6), uc_complete = None, uc_close = None,
     uc_connected = None, uc_ntop = ntop, uc_ntop6 = ntop6\<rparr>"

text \<open>
  The client of \<open>test/network/test_udpclient.cpp\<close>: when it is connected it sends a string literal, the
  eleven bytes of the block \<open>lit\<close>, which stays.
\<close>

definition hello_client :: "nat \<Rightarrow> (u32 \<Rightarrow> string) \<Rightarrow> (bytes \<Rightarrow> string) \<Rightarrow> 'a ucallbacks" where
  "hello_client lit ntop ntop6 =
     \<lparr>uc_message = Some (\<lambda>c ad s. Inr (on_udp c (\<lambda>t. t\<lparr>us_buf := retrieveAll (us_buf t)\<rparr>) s)), uc_complete = None,
      uc_close = None, uc_connected = Some (\<lambda>c up s. if up then udp_client_send send_now (InBlock lit 0) 11 c s else Inr s),
      uc_ntop = ntop, uc_ntop6 = ntop6\<rparr>"

lemma udp_ok_all: "udp_ok m D s \<Longrightarrow> udp_ok m (insert c D) s"
  by (simp add: udp_ok_def)

interpretation echo: udp_user "m\<lparr>m_addrs := (m_addrs m)(slot := None)\<rparr>" "echo_server slot pton pton6 ntop ntop6" "\<lambda>_. Inr"
  for m slot pton pton6 ntop ntop6
proof
  let ?m = "m\<lparr>m_addrs := (m_addrs m)(slot := None)\<rparr>"
  fix f c ad D and s s' :: "'a unet"
  assume a: "uc_message (echo_server slot pton pton6 ntop ntop6) = Some f" "udp_ok ?m D s" "f c ad s = Inr s'"
  let ?s = "set_addr slot (Some (getSockAddr pton pton6 ad)) s"
  obtain nd s2 where s2: "udp_sendInLoop nd c ?s = Inr s2"
      "s' = set_addr slot None (on_udp c (\<lambda>t. t\<lparr>us_buf := retrieveAll (us_buf t)\<rparr>) s2)"
    using a(1,3) by (auto simp: echo_server_def echo_message_def udp_send_def Let_def bindr_eq_Inr)
  have "udp_ok ?m D ?s" using a(2) by (intro udp_ok_set_addr) simp_all
  then have "udp_ok ?m (insert c D) s2" using udp_sendInLoop_keeps [OF s2(1)] udp_ok_all by blast
  then show "udp_ok ?m D s'" unfolding s2(2) by (intro udp_ok_set_addr udp_ok_emptied) simp_all
qed (auto simp: echo_server_def ucall_def)

interpretation hello: udp_user m "hello_client lit ntop ntop6" "\<lambda>_. Inr" for m lit ntop ntop6
proof
  fix f c ad D and s s' :: "'a unet"
  assume "uc_message (hello_client lit ntop ntop6) = Some f" "udp_ok m D s" "f c ad s = Inr s'"
  then show "udp_ok m D s'" using udp_ok_emptied [OF udp_ok_all] by (auto simp: hello_client_def)
qed (auto simp: hello_client_def ucall_def udp_client_send_def udp_send_def split: if_splits intro: udp_sendInLoop_keeps)

section \<open>Properties\<close>

text \<open>
  C23: datagrams leave in the order in which they were to be sent, and with what the application keeps
  for them. After every run without a fault of UDP servers and clients whose callbacks keep the
  sockets' data, the nodes that were given to a socket to send are those the kernel took followed by
  those that wait, nothing lost and nothing twice, as long as no datagram was empty. Each that was
  taken has the size of its node. Where the data or the address is in memory that the application, in
  its callbacks and outside of them, leaves as it is in \<open>m\<close>, it is what was sent, and what a client
  sends to its server's address goes there. Of data and addresses elsewhere, as in a receive buffer
  or in a variable that is reused, nothing is said: they are what is there when the kernel takes them.
\<close>

theorem datagrams_in_order:
  assumes "udp_user m K after" "udp_run K after es (newUdpNet m a) = Inr s" "\<forall>e \<in> set es. keeps_memory m e"
    and "\<forall>nd \<in> set (us_asked (un_socks s c)). nd_size nd \<noteq> 0"
  shows "us_asked (un_socks s c) = map fst (us_sent (un_socks s c)) @ us_list (un_socks s c) \<and>
    (\<forall>(nd, xs, sa) \<in> set (us_sent (un_socks s c)). length xs = nd_size nd \<and>
       (\<forall>ys. data_in m (nd_data nd) (nd_size nd) = Some ys \<longrightarrow> xs = ys) \<and>
       (\<forall>sb. addr_in m (nd_addr nd) = Some sb \<longrightarrow> sa = sb) \<and>
       (nd_addr nd = OwnAddr c \<longrightarrow> sa = us_addr (un_socks s c)))"
proof -
  have "udp_ok m {} s" using udp_user.udp_run_keeps [OF assms(1,2) new_udp_net_ok assms(3)] .
  then show ?thesis using assms(4) by (fastforce simp: udp_ok_def sock_ok_def sent_right_def)
qed

definition demo_memory :: memory where
  "demo_memory = \<lparr>m_blocks = [0 \<mapsto> [104, 101, 108, 108, 111, 32, 119, 111, 114, 108, 100]], m_addrs = (\<lambda>_. None)\<rparr>"

theorem datagrams_in_order_witness:
  "\<exists>s nd. udp_run (hello_client 0 (\<lambda>_. []) (\<lambda>_. [])) (\<lambda>_. Inr)
       [MakeSocket UdpClient (SockIn 9 5), GiveFds [7], Delivered 0 [] [Sent], InLoop (UConnect 0),
        SetBlock 1 (Some [2]), InLoop (USend 0 \<lparr>nd_data = InBlock 1 0, nd_size = 1, nd_addr = OwnAddr 0\<rparr>), SetBlock 1 None]
       (newUdpNet demo_memory ()) = Inr s \<and>
     us_sent (un_socks s 0) = [(nd, [104, 101, 108, 108, 111, 32, 119, 111, 114, 108, 100], SockIn 9 5)] \<and>
     length (us_list (un_socks s 0)) = 1 \<and>
     us_asked (un_socks s 0) = map fst (us_sent (un_socks s 0)) @ us_list (un_socks s 0)"
proof -
  let ?K = "hello_client 0 (\<lambda>_. []) (\<lambda>_. []) :: unit ucallbacks"
  let ?es = "[MakeSocket UdpClient (SockIn 9 5), GiveFds [7], Delivered 0 [] [Sent], InLoop (UConnect 0),
        SetBlock 1 (Some [2]), InLoop (USend 0 \<lparr>nd_data = InBlock 1 0, nd_size = 1, nd_addr = OwnAddr 0\<rparr>), SetBlock 1 None]"
  obtain s nd where s: "udp_run ?K (\<lambda>_. Inr) ?es (newUdpNet demo_memory ()) = Inr s"
      "us_sent (un_socks s 0) = [(nd, [104, 101, 108, 108, 111, 32, 119, 111, 114, 108, 100], SockIn 9 5)]"
      "length (us_list (un_socks s 0)) = 1" "\<forall>nd \<in> set (us_asked (un_socks s 0)). nd_size nd \<noteq> 0"
    by (simp add: newUdpNet_def newEventLoop_def event_loop.defs enqueueTask_def udp_connectInLoop_def newUdpSocket_def
        hello_client_def udp_client_send_def udp_send_def ucall_def read_node_def cut_def demo_memory_def set_block_def
        addEvent_def set_udp_def udp_sendInLoop_def udp_queue_def udp_enableWriting_def enableWriting_def enable_def
        epoll_defs on_udp_def Let_def)
  have "\<forall>e \<in> set ?es. keeps_memory demo_memory e" by (simp add: demo_memory_def)
  then show ?thesis
    using datagrams_in_order [OF hello.udp_user_axioms s(1) _ s(4)] s by blast
qed

text \<open>
  The answer of the echo server that has to wait is lost: its node points to the address variable of a
  callback that has returned. When the kernel can take it, that memory is read.
\<close>

lemma echo_answer_dangles:
  assumes "us_list (un_socks s c) = []" "us_tx (un_socks s c) = []" "us_entry (un_socks s c) = None"
    "\<not> us_closed (un_socks s c)"
  shows "\<exists>s'. echo_message slot pton pton6 c ad s = Inr s' \<and> length (us_list (un_socks s' c)) = 1 \<and>
    udp_onWrite K c (on_udp c (\<lambda>t. t\<lparr>us_tx := [Sent]\<rparr>) s') = Inl OutOfBounds"
  using assms
  by (simp add: echo_message_def udp_send_def udp_sendInLoop_def udp_queue_def udp_enableWriting_def enableWriting_def
      enable_def set_udp_def set_addr_def udp_onWrite_def udp_extendLife_def read_node_def Let_def
      on_udp_def split: option.splits)

text \<open>
  C39: a UDP server that ends with an error takes its descriptor with it. The entry in the loop's table
  stays, so that a socket that is opened next and is given the same number by the system is not added:
  the kernel is never asked to watch it, and it never receives anything.
\<close>

theorem failed_server_blocks_descriptor:
  assumes "us_kind (un_socks s c) = UdpServer" "\<not> us_closed (un_socks s c)" "1 < ev_fd (un_socks s c)"
    and "el_events s (ev_fd (un_socks s c)) = Some (Udp c)" "uc_close K = None"
    and "un_fds s = ev_fd (un_socks s c) # fds" "d \<noteq> c"
  shows "\<exists>s1 s2. udp_handle K (Udp c) HError s = Inr s1 \<and> udp_open K d s1 = Inr s2 \<and>
    ev_fd (un_socks s2 d) = ev_fd (un_socks s c) \<and>
    el_events s2 (ev_fd (un_socks s2 d)) = Some (Udp c) \<and> el_epoll s2 (ev_fd (un_socks s2 d)) = None"
  using assms
  by (simp add: udp_onError_def udp_onClose_def udp_base_close_def ucall_def set_udp_def event_close_def udp_open_def
      addEvent_def on_udp_def Let_def)

theorem failed_server_blocks_descriptor_witness:
  "\<exists>s s1 s2. udp_run (echo_server 0 (\<lambda>_. None) (\<lambda>_. None) (\<lambda>_. []) (\<lambda>_. [])) (\<lambda>_. Inr)
       [MakeSocket UdpServer (SockIn 0 0), MakeSocket UdpServer (SockIn 0 0), GiveFds [7, 7], InLoop (UOpen 0)]
       (newUdpNet demo_memory ()) = Inr s \<and>
     udp_handle (echo_server 0 (\<lambda>_. None) (\<lambda>_. None) (\<lambda>_. []) (\<lambda>_. [])) (Udp 0) HError s = Inr s1 \<and>
     udp_open (echo_server 0 (\<lambda>_. None) (\<lambda>_. None) (\<lambda>_. []) (\<lambda>_. [])) 1 s1 = Inr s2 \<and> el_epoll s2 7 = None"
proof -
  let ?K = "echo_server 0 (\<lambda>_. None) (\<lambda>_. None) (\<lambda>_. []) (\<lambda>_. []) :: unit ucallbacks"
  obtain s where s: "udp_run ?K (\<lambda>_. Inr)
       [MakeSocket UdpServer (SockIn 0 0), MakeSocket UdpServer (SockIn 0 0), GiveFds [7, 7], InLoop (UOpen 0)]
       (newUdpNet demo_memory ()) = Inr s"
      "us_kind (un_socks s 0) = UdpServer" "\<not> us_closed (un_socks s 0)" "ev_fd (un_socks s 0) = 7"
      "el_events s 7 = Some (Udp 0)" "un_fds s = [7]"
    by (simp add: newUdpNet_def newEventLoop_def event_loop.defs enqueueTask_def udp_open_def newUdpSocket_def
        addEvent_def set_udp_def on_udp_def Let_def)
  have "uc_close ?K = None" by (simp add: echo_server_def)
  then show ?thesis using failed_server_blocks_descriptor [of s 0 ?K "[]" 1] s by auto
qed

text \<open>
  An empty datagram is never taken off the list. Each time the kernel can take more, it is sent again
  until the kernel is full, and what was queued after it is never sent.
\<close>

lemma empty_datagram_repeats:
  assumes "us_list (un_socks s c) = nd # nds" "\<not> us_closed (un_socks s c)" "us_entry (un_socks s c) = None"
    "us_tx (un_socks s c) = replicate n Sent" "nd_size nd = 0" "read_node s nd = Inr d"
  shows "\<exists>s'. udp_onWrite K c s = Inr s' \<and> us_list (un_socks s' c) = nd # nds \<and>
    us_sent (un_socks s' c) = us_sent (un_socks s c) @ replicate n (nd, d)"
proof -
  have same: "read_node (on_udp c f s) nd = read_node s nd"
    if "\<And>t. us_buf (f t) = us_buf t \<and> us_addr (f t) = us_addr t" for f s
  proof -
    have "data_at (on_udp c f s) (nd_data nd) n = data_at s (nd_data nd) n" for n using that by (cases "nd_data nd") auto
    moreover have "addr_at (on_udp c f s) (nd_addr nd) = addr_at s (nd_addr nd)" using that by (cases "nd_addr nd") auto
    ultimately show ?thesis by (simp add: read_node_def)
  qed
  have "\<exists>s'. udp_write_loop K c (replicate n Sent) s = Inr s' \<and> us_list (un_socks s' c) = nd # nds \<and>
      us_sent (un_socks s' c) = us_sent (un_socks s c) @ replicate n (nd, d)"
    if "us_list (un_socks s c) = nd # nds" "read_node s nd = Inr d" for s
    using that
  proof (induction n arbitrary: s)
    case (Suc n)
    let ?s = "on_udp c (\<lambda>t. t\<lparr>us_sent := us_sent t @ [(nd, d)], us_list := (if nd_size nd = 0 then us_list t else tl (us_list t))\<rparr>)
      (on_udp c (\<lambda>t. t\<lparr>us_tx := replicate n Sent\<rparr>) s)"
    have "us_list (un_socks ?s c) = nd # nds" "us_sent (un_socks ?s c) = us_sent (un_socks s c) @ [(nd, d)]"
        "read_node ?s nd = Inr d"
      using Suc.prems assms(5) by (simp_all add: same)
    then show ?case using Suc.IH [of ?s] Suc.prems by (simp add: Let_def)
  qed simp
  then show ?thesis using assms by (simp add: udp_onWrite_def udp_extendLife_def)
qed

section \<open>Reading\<close>

text \<open>A callback that passes each message to \<open>f\<close>, applied to the messages in order.\<close>

definition fed :: "('a \<Rightarrow> nat \<Rightarrow> inet_addr \<Rightarrow> bytes \<Rightarrow> 'a) \<Rightarrow> nat \<Rightarrow> (u32 \<Rightarrow> string) \<Rightarrow> (bytes \<Rightarrow> string) \<Rightarrow> datagram list \<Rightarrow> 'a \<Rightarrow> 'a"
where
  "fed f c ntop ntop6 ds a =
     foldl (\<lambda>a d. f a c (peer_address ntop ntop6 (snd d)) (fst d)) a (filter (\<lambda>d. fst d \<noteq> []) ds)"

lemma reads_datagrams:
  assumes "uc_message K = Some (\<lambda>c ad s. Inr (s\<lparr>un_app := f (un_app s) c ad (contents (us_buf (un_socks s c)))\<rparr>))"
    and "udp_ok m {} s" "0 \<le> ev_fd (un_socks s c)" "\<forall>d \<in> set ds. length (fst d) \<le> MESSAGE_BUFFER_SIZE"
  shows "\<exists>s'. udp_read_loop K c (map (\<lambda>d. Datagram (fst d) (snd d)) ds) s = Inr s' \<and>
    un_app s' = fed f c (uc_ntop K) (uc_ntop6 K) ds (un_app s)"
  using assms(2-4)
proof (induction ds arbitrary: s)
  case (Cons d ds)
  show ?case
  proof (cases "fst d = []")
    case False
    let ?b = "store_at_tail (us_buf (un_socks s c)) (fst d)"
    let ?s1 = "on_udp c (\<lambda>t. t\<lparr>us_buf := ?b\<rparr>) s"
    let ?s2 = "?s1\<lparr>un_app := f (un_app s) c (peer_address (uc_ntop K) (uc_ntop6 K) (snd d)) (fst d)\<rparr>"
    let ?s3 = "on_udp c (\<lambda>t. t\<lparr>us_buf := retrieveAll (us_buf t)\<rparr>) ?s2"
    have len: "length (fst d) \<le> MESSAGE_BUFFER_SIZE" using Cons.prems(3) by simp
    note st = fits_whole [OF Cons.prems(1), of c "fst d", OF _ len]
    have "udp_ok m {c} ?s2" using st(2) by (simp add: udp_ok_def)
    then have ok: "udp_ok m {} ?s3" by (rule udp_ok_emptied)
    have app: "un_app ?s3 = f (un_app s) c (peer_address (uc_ntop K) (uc_ntop6 K) (snd d)) (fst d)"
      by (simp add: on_udp_def)
    have "udp_read_loop K c (map (\<lambda>d. Datagram (fst d) (snd d)) (d # ds)) s =
        udp_read_loop K c (map (\<lambda>d. Datagram (fst d) (snd d)) ds) ?s3"
      using Cons.prems(2) False st(1,3) len by (simp add: assms(1) ucall_def not_less on_udp_def Let_def)
    moreover obtain s' where "udp_read_loop K c (map (\<lambda>d. Datagram (fst d) (snd d)) ds) ?s3 = Inr s'"
        "un_app s' = fed f c (uc_ntop K) (uc_ntop6 K) ds (un_app ?s3)"
      using Cons.IH [OF ok] Cons.prems(2,3) by auto
    ultimately show ?thesis using False app by (simp add: fed_def)
  qed (use Cons in \<open>simp add: fed_def\<close>)
qed (simp add: fed_def)

text \<open>
  C29: every datagram is a message of its own. However many wait, a read event calls the message callback
  once for each that is not empty, in order, with the sender's address and with exactly the bytes of
  that datagram in the buffer.
\<close>

theorem datagrams_one_by_one:
  assumes "uc_message K = Some (\<lambda>c ad s. Inr (s\<lparr>un_app := f (un_app s) c ad (contents (us_buf (un_socks s c)))\<rparr>))"
    and "udp_ok m {} s" "0 \<le> ev_fd (un_socks s c)" "\<not> us_closed (un_socks s c)" "us_entry (un_socks s c) = None"
    and "us_rx (un_socks s c) = map (\<lambda>d. Datagram (fst d) (snd d)) ds" "\<forall>d \<in> set ds. length (fst d) \<le> MESSAGE_BUFFER_SIZE"
  shows "\<exists>s'. udp_handle K (Udp c) HRead s = Inr s' \<and> un_app s' = fed f c (uc_ntop K) (uc_ntop6 K) ds (un_app s)"
proof -
  let ?s = "on_udp c (\<lambda>t. t\<lparr>us_rx := []\<rparr>) s"
  have "udp_ok m {} ?s" using assms(2) by (intro udp_ok_step) simp_all
  then show ?thesis
    using reads_datagrams [OF assms(1), of m ?s c ds] assms(3-7)
    by (simp add: udp_onRead_def udp_extendLife_def) (simp add: on_udp_def)
qed

definition demo_collector :: "bytes list ucallbacks" where
  "demo_collector = \<lparr>uc_message = Some (\<lambda>c ad s. Inr (s\<lparr>un_app := un_app s @ [contents (us_buf (un_socks s c))]\<rparr>)),
     uc_complete = None, uc_close = None, uc_connected = None, uc_ntop = (\<lambda>_. []), uc_ntop6 = (\<lambda>_. [])\<rparr>"

theorem datagrams_one_by_one_witness:
  "\<exists>s s'. udp_handle demo_collector (Udp 0) HRead s = Inr s' \<and> un_app s = [] \<and> un_app s' = [[1, 2], [3]]"
proof -
  let ?ds = "[([1, 2], SockIn 9 5), ([], SockIn 9 5), ([3], SockIn 9 6)] :: datagram list"
  define s where "s = on_udp 0 (\<lambda>t. t\<lparr>ev_fd := 7\<rparr>)
    (on_udp 0 (\<lambda>t. t\<lparr>us_rx := us_rx t @ map (\<lambda>d. Datagram (fst d) (snd d)) ?ds, us_tx := us_tx t @ []\<rparr>) (newUdpNet demo_memory ([] :: bytes list)))"
  have "udp_ok demo_memory {} s" unfolding s_def by (intro udp_ok_step new_udp_net_ok sock_steps)
  moreover have "ev_fd (un_socks s 0) = 7" "\<not> us_closed (un_socks s 0)" "us_entry (un_socks s 0) = None" "un_app s = []"
      "us_rx (un_socks s 0) = map (\<lambda>d. Datagram (fst d) (snd d)) ?ds"
    by (simp_all add: s_def newUdpNet_def newEventLoop_def event_loop.defs newUdpSocket_def) (simp add: on_udp_def)
  moreover have "uc_message demo_collector = Some (\<lambda>c ad s. Inr (s\<lparr>un_app :=
      (\<lambda>a c ad xs. a @ [xs]) (un_app s) c ad (contents (us_buf (un_socks s c)))\<rparr>))"
    by (simp add: demo_collector_def)
  ultimately show ?thesis
    using datagrams_one_by_one [of demo_collector "\<lambda>a c ad xs. a @ [xs]" demo_memory s 0 ?ds]
    by (auto simp: fed_def MESSAGE_BUFFER_SIZE_def)
qed

end
