(* ===== verification/BufferRuns.thy ===== *)
theory BufferRuns
  imports MsgBuffer
begin

text \<open>
  Sequences of operations on an \<open>LSSMsgBuffer\<close>, against a queue of bytes: the buffer stays well formed
  whatever is done with it, and an assertion fails exactly when the queue is too short.
\<close>

datatype buf_op =
    Put bytes
  | Put16 u16
  | Put32 u32
  | Put64 u64
  | Receive "bytes option"
  | Reserve nat
  | TakeAway nat
  | TakeAll
  | Unput nat
  | Get8
  | Get16
  | Get32
  | Get64

fun buf_step :: "buf_op \<Rightarrow> msgbuf \<Rightarrow> msgbuf res" where
  "buf_step (Put xs) b = Inr (append b xs)"
| "buf_step (Put16 w) b = Inr (appendInt16 b w)"
| "buf_step (Put32 w) b = Inr (appendInt32 b w)"
| "buf_step (Put64 w) b = Inr (appendInt64 b w)"
| "buf_step (Receive got) b = Inr (readFd b got)"
| "buf_step (Reserve n) b = Inr (ensureWriteableBytes b n)"
| "buf_step (TakeAway n) b = Inr (retrieve b n)"
| "buf_step TakeAll b = Inr (retrieveAll b)"
| "buf_step (Unput n) b = unWrite b n"
| "buf_step Get8 b = bindr (readInt8 b) (\<lambda>(v, b1). Inr b1)"
| "buf_step Get16 b = bindr (readInt16 b) (\<lambda>(v, b1). Inr b1)"
| "buf_step Get32 b = bindr (readInt32 b) (\<lambda>(v, b1). Inr b1)"
| "buf_step Get64 b = bindr (readInt64 b) (\<lambda>(v, b1). Inr b1)"

fun buf_run :: "buf_op list \<Rightarrow> msgbuf \<Rightarrow> msgbuf res" where
  "buf_run [] b = Inr b"
| "buf_run (x # xs) b = bindr (buf_step x b) (buf_run xs)"

section \<open>The queue\<close>

definition take_off :: "nat \<Rightarrow> bytes \<Rightarrow> bytes res" where
  "take_off n q = (if n \<le> length q then Inr (drop n q) else Inl AssertFailed)"

fun queue_step :: "buf_op \<Rightarrow> bytes \<Rightarrow> bytes res" where
  "queue_step (Put xs) q = Inr (q @ xs)"
| "queue_step (Put16 w) q = Inr (q @ writeUint16T w)"
| "queue_step (Put32 w) q = Inr (q @ writeUint32T w)"
| "queue_step (Put64 w) q = Inr (q @ writeUint64BE w)"
| "queue_step (Receive None) q = Inr q"
| "queue_step (Receive (Some xs)) q = Inr (q @ xs)"
| "queue_step (Reserve n) q = Inr q"
| "queue_step (TakeAway n) q = Inr (drop n q)"
| "queue_step TakeAll q = Inr []"
| "queue_step (Unput n) q = (if n \<le> length q then Inr (take (length q - n) q) else Inl AssertFailed)"
| "queue_step Get8 q = take_off 1 q"
| "queue_step Get16 q = take_off 2 q"
| "queue_step Get32 q = take_off 4 q"
| "queue_step Get64 q = take_off 8 q"

fun queue_run :: "buf_op list \<Rightarrow> bytes \<Rightarrow> bytes res" where
  "queue_run [] q = Inr q"
| "queue_run (x # xs) q = bindr (queue_step x q) (queue_run xs)"

section \<open>The buffer is the queue\<close>

definition same_result :: "msgbuf res \<Rightarrow> bytes res \<Rightarrow> bool" where
  "same_result r q = (case r of Inl e \<Rightarrow> q = Inl e | Inr b \<Rightarrow> buf_ok b \<and> q = Inr (contents b))"

lemma same_Inr [simp]: "same_result (Inr b) q \<longleftrightarrow> buf_ok b \<and> q = Inr (contents b)"
  by (simp add: same_result_def)

lemma same_Inl [simp]: "same_result (Inl e) q \<longleftrightarrow> q = Inl e"
  by (simp add: same_result_def)

lemma in_memory: "buf_ok b \<Longrightarrow> n \<le> readableBytes b \<Longrightarrow> n \<le> length (peek b)"
  by (auto simp: buf_ok_def readableBytes_def peek_def)

lemma reads:
  assumes "buf_ok b" "n \<le> readableBytes b"
  shows "same_result (Inr (retrieve b n)) (take_off n (contents b))"
  using assms by (simp add: take_off_def retrieve_contents retrieve_ok)

lemma loads:
  assumes "buf_ok b"
  shows "1 \<le> readableBytes b \<Longrightarrow> \<exists>v. readUint8T (peek b) 0 = Inr v"
    "2 \<le> readableBytes b \<Longrightarrow> \<exists>v. readUint16T (peek b) 0 = Inr v"
    "4 \<le> readableBytes b \<Longrightarrow> \<exists>v. readUint32T (peek b) 0 = Inr v"
    "8 \<le> readableBytes b \<Longrightarrow> \<exists>v. loadUint32LE (peek b) 0 = Inr v"
  using in_memory [OF assms, of 1] in_memory [OF assms, of 2] in_memory [OF assms, of 4] in_memory [OF assms, of 8]
  by (auto simp: loadUint32LE_def readUint8T_def readUint16T_def readUint32T_def slice_def bindr_def)

lemma step_refines:
  assumes "buf_ok b"
  shows "same_result (buf_step x b) (queue_step x (contents b))"
proof (cases x)
  case (Receive got)
  then show ?thesis using assms readFd_spec by (cases got) (simp_all add: readFd_def [of _ None])
next
  case (Unput n)
  then show ?thesis
    using assms by (auto simp: unWrite_def guardr_def bindr_def) (auto simp: buf_ok_def contents_def readableBytes_def add.commute)
next
  case TakeAll
  then show ?thesis using assms by (simp add: retrieveAll_eq) (simp add: buf_ok_def contents_def)
next
  case Get8
  then show ?thesis
    using assms reads [of b 1] loads(1) [of b]
    by (auto simp: readInt8_def peekInt8_def guardr_def take_off_def)
next
  case Get16
  then show ?thesis
    using assms reads [of b 2] loads(2) [of b]
    by (auto simp: readInt16_def peekInt16_def guardr_def take_off_def)
next
  case Get32
  then show ?thesis
    using assms reads [of b 4] loads(3) [of b]
    by (auto simp: readInt32_def peekInt32_def guardr_def take_off_def)
next
  case Get64
  then show ?thesis
    using assms reads [of b 8] loads(4) [of b]
    by (auto simp: readInt64_def peekInt64_def guardr_def take_off_def)
qed (use assms ensure_spec in \<open>simp_all add: append_ok append_contents appendInt16_def appendInt32_def appendInt64_def
      retrieve_ok retrieve_contents\<close>)

text \<open>
  C22: the buffer is well formed after every sequence of operations, with its offsets in order and inside
  the block, and holds exactly the bytes a queue would hold after them. Nothing it does faults but
  taking back or reading more than there is, which its assertions catch.
\<close>

theorem buffer_stays_well_formed:
  assumes "buf_ok b"
  shows "case buf_run ops b of
      Inr b1 \<Rightarrow> buf_ok b1 \<and> queue_run ops (contents b) = Inr (contents b1)
    | Inl e \<Rightarrow> e = AssertFailed \<and> queue_run ops (contents b) = Inl AssertFailed"
proof -
  have "same_result (buf_run ops b) (queue_run ops (contents b))" using assms
  proof (induction ops arbitrary: b)
    case (Cons x ops)
    show ?case
      using step_refines [OF Cons.prems, of x] Cons.IH by (cases "buf_step x b") simp_all
  qed simp
  moreover have "queue_step x q = Inl e \<Longrightarrow> e = AssertFailed" for x q e
    by (cases "(x, q)" rule: queue_step.cases) (auto simp: take_off_def split: if_splits)
  then have "queue_run ops q = Inl e \<Longrightarrow> e = AssertFailed" for q e
    by (induction ops arbitrary: q) (auto simp: bindr_eq_Inl)
  ultimately show ?thesis by (auto simp: same_result_def split: sum.splits)
qed

theorem buffer_stays_well_formed_witness:
  "\<exists>b. buf_run [Put [1, 2, 3], Get8, Receive (Some [4]), Unput 1, TakeAway 1] (newMsgBuffer 16) = Inr b \<and>
     buf_ok b \<and> contents b = [3]"
  using buffer_stays_well_formed [of "newMsgBuffer 16" "[Put [1, 2, 3], Get8, Receive (Some [4]), Unput 1, TakeAway 1]"]
  by (auto simp: take_off_def split: sum.splits)

end
