(* ===== verification/Viewing.thy ===== *)
theory Viewing
  imports LiveService
begin

text \<open>
  What a viewer gets: the service, the player's RTMP connection and the parser at its other end
  together. The service lets a woken player post what it has; the connection's peer reads it; when it is
  written, the RTMP context calls the service's \<open>onActive\<close> again, until nothing is posted any more
  and the connection sleeps.
\<close>

section \<open>A wake-up and what follows\<close>

definition give_context :: "nat \<Rightarrow> ctx \<Rightarrow> service \<Rightarrow> service" where
  "give_context c x sv = sv\<lparr>sv_cx := (sv_cx sv)(c \<mapsto> x)\<rparr>"

text \<open>What a context has asked for since it was \<open>x0\<close>.\<close>

definition effects_since :: "ctx \<Rightarrow> ctx \<Rightarrow> effect list" where
  "effects_since x0 x = drop (length (cx_effects x0)) (cx_effects x)"

text \<open>The packets the peer reads; the first argument are the times of the calls.\<close>

fun view :: "hs_env \<Rightarrow> nat \<Rightarrow> int list \<Rightarrow> service \<Rightarrow> in_state \<Rightarrow> (service \<times> in_state \<times> packet list) res" where
  "view E c [] sv st = Inr (sv, st, [])"
| "view E c (now # ts) sv st =
     bindr (deref (sv_cx sv c)) (\<lambda>x0.
     bindr (onActive now c sv) (\<lambda>sv1.
     bindr (deref (sv_cx sv1 c)) (\<lambda>x.
       if effects_since x0 x = [] then Inr (sv1, st, [])
       else bindr (messages_in st (sent_bytes (effects_since x0 x))) (\<lambda>((st1, ps), k).
         bindr (onWriteComplete E x) (\<lambda>y.
           if effects_since x y = [OnActive] then
             bindr (view E c ts (give_context c y sv1) st1) (\<lambda>(sv2, st2, qs). Inr (sv2, st2, ps @ qs))
           else Inr (give_context c y sv1, st1, ps))))))"

section \<open>What a player is owed\<close>

definition stored :: "live_stream \<Rightarrow> int \<Rightarrow> packet" where
  "stored s i = the (packet_buffer s ! slot i)"

definition frames_from :: "live_stream \<Rightarrow> int \<Rightarrow> packet list" where
  "frames_from s i = map (stored s) [i..frame_index s]"

definition listed :: "'a option list \<Rightarrow> 'a list" where
  "listed ms = concat (map (\<lambda>m. case m of None \<Rightarrow> [] | Some p \<Rightarrow> [p]) ms)"

text \<open>Headers go out with the timestamp 0 and a full chunk header.\<close>

definition header_messages :: "player \<Rightarrow> message list" where
  "header_messages u = map (\<lambda>p. (p, the (phdr p), 0, True))
     (listed [pl_meta u, pl_audio_header u, pl_video_header u])"

definition owed :: "live_stream \<Rightarrow> player \<Rightarrow> message list" where
  "owed s u = header_messages u @ frame_messages (out_frames u @ frames_from s (out_index u + 1)) (pl_corrector u)"

text \<open>What one \<open>postFrames\<close> hands over, and the player after it.\<close>

definition next_batch :: "player \<Rightarrow> message list" where
  "next_batch u = (if header_messages u \<noteq> [] then [hd (header_messages u)]
     else frame_messages (out_frames u) (pl_corrector u))"

definition after_batch :: "player \<Rightarrow> player" where
  "after_batch u =
     (if pl_meta u \<noteq> None then u\<lparr>pl_meta := None\<rparr>
      else if pl_audio_header u \<noteq> None then u\<lparr>pl_audio_header := None\<rparr>
      else if pl_video_header u \<noteq> None then u\<lparr>pl_video_header := None\<rparr>
      else u\<lparr>out_frames := [], pl_corrector := corrector_after (out_frames u) (pl_corrector u)\<rparr>)"

lemma frame_messages_append:
  "frame_messages (ps @ qs) tc = frame_messages ps tc @ frame_messages qs (corrector_after ps tc)"
proof (induction ps arbitrary: tc)
  case (Cons p ps)
  then show ?case by (simp add: frame_messages_def correct_all_Cons del: correct_all.simps)
qed (simp add: frame_messages_def)

lemma frame_messages_Nil [simp]: "frame_messages ps tc = [] \<longleftrightarrow> ps = []" "frame_messages [] tc = []"
  by (auto simp: frame_messages_def zip_eq_Nil_iff dest: arg_cong [where f = length])

lemma owed_batch: "owed s u = next_batch u @ owed s (after_batch u)"
  by (auto simp: owed_def next_batch_def after_batch_def header_messages_def listed_def frame_messages_append
      split: option.splits)

lemma nothing_pending: "next_batch u = [] \<longleftrightarrow> \<not> has_pending u"
  by (auto simp: next_batch_def header_messages_def listed_def has_pending_def split: option.splits)

text \<open>A player that has taken the \<open>k\<close> frames from index \<open>j\<close> on.\<close>

definition got_frames :: "live_stream \<Rightarrow> int \<Rightarrow> nat \<Rightarrow> player \<Rightarrow> player" where
  "got_frames s j k u = u\<lparr>out_frames := out_frames u @ map (stored s) [j..j + int k - 1],
     out_index := (if k = 0 then out_index u else j + int k - 1),
     out_frame_timestamp := (if k = 0 then out_frame_timestamp u else i32 (ptimestamp (stored s (j + int k - 1))))\<rparr>"

lemma next_frames_exact:
  assumes "ring_inv (frame_index s) (packet_buffer s)" "0 \<le> j" "frame_index s - 1000 < j" "j \<le> frame_index s + 1"
  shows "\<exists>k \<le> n. (k = n \<or> j + int k = frame_index s + 1) \<and> j + int k \<le> frame_index s + 1
    \<and> next_frames n j s u = got_frames s j k u"
  using assms(2-4)
proof (induction n arbitrary: j u)
  case 0
  then show ?case by (intro exI [of _ 0]) (simp add: got_frames_def)
next
  case (Suc n)
  show ?case
  proof (cases "frame_index s < j")
    case True
    then show ?thesis using Suc.prems by (intro exI [of _ 0]) (simp add: got_frames_def)
  next
    case False
    then have "window (frame_index s) j" using Suc.prems by (simp add: window_def)
    then obtain p where p: "packet_buffer s ! slot j = Some p" "pindex p = j"
      using assms(1) by (auto simp: ring_all_def)
    let ?u = "u\<lparr>out_frames := out_frames u @ [p], out_index := pindex p, out_frame_timestamp := i32 (ptimestamp p)\<rparr>"
    obtain k where k: "k \<le> n" "k = n \<or> j + 1 + int k = frame_index s + 1" "j + 1 + int k \<le> frame_index s + 1"
        "next_frames n (j + 1) s ?u = got_frames s (j + 1) k ?u"
      using Suc.IH [of "j + 1" ?u] Suc.prems False by auto
    have st: "stored s j = p" by (simp add: stored_def p)
    have "[j..j + int (Suc k) - 1] = j # [j + 1..j + 1 + int k - 1]" by (simp add: upto_rec1 algebra_simps)
    then show ?thesis
      using False p k st by (intro exI [of _ "Suc k"]) (auto simp: got_frames_def algebra_simps)
  qed
qed

text \<open>
  A player that has its place in the ring: what it has not yet got is still there, and no frame is so
  far behind the newest that the player would skip.
\<close>

definition in_time :: "live_stream \<Rightarrow> player \<Rightarrow> int \<Rightarrow> bool" where
  "in_time s u t \<longleftrightarrow> lastest_timestamp (ls_gops s) - t \<le> 2 * content_latency u"

definition located :: "live_stream \<Rightarrow> player \<Rightarrow> bool" where
  "located s u \<longleftrightarrow> 0 \<le> out_index u \<and> out_index u \<le> frame_index s \<and> frame_index s - 1000 \<le> out_index u
     \<and> length (out_frames u) \<le> 10 \<and> in_time s u (out_frame_timestamp u)
     \<and> (\<forall>p \<in> set (frames_from s (out_index u + 1)). in_time s u (i32 (ptimestamp p)))"

text \<open>How many times such a player posts something.\<close>

definition turns :: "live_stream \<Rightarrow> player \<Rightarrow> nat" where
  "turns s u = length (header_messages u) + (if out_frames u = [] then 0 else 1)
     + (nat (frame_index s - out_index u) + 9) div 10"

lemma frames_split:
  fixes k :: nat
  assumes "j + int k \<le> frame_index s + 1"
  shows "frames_from s j = map (stored s) [j..j + int k - 1] @ frames_from s (j + int k)"
proof -
  have "[j..frame_index s] = [j..j + int k - 1] @ [j + int k..frame_index s]"
  proof (cases "j + int k \<le> frame_index s")
    case True
    then show ?thesis by (intro upto_split1) simp_all
  next
    case False
    then have "j + int k - 1 = frame_index s" "[j + int k..frame_index s] = []" using assms by simp_all
    then show ?thesis by simp
  qed
  then show ?thesis by (simp add: frames_from_def)
qed

lemma next_frames_owed:
  assumes ring: "ring_inv (frame_index s) (packet_buffer s)"
    and u: "0 \<le> j" "frame_index s - 1000 < j" "j \<le> frame_index s + 1" "out_index u = j - 1" "out_frames u = []"
      "header_messages u = hs"
    and time: "\<forall>p \<in> set (frames_from s j). in_time s u (i32 (ptimestamp p))"
    and old: "j \<le> frame_index s \<or> 0 < j \<and> in_time s u (out_frame_timestamp u)"
  shows "owed s (next_frames 10 j s u) = hs @ frame_messages (frames_from s j) (pl_corrector u)"
    and "located s (next_frames 10 j s u)"
    and "turns s (next_frames 10 j s u) \<le> length hs + (nat (frame_index s + 1 - j) + 9) div 10"
    and "j \<le> frame_index s \<Longrightarrow> out_frames (next_frames 10 j s u) \<noteq> []"
proof -
  let ?n = "next_frames 10 j s u"
  obtain k where k: "k \<le> 10" "k = 10 \<or> j + int k = frame_index s + 1" "j + int k \<le> frame_index s + 1"
      "?n = got_frames s j k u"
    using next_frames_exact [OF ring u(1-3), of 10 u] by blast
  have f: "out_frames ?n = map (stored s) [j..j + int k - 1]" "out_index ?n = j + int k - 1"
      "pl_corrector ?n = pl_corrector u" "header_messages ?n = hs" "content_latency ?n = content_latency u"
      "out_frame_timestamp ?n = (if k = 0 then out_frame_timestamp u else i32 (ptimestamp (stored s (j + int k - 1))))"
    using u(4-6) by (simp_all add: k(4) got_frames_def header_messages_def)
  note split = frames_split [OF k(3)]
  show "owed s ?n = hs @ frame_messages (frames_from s j) (pl_corrector u)"
    by (simp add: owed_def f split [symmetric])
  have rest: "set (frames_from s (j + int k)) \<subseteq> set (frames_from s j)" by (subst split) auto
  have last: "stored s (j + int k - 1) \<in> set (frames_from s j)" if "k \<noteq> 0"
    using that k(3) by (simp add: frames_from_def)
  have "in_time s u (out_frame_timestamp ?n)"
    using last time old u(1) k(2) by (auto simp: f(6))
  moreover have "0 \<le> j + int k - 1" using u(1) old k(2) by auto
  ultimately show "located s ?n"
    using k(1,3) u(2) time rest by (auto simp: located_def f in_time_def)
  show "out_frames ?n \<noteq> []" if "j \<le> frame_index s" using that k(2) by (auto simp: f)
  show "turns s ?n \<le> length hs + (nat (frame_index s + 1 - j) + 9) div 10"
  proof (cases "k = 10")
    case True
    then have "nat (frame_index s + 1 - j) = 10 + nat (frame_index s - (j + int k - 1))" using k(3) by simp
    moreover have "(19 + m) div 10 = Suc ((m + 9) div 10)" for m :: nat by presburger
    ultimately show ?thesis by (simp add: turns_def f)
  next
    case False
    then have e: "frame_index s - (j + int k - 1) = 0" "frame_index s + 1 - j = int k" using k(2) by auto
    have "(if out_frames ?n = [] then 0 else 1) \<le> (k + 9) div 10" by (cases k) (simp_all add: f)
    then show ?thesis by (simp add: turns_def f e)
  qed
qed

text \<open>What \<open>getFrames\<close> makes of a player that has its place, and of a new one.\<close>

lemma getFrames_located:
  assumes inv: "stream_inv s" "hasMedia s" and l: "located s u"
  shows "owed s (getFrames now s u) = owed s u \<and> located s (getFrames now s u)
    \<and> turns s (getFrames now s u) \<le> turns s u"
proof (cases "has_pending u")
  case True
  then show ?thesis using l by (simp add: getFrames_def)
next
  case False
  then have e: "out_frames u = []" "header_messages u = []" by (simp_all add: has_pending_def header_messages_def listed_def)
  have pos: "0 \<le> out_index u" "\<not> out_index u < i32 (frame_index s - packet_buffer_size)"
    using l inv(1) by (simp_all add: located_def stream_inv_def packet_buffer_size_def)
  moreover have "\<not> 2 * content_latency u < lastest_timestamp (ls_gops s) - out_frame_timestamp u"
    using l by (simp add: located_def in_time_def)
  ultimately have g: "getFrames now s u = next_frames 10 (out_index u + 1) s u"
    using inv(2) False by (simp add: getFrames_def getNextFrame_def Let_def)
  have r: "ring_inv (frame_index s) (packet_buffer s)" using inv(1) by (simp add: stream_inv_def)
  note n = next_frames_owed [OF r _ _ _ _ e, of "out_index u + 1"]
  have "owed s u = frame_messages (frames_from s (out_index u + 1)) (pl_corrector u)"
    by (simp add: owed_def e)
  moreover have "turns s u = (nat (frame_index s - out_index u) + 9) div 10" by (simp add: turns_def e)
  ultimately show ?thesis using n l pos(1) by (simp add: g located_def)
qed

lemma nothing_left:
  assumes "stream_inv s" "hasMedia s" "located s u" "next_batch (getFrames now s u) = []"
  shows "owed s u = []"
proof -
  let ?n = "getFrames now s u"
  have p: "\<not> has_pending ?n" using assms(4) by (simp add: nothing_pending)
  then have e: "out_frames ?n = []" "header_messages ?n = []" by (simp_all add: has_pending_def header_messages_def listed_def)
  have "\<not> has_pending u" using p by (auto simp: getFrames_def)
  then have g: "?n = next_frames 10 (out_index u + 1) s u" "out_frames u = []"
    using assms(1-3) by (auto simp: getFrames_def getNextFrame_def Let_def located_def in_time_def stream_inv_def
      packet_buffer_size_def has_pending_def)
  have r: "ring_inv (frame_index s) (packet_buffer s)" using assms(1) by (simp add: stream_inv_def)
  obtain k where k: "k \<le> 10" "k = 10 \<or> out_index u + 1 + int k = frame_index s + 1"
      "?n = got_frames s (out_index u + 1) k u"
    using next_frames_exact [OF r, of "out_index u + 1" 10 u] assms(3) unfolding g(1) by (auto simp: located_def)
  have "k = 0" using e(1) g(2) k(3) by (cases k) (auto simp: got_frames_def)
  then have "frames_from s (out_index u + 1) = []" using k(2) by (simp add: frames_from_def)
  then show ?thesis using \<open>\<not> has_pending u\<close> by (simp add: owed_def has_pending_def header_messages_def listed_def)
qed

text \<open>The headers a stream gives to a player that starts at index \<open>i\<close>.\<close>

definition headers_at :: "live_stream \<Rightarrow> int \<Rightarrow> packet list" where
  "headers_at s i = listed [if has_audio s then getAudioHeader i (codec_headers s) else None,
     if has_video s then getVideoHeader i (codec_headers s) else None]"

lemma locateGop_new:
  assumes inv: "stream_inv s" and u: "u = newPlayer latency t" and g: "getGopByLatency latency (ls_gops s) = (i, lat)" "i \<noteq> -1"
  shows "\<exists>u1. locateGop now s u = (True, u1) \<and> out_index u1 = i - 1 \<and> out_frames u1 = []
    \<and> header_messages u1 = map (\<lambda>p. (p, the (phdr p), 0, True)) (headers_at s i)
    \<and> pl_corrector u1 = newCorrector \<and> content_latency u1 = latency"
proof -
  have a: "has_audio s \<Longrightarrow> getAudioHeader i (codec_headers s) \<noteq> None"
    using inv header_at_some [of "audio_header (codec_headers s)" i] by (auto simp: getAudioHeader_def stream_inv_def)
  have v: "has_video s \<Longrightarrow> getVideoHeader i (codec_headers s) \<noteq> None"
    using inv header_at_some [of "video_header (codec_headers s)" i] by (auto simp: getVideoHeader_def stream_inv_def)
  have m: "\<not> has_meta s" using inv by (simp add: stream_inv_def)
  show ?thesis
    using a v m g by (auto simp: u newPlayer_def locateGop_def take_meta_def take_audio_def take_video_def Let_def
        header_messages_def headers_at_def listed_def)
qed

lemma getFrames_new:
  assumes inv: "stream_inv s" "hasMedia s" and u: "u = newPlayer latency t"
    and g: "getGopByLatency latency (ls_gops s) = (i, lat)" "i \<noteq> -1" "window (frame_index s) i"
    and time: "\<forall>p \<in> set (frames_from s i). lastest_timestamp (ls_gops s) - i32 (ptimestamp p) \<le> 2 * latency"
  shows "owed s (getFrames now s u) = map (\<lambda>p. (p, the (phdr p), 0, True)) (headers_at s i)
      @ frame_messages (frames_from s i) newCorrector"
    and "located s (getFrames now s u)"
    and "turns s (getFrames now s u) \<le> 2 + (nat (frame_index s + 1 - i) + 9) div 10"
    and "next_batch (getFrames now s u) \<noteq> []"
proof -
  let ?hs = "map (\<lambda>p. (p, the (phdr p), 0, True)) (headers_at s i)"
  obtain u1 where u1: "locateGop now s u = (True, u1)" "out_index u1 = i - 1" "out_frames u1 = []"
      "header_messages u1 = ?hs" "pl_corrector u1 = newCorrector" "content_latency u1 = latency"
    using locateGop_new [OF inv(1) u g(1,2)] by blast
  have get: "getFrames now s u = next_frames 10 i s u1"
    using inv(2) u1(1,2) by (simp add: u getFrames_def has_pending_def newPlayer_def getNextFrame_def)
  have r: "ring_inv (frame_index s) (packet_buffer s)" using inv(1) by (simp add: stream_inv_def)
  have "in_time s u1 (i32 (ptimestamp p))" if "p \<in> set (frames_from s i)" for p
    using time that by (simp add: in_time_def u1(6))
  note n = next_frames_owed [OF r _ _ _ u1(2-4) ballI [OF this]]
  have w: "0 \<le> i" "frame_index s - 1000 < i" "i \<le> frame_index s" using g(3) by (auto simp: window_def)
  show "owed s (getFrames now s u) = ?hs @ frame_messages (frames_from s i) newCorrector"
    using n(1) w by (simp add: get u1(5))
  show "located s (getFrames now s u)" using n(2) w by (simp add: get)
  show "next_batch (getFrames now s u) \<noteq> []" using n(4) w by (simp add: get nothing_pending has_pending_def)
  have "length ?hs \<le> 2" by (auto simp: headers_at_def listed_def split: option.splits)
  then show "turns s (getFrames now s u) \<le> 2 + (nat (frame_index s + 1 - i) + 9) div 10"
    using n(3) w by (simp add: get)
qed

section \<open>One batch on its way\<close>

text \<open>A message of which ten can be built one after the other.\<close>

definition easy :: "in_state \<Rightarrow> message \<Rightarrow> bool" where
  "easy st m \<longleftrightarrow> message_fits st m \<and> 10 * header_room m \<le> RTMP_BUFFER_SIZE"

lemma easy_room:
  assumes "\<forall>m \<in> set ms. easy st m" "length ms \<le> 10"
  shows "sum_list (map header_room ms) \<le> RTMP_BUFFER_SIZE" "sum_list (map message_room ms) < 2 ^ 31"
proof -
  have "10 * sum_list (map header_room ms) \<le> length ms * RTMP_BUFFER_SIZE"
    using assms(1) by (induction ms) (auto simp: easy_def)
  also have "\<dots> \<le> 10 * RTMP_BUFFER_SIZE" using assms(2) by simp
  finally show h: "sum_list (map header_room ms) \<le> RTMP_BUFFER_SIZE" by simp
  have "sum_list (map message_room ms) \<le> sum_list (map header_room ms) + length ms * 2 ^ 24"
    using assms(1) by (induction ms) (auto simp: easy_def message_room_def message_fits_def sendable_def)
  also have "\<dots> \<le> RTMP_BUFFER_SIZE + 10 * 2 ^ 24" using h assms(2) by (intro add_mono mult_le_mono1)
  finally show "sum_list (map message_room ms) < 2 ^ 31" by (simp add: RTMP_BUFFER_SIZE_def)
qed

lemma handed_over:
  assumes x: "idle x" and peer: "in_ok st" "in_sync (cx_out x) st"
    and ms: "\<forall>m \<in> set ms. easy st m" "length ms \<le> 10"
  obtains s1 ns st1 qs where
    "build_all (map (\<lambda>(p, h, ts, f). (p, ts, f)) ms) (cx_out x) = Inr s1"
    "send (x\<lparr>cx_out := s1\<rparr>) = Inr (emit (SendNodes ns) (x\<lparr>cx_out := s1\<lparr>sending := True\<rparr>\<rparr>))"
    "messages_in st (concat ns) = Inr ((st1, qs), length (concat ns))" "list_all2 arrives_as ms qs"
    "in_ok st1" "in_sync s1 st1" "in_chunk_size st1 = in_chunk_size st" "out_waiting_queue s1 = []"
proof -
  note room = easy_room [OF ms]
  have fits: "\<forall>m \<in> set ms. message_fits st m" using ms(1) by (simp add: easy_def)
  have "out_used (cx_out x) + sum_list (map header_room ms) \<le> RTMP_BUFFER_SIZE"
    using room(1) x by (simp add: idle_def)
  from many_messages [OF peer fits this] obtain s1 ns st1 where
    1: "build_all (map (\<lambda>(p, h, ts, f). (p, ts, f)) ms) (cx_out x) = Inr s1"
      "sending_buffers s1 = sending_buffers (cx_out x) @ ns" "in_sync s1 st1" "in_ok st1"
      "in_chunk_size st1 = in_chunk_size st" "length (concat ns) \<le> sum_list (map message_room ms)"
      "length (concat ns) < 2 ^ 31 \<longrightarrow> (\<forall>acc. \<exists>qs. list_all2 arrives_as ms qs \<and>
         parse_loop fst set_in collect (st, acc) (concat ns) = Inr ((st1, acc @ qs), length (concat ns)))"
    by blast
  have "length (concat ns) < 2 ^ 31" using 1(6) room(2) by simp
  with 1(7) have "\<exists>qs. list_all2 arrives_as ms qs \<and>
      parse_loop fst set_in collect (st, []) (concat ns) = Inr ((st1, [] @ qs), length (concat ns))" by blast
  then obtain qs where qs: "list_all2 arrives_as ms qs" "messages_in st (concat ns) = Inr ((st1, qs), length (concat ns))"
    by (auto simp: messages_in_def)
  note fr = build_all_frame [OF 1(1)]
  have "send (x\<lparr>cx_out := s1\<rparr>) = Inr (emit (SendNodes ns) (x\<lparr>cx_out := s1\<lparr>sending := True\<rparr>\<rparr>))"
    using fr 1(2) x by (simp add: send_built idle_def)
  then show thesis using that 1 qs fr x by (simp add: idle_def)
qed

lemma pushFrame_header:
  "pushFrame p True \<lparr>pu = u, pu_cx = Some x, pu_active = a\<rparr> =
     (if \<not> ready x then Inr (False, \<lparr>pu = u, pu_cx = Some x, pu_active = a\<rparr>)
      else bindr (build_all [(p, 0, True)] (cx_out x)) (\<lambda>s1. bindr (send (x\<lparr>cx_out := s1\<rparr>)) (\<lambda>y.
        Inr (True, \<lparr>pu = u, pu_cx = Some y, pu_active = a\<rparr>))))"
  by (simp add: pushFrame_def ctx_buildChunk_def bindr_assoc case_prod_unfold)

lemma pushFrames_batch:
  "pushFrames ps \<lparr>pu = u, pu_cx = Some x, pu_active = a\<rparr> =
     (if \<not> ready x then Inr (False, \<lparr>pu = u, pu_cx = Some x, pu_active = a\<rparr>)
      else bindr (build_all (map (\<lambda>(p, h, ts, f). (p, ts, f)) (frame_messages ps (pl_corrector u))) (cx_out x)) (\<lambda>s1.
        bindr (send (x\<lparr>cx_out := s1\<rparr>)) (\<lambda>y.
        Inr (True, \<lparr>pu = u\<lparr>pl_corrector := corrector_after ps (pl_corrector u)\<rparr>, pu_cx = Some y, pu_active = a\<rparr>))))"
  by (simp add: pushFrames_def build_frames_build_all bindr_assoc)

lemma postFrames_batch:
  assumes "stream_ready s" "hasMedia s" "ready x" "next_batch (getFrames now s u) \<noteq> []"
  shows "postFrames now s \<lparr>pu = u, pu_cx = Some x, pu_active = a\<rparr> =
    bindr (build_all (map (\<lambda>(p, h, ts, f). (p, ts, f)) (next_batch (getFrames now s u))) (cx_out x)) (\<lambda>s1.
    bindr (send (x\<lparr>cx_out := s1\<rparr>)) (\<lambda>y.
      Inr (True, \<lparr>pu = after_batch (getFrames now s u), pu_cx = Some y, pu_active = a\<rparr>)))"
  using assms
  by (auto simp: postFrames_def Let_def pushFrame_header pushFrames_batch next_batch_def after_batch_def
      header_messages_def listed_def bindr_assoc frame_messages_def simp del: build_all.simps
      split: option.splits intro!: bindr_cong)

lemma postFrames_sleeps:
  assumes "stream_ready s" "hasMedia s" "next_batch (getFrames now s u) = []"
  shows "postFrames now s \<lparr>pu = u, pu_cx = Some x, pu_active = a\<rparr>
    = Inr (True, \<lparr>pu = getFrames now s u, pu_cx = Some x, pu_active = False\<rparr>)"
  using assms by (simp add: postFrames_def nothing_pending has_pending_def deactive_def Let_def)

section \<open>The service and the connection\<close>

text \<open>Connection \<open>c\<close> belongs to the player \<open>u\<close> of user \<open>v\<close>; \<open>x\<close> is its context.\<close>

definition watching :: "nat \<Rightarrow> nat \<Rightarrow> player \<Rightarrow> ctx \<Rightarrow> service \<Rightarrow> bool" where
  "watching c v u x sv \<longleftrightarrow> hp_context (sv_heap sv) c = Some v \<and> lu_player (hp_users (sv_heap sv) v) = Some u
     \<and> lu_conn (hp_users (sv_heap sv) v) = Some c \<and> sv_cx sv c = Some x"

definition stream_of :: "nat \<Rightarrow> service \<Rightarrow> live_stream" where
  "stream_of v sv = ses_stream (sv_store sv (lu_session (hp_users (sv_heap sv) v)))"

text \<open>A context that may send, in step with the parser at the other end.\<close>

definition talking :: "ctx \<Rightarrow> in_state \<Rightarrow> bool" where
  "talking x st \<longleftrightarrow> idle x \<and> cx_state x = kRtmpMessage \<and> cx_handler x \<and> in_ok st \<and> in_sync (cx_out x) st"

lemma onActive_player:
  assumes "watching c v u x sv"
  shows "onActive now c sv = bindr (postFrames now (stream_of v sv) \<lparr>pu = u, pu_cx = Some x, pu_active = True\<rparr>)
    (\<lambda>(r, y). Inr (posted c v y sv))"
  using assms
  by (simp add: onActive_def watching_def Let_def getUserType_def user_order stream_of_def case_prod_unfold)

lemma written:
  assumes "cx_state x = kRtmpMessage" "cx_handler x" "out_waiting_queue s1 = []"
  shows "onWriteComplete E (emit e (x\<lparr>cx_out := s1\<lparr>sending := True\<rparr>\<rparr>)) =
    Inr (emit OnActive (emit e (x\<lparr>cx_out := s1\<lparr>sending := False, out_used := 0, sending_buffers := [],
      out_sending_packets := []\<rparr>\<rparr>)))"
  using assms by (simp add: onWriteComplete_def emit_def checkAndSend_def notify_def Let_def)

lemma view_turn:
  assumes w: "watching c v u x sv" and s: "s = stream_of v sv" "stream_ready s" "hasMedia s" and t: "talking x st"
    and b: "next_batch (getFrames now s u) \<noteq> []" "\<forall>m \<in> set (next_batch (getFrames now s u)). easy st m"
      "length (next_batch (getFrames now s u)) \<le> 10"
  obtains sv1 y st1 qs where "list_all2 arrives_as (next_batch (getFrames now s u)) qs"
    "watching c v (after_batch (getFrames now s u)) y sv1" "stream_of v sv1 = s" "talking y st1"
    "in_chunk_size st1 = in_chunk_size st"
    "\<forall>ts. view E c (now # ts) sv st = bindr (view E c ts sv1 st1) (\<lambda>(sv2, st2, ms). Inr (sv2, st2, qs @ ms))"
proof -
  have x: "idle x" "cx_state x = kRtmpMessage" "cx_handler x" "in_ok st" "in_sync (cx_out x) st"
    using t by (simp_all add: talking_def)
  obtain s1 ns st1 qs where 1:
    "build_all (map (\<lambda>(p, h, ts, f). (p, ts, f)) (next_batch (getFrames now s u))) (cx_out x) = Inr s1"
    "send (x\<lparr>cx_out := s1\<rparr>) = Inr (emit (SendNodes ns) (x\<lparr>cx_out := s1\<lparr>sending := True\<rparr>\<rparr>))"
    "messages_in st (concat ns) = Inr ((st1, qs), length (concat ns))"
    "list_all2 arrives_as (next_batch (getFrames now s u)) qs"
    "in_ok st1" "in_sync s1 st1" "in_chunk_size st1 = in_chunk_size st" "out_waiting_queue s1 = []"
    using handed_over [OF x(1,4,5) b(2,3)] by blast
  let ?x1 = "emit (SendNodes ns) (x\<lparr>cx_out := s1\<lparr>sending := True\<rparr>\<rparr>)"
  let ?y = "emit OnActive (emit (SendNodes ns) (x\<lparr>cx_out := s1\<lparr>sending := False, out_used := 0, sending_buffers := [],
      out_sending_packets := []\<rparr>\<rparr>))"
  let ?u1 = "after_batch (getFrames now s u)"
  let ?sv1 = "posted c v \<lparr>pu = ?u1, pu_cx = Some ?x1, pu_active = True\<rparr> sv"
  have r: "ready x" using x(1) by (simp add: idle_def ready_def)
  have act: "onActive now c sv = Inr ?sv1"
    unfolding onActive_player [OF w] s(1) [symmetric] postFrames_batch [OF s(2,3) r b(1)] 1(1) by (simp add: 1(2))
  have cx: "sv_cx sv c = Some x" "sv_cx ?sv1 c = Some ?x1" using w by (simp_all add: watching_def posted_def Let_def)
  have fx: "effects_since x ?x1 = [SendNodes ns]" "effects_since ?x1 ?y = [OnActive]"
    by (simp_all add: effects_since_def emit_def)
  have "view E c (now # ts) sv st = bindr (view E c ts (give_context c ?y ?sv1) st1) (\<lambda>(sv2, st2, ms). Inr (sv2, st2, qs @ ms))" for ts
    by (simp add: cx act fx 1(3) written [OF x(2,3) 1(8)])
  moreover have "watching c v ?u1 ?y (give_context c ?y ?sv1)" "stream_of v (give_context c ?y ?sv1) = s"
    using w by (simp_all add: watching_def posted_def give_context_def set_player_def s(1) stream_of_def Let_def)
  moreover have "talking ?y st1"
    using x 1(5,6,8) by (simp add: talking_def idle_def emit_def in_sync_def)
  ultimately show thesis using that 1(4,7) by blast
qed

lemma view_sleeps:
  assumes w: "watching c v u x sv" and s: "s = stream_of v sv" "stream_ready s" "hasMedia s"
    and b: "next_batch (getFrames now s u) = []"
  shows "\<exists>sv1. view E c (now # ts) sv st = Inr (sv1, st, []) \<and>
    hp_events (sv_heap sv1) = hp_events (sv_heap sv) @ [Deactivated c]"
proof -
  let ?sv1 = "posted c v \<lparr>pu = getFrames now s u, pu_cx = Some x, pu_active = False\<rparr> sv"
  have act: "onActive now c sv = Inr ?sv1"
    using postFrames_sleeps [OF s(2,3) b] by (simp add: onActive_player [OF w] s(1) [symmetric])
  have "sv_cx sv c = Some x" "sv_cx ?sv1 c = Some x" using w by (simp_all add: watching_def posted_def Let_def)
  then have "view E c (now # ts) sv st = Inr (?sv1, st, [])" by (simp add: act effects_since_def)
  moreover have "hp_events (sv_heap ?sv1) = hp_events (sv_heap sv) @ [Deactivated c]"
    using w by (simp add: posted_def Let_def user_deactive_def on_conn_def set_player_def watching_def)
  ultimately show ?thesis by blast
qed

section \<open>Catching up\<close>

lemma after_batch_located: "located s u \<Longrightarrow> located s (after_batch u)"
  by (simp add: located_def after_batch_def in_time_def)

lemma after_batch_turns: "next_batch u \<noteq> [] \<Longrightarrow> Suc (turns s (after_batch u)) \<le> turns s u"
  by (auto simp: turns_def after_batch_def nothing_pending has_pending_def header_messages_def listed_def
      split: option.splits)

lemma batch_size: "located s u \<Longrightarrow> length (next_batch u) \<le> 10"
  by (simp add: located_def next_batch_def frame_messages_def)

lemma easy_chunk_size: "in_chunk_size st1 = in_chunk_size st \<Longrightarrow> easy st1 m = easy st m"
  by (auto simp: easy_def message_fits_def chunk_size_agrees_def split: prod.splits)

lemma catches_up:
  assumes "watching c v u x sv" "s = stream_of v sv" "stream_ready s" "hasMedia s" "stream_inv s" "talking x st"
    and "located s (getFrames now s u)" "next_batch (getFrames now s u) = [] \<Longrightarrow> owed s (getFrames now s u) = []"
    and "\<forall>m \<in> set (owed s (getFrames now s u)). easy st m" "turns s (getFrames now s u) \<le> length ts"
  shows "\<exists>sv1 st1 got. view E c (now # ts) sv st = Inr (sv1, st1, got) \<and>
    list_all2 arrives_as (owed s (getFrames now s u)) got \<and>
    hp_events (sv_heap sv1) \<noteq> [] \<and> last (hp_events (sv_heap sv1)) = Deactivated c"
  using assms
proof (induction ts arbitrary: now u x sv st)
  case (Cons t ts now u x sv st)
  let ?w = "getFrames now s u"
  note p = Cons.prems
  show ?case
  proof (cases "next_batch ?w = []")
    case True
    then show ?thesis using view_sleeps [OF p(1-4) True, of E "t # ts" st] p(8) by auto
  next
    case False
    have b: "\<forall>m \<in> set (next_batch ?w). easy st m" using p(9) by (subst (asm) owed_batch) simp
    obtain sv1 y st1 qs where 1: "list_all2 arrives_as (next_batch ?w) qs" "watching c v (after_batch ?w) y sv1"
        "stream_of v sv1 = s" "talking y st1" "in_chunk_size st1 = in_chunk_size st"
        "\<forall>ts. view E c (now # ts) sv st = bindr (view E c ts sv1 st1) (\<lambda>(sv2, st2, ms). Inr (sv2, st2, qs @ ms))"
      by (rule view_turn [where E = E, OF p(1-4,6) False b batch_size [OF p(7)]]) (rule that, assumption+)
    note l = after_batch_located [OF p(7)]
    note g = getFrames_located [OF p(5,4) l, of t]
    have e: "\<forall>m \<in> set (owed s (getFrames t s (after_batch ?w))). easy st1 m"
      using p(9) g by (subst (asm) owed_batch) (simp add: easy_chunk_size [OF 1(5)])
    have n: "turns s (getFrames t s (after_batch ?w)) \<le> length ts"
      using g after_batch_turns [OF False, of s] p(10) by simp
    have z: "next_batch (getFrames t s (after_batch ?w)) = [] \<Longrightarrow> owed s (getFrames t s (after_batch ?w)) = []"
      using nothing_left [OF p(5,4) l] g by simp
    obtain sv2 st2 got where 2: "view E c (t # ts) sv1 st1 = Inr (sv2, st2, got)"
        "list_all2 arrives_as (owed s (after_batch ?w)) got"
        "hp_events (sv_heap sv2) \<noteq> []" "last (hp_events (sv_heap sv2)) = Deactivated c"
      using Cons.IH [OF 1(2) 1(3) [symmetric] p(3-5) 1(4) _ z e n] g by auto
    have "view E c (now # t # ts) sv st = Inr (sv2, st2, qs @ got)" using 1(6) 2(1) by simp
    moreover have "list_all2 arrives_as (owed s ?w) (qs @ got)"
      unfolding owed_batch [of s ?w] using 1(1) 2(2) by (rule list_all2_appendI)
    ultimately show ?thesis using 2(3,4) by blast
  qed
next
  case (Nil now u x sv st)
  then have "next_batch (getFrames now s u) = []" using after_batch_turns [of "getFrames now s u" s] by fastforce
  then show ?case using view_sleeps [OF Nil(1-4), of now E "[]" st] Nil(8) by auto
qed

section \<open>Streams in a service\<close>

text \<open>Whatever the service does, a session's stream is what its packets made of a new one.\<close>

definition filled :: "live_stream \<Rightarrow> bool" where
  "filled s \<longleftrightarrow> (\<exists>ps t. add_all ps (newStream t) = Inr s)"

lemma filled_new: "filled (newStream t)"
  unfolding filled_def by (intro exI [of _ "[]"]) auto

lemma filled_add: "filled s \<Longrightarrow> addPacket now p s = Inr (s1, w) \<Longrightarrow> filled s1"
  unfolding filled_def
proof (elim exE)
  fix ps t assume "add_all ps (newStream t) = Inr s" "addPacket now p s = Inr (s1, w)"
  then show "\<exists>ps t. add_all ps (newStream t) = Inr s1"
    by (intro exI [of _ "ps @ [(now, p)]"] exI [of _ t]) (simp add: add_all_snoc)
qed

lemma add_all_count: "add_all ps s = Inr s1 \<Longrightarrow> frame_index s1 = frame_index s + int (length ps)"
proof (induction ps arbitrary: s)
  case (Cons a ps)
  obtain now p where a: "a = (now, p)" by (cases a)
  obtain s2 w where 1: "addPacket now p s = Inr (s2, w)" "add_all ps s2 = Inr s1"
    using Cons.prems by (auto simp: a res_simps)
  have "frame_index s2 = frame_index s + 1"
    using addPacket_shape [OF 1(1)] save_header_frame(1) by metis
  then show ?case using Cons.IH [OF 1(2)] by simp
qed simp

lemma filled_inv:
  assumes "filled s" "frame_index s < 2 ^ 31 - 1"
  shows "stream_inv s"
proof -
  obtain ps t where a: "add_all ps (newStream t) = Inr s" using assms(1) by (auto simp: filled_def)
  then have "length ps < 2 ^ 31" using add_all_count [OF a] assms(2) by simp
  then show ?thesis using add_all_inv [OF a] by blast
qed

abbreviation all_filled :: "service \<Rightarrow> bool" where
  "all_filled sv \<equiv> \<forall>i. filled (ses_stream (sv_store sv i))"

lemma session_ops_stream [simp]:
  "ses_stream (fst (closeUser now u st)) = ses_stream (fst st)"
  "ses_stream (fst (closeUserNoLock now u st)) = ses_stream (fst st)"
  "ses_stream (fst (addPlayer u st)) = ses_stream (fst st)"
  by (simp_all add: closeUser_def closeUserNoLock_def addPlayer_def Let_def split: prod.splits)

lemma setPublisher_stream: "setPublisher u (s, h) = Inr (s1, h1) \<Longrightarrow> ses_stream s1 = ses_stream s"
  by (auto simp: setPublisher_def bindr_eq_Inr split: if_splits)

lemma clear_stream [simp]: "ses_stream (fst (clear now st)) = ses_stream (fst st)"
proof -
  have "ses_stream (fst (fold (closeUserNoLock now) us st)) = ses_stream (fst st)" for us st
    by (induction us arbitrary: st) simp_all
  then show ?thesis by (simp add: clear_def Let_def split: option.splits)
qed

lemma on_session_filled:
  assumes "all_filled sv" "\<And>ss h. filled (ses_stream ss) \<Longrightarrow> filled (ses_stream (fst (f (ss, h))))"
  shows "all_filled (on_session i f sv)"
  using assms(1) assms(2) [of "sv_store sv i" "sv_heap sv"]
  by (auto simp: on_session_def split: prod.splits)

lemma same_store [simp]: "sv_store (force_close c sv) = sv_store sv" "sv_store (posted c u y sv) = sv_store sv"
  by (simp_all add: force_close_def posted_def Let_def)

lemma createSession_filled: "all_filled sv \<Longrightarrow> createSession cfg now name sv = (r, sv1) \<Longrightarrow> all_filled sv1"
  by (auto simp: createSession_def Let_def newSession_def filled_new split: option.splits if_splits)

lemma timer_loop_filled: "timer_loop now es sv = Inr (kept, sv1) \<Longrightarrow> all_filled sv \<Longrightarrow> all_filled sv1"
proof (induction now es sv arbitrary: kept sv1 rule: timer_loop.induct)
  case (2 now name i ss sv)
  have "all_filled (on_session i (clear now) sv)" using 2(4) by (rule on_session_filled) simp
  with 2 show ?case by (auto simp: res_simps split: if_splits)
qed simp

lemma step_filled:
  assumes "service_step cfg e sv sv1" "all_filled sv"
  shows "all_filled sv1"
  using assms(1)
proof cases
  case (plays now c name prm r)
  show ?thesis
  proof (cases "createSession cfg now name sv")
    case (Pair k sv2)
    then have "all_filled sv2" using createSession_filled assms(2) by blast
    then have "all_filled (on_session i (addPlayer u) (sv2\<lparr>sv_heap := h\<rparr>))" for i u h
      by (intro on_session_filled) simp_all
    then show ?thesis using plays(2) Pair \<open>all_filled sv2\<close>
      by (auto simp: onPlay_def res_simps split: option.splits)
  qed
next
  case (publishes now c name prm r)
  show ?thesis
  proof (cases "createSession cfg now name sv")
    case (Pair k sv2)
    then have "all_filled sv2" using createSession_filled assms(2) by blast
    then have "all_filled (on_session i (\<lambda>_. r) sv2)" if "setPublisher u (sv_store sv2 i, h) = Inr r" for i u h r
      using setPublisher_stream [of u "sv_store sv2 i" h "fst r" "snd r"] that
      by (auto simp: on_session_def split: prod.splits)
    then show ?thesis using publishes(2) Pair \<open>all_filled sv2\<close>
      by (auto simp: onPublish_def bindr_eq_Inr split: option.splits prod.splits)
  qed
next
  case (receives now c p)
  show ?thesis
  proof (cases "hp_context (sv_heap sv) c")
    case None
    then show ?thesis using receives(2) assms(2) by (auto simp: onRecv_def)
  next
    case (Some u)
    let ?i = "lu_session (hp_users (sv_heap sv) u)"
    obtain s w where a: "addPacket now p (ses_stream (sv_store sv ?i)) = Inr (s, w)"
        "sv1 = on_session ?i (\<lambda>(ss, h). (ss\<lparr>ses_stream := s\<rparr>, if w then activeAllPlayers ss h else h)) sv"
      using receives(2) Some by (auto simp: onRecv_def Let_def res_simps)
    have "filled s" using filled_add [OF _ a(1)] assms(2) by blast
    then show ?thesis unfolding a(2) by (intro on_session_filled assms(2)) simp
  qed
next
  case (wakes now c)
  then show ?thesis using assms(2) by (auto simp: onActive_def Let_def res_simps split: option.splits if_splits)
next
  case (gone c now)
  have "all_filled (on_session i (closeUser now u) sv)" for i u using assms(2) by (rule on_session_filled) simp
  then show ?thesis using gone assms(2) by (auto simp: onConnectionDestroy_def split: option.splits)
next
  case (tick now)
  then show ?thesis using timer_loop_filled assms(2) by (fastforce simp: onTimer_def res_simps)
next
  case (closes name now)
  have "all_filled (sv\<lparr>sv_sessions := es\<rparr>)" for es using assms(2) by simp
  then have "all_filled (on_session i (clear now) (sv\<lparr>sv_sessions := es\<rparr>))" for i es
    by (rule on_session_filled) simp
  then show ?thesis using closes assms(2) by (auto simp: closeSession_def split: option.splits)
qed

lemma reach_filled: "service_reach cfg P sv \<Longrightarrow> all_filled sv"
proof (induction rule: service_reach.induct)
  case start
  show ?case by (simp add: newService_def newSession_def filled_new)
qed (auto dest: step_filled)

section \<open>Properties\<close>

text \<open>A connection that plays a name is a new player of its session, with the latency of its application.\<close>

definition latency_of :: "session \<Rightarrow> int" where
  "latency_of ss = (case ses_app_info ss of None \<Rightarrow> 0 | Some a \<Rightarrow> i32 (content_latency_time a))"

lemma play_watches:
  assumes inv: "service_inv sv0" and eq: "onPlay cfg t c name prm sv0 = Inr (True, sv)"
    and i: "findSession name sv = Some i" and x: "sv_cx sv c = Some x"
  shows "\<exists>v. watching c v (newPlayer (latency_of (sv_store sv i)) t) x sv \<and> stream_of v sv = ses_stream (sv_store sv i)"
proof -
  obtain i' u svc h1 s2 h2 where j: "createSession cfg t name sv0 = (Some i', svc)" "service_inv svc"
      "i' < sv_next svc" "sv_heap svc = sv_heap sv0"
      "createPlayerUser c name prm kUserTypePlayerRtmp t i' (sv_store svc i') (sv_heap svc) = Inr (Some u, h1)"
      "addPlayer u (sv_store svc i', h1) = (s2, h2)" "contexts_ok h1" "hp_context h1 c = Some u"
      "sv = svc\<lparr>sv_store := (sv_store svc)(i' := s2), sv_heap := h2\<rparr>"
    by (rule play_joins [OF inv eq])
  have k: "map_of (sv_sessions svc) name = Some i'"
    using createSession_keeps(4) [OF inv j(1), of i'] by simp
  then have i': "i' = i" using i by (simp add: j(9) findSession_def)
  obtain y where y: "add_user c y (sv_heap svc) = (u, h1)" "lu_session y = i'" "lu_conn y = Some c"
      "lu_player y = Some (newPlayer (latency_of (sv_store svc i')) t)"
    using j(5) by (auto simp: createPlayerUser_def Let_def fill_user_def newUser_def latency_of_def split: if_splits prod.splits)
  note a = add_user_sel [OF y(1)]
  have e: "ses_stream s2 = ses_stream (sv_store svc i')" "ses_app_info s2 = ses_app_info (sv_store svc i')"
      "h2 = on_conn Activated u h1"
    using j(6) by (auto simp: addPlayer_def user_active_def split: if_splits)
  show ?thesis
    using a y j(8) x e by (intro exI [of _ u]) (auto simp: watching_def stream_of_def j(9) i' latency_of_def)
qed

definition programme :: "live_stream \<Rightarrow> int \<Rightarrow> message list" where
  "programme s j = map (\<lambda>p. (p, the (phdr p), 0, True)) (headers_at s j) @ frame_messages (frames_from s j) newCorrector"

lemma frames_indices:
  assumes "ring_inv (frame_index s) (packet_buffer s)" "window (frame_index s) j"
  shows "map pindex (frames_from s j) = [j..frame_index s]"
proof -
  have "pindex (stored s k) = k" if "k \<in> set [j..frame_index s]" for k
  proof -
    have "window (frame_index s) k" using assms(2) that by (auto simp: window_def)
    then show ?thesis using assms(1) by (auto simp: ring_all_def stored_def)
  qed
  then show ?thesis by (auto simp: frames_from_def intro: map_idI)
qed

text \<open>
  A stream whose group of pictures from index \<open>j\<close> on a player with this latency is shown, none of whose
  frames it has to skip, and whose messages fit the chunks of the peer. The group may not be the one at
  index 0 when the newest frame has just overwritten its slot.
\<close>

definition watchable :: "live_stream \<Rightarrow> int \<Rightarrow> int \<Rightarrow> in_state \<Rightarrow> bool" where
  "watchable s latency j st \<longleftrightarrow> stream_ready s \<and> hasMedia s \<and> frame_index s < 2 ^ 31 - 1 \<and> frame_index s \<noteq> 1000
     \<and> fst (getGopByLatency latency (ls_gops s)) = j \<and> j \<noteq> -1
     \<and> (\<forall>p \<in> set (frames_from s j). lastest_timestamp (ls_gops s) - i32 (ptimestamp p) \<le> 2 * latency)
     \<and> (\<forall>m \<in> set (programme s j). easy st m)"

text \<open>So many calls are enough: two headers, ten frames each, and the one that finds nothing.\<close>

definition calls_enough :: "live_stream \<Rightarrow> int \<Rightarrow> nat" where
  "calls_enough s j = 3 + (nat (frame_index s + 1 - j) + 9) div 10"

lemma watchable_group:
  assumes "watchable s latency j st" "stream_inv s"
  shows "window (frame_index s) j" "isKeyFrame (hd (frames_from s j))"
proof -
  obtain lat where g: "getGopByLatency latency (ls_gops s) = (j, lat)" "j \<noteq> -1"
    using assms(1) by (cases "getGopByLatency latency (ls_gops s)") (auto simp: watchable_def)
  obtain t where t: "(j, t) \<in> set (gops (ls_gops s))" using getGopByLatency_in [OF g] by blast
  show w: "window (frame_index s) j" using assms t by (auto simp: stream_inv_def gop_inv_def watchable_def)
  have "\<exists>p. packet_buffer s ! slot j = Some p \<and> isKeyFrame p" using assms(2) t w by (auto simp: stream_inv_def gop_inv_def)
  moreover have "hd (frames_from s j) = stored s j" using w by (simp add: frames_from_def window_def upto_rec1)
  ultimately show "isKeyFrame (hd (frames_from s j))" by (auto simp: stored_def)
qed

lemma viewer_gets:
  assumes "service_reach cfg P sv0" "onPlay cfg t0 c name prm sv0 = Inr (True, sv)" "findSession name sv = Some i"
    and "s = ses_stream (sv_store sv i)" "watchable s (latency_of (sv_store sv i)) j st"
    and "sv_cx sv c = Some x" "talking x st" "calls_enough s j \<le> length ts"
  shows "\<exists>sv1 st1 got. view E c ts sv st = Inr (sv1, st1, got) \<and> list_all2 arrives_as (programme s j) got
    \<and> last (hp_events (sv_heap sv1)) = Deactivated c" "stream_inv s"
proof -
  let ?l = "latency_of (sv_store sv i)" and ?u = "newPlayer (latency_of (sv_store sv i)) t0"
  obtain v where v: "watching c v ?u x sv" "s = stream_of v sv"
    using play_watches [OF reach_inv [OF assms(1)] assms(2,3,6)] assms(4) by metis
  have "all_filled sv" using step_filled [OF service_step.plays [OF assms(2)] reach_filled [OF assms(1)]] .
  then show inv: "stream_inv s" using filled_inv assms(4,5) by (auto simp: watchable_def)
  obtain lat where g: "getGopByLatency ?l (ls_gops s) = (j, lat)" "j \<noteq> -1"
    using assms(5) by (cases "getGopByLatency ?l (ls_gops s)") (auto simp: watchable_def)
  have m: "stream_ready s" "hasMedia s"
      "\<forall>p \<in> set (frames_from s j). lastest_timestamp (ls_gops s) - i32 (ptimestamp p) \<le> 2 * ?l"
    using assms(5) by (simp_all add: watchable_def)
  obtain now ts' where ts: "ts = now # ts'" using assms(8) by (cases ts) (auto simp: calls_enough_def)
  note n = getFrames_new [OF inv m(2) refl g watchable_group(1) [OF assms(5) inv] m(3), of now t0]
  have e: "\<forall>m \<in> set (owed s (getFrames now s ?u)). easy st m" using assms(5) by (simp add: n(1) watchable_def programme_def)
  have k: "turns s (getFrames now s ?u) \<le> length ts'" using n(3) assms(8) by (simp add: ts calls_enough_def)
  show "\<exists>sv1 st1 got. view E c ts sv st = Inr (sv1, st1, got) \<and> list_all2 arrives_as (programme s j) got
    \<and> last (hp_events (sv_heap sv1)) = Deactivated c"
    using catches_up [OF v m(1,2) inv assms(7) n(2) _ e k, of E] n(4) by (auto simp: ts n(1) programme_def)
qed

text \<open>
  C8: a viewer catches up. A connection that plays a name and whose RTMP context may send gets, when it is
  woken, by itself and in a bounded number of turns, everything its session's stream has for it: the
  codec headers, then every frame from a key frame recent enough up to the newest, without a gap, in
  order, each with the time the player's corrector gives it. Its own parser reads exactly these
  messages; then the connection sleeps. Whatever the service did before is of no consequence.
\<close>

theorem viewer_catches_up:
  assumes "service_reach cfg P sv0" "onPlay cfg t0 c name prm sv0 = Inr (True, sv)" "findSession name sv = Some i"
    and "s = ses_stream (sv_store sv i)" "watchable s (latency_of (sv_store sv i)) j st"
    and "sv_cx sv c = Some x" "talking x st" "calls_enough s j \<le> length ts"
  shows "\<exists>sv1 st1 got. view E c ts sv st = Inr (sv1, st1, got) \<and> list_all2 arrives_as (programme s j) got
    \<and> isKeyFrame (hd (frames_from s j)) \<and> map pindex (frames_from s j) = [j..frame_index s]
    \<and> last (hp_events (sv_heap sv1)) = Deactivated c"
proof -
  note inv = viewer_gets(2) [OF assms]
  have "ring_inv (frame_index s) (packet_buffer s)" using inv by (simp add: stream_inv_def)
  then show ?thesis
    using viewer_gets(1) [OF assms, of E] watchable_group [OF assms(5) inv] frames_indices by blast
qed

text \<open>A stream of one packet, a key frame that carries the video header.\<close>

definition kept :: "packet \<Rightarrow> packet" where
  "kept p = p\<lparr>ptimestamp := 0, pindex := 0, ptype := 17\<rparr>"

lemma first_key_frame:
  assumes p: "ptype p = kPacketTypeVideo" "pdata p = [0x17, 0]"
  shows "\<exists>s w. addPacket now p (newStream t) = Inr (s, w) \<and> stream_ready s \<and> hasMedia s \<and> frame_index s = 0
     \<and> gops (ls_gops s) = [(0, 0)] \<and> lastest_timestamp (ls_gops s) = 0
     \<and> headers_at s 0 = [kept p] \<and> frames_from s 0 = [kept p]"
proof -
  have h: "correctTimestamp p newCorrector = (0, newCorrector)"
    by (simp add: correctTimestamp_def p isCodecHeader_def)
  have d: "pdata (q\<lparr>ptimestamp := a, pindex := b\<rparr>) = pdata q" "pdata (q\<lparr>ptimestamp := a, pindex := b, ptype := e\<rparr>) = pdata q" for q a b e
    by (simp_all add: pdata_def)
  have k: "isVideo ((setTimestamp 0 p)\<lparr>pindex := 0\<rparr>)" "isKeyFrameTag ((setTimestamp 0 p)\<lparr>pindex := 0\<rparr>)"
      "(setTimestamp 0 p)\<lparr>pindex := 0, ptype := kPacketTypeVideo OR kFrameTypeKeyFrame\<rparr> = kept p"
    by (simp_all add: isVideo_def isKeyFrameTag_def setTimestamp_def kept_def d p packet_types)
  have kp: "isCodecHeader (kept p)" "isVideo (kept p)" "\<not> isMeta (kept p)" "\<not> isAudio (kept p)"
      "isKeyFrame (kept p)" "pindex (kept p) = 0" "ptimestamp (kept p) = 0"
    by (simp_all add: isCodecHeader_def isVideo_def isMeta_def isAudio_def isKeyFrame_def packet_types kept_def d p)
  have sh: "save_header (kept p) s
      = Inr (s\<lparr>codec_headers := saveVideoHeader (kept p) (codec_headers s), has_video := True,
               stream_version := stream_version s + 1\<rparr>)" for s
    by (simp add: save_header_def parseCodecHeader_def header_flags_def kp)
  let ?s3 = "(setReady now ((newStream t)\<lparr>ls_corrector := newCorrector, frame_index := 0\<rparr>))
    \<lparr>codec_headers := saveVideoHeader (kept p) newCodecHeader, has_video := True, stream_version := 0\<rparr>"
  let ?s = "(store_packet (kept p) ?s3)\<lparr>data_coming_time := now, stream_time := now\<rparr>"
  have "data_coming_time (store_packet (kept p) ?s3) = 0"
    by (simp add: store_packet_def Let_def setReady_def packet_buffer_size_def) (simp add: newStream_def)
  then have a: "addPacket now p (newStream t) = Inr (?s, True)"
    using k by (simp add: addPacket_def h Let_def mark_key_def sh) (simp add: setReady_def newStream_def)
  have g: "gops (ls_gops ?s) = [(0, 0)]" "lastest_timestamp (ls_gops ?s) = 0"
    by (simp_all add: store_packet_def Let_def addFrame_def packet_buffer_size_def kp setReady_def newGopMgr_def)
  have f: "frames_from ?s 0 = [(kept p)]"
    by (simp add: frames_from_def stored_def setReady_def slot_def packet_buffer_size_def) (simp add: newStream_def packet_buffer_size_def)
  have hd: "headers_at ?s 0 = [(kept p)]"
    by (simp add: headers_at_def listed_def setReady_def getVideoHeader_def header_at_def saveVideoHeader_def)
  show ?thesis using a g f hd by (intro exI [of _ ?s] exI [of _ True]) (simp add: setReady_def hasMedia_def)
qed

lemma first_key_facts:
  assumes "addPacket now p (newStream t) = Inr (s, w)" "ptype p = kPacketTypeVideo" "pdata p = [0x17, 0]"
  shows "stream_ready s" "hasMedia s" "frame_index s = 0" "gops (ls_gops s) = [(0, 0)]"
    "lastest_timestamp (ls_gops s) = 0" "headers_at s 0 = [kept p]" "frames_from s 0 = [kept p]"
  using first_key_frame [OF assms(2,3), of now t] assms(1) by auto

text \<open>With a header for two bytes such a stream can be watched by a new connection.\<close>

lemma first_key_programme:
  assumes a: "addPacket now p (newStream t) = Inr (s, w)" "ptype p = kPacketTypeVideo" "pdata p = [0x17, 0]"
    and h: "phdr p = Some h" "msg_len h = 2" "2 \<le> unat (cs_id h)" "unat (cs_id h) < 65600" and l: "0 \<le> latency"
  shows "watchable s latency 0 newInState" "calls_enough s 0 = 4"
    "programme s 0 = [(kept p, h, 0, True), (kept p, h, 0, False)]"
proof -
  note s = first_key_facts [OF a]
  have k: "ptype (kept p) = kPacketTypeVideo OR kFrameTypeKeyFrame" "ptimestamp (kept p) = 0" "phdr (kept p) = Some h"
      "pblock (kept p) = pblock p"
    by (simp_all add: kept_def packet_types h)
  have "length (pdata p) \<le> length (pblock p)" by (simp add: pdata_def)
  then have b: "2 \<le> length (pblock p)" by (simp add: a(3))
  show m: "programme s 0 = [(kept p, h, 0, True), (kept p, h, 0, False)]"
    by (simp add: programme_def s(6,7) k(3) frame_messages_def key_frame_time [OF k(1)])
  have "getGopByLatency latency (ls_gops s) = (0, 0)" using l by (simp add: getGopByLatency_def s(4,5))
  moreover have "\<forall>m \<in> set (programme s 0). easy newInState m"
    using b by (simp add: m easy_def message_fits_def sendable_def k(3,4) chunk_size_agrees_def header_room_def
        RTMP_BUFFER_SIZE_def h newInState_def)
  ultimately show "watchable s latency 0 newInState" using s l by (simp add: watchable_def k(2))
  show "calls_enough s 0 = 4" by (simp add: calls_enough_def s(3))
qed

definition demo_shown :: packet where
  "demo_shown = demo_video_header\<lparr>phdr := Some (demo_header\<lparr>msg_len := 2\<rparr>)\<rparr>"

lemma demo_shown_sel: "ptype demo_shown = kPacketTypeVideo" "pdata demo_shown = [0x17, 0]"
    "phdr demo_shown = Some (demo_header\<lparr>msg_len := 2\<rparr>)"
  by (simp_all add: demo_shown_def demo_video_header_def pdata_def)

abbreviation speaking :: ctx where
  "speaking \<equiv> (newContext True False)\<lparr>cx_state := kRtmpMessage\<rparr>"

lemma speaking_talks: "talking speaking newInState"
  by (simp add: talking_def idle_def newContext_def) (simp add: newOutState_def)

lemma play_known:
  assumes "service_inv sv" "onPlay cfg t c name prm sv = Inr (True, sv1)" "findSession name sv = Some i"
  shows "findSession name sv1 = Some i" "sv_cx sv1 = sv_cx sv"
    "ses_stream (sv_store sv1 i) = ses_stream (sv_store sv i)" "ses_app_info (sv_store sv1 i) = ses_app_info (sv_store sv i)"
proof -
  obtain i' u svc h1 s2 h2 where j: "createSession cfg t name sv = (Some i', svc)"
      "addPlayer u (sv_store svc i', h1) = (s2, h2)" "sv1 = svc\<lparr>sv_store := (sv_store svc)(i' := s2), sv_heap := h2\<rparr>"
    by (rule play_joins [OF assms(1,2)])
  have i: "i' = i" "svc = sv" using j(1) assms(3) by (auto simp: createSession_def findSession_def)
  have "ses_stream s2 = ses_stream (sv_store sv i) \<and> ses_app_info s2 = ses_app_info (sv_store sv i)"
    using j(2) by (auto simp: i addPlayer_def split: if_splits)
  then show "findSession name sv1 = Some i" "sv_cx sv1 = sv_cx sv"
      "ses_stream (sv_store sv1 i) = ses_stream (sv_store sv i)" "ses_app_info (sv_store sv1 i) = ses_app_info (sv_store sv i)"
    using assms(3) by (simp_all add: j(3) i findSession_def)
qed

lemma demo_published_session:
  assumes "onPublish demo_cfg 0 1 ''d/a/s'' [] newService = Inr (True, sv)"
  shows "sv_sessions sv = [(''d/a/s'', 0)]" "ses_stream (sv_store sv 0) = newStream 0"
    "ses_app_info (sv_store sv 0) = Some newAppInfo" "hp_context (sv_heap sv) 1 = Some 0"
    "lu_session (hp_users (sv_heap sv) 0) = 0"
proof -
  have parts: "split ''d/a/s'' ''/'' False = [''d'', ''a'', ''s'']" by code_simp
  have app: "getAppInfo ''d'' ''a'' demo_cfg = Some newAppInfo"
    by (simp add: getAppInfo_def dom_getAppInfo_def demo_cfg_def)
  show "sv_sessions sv = [(''d/a/s'', 0)]" "ses_stream (sv_store sv 0) = newStream 0"
    "ses_app_info (sv_store sv 0) = Some newAppInfo" "hp_context (sv_heap sv) 1 = Some 0"
    "lu_session (hp_users (sv_heap sv) 0) = 0"
    using assms parts app by (auto simp: onPublish_def createSession_def newService_def createPublisher_def newSession_def
        add_user_def on_session_def setPublisher_def fill_user_def newUser_def set_user_def newHeap_def)
qed

lemma demo_playing:
  obtains sv0 sv w where "service_reach demo_cfg (\<lambda>_ _. True) sv0" "onPlay demo_cfg 1 2 ''d/a/s'' [] sv0 = Inr (True, sv)"
    "findSession ''d/a/s'' sv = Some 0" "sv_cx sv 2 = Some speaking"
    "ses_app_info (sv_store sv 0) = Some newAppInfo"
    "addPacket 0 demo_shown (newStream 0) = Inr (ses_stream (sv_store sv 0), w)"
proof -
  let ?x = speaking
  obtain s1 where 1: "onPublish demo_cfg 0 1 ''d/a/s'' [] newService = Inr (True, s1)"
    using demo_publish_first by metis
  note p = demo_published_session [OF 1]
  obtain st w where st: "addPacket 0 demo_shown (newStream 0) = Inr (st, w)" using first_key_frame [OF demo_shown_sel(1,2)] by blast
  obtain s2 where 2: "onRecv 0 1 demo_shown s1 = Inr s2" "sv_sessions s2 = sv_sessions s1"
      "ses_stream (sv_store s2 0) = st" "ses_app_info (sv_store s2 0) = Some newAppInfo"
    by (simp add: onRecv_def p st on_session_def Let_def del: One_nat_def)
  let ?s3 = "s2\<lparr>sv_cx := (sv_cx s2)(2 \<mapsto> ?x)\<rparr>"
  have r1: "service_reach demo_cfg (\<lambda>_ _. True) s1"
    by (rule service_reach.step [OF service_reach.start _ service_step.publishes [OF 1]]) simp
  have r2: "service_reach demo_cfg (\<lambda>_ _. True) s2"
    by (rule service_reach.step [OF r1 _ service_step.receives [OF 2(1)]]) simp
  have r: "service_reach demo_cfg (\<lambda>_ _. True) ?s3" using service_reach.contexts [OF r2] .
  obtain s4 where 4: "onPlay demo_cfg 1 2 ''d/a/s'' [] ?s3 = Inr (True, s4)"
    using demo_play [OF reach_inv [OF r]] by metis
  have known: "findSession ''d/a/s'' ?s3 = Some 0" by (simp add: findSession_def 2 p)
  note k = play_known [OF reach_inv [OF r] 4 known]
  show thesis using that [OF r 4 k(1)] k 2 st by simp
qed

theorem viewer_catches_up_witness:
  "\<exists>sv0 sv sv1 st1 p q. service_reach demo_cfg (\<lambda>_ _. True) sv0 \<and> onPlay demo_cfg 1 2 ''d/a/s'' [] sv0 = Inr (True, sv)
     \<and> view Handshake.demo_env 2 [2, 2, 2, 2] sv newInState = Inr (sv1, st1, [p, q])
     \<and> last (hp_events (sv_heap sv1)) = Deactivated 2"
proof -
  obtain sv0 sv w where 1: "service_reach demo_cfg (\<lambda>_ _. True) sv0" "onPlay demo_cfg 1 2 ''d/a/s'' [] sv0 = Inr (True, sv)"
      "findSession ''d/a/s'' sv = Some 0" "sv_cx sv 2 = Some speaking"
      "ses_app_info (sv_store sv 0) = Some newAppInfo"
      "addPacket 0 demo_shown (newStream 0) = Inr (ses_stream (sv_store sv 0), w)"
    by (rule demo_playing)
  let ?s = "ses_stream (sv_store sv 0)" and ?h = "demo_header\<lparr>msg_len := 2\<rparr>"
  have l: "0 \<le> latency_of (sv_store sv 0)" by (simp add: latency_of_def 1(5) newAppInfo_def)
  have h: "msg_len ?h = 2" "2 \<le> unat (cs_id ?h)" "unat (cs_id ?h) < 65600" by (simp_all add: demo_header_def)
  note p = first_key_programme [OF 1(6) demo_shown_sel h l]
  have "calls_enough ?s 0 \<le> length [2, 2, 2, 2 :: int]" by (simp add: p(2))
  from viewer_catches_up [OF 1(1-3) refl p(1) 1(4) speaking_talks this, of Handshake.demo_env]
  show ?thesis using 1(1,2) by (auto simp: p(3) list_all2_Cons1)
qed

end
