(* ===== verification/Publishing.thy ===== *)
theory Publishing
  imports Viewing
begin

text \<open>
  The way of published media: the parser of the publisher's connection, the calls of the handler its
  RTMP context makes, and the service that answers them.
\<close>

section \<open>The handler's calls\<close>

text \<open>
  What the service does in the calls a context makes, in their order; what a context sends or closes
  is the connection's. \<open>LiveService\<close> has no \<open>onPublishPrepare\<close> of its own.
\<close>

fun serve :: "config \<Rightarrow> int \<Rightarrow> nat \<Rightarrow> effect list \<Rightarrow> service \<Rightarrow> service res" where
  "serve cfg now c [] sv = Inr sv"
| "serve cfg now c (OnRecv p # es) sv = bindr (onRecv now c p sv) (serve cfg now c es)"
| "serve cfg now c (OnPlay name prm # es) sv =
     bindr (onPlay cfg now c name prm sv) (\<lambda>(r, sv1). serve cfg now c es sv1)"
| "serve cfg now c (OnPublish name prm # es) sv =
     bindr (onPublish cfg now c name prm sv) (\<lambda>(r, sv1). serve cfg now c es sv1)"
| "serve cfg now c (OnActive # es) sv = bindr (onActive now c sv) (serve cfg now c es)"
| "serve cfg now c (e # es) sv = serve cfg now c es sv"

lemma serve_reaches:
  "serve cfg now c es sv = Inr sv1 \<Longrightarrow> service_reach cfg (\<lambda>_ _. True) sv \<Longrightarrow> service_reach cfg (\<lambda>_ _. True) sv1"
proof (induction cfg now c es sv rule: serve.induct)
  case (3 cfg now c name prm es sv)
  then obtain r sv2 where p: "onPlay cfg now c name prm sv = Inr (r, sv2)" "serve cfg now c es sv2 = Inr sv1"
    by (auto simp: res_simps)
  then show ?case using 3 service_reach.step [OF 3(3) _ service_step.plays [OF p(1)]] by blast
next
  case (4 cfg now c name prm es sv)
  then obtain r sv2 where p: "onPublish cfg now c name prm sv = Inr (r, sv2)" "serve cfg now c es sv2 = Inr sv1"
    by (auto simp: res_simps)
  then show ?case using 4 service_reach.step [OF 4(3) _ service_step.publishes [OF p(1)]] by blast
next
  case (2 cfg now c p es sv)
  then obtain sv2 where r: "onRecv now c p sv = Inr sv2" "serve cfg now c es sv2 = Inr sv1" by (auto simp: bindr_eq_Inr)
  then show ?case using 2 service_reach.step [OF 2(3) _ service_step.receives [OF r(1)]] by blast
next
  case (5 cfg now c es sv)
  then obtain sv2 where r: "onActive now c sv = Inr sv2" "serve cfg now c es sv2 = Inr sv1" by (auto simp: bindr_eq_Inr)
  then show ?case using 5 service_reach.step [OF 5(3) _ service_step.wakes [OF r(1)]] by blast
qed auto

section \<open>From the wire to the handler\<close>

definition audio_video :: "packet \<Rightarrow> bool" where
  "audio_video q \<longleftrightarrow> ptype q = uint kRtmpMsgTypeAudio \<or> ptype q = uint kRtmpMsgTypeVideo"

lemma audio_video_complete:
  assumes "audio_video q" "cx_handler x"
  shows "messageComplete q x = Inr (emit (OnRecv (setPacketType q)) x)"
  using assms by (auto simp: audio_video_def messageComplete_def Let_def notify_def
      kRtmpMsgTypeAudio_def kRtmpMsgTypeVideo_def kRtmpMsgTypeChunkSize_def kRtmpMsgTypeBytesRead_def
      kRtmpMsgTypeUserControl_def kRtmpMsgTypeWindowACKSize_def kRtmpMsgTypeAMF3Message_def kRtmpMsgTypeAMFMessage_def)

text \<open>The context reads what an observer reads, and calls its handler with each message.\<close>

lemma media_loop:
  "parse_loop fst set_in collect (cx_in x, acc) b = Inr ((st, rs), n) \<Longrightarrow> cx_handler x \<Longrightarrow>
   \<exists>qs. rs = acc @ qs \<and> ((\<forall>q \<in> set qs. audio_video q) \<longrightarrow>
     ctx_loop x b = Inr (x\<lparr>cx_in := st, cx_effects := cx_effects x @ map (OnRecv \<circ> setPacketType) qs\<rparr>, n))"
proof (induction "length b" arbitrary: b x acc n rule: less_induct)
  case less
  show ?case
  proof (cases "length b \<le> 1")
    case True
    then show ?thesis using less.prems(1) by (simp add: observer.loop_short rtmp.loop_short)
  next
    case False
    then have b: "1 < length b" by simp
    obtain s where s: "parse_chunk (cx_in x) b = Inr s"
      using less.prems(1) b by (subst (asm) parse_loop.simps) (auto simp: bindr_eq_Inr)
    show ?thesis
    proof (cases s)
      case (InWait st1)
      have "parse_loop fst set_in collect (cx_in x, acc) b = Inr (set_in st1 (cx_in x, acc), 0)"
        by (rule observer.loop_wait [OF b]) (simp add: s InWait)
      moreover have "ctx_loop x b = Inr (set_cx_in st1 x, 0)" by (rule rtmp.loop_wait [OF b]) (simp add: s InWait)
      ultimately show ?thesis using less.prems(1) by (auto simp: set_in_def set_cx_in_def)
    next
      case (InTook st1 k m)
      have o: "parse_loop fst set_in collect (cx_in x, acc) b = bindr (observer.handled m st1 (cx_in x, acc)) (\<lambda>c1.
          bindr (parse_loop fst set_in collect c1 (drop k b)) (\<lambda>(c2, i). Inr (c2, k + i)))"
        by (rule observer.loop_took [OF b]) (simp add: s InTook)
      have r: "ctx_loop x b = bindr (rtmp.handled m st1 x) (\<lambda>c1.
          bindr (ctx_loop c1 (drop k b)) (\<lambda>(c2, i). Inr (c2, k + i)))"
        by (rule rtmp.loop_took [OF b]) (simp add: s InTook)
      have k: "length (drop k b) < length b" using parse_chunk_took [OF s [unfolded InTook]] b by simp
      let ?m = "case m of None \<Rightarrow> [] | Some p \<Rightarrow> [p]"
      let ?x1 = "x\<lparr>cx_in := st1, cx_effects := cx_effects x @ map (OnRecv \<circ> setPacketType) ?m\<rparr>"
      have h: "observer.handled m st1 (cx_in x, acc) = Inr (st1, acc @ ?m)"
        by (simp add: set_in_def collect_def split: option.split)
      obtain i where i: "parse_loop fst set_in collect (cx_in ?x1, acc @ ?m) (drop k b) = Inr ((st, rs), i)" "n = k + i"
        using less.prems(1) unfolding o h by (auto simp: bindr_eq_Inr)
      have hx: "cx_handler ?x1" using less.prems(2) by simp
      obtain qs where qs: "rs = (acc @ ?m) @ qs" "(\<forall>q \<in> set qs. audio_video q) \<longrightarrow>
          ctx_loop ?x1 (drop k b) = Inr (?x1\<lparr>cx_in := st, cx_effects := cx_effects ?x1 @ map (OnRecv \<circ> setPacketType) qs\<rparr>, i)"
        using less.hyps [OF k i(1) hx] by blast
      have "rtmp.handled m st1 x = Inr ?x1" if "\<forall>q \<in> set ?m. audio_video q"
        using that less.prems(2) by (cases m) (simp_all add: set_cx_in_def audio_video_complete emit_def)
      then show ?thesis
        using qs i(2) by (intro exI [of _ "?m @ qs"]) (auto simp: r)
    qed
  qed
qed

section \<open>From the handler to the stream\<close>

lemma addPacket_audio_video:
  assumes "audio_video q"
  shows "\<exists>s1 w. addPacket now (setPacketType q) s = Inr (s1, w)"
proof -
  have "\<not> isMeta (mark_key ((setTimestamp t (setPacketType q))\<lparr>pindex := i\<rparr>))" for t i
    using assms by (auto simp: audio_video_def setPacketType_def mark_key_def setTimestamp_def isMeta_def packet_types
        kRtmpMsgTypeAudio_def kRtmpMsgTypeVideo_def)
  then show ?thesis
    by (simp add: addPacket_def Let_def save_header_def parseCodecHeader_def case_prod_unfold)
qed

lemma onRecv_stream:
  assumes "hp_context (sv_heap sv) c = Some u" "i = lu_session (hp_users (sv_heap sv) u)"
    and "addPacket now p (ses_stream (sv_store sv i)) = Inr (s1, w)"
  shows "\<exists>sv1. onRecv now c p sv = Inr sv1 \<and> ses_stream (sv_store sv1 i) = s1 \<and> sv_sessions sv1 = sv_sessions sv
    \<and> hp_context (sv_heap sv1) = hp_context (sv_heap sv) \<and> hp_users (sv_heap sv1) = hp_users (sv_heap sv)
    \<and> ses_app_info (sv_store sv1 i) = ses_app_info (sv_store sv i)"
  using assms(3) by (simp add: onRecv_def assms(1,2) on_session_def Let_def activeAllPlayers_def wakes_sel)

abbreviation typed :: "int \<Rightarrow> packet list \<Rightarrow> (int \<times> packet) list" where
  "typed now \<equiv> map (\<lambda>q. (now, setPacketType q))"

lemma serve_media:
  assumes "hp_context (sv_heap sv) c = Some u" "i = lu_session (hp_users (sv_heap sv) u)" "\<forall>q \<in> set qs. audio_video q"
  shows "\<exists>sv1 s1. serve cfg now c (map (OnRecv \<circ> setPacketType) qs) sv = Inr sv1
    \<and> add_all (typed now qs) (ses_stream (sv_store sv i)) = Inr s1 \<and> ses_stream (sv_store sv1 i) = s1
    \<and> sv_sessions sv1 = sv_sessions sv \<and> hp_context (sv_heap sv1) = hp_context (sv_heap sv)
    \<and> ses_app_info (sv_store sv1 i) = ses_app_info (sv_store sv i)"
  using assms
proof (induction qs arbitrary: sv)
  case (Cons q qs)
  obtain s1 w where a: "addPacket now (setPacketType q) (ses_stream (sv_store sv i)) = Inr (s1, w)"
    using addPacket_audio_video Cons.prems(3) by (metis list.set_intros(1))
  obtain sv1 where r: "onRecv now c (setPacketType q) sv = Inr sv1" "ses_stream (sv_store sv1 i) = s1"
      "sv_sessions sv1 = sv_sessions sv" "hp_context (sv_heap sv1) = hp_context (sv_heap sv)"
      "hp_users (sv_heap sv1) = hp_users (sv_heap sv)" "ses_app_info (sv_store sv1 i) = ses_app_info (sv_store sv i)"
    using onRecv_stream [OF Cons.prems(1,2) a] by blast
  then show ?case using Cons.IH [of sv1] Cons.prems a by (auto simp: r)
qed simp

lemma stored_later:
  assumes "filled s" "add_all new s = Inr s1" "frame_index s1 < 2 ^ 31 - 1"
    and "k < length new" "length new - 1000 \<le> k"
  shows "\<exists>q. packet_buffer s1 ! slot (frame_index s + 1 + int k) = Some q \<and> pindex q = frame_index s + 1 + int k
    \<and> same_media q (snd (new ! k))"
proof -
  obtain ps t where a: "add_all ps (newStream t) = Inr s" using assms(1) by (auto simp: filled_def)
  have app: "add_all (xs @ ys) s0 = bindr (add_all xs s0) (add_all ys)" for xs ys s0
    by (induction xs arbitrary: s0) (auto simp: bindr_assoc case_prod_unfold)
  have b: "add_all (ps @ new) (newStream t) = Inr s1" by (simp add: app a assms(2))
  have n: "frame_index s = int (length ps) - 1" "frame_index s1 = int (length ps) + int (length new) - 1"
    using add_all_count [OF a] add_all_count [OF b] by simp_all
  have inv: "stream_inv s1" "ring_all (\<lambda>i p. same_media p (snd ((ps @ new) ! nat i))) (frame_index s1) (packet_buffer s1)"
    using add_all_inv [OF b] n assms(3) by auto
  have w: "window (frame_index s1) (frame_index s + 1 + int k)" using assms(4,5) n by (auto simp: window_def)
  have m: "(ps @ new) ! nat (frame_index s + 1 + int k) = new ! k" using n(1) by (simp add: nth_append nat_add_distrib)
  obtain p where p: "packet_buffer s1 ! slot (frame_index s + 1 + int k) = Some p" "pindex p = frame_index s + 1 + int k"
    using inv(1) w by (auto simp: stream_inv_def ring_all_def)
  moreover obtain q where "packet_buffer s1 ! slot (frame_index s + 1 + int k) = Some q" "same_media q (snd (new ! k))"
    using inv(2) w unfolding ring_all_def m [symmetric] by blast
  ultimately show ?thesis by auto
qed

text \<open>What arrives on a publishing connection is added to its session's stream.\<close>

lemma media_served:
  assumes "service_reach cfg P sv0" "onPublish cfg t0 c name prm sv0 = Inr (True, sv)" "findSession name sv = Some i"
    and "messages_in (cx_in x) b = Inr ((st, qs), n)" "\<forall>q \<in> set qs. audio_video q" "cx_handler x"
  obtains x1 sv1 where "ctx_loop x b = Inr (x1, n)" "cx_in x1 = st" "serve cfg now c (effects_since x x1) sv = Inr sv1"
    "add_all (typed now qs) (ses_stream (sv_store sv i)) = Inr (ses_stream (sv_store sv1 i))"
    "sv_sessions sv1 = sv_sessions sv" "hp_context (sv_heap sv1) = hp_context (sv_heap sv)"
    "ses_app_info (sv_store sv1 i) = ses_app_info (sv_store sv i)"
proof -
  let ?x1 = "x\<lparr>cx_in := st, cx_effects := cx_effects x @ map (OnRecv \<circ> setPacketType) qs\<rparr>"
  have x1: "ctx_loop x b = Inr (?x1, n)" "effects_since x ?x1 = map (OnRecv \<circ> setPacketType) qs"
    using media_loop [of x "[]" b st qs n] assms(4-6) by (auto simp: messages_in_def effects_since_def)
  obtain u where u: "hp_context (sv_heap sv) c = Some u" "i = lu_session (hp_users (sv_heap sv) u)"
    using publish_result [OF reach_inv [OF assms(1)] assms(2)] assms(3) by (auto simp: member_of_def)
  show thesis
    using serve_media [OF u assms(5), of cfg now] x1(2) by (auto intro: that [OF x1(1)])
qed


section \<open>From publisher to viewer\<close>

definition same_content :: "message \<Rightarrow> packet \<Rightarrow> bool" where
  "same_content m q \<longleftrightarrow> (case m of (p, h, ts, f) \<Rightarrow> pdata q = payload p h \<and> ptype q = uint (msg_type h))"

lemma relayed:
  assumes "sendable p h ts" "arrives_as (p, h, ts, f) q" "same_media r (setPacketType q)"
    and "arrives_as (r, the (phdr r), ts', f') q'"
  shows "same_content (p, h, ts, f) q'"
proof -
  have q: "pdata q = payload p h" "phdr q = Some (h\<lparr>timestamp := ts\<rparr>)" "psize q = length (pblock q)"
    using assms(2) by (simp_all add: arrives_as_def is_message_def message_ok_def)
  have "pblock q = payload p h" using q(1,3) by (simp add: pdata_def)
  moreover have "pblock r = pblock q" "phdr r = phdr q"
    using assms(3) by (auto simp: same_media_def setPacketType_def split: if_splits)
  ultimately have "phdr r = Some (h\<lparr>timestamp := ts\<rparr>)" "payload r (h\<lparr>timestamp := ts\<rparr>) = payload p h"
    using q(2) by (simp_all add: payload_def)
  then show ?thesis using assms(4) by (simp add: arrives_as_def is_message_def same_content_def)
qed

lemma new_session_stream:
  assumes "findSession name sv0 = None" "onPublish cfg t c name prm sv0 = Inr (True, sv)" "findSession name sv = Some i"
    and "service_inv sv0"
  shows "ses_stream (sv_store sv i) = newStream t"
proof -
  obtain i' u svc h1 s2 h2 where j: "createSession cfg t name sv0 = (Some i', svc)"
      "setPublisher u (sv_store svc i', h1) = Inr (s2, h2)" "sv = svc\<lparr>sv_store := (sv_store svc)(i' := s2), sv_heap := h2\<rparr>"
    by (rule publish_joins [OF assms(4,2)])
  have "map_of (sv_sessions svc) name = Some i'" using createSession_keeps(4) [OF assms(4) j(1), of i'] by simp
  then have i: "i' = i" using assms(3) by (simp add: j(3) findSession_def)
  have "ses_stream (sv_store svc i') = newStream t"
    using j(1) assms(1) by (auto simp: createSession_def findSession_def Let_def newSession_def split: option.splits if_splits)
  then show ?thesis
    using setPublisher_stream [OF j(2)] by (simp add: j(3) i)
qed

text \<open>The frames a viewer gets of a stream that was filled with \<open>qs\<close>.\<close>

lemma frames_relayed:
  assumes add: "add_all (typed now qs) (newStream t) = Inr s" and w: "watchable s latency j st" "stream_inv s"
    and qs: "list_all2 arrives_as ms qs" "\<forall>(p, h, ts, f) \<in> set ms. sendable p h ts"
    and fs: "list_all2 arrives_as (frame_messages (frames_from s j) tc) fs"
  shows "list_all2 same_content (drop (nat j) ms) fs"
proof -
  have n: "frame_index s = int (length qs) - 1" using add_all_count [OF add] by simp
  have j: "0 \<le> j" "j \<le> frame_index s" "frame_index s - 1000 < j"
    using watchable_group(1) [OF w] by (auto simp: window_def)
  have lf: "length (frames_from s j) = length qs - nat j" using j n by (simp add: frames_from_def)
  have lq: "length ms = length qs" using qs(1) by (rule list_all2_lengthD)
  have len: "length fs = length qs - nat j"
    using list_all2_lengthD [OF fs] by (simp add: frame_messages_def lf)
  have "same_content (drop (nat j) ms ! k) (fs ! k)" if k: "k < length qs - nat j" for k
  proof -
    let ?k = "nat j + k" and ?r = "frames_from s j ! k"
    have idx: "j + int k = frame_index (newStream t) + 1 + int ?k" using j(1) by simp
    have kq: "?k < length (typed now qs)" "length (typed now qs) - 1000 \<le> ?k" using k j n by auto
    have "frame_index s < 2 ^ 31 - 1" using w(1) by (simp add: watchable_def)
    then obtain r where r: "packet_buffer s ! slot (j + int k) = Some r" "same_media r (setPacketType (qs ! ?k))"
      using stored_later [OF filled_new add _ kq] kq(1) unfolding idx by auto
    have fr: "?r = r" using k j n r(1) by (simp add: frames_from_def stored_def nth_upto)
    obtain p h ts f where m: "ms ! ?k = (p, h, ts, f)" by (cases "ms ! ?k")
    have "ms ! ?k \<in> set ms" using k lq by simp
    then have "sendable p h ts" using qs(2) m by fastforce
    moreover have "arrives_as (p, h, ts, f) (qs ! ?k)" using list_all2_nthD [OF qs(1), of ?k] k lq m by simp
    moreover have "arrives_as (r, the (phdr r), word_of_int (correct_all (frames_from s j) tc ! k), False) (fs ! k)"
      using list_all2_nthD2 [OF fs, of k] k lf fr by (simp add: len frame_messages_def)
    ultimately show ?thesis using relayed r(2) m k lq by simp
  qed
  then show ?thesis by (simp add: list_all2_conv_all_nth len lq)
qed

definition media_message :: "message \<Rightarrow> bool" where
  "media_message m \<longleftrightarrow> (case m of (p, h, ts, f) \<Rightarrow> msg_type h = kRtmpMsgTypeAudio \<or> msg_type h = kRtmpMsgTypeVideo)"

lemma media_arrives: "arrives_as m q \<Longrightarrow> media_message m \<Longrightarrow> audio_video q"
  by (auto simp: arrives_as_def is_message_def media_message_def audio_video_def split: prod.splits)

lemma all_media_arrive: "list_all2 arrives_as ms qs \<Longrightarrow> \<forall>m \<in> set ms. media_message m \<Longrightarrow> \<forall>q \<in> set qs. audio_video q"
  by (induction rule: list_all2_induct) (auto dest: media_arrives)

text \<open>The bytes a sender built of media messages, as the context of a publisher reads them.\<close>

lemma sent_media:
  assumes "in_ok st0" "in_sync os st0" "\<forall>m \<in> set ms. message_fits st0 m \<and> media_message m"
    and "out_used os + sum_list (map header_room ms) \<le> RTMP_BUFFER_SIZE" "sum_list (map message_room ms) < 2 ^ 31"
    and "build_all (map (\<lambda>(p, h, ts, f). (p, ts, f)) ms) os = Inr o1" "sending_buffers o1 = sending_buffers os @ ns"
  obtains st qs where "messages_in st0 (concat ns) = Inr ((st, qs), length (concat ns))" "list_all2 arrives_as ms qs"
    "\<forall>q \<in> set qs. audio_video q"
proof -
  have "\<forall>m \<in> set ms. message_fits st0 m" using assms(3) by blast
  from many_messages [OF assms(1,2) this assms(4)] assms(6,7) obtain st1 where
    1: "length (concat ns) \<le> sum_list (map message_room ms)"
      "length (concat ns) < 2 ^ 31 \<longrightarrow> (\<forall>acc. \<exists>qs. list_all2 arrives_as ms qs \<and>
         parse_loop fst set_in collect (st0, acc) (concat ns) = Inr ((st1, acc @ qs), length (concat ns)))"
    by auto
  then have "\<exists>qs. list_all2 arrives_as ms qs \<and>
      parse_loop fst set_in collect (st0, []) (concat ns) = Inr ((st1, [] @ qs), length (concat ns))"
    using assms(5) by (meson order_le_less_trans)
  then obtain qs where qs: "list_all2 arrives_as ms qs" "messages_in st0 (concat ns) = Inr ((st1, qs), length (concat ns))"
    by (auto simp: messages_in_def)
  have "\<forall>q \<in> set qs. audio_video q"
    using all_media_arrive [OF qs(1)] assms(3) by blast
  then show thesis using that qs by blast
qed

section \<open>Properties\<close>

text \<open>
  C9: what a publisher sends is what the stream holds. When bytes of audio and video messages reach the
  RTMP context of a connection that publishes a name, the context calls its handler once for each
  message, in order, and the service adds each to the session's stream, where it gets the next index:
  afterwards the ring holds, for each of the last thousand messages, the bytes and the header the
  publisher sent. Nothing faults, and the connection still publishes.
\<close>

theorem published_media_stored:
  assumes "service_reach cfg P sv0" "onPublish cfg t0 c name prm sv0 = Inr (True, sv)" "findSession name sv = Some i"
    and "messages_in (cx_in x) b = Inr ((st, qs), n)" "\<forall>q \<in> set qs. audio_video q" "cx_handler x"
    and "s = ses_stream (sv_store sv i)" "frame_index s + int (length qs) < 2 ^ 31 - 1"
  shows "\<exists>x1 sv1 s1. ctx_loop x b = Inr (x1, n) \<and> cx_in x1 = st \<and> serve cfg now c (effects_since x x1) sv = Inr sv1
    \<and> findSession name sv1 = Some i \<and> hp_context (sv_heap sv1) c = hp_context (sv_heap sv) c
    \<and> s1 = ses_stream (sv_store sv1 i) \<and> frame_index s1 = frame_index s + int (length qs)
    \<and> (\<forall>k < length qs. length qs - 1000 \<le> k \<longrightarrow>
        (\<exists>q. packet_buffer s1 ! slot (frame_index s + 1 + int k) = Some q \<and> pindex q = frame_index s + 1 + int k
          \<and> pdata q = pdata (qs ! k) \<and> phdr q = phdr (qs ! k)))"
proof -
  obtain x1 sv1 where 1: "ctx_loop x b = Inr (x1, n)" "cx_in x1 = st" "serve cfg now c (effects_since x x1) sv = Inr sv1"
      "add_all (typed now qs) s = Inr (ses_stream (sv_store sv1 i))" "sv_sessions sv1 = sv_sessions sv"
      "hp_context (sv_heap sv1) = hp_context (sv_heap sv)"
    unfolding assms(7) by (rule media_served [OF assms(1-6)])
  let ?s1 = "ses_stream (sv_store sv1 i)"
  have f: "filled s" using step_filled [OF service_step.publishes [OF assms(2)] reach_filled [OF assms(1)]] assms(7) by blast
  have c: "frame_index ?s1 = frame_index s + int (length qs)" using add_all_count [OF 1(4)] by simp
  have "\<exists>q. packet_buffer ?s1 ! slot (frame_index s + 1 + int k) = Some q \<and> pindex q = frame_index s + 1 + int k
      \<and> pdata q = pdata (qs ! k) \<and> phdr q = phdr (qs ! k)" if k: "k < length qs" "length qs - 1000 \<le> k" for k
  proof -
    have "same_media q (setPacketType (qs ! k)) \<Longrightarrow> pdata q = pdata (qs ! k) \<and> phdr q = phdr (qs ! k)" for q
      by (auto simp: same_media_def setPacketType_def pdata_def)
    then show ?thesis using stored_later [OF f 1(4), of k] c assms(8) k by auto
  qed
  then show ?thesis using 1 c assms(3) by (auto simp: findSession_def)
qed

definition demo_media :: packet where
  "demo_media = setExt (demo_header\<lparr>msg_len := 2, msg_type := kRtmpMsgTypeAudio\<rparr>) ((newPacket 2)\<lparr>psize := 2\<rparr>)"

lemma demo_media_bytes:
  obtains b st q n where "messages_in newInState b = Inr ((st, [q]), n)" "audio_video q"
proof -
  let ?h = "demo_header\<lparr>msg_len := 2, msg_type := kRtmpMsgTypeAudio\<rparr>"
  let ?m = "(demo_media, ?h, 0 :: u32, False)"
  have "phdr demo_media = Some ?h" "length (pblock demo_media) = 2"
    by (simp_all add: demo_media_def setExt_def newPacket_def)
  then have "easy newInState ?m"
    by (simp add: easy_def message_fits_def sendable_def chunk_size_agrees_def header_room_def RTMP_BUFFER_SIZE_def)
      (simp add: demo_header_def newInState_def)
  moreover have "idle (newContext True False)" "in_sync (cx_out (newContext True False)) newInState"
    by (simp_all add: idle_def newContext_def) (simp add: newOutState_def)
  ultimately obtain ns st qs where 1: "messages_in newInState (concat ns) = Inr ((st, qs), length (concat ns))"
      "list_all2 arrives_as [?m] qs"
    by (rule_tac handed_over [where ms = "[?m]" and x = "newContext True False" and st = newInState]) auto
  then obtain q where q: "qs = [q]" "arrives_as ?m q" by (auto simp: list_all2_Cons1)
  then have "audio_video q" by (simp add: arrives_as_def is_message_def audio_video_def)
  then show thesis using that 1(1) q(1) by simp
qed

theorem published_media_stored_witness:
  "\<exists>sv b x1 n sv1. onPublish demo_cfg 0 1 ''d/a/s'' [] newService = Inr (True, sv) \<and>
     ctx_loop (newContext True False) b = Inr (x1, n) \<and>
     serve demo_cfg 5 1 (effects_since (newContext True False) x1) sv = Inr sv1 \<and>
     frame_index (ses_stream (sv_store sv1 0)) = frame_index (ses_stream (sv_store sv 0)) + 1"
proof -
  obtain sv where sv: "onPublish demo_cfg 0 1 ''d/a/s'' [] newService = Inr (True, sv)"
    using demo_publish_first by metis
  have f: "findSession ''d/a/s'' sv = Some 0" by (simp add: findSession_def demo_published_session(1) [OF sv])
  obtain b st q n where b: "messages_in newInState b = Inr ((st, [q]), n)" "audio_video q" by (rule demo_media_bytes)
  have x: "cx_in (newContext True False) = newInState" "cx_handler (newContext True False)" by (simp_all add: newContext_def)
  have i: "frame_index (ses_stream (sv_store sv 0)) + int (length [q]) < 2 ^ 31 - 1" by (simp add: demo_published_session(2) [OF sv])
  have a: "\<forall>q \<in> set [q]. audio_video q" using b(2) by simp
  show ?thesis
    using published_media_stored [OF service_reach.start sv f b(1) [folded x(1)] a x(2) refl i, of 5] sv by auto
qed

text \<open>
  C2: what a publisher sends is what a viewer sees. A sender puts audio and video messages into chunks; the
  bytes reach the RTMP context of a connection that publishes a new name, whose handler's calls the
  service answers. Another connection then plays the name, whatever happened to the RTMP contexts meanwhile. When it is woken, its parser reads, after at
  most two codec headers, the messages the sender sent from a key frame on up to the last: byte for
  byte, with their types, in order, none missing. Then the connection sleeps.
\<close>

theorem broadcast:
  assumes "service_reach cfg (\<lambda>_ _. True) sv0" "findSession name sv0 = None" "onPublish cfg t0 c name prm sv0 = Inr (True, sv)"
    and "in_ok (cx_in x)" "in_sync os (cx_in x)" "cx_handler x"
    and "\<forall>m \<in> set ms. message_fits (cx_in x) m \<and> media_message m"
    and "out_used os + sum_list (map header_room ms) \<le> RTMP_BUFFER_SIZE" "sum_list (map message_room ms) < 2 ^ 31"
    and "build_all (map (\<lambda>(p, h, ts, f). (p, ts, f)) ms) os = Inr o1" "sending_buffers o1 = sending_buffers os @ ns"
    and "ctx_loop x (concat ns) = Inr (x1, n)" "serve cfg now c (effects_since x x1) sv = Inr sv1"
    and "onPlay cfg t1 c2 name prm2 (sv1\<lparr>sv_cx := cx\<rparr>) = Inr (True, sv2)" "findSession name sv2 = Some i" "s = ses_stream (sv_store sv2 i)"
    and "watchable s (latency_of (sv_store sv2 i)) j st" "sv_cx sv2 c2 = Some y" "talking y st"
    and "calls_enough s j \<le> length ts"
  shows "\<exists>sv3 st3 hs fs. view E c2 ts sv2 st = Inr (sv3, st3, hs @ fs) \<and> length hs \<le> 2 \<and> fs \<noteq> []
    \<and> list_all2 same_content (drop (nat j) ms) fs \<and> last (hp_events (sv_heap sv3)) = Deactivated c2"
proof -
  obtain i0 where i0: "findSession name sv = Some i0" using publish_result [OF reach_inv [OF assms(1)] assms(3)] by blast
  obtain st1 qs where q: "messages_in (cx_in x) (concat ns) = Inr ((st1, qs), length (concat ns))"
      "list_all2 arrives_as ms qs" "\<forall>q \<in> set qs. audio_video q"
    by (rule sent_media [OF assms(4,5,7-11)])
  have sv1: "add_all (typed now qs) (ses_stream (sv_store sv i0)) = Inr (ses_stream (sv_store sv1 i0))"
      "sv_sessions sv1 = sv_sessions sv"
    using media_served [OF assms(1,3) i0 q(1,3) assms(6), of now] assms(12,13) by (metis Pair_inject sum.inject(2))+
  have "service_reach cfg (\<lambda>_ _. True) sv"
    by (rule service_reach.step [OF assms(1) _ service_step.publishes [OF assms(3)]]) simp
  then have r: "service_reach cfg (\<lambda>_ _. True) (sv1\<lparr>sv_cx := cx\<rparr>)"
    by (intro service_reach.contexts serve_reaches [OF assms(13)])
  have "findSession name (sv1\<lparr>sv_cx := cx\<rparr>) = Some i0" using i0 sv1(2) by (simp add: findSession_def)
  note k = play_known [OF reach_inv [OF r] assms(14) this]
  have i: "i = i0" using k(1) assms(15) by simp
  have add: "add_all (typed now qs) (newStream t0) = Inr s"
    using sv1(1) new_session_stream [OF assms(2,3) i0 reach_inv [OF assms(1)]] k(3) by (simp add: assms(16) i)
  obtain sv3 st3 got where v: "view E c2 ts sv2 st = Inr (sv3, st3, got)" "list_all2 arrives_as (programme s j) got"
      "last (hp_events (sv_heap sv3)) = Deactivated c2"
    using viewer_gets(1) [OF r assms(14-20), of E] by blast
  note inv = viewer_gets(2) [OF r assms(14-20)]
  obtain hs fs where g: "got = hs @ fs" "list_all2 arrives_as (map (\<lambda>p. (p, the (phdr p), 0, True)) (headers_at s j)) hs"
      "list_all2 arrives_as (frame_messages (frames_from s j) newCorrector) fs"
    using v(2) by (auto simp: programme_def list_all2_append1)
  have "length (headers_at s j) \<le> 2" by (auto simp: headers_at_def listed_def split: option.splits)
  then have "length hs \<le> 2" using list_all2_lengthD [OF g(2)] by simp
  moreover have "\<forall>(p, h, ts, f) \<in> set ms. sendable p h ts" using assms(7) by (auto simp: message_fits_def)
  then have "list_all2 same_content (drop (nat j) ms) fs"
    by (rule frames_relayed [OF add assms(17) inv q(2) _ g(3)])
  moreover have "frames_from s j \<noteq> []"
    using watchable_group(1) [OF assms(17) inv] by (simp add: frames_from_def window_def)
  then have "fs \<noteq> []" using g(3) by auto
  ultimately show ?thesis using v(1,3) g(1) by blast
qed

definition demo_key :: message where
  "demo_key = (demo_video_header\<lparr>phdr := Some (demo_header\<lparr>msg_len := 2, msg_type := kRtmpMsgTypeVideo\<rparr>)\<rparr>,
     demo_header\<lparr>msg_len := 2, msg_type := kRtmpMsgTypeVideo\<rparr>, 0, False)"

lemma demo_key_fits: "message_fits newInState demo_key" "media_message demo_key" "header_room demo_key = 14" "message_room demo_key = 16"
  by (simp_all add: demo_key_def message_fits_def sendable_def chunk_size_agrees_def header_room_def message_room_def media_message_def)
    (simp_all add: demo_header_def newInState_def demo_video_header_def)

lemma demo_key_arrives:
  assumes "arrives_as demo_key q"
  shows "ptype (setPacketType q) = kPacketTypeVideo" "pdata (setPacketType q) = [0x17, 0]"
    "phdr (setPacketType q) = Some (demo_header\<lparr>msg_len := 2, msg_type := kRtmpMsgTypeVideo\<rparr>)"
proof -
  have q: "pdata q = [0x17, 0]" "ptype q = uint kRtmpMsgTypeVideo"
      "phdr q = Some (demo_header\<lparr>msg_len := 2, msg_type := kRtmpMsgTypeVideo\<rparr>)"
    using assms by (simp_all add: demo_key_def arrives_as_def is_message_def payload_def demo_video_header_def)
      (simp_all add: demo_header_def)
  show "ptype (setPacketType q) = kPacketTypeVideo"
    using q(2) by (simp add: setPacketType_def kRtmpMsgTypeVideo_def kRtmpMsgTypeAudio_def)
  show "pdata (setPacketType q) = [0x17, 0]" "phdr (setPacketType q) = Some (demo_header\<lparr>msg_len := 2, msg_type := kRtmpMsgTypeVideo\<rparr>)"
    using q(1,3) by (simp_all add: setPacketType_def pdata_def)
qed

theorem broadcast_witness:
  "\<exists>sv sv1 sv2 sv3 st3 hs q. onPublish demo_cfg 0 1 ''d/a/s'' [] newService = Inr (True, sv)
     \<and> onPlay demo_cfg 6 2 ''d/a/s'' [] (sv1\<lparr>sv_cx := [2 \<mapsto> speaking]\<rparr>) = Inr (True, sv2)
     \<and> view Handshake.demo_env 2 [7, 7, 7, 7] sv2 newInState = Inr (sv3, st3, hs @ [q]) \<and> pdata q = [0x17, 0]"
proof -
  let ?x = "newContext True False" and ?ms = "[demo_key]"
  obtain sv where sv: "onPublish demo_cfg 0 1 ''d/a/s'' [] newService = Inr (True, sv)"
    using demo_publish_first by metis
  note p = demo_published_session [OF sv]
  have x: "in_ok (cx_in ?x)" "in_sync newOutState (cx_in ?x)" "cx_handler ?x"
      "\<forall>m \<in> set ?ms. message_fits (cx_in ?x) m \<and> media_message m"
    by (simp_all add: newContext_def newInState_ok demo_key_fits)
  have room: "out_used newOutState + sum_list (map header_room ?ms) \<le> RTMP_BUFFER_SIZE" "sum_list (map message_room ?ms) < 2 ^ 31"
    by (simp_all add: demo_key_fits newOutState_def RTMP_BUFFER_SIZE_def)
  have "\<forall>m \<in> set ?ms. message_fits (cx_in ?x) m" using x(4) by blast
  then obtain o1 ns where b: "build_all (map (\<lambda>(p, h, ts, f). (p, ts, f)) ?ms) newOutState = Inr o1"
      "sending_buffers o1 = sending_buffers newOutState @ ns"
    using many_messages [OF x(1,2) _ room(1)] by blast
  obtain st qs where m: "messages_in (cx_in ?x) (concat ns) = Inr ((st, qs), length (concat ns))" "list_all2 arrives_as ?ms qs"
      "\<forall>q \<in> set qs. audio_video q"
    by (rule sent_media [OF x(1,2,4) room b])
  obtain q where q: "qs = [q]" "arrives_as demo_key q" using m(2) by (auto simp: list_all2_Cons1)
  have known: "findSession ''d/a/s'' sv = Some 0" by (simp add: findSession_def p)
  obtain x1 sv1 where s: "ctx_loop ?x (concat ns) = Inr (x1, length (concat ns))"
      "serve demo_cfg 5 1 (effects_since ?x x1) sv = Inr sv1"
      "add_all (typed 5 qs) (ses_stream (sv_store sv 0)) = Inr (ses_stream (sv_store sv1 0))" "sv_sessions sv1 = sv_sessions sv"
      "ses_app_info (sv_store sv1 0) = ses_app_info (sv_store sv 0)"
    by (rule media_served [OF service_reach.start sv known m(1,3) x(3), of 5])
  let ?sv1 = "sv1\<lparr>sv_cx := [2 \<mapsto> speaking]\<rparr>"
  have "service_reach demo_cfg (\<lambda>_ _. True) sv"
    by (rule service_reach.step [OF service_reach.start _ service_step.publishes [OF sv]]) simp
  then have r: "service_reach demo_cfg (\<lambda>_ _. True) ?sv1" by (intro service_reach.contexts serve_reaches [OF s(2)])
  obtain sv2 where y: "onPlay demo_cfg 6 2 ''d/a/s'' [] ?sv1 = Inr (True, sv2)" using demo_play [OF reach_inv [OF r]] by metis
  have "findSession ''d/a/s'' ?sv1 = Some 0" by (simp add: findSession_def s(4) p)
  note k = play_known [OF reach_inv [OF r] y this]
  obtain w where a: "addPacket 5 (setPacketType q) (newStream 0) = Inr (ses_stream (sv_store sv2 0), w)"
    using s(3) k(3) by (auto simp: q p(2) bindr_eq_Inr)
  have l: "0 \<le> latency_of (sv_store sv2 0)" using k(4) by (simp add: latency_of_def s(5) p(3) newAppInfo_def)
  note f = first_key_programme [OF a demo_key_arrives [OF q(2)] _ _ _ l]
  have w: "watchable (ses_stream (sv_store sv2 0)) (latency_of (sv_store sv2 0)) 0 newInState"
      "calls_enough (ses_stream (sv_store sv2 0)) 0 \<le> length [7, 7, 7, 7 :: int]"
    using f(1,2) by (simp_all add: demo_header_def)
  have c: "sv_cx sv2 2 = Some speaking" by (simp add: k(2))
  have n: "findSession ''d/a/s'' newService = None" by (simp add: findSession_def newService_def)
  from broadcast [OF service_reach.start n sv x room b s(1,2) y k(1) refl w(1) c speaking_talks w(2)]
  obtain sv3 st3 hs fs where v: "view Handshake.demo_env 2 [7, 7, 7, 7] sv2 newInState = Inr (sv3, st3, hs @ fs)"
      "list_all2 same_content [demo_key] fs" by fastforce
  then obtain q' where "fs = [q']" "same_content demo_key q'" by (auto simp: list_all2_Cons1)
  then have "pdata q' = [0x17, 0]"
    by (simp add: same_content_def demo_key_def payload_def demo_video_header_def)
  then show ?thesis using sv y v(1) \<open>fs = [q']\<close> by blast
qed

end
