(* ===== verification/Spec2Isabelle.thy ===== *)
theory Spec2Isabelle
  imports LogLines IdleTime RtmpServer RtmpClient Dns Startup Udp BufferRuns Publishing
begin

text \<open>
  A verification library for a live-streaming server in C++. Publishers send audio and video over
  RTMP; viewers that play the same name get the codec headers and then the frames from a key frame
  on. The theories translate the code of \<open>src/src/\<close> and \<open>include/\<close> function by function, under the
  names the functions have there, and prove how the parts behave alone and together.

  \<^bold>\<open>The program.\<close> Threads with an event loop each (\<open>network/net/\<close>) watch descriptors, run tasks other
  threads hand over, and turn the timing wheels. TCP connections, an acceptor, servers and clients,
  and UDP sockets are handlers in a loop. On a connection sits an RTMP context (\<open>mmedia/rtmp/\<close>):
  handshake, then chunks that make up messages, of which commands carry AMF0 values. The context
  calls an \<open>RtmpHandler\<close>; in this program that is the live service (\<open>live/\<close>), which keeps sessions
  by name, each with users and a stream. A packet of a publisher goes into the stream's ring and
  wakes the players; a player posts frames to its context until it has caught up, and is woken again
  when they are written. Beside that, a main thread polls a task manager for the session timer and the
  log files (\<open>utils/\<close>), and a thread of its own looks up host names.

  \<^bold>\<open>Conventions.\<close> A struct or class is a record, an enumeration a datatype, an integer whose width
  matters a word. State is passed along explicitly. An operation that could read or write outside
  its block, follow a null pointer, fail an assertion, convert a number out of range, leave an
  exception uncaught or never end returns \<open>fault + 'a\<close>, and \<open>Inl\<close> names the fault: faults are results of
  the model and never hidden by a total function. Each operation of an object under a lock is one step.

  \<^bold>\<open>Bytes and values.\<close>
  \<^item> \<open>Prelude\<close>: types, faults, sequencing, generic lemmas and the collections of rules.
  \<^item> \<open>Bytes\<close> (\<open>bytes_reader.cpp\<close>, \<open>bytes_writer.cpp\<close>): the codecs. The locales \<open>fixed_codec\<close> and
    \<open>lossless_codec\<close> state what a pair of reader and writer promises; each width interprets one.
  \<^item> \<open>MsgBuffer\<close> (\<open>lssvc_msgbuffer.cpp\<close>): the growing receive buffer, and the locale \<open>byte_queue\<close> it
    satisfies. \<open>BufferRuns\<close>: any sequence of its operations against a queue of bytes.
  \<^item> \<open>Float64\<close>, \<open>Amf\<close> (\<open>mmedia/rtmp/amf/\<close>): doubles as bit patterns and the conversions the
    program makes, AMF0 encoders and decoders, their round trip and their faults.
  \<^item> \<open>LssString\<close> (\<open>lssvc_string.cpp\<close>), \<open>Packet\<close> (\<open>packet.cpp\<close>, \<open>rtmp_header.h\<close>).

  \<^bold>\<open>RTMP.\<close>
  \<^item> \<open>Handshake\<close> (\<open>rtmp_handshake.cpp\<close>): both sides as state machines; the order of what is sent in
    every run, and that the two sides complete with each other.
  \<^item> \<open>ChunkIn\<close>, \<open>ChunkOut\<close> (\<open>parseMessage\<close> and \<open>buildChunk\<close> of \<open>rtmp_context.cpp\<close>): parser and builder
    and their round trip for any sequence of messages. The locale \<open>chunk_consumer\<close> is what the
    parser asks of the code that takes messages; parsing in pieces is proved in it once. It is
    interpreted on a consumer that collects messages and on the context.
  \<^item> \<open>RtmpContext\<close> (the rest of \<open>rtmp_context.cpp\<close>): control and command messages, session names,
    the output queue and \<open>parse\<close>. What others see is recorded in order as effects.
  \<^item> \<open>RtmpLink\<close>, \<open>RtmpServer\<close> (\<open>rtmp_server.cpp\<close>), \<open>RtmpClient\<close> (\<open>rtmp_client.cpp\<close>): contexts on
    connections. Output reaches the peer in order; the tables of server and client agree with the
    loop's after every run. The server's handler is a parameter: what it does to connections within
    its calls - closing, waking, sending with their contexts - is done at its place, and the theorems
    are for every such handler. What the live service does in its calls otherwise is \<open>LiveService\<close>.

  \<^bold>\<open>Live streams.\<close>
  \<^item> \<open>TimeCorrector\<close>, \<open>LiveMedia\<close>, \<open>LiveStream\<close>, \<open>LivePlayer\<close> (\<open>live/base/\<close>, \<open>gop_mgr.cpp\<close>,
    \<open>codec_header.cpp\<close>, \<open>live_stream.cpp\<close>, \<open>rtmp_playeruser.cpp\<close>): corrected times, groups of
    pictures, the ring of the last thousand packets, and what a player posts.
  \<^item> \<open>LiveSession\<close>, \<open>LiveService\<close> (\<open>live_session.cpp\<close>, \<open>live_user.cpp\<close>, \<open>live_service.cpp\<close>): users in
    a heap, sessions in a store; an invariant of every reachable state of the service.
  \<^item> \<open>Viewing\<close>: the service, a player's context and the parser at the other end together. A woken
    player catches up by itself. \<open>Publishing\<close>: a publisher's bytes into the stream, and with
    \<open>Viewing\<close> the whole way from the publisher's chunks to the viewer's parser.

  \<^bold>\<open>Network.\<close>
  \<^item> \<open>TimingWheel\<close> (\<open>lssvc_timing_wheel.cpp\<close>), \<open>EventLoop\<close> (\<open>lssvc_eventloop.cpp\<close>, \<open>lssvc_event.cpp\<close>,
    \<open>lssvc_pipe_event.cpp\<close>): timers, the table of events and its masks, tasks, one turn of the
    loop. The locale \<open>loop_client\<close> carries an invariant of the handlers, tasks and timers to all runs.
  \<^item> \<open>TcpConn\<close> (\<open>lssvc_tcpconn.cpp\<close>, \<open>lssvc_connection.cpp\<close>), \<open>IdleTime\<close>: reading, writing, closing;
    when an idle connection times out. The locales \<open>tcp_user\<close> and \<open>tcp_program\<close> say what callbacks
    and virtual functions must keep; they give \<open>loop_client\<close>.
  \<^item> \<open>TcpServer\<close> (\<open>lssvc_acceptor.cpp\<close>, \<open>tcp_server.cpp\<close>), \<open>TcpClient\<close> (\<open>tcp_client.cpp\<close>): the locales
    \<open>tcp_server\<close> and \<open>client_user\<close> extend that to derived classes and are interpreted on the
    RTMP server and client, and on callbacks that only destroy or close.
  \<^item> \<open>InetAddress\<close>, \<open>SocketOpt\<close> (\<open>network/base/\<close>), \<open>Udp\<close> (\<open>lssvc_udp_socket.cpp\<close>, \<open>udp_server.cpp\<close>,
    \<open>udp_client.cpp\<close>): addresses, calls on sockets, datagrams. A datagram that waits is a node of
    pointers, and the memory they point into is part of the state. The locale \<open>udp_user\<close> is interpreted
    on the echo server and the client of the tests. \<open>Dns\<close> (\<open>dns_service.cpp\<close>): rounds of look-ups.

  \<^bold>\<open>The program around.\<close>
  \<^item> \<open>Config\<close> (\<open>lssvc_config.cpp\<close>, \<open>lssvc_domain_info.cpp\<close>, \<open>lssvc_appinfo.cpp\<close>), \<open>LogFiles\<close>
    (\<open>lssvc_fileutils.cpp\<close>, \<open>lssvc_filelog.cpp\<close>, \<open>lssvc_filemgr.cpp\<close>), \<open>LogLines\<close> (\<open>lssvc_time.cpp\<close>,
    \<open>lssvc_logger.cpp\<close>, \<open>lssvc_logstream.cpp\<close>).
  \<^item> \<open>Tasks\<close> (\<open>lssvc_task.cpp\<close>, \<open>lssvc_taskmgr.cpp\<close>), \<open>Startup\<close> (\<open>lssvc_eventloop_thread.cpp\<close>,
    \<open>lssvc_eventloop_threadpool.cpp\<close>, \<open>LiveService::start\<close>, \<open>app/main.cpp\<close>): tasks that put
    themselves off (the locales \<open>own_task\<close> and \<open>restarting\<close>, interpreted on the program's two
    tasks), the pool of threads and the loop of the main thread.

  \<^bold>\<open>What the theorems show.\<close> The way of media, end to end: \<open>chunk_stream_round_trip\<close>,
  \<open>published_media_stored\<close>, \<open>stream_keeps_last_thousand\<close>, \<open>viewer_catches_up\<close> and, over all of them,
  \<open>broadcast\<close>. What never breaks, in every run: \<open>parser_safety\<close>, \<open>service_consistent\<close>,
  \<open>server_tables_agree\<close>, \<open>client_tables_agree\<close>, \<open>datagrams_in_order\<close>, \<open>timers_never_lost\<close>,
  \<open>buffer_stays_well_formed\<close>. What is promised to the peer: \<open>output_queue_delivers\<close>,
  \<open>message_output_reaches_socket\<close>, \<open>writable_event_ends\<close>, \<open>handshake_interoperates\<close>,
  \<open>idle_time_from_last_activity\<close>. And where the code does not do what it means to: among others
  \<open>one_byte_command_crashes\<close>, \<open>key_frames_sent_at_zero\<close>, \<open>two_publishers_after_player_leaves\<close>,
  \<open>client_handshake_stuck\<close>, \<open>long_timers_lost\<close>, \<open>failed_lookup_crashes\<close>,
  \<open>failed_server_blocks_descriptor\<close>, \<open>echo_answer_dangles\<close>, \<open>publish_twice_blocks\<close>.

  \<^bold>\<open>Bounds and fuel.\<close> The sizes are the code's: a ring of 1000 packets, 4096 bytes for chunk headers
  (a packet whose headers need more is outside the round trip's hypotheses), ten frames
  a posting. The parser's and the wheel's recursions end by measures. The exchange between a player and
  its context has a number of turns as fuel, and \<open>calls_enough\<close> shows how many suffice: three, and
  one for every ten frames begun. Runs of a server, a client or the main thread are finite lists of
  events of any length.

  \<^bold>\<open>Not modelled.\<close> What belongs to the kernel and to libraries is a parameter or an input of the
  model: \<open>epoll_wait\<close>, reads, writes and \<open>accept\<close>, \<open>getaddrinfo\<close>, \<open>inet_pton\<close> and \<open>inet_ntop\<close>, files,
  the clock, random numbers, HMAC-SHA256 of OpenSSL and the JSON library. Which loop a connection of the
  live service belongs to is not part of the service's state; a lock that is taken twice is modelled
  where one connection does it. Left out are the races of
  unlocked members, the dumps of AMF values to the log, the singleton and non-copyable base
  classes and the other names of the log macros, which have no behaviour of their own, and the
  programs of \<open>src/test/\<close>, which print what they try out.
\<close>

end
